(* ===== verification/Prelude.thy ===== *)
theory Prelude
  imports Main "HOL-Library.Word" "HOL-Library.Monad_Syntax" "HOL-Library.Multiset"
begin

text \<open>
  Shared vocabulary of the development.

  The program is C for little-endian 32-bit-int targets (Android on ARM and x86).  Its
  fixed-width unsigned integers are words (\<open>u8\<close>, \<open>u16\<close>, \<open>u32\<close>), so that arithmetic
  wraps as in C; a signed \<open>int\<close> is read off a word with \<open>sint\<close> where the source casts,
  and is a HOL \<open>int\<close> where the source keeps it in range.  A memory block is the list of its
  bytes, and a read through a pointer is an \<open>option\<close>: \<open>None\<close> is an access outside the
  block, which C leaves undefined.  The multi-byte reads of the source (\<open>ntohs\<close>, \<open>ntohl\<close>
  and plain loads through a cast pointer) are \<open>rd_be16\<close>, \<open>rd_be32\<close>, \<open>rd_le16\<close> and
  \<open>rd_le32\<close>.
\<close>

unbundle bit_operations_syntax

type_synonym u8 = "8 word"
type_synonym u16 = "16 word"
type_synonym u32 = "32 word"
type_synonym bytes = "8 word list"

named_theorems mem_simps \<open>reads and writes of byte blocks\<close>
named_theorems inv_intros \<open>operations that keep a component's invariant\<close>

section \<open>Reads\<close>

definition rd8 :: "bytes \<Rightarrow> nat \<Rightarrow> u8 option" where
  "rd8 b i = (if i < length b then Some (b ! i) else None)"

definition be16 :: "u8 \<Rightarrow> u8 \<Rightarrow> u16" where
  "be16 hi lo = push_bit 8 (ucast hi) OR ucast lo"

definition be32 :: "u8 \<Rightarrow> u8 \<Rightarrow> u8 \<Rightarrow> u8 \<Rightarrow> u32" where
  "be32 a b c d =
     push_bit 24 (ucast a) OR push_bit 16 (ucast b) OR push_bit 8 (ucast c) OR ucast d"

definition rd_be16 :: "bytes \<Rightarrow> nat \<Rightarrow> u16 option" where
  "rd_be16 b i = do { x \<leftarrow> rd8 b i; y \<leftarrow> rd8 b (i + 1); Some (be16 x y) }"

definition rd_le16 :: "bytes \<Rightarrow> nat \<Rightarrow> u16 option" where
  "rd_le16 b i = do { x \<leftarrow> rd8 b i; y \<leftarrow> rd8 b (i + 1); Some (be16 y x) }"

definition rd_be32 :: "bytes \<Rightarrow> nat \<Rightarrow> u32 option" where
  "rd_be32 b i = do {
     w \<leftarrow> rd8 b i; x \<leftarrow> rd8 b (i + 1); y \<leftarrow> rd8 b (i + 2); z \<leftarrow> rd8 b (i + 3);
     Some (be32 w x y z) }"

definition rd_le32 :: "bytes \<Rightarrow> nat \<Rightarrow> u32 option" where
  "rd_le32 b i = do {
     w \<leftarrow> rd8 b i; x \<leftarrow> rd8 b (i + 1); y \<leftarrow> rd8 b (i + 2); z \<leftarrow> rd8 b (i + 3);
     Some (be32 z y x w) }"

text \<open>The bytes a little-endian machine stores for an unsigned integer.\<close>

definition le_bytes16 :: "u16 \<Rightarrow> bytes" where
  "le_bytes16 w = [ucast w, ucast (drop_bit 8 w)]"

definition le_bytes32 :: "u32 \<Rightarrow> bytes" where
  "le_bytes32 w = [ucast w, ucast (drop_bit 8 w), ucast (drop_bit 16 w), ucast (drop_bit 24 w)]"

text \<open>Writes: \<open>memcpy\<close> of \<open>xs\<close> to offset \<open>i\<close> of a block.\<close>

definition wr :: "bytes \<Rightarrow> nat \<Rightarrow> bytes \<Rightarrow> bytes option" where
  "wr b i xs = (if i + length xs \<le> length b then Some (take i b @ xs @ drop (i + length xs) b) else None)"

section \<open>Lemmas on reads and writes\<close>

lemma wr_in [mem_simps]:
  "i + length xs \<le> length b \<Longrightarrow> wr b i xs = Some (take i b @ xs @ drop (i + length xs) b)"
  by (simp add: wr_def)

lemma length_wr: "wr b i xs = Some b' \<Longrightarrow> length b' = length b"
  by (auto simp: wr_def split: if_splits)

lemma nth_wr: "wr b i xs = Some b' \<Longrightarrow> j < i \<or> i + length xs \<le> j \<Longrightarrow> b' ! j = b ! j"
proof -
  assume w: "wr b i xs = Some b'" and j: "j < i \<or> i + length xs \<le> j"
  then have le: "i + length xs \<le> length b" and b': "b' = take i b @ xs @ drop (i + length xs) b"
    by (auto simp: wr_def split: if_splits)
  show ?thesis
  proof (cases "j < i")
    case True
    then show ?thesis using le by (simp add: b' nth_append)
  next
    case False
    then have "i + length xs \<le> j" using j by simp
    moreover from this have "\<not> j - i < length xs" by linarith
    moreover have "length (take i b) = i" using le by simp
    ultimately show ?thesis using le by (simp add: b' nth_append del: length_take)
  qed
qed

lemma rd8_Some_iff [mem_simps]: "rd8 b i = Some x \<longleftrightarrow> i < length b \<and> b ! i = x"
  by (auto simp: rd8_def)

lemma rd8_in [mem_simps]: "i < length b \<Longrightarrow> rd8 b i = Some (b ! i)"
  by (simp add: rd8_def)

lemma rd_be16_in [mem_simps]:
  "Suc i < length b \<Longrightarrow> rd_be16 b i = Some (be16 (b ! i) (b ! Suc i))"
  by (simp add: rd_be16_def rd8_def)

lemma rd_le16_in [mem_simps]:
  "Suc i < length b \<Longrightarrow> rd_le16 b i = Some (be16 (b ! Suc i) (b ! i))"
  by (simp add: rd_le16_def rd8_def)

lemma rd_be32_in [mem_simps]:
  "i + 3 < length b \<Longrightarrow>
   rd_be32 b i = Some (be32 (b ! i) (b ! (i + 1)) (b ! (i + 2)) (b ! (i + 3)))"
  by (simp add: rd_be32_def rd8_def)

lemma rd_le32_in [mem_simps]:
  "i + 3 < length b \<Longrightarrow>
   rd_le32 b i = Some (be32 (b ! (i + 3)) (b ! (i + 2)) (b ! (i + 1)) (b ! i))"
  by (simp add: rd_le32_def rd8_def)

lemma length_le_bytes [simp]: "length (le_bytes16 w) = 2" "length (le_bytes32 v) = 4"
  by (simp_all add: le_bytes16_def le_bytes32_def)

lemma unat_u8_less: "unat (x :: u8) < 256"
proof -
  have "unat x < 2 ^ LENGTH(8)" by (rule unsigned_less)
  then show ?thesis by simp
qed

lemma unat_u16_less: "unat (x :: u16) < 65536"
proof -
  have "unat x < 2 ^ LENGTH(16)" by (rule unsigned_less)
  then show ?thesis by simp
qed

lemma unat_ucast_8 [simp]:
  "unat (ucast (x :: u8) :: u16) = unat x" "unat (ucast (x :: u8) :: u32) = unat x"
  using unat_u8_less [of x] by (simp_all add: unsigned_ucast_eq take_bit_eq_mod)

lemma unat_ucast_16 [simp]: "unat (ucast (x :: u16) :: u32) = unat x"
  using unat_u16_less [of x] by (simp add: unsigned_ucast_eq take_bit_eq_mod)

lemma unat_push_bit_8: "unat (push_bit 8 (ucast (x :: u8)) :: u16) = 256 * unat x"
  using unat_u8_less [of x] by (simp add: push_bit_eq_mult unat_word_ariths)

lemma unat_be16: "unat (be16 hi lo) = 256 * unat hi + unat lo"
proof -
  have disj: "push_bit 8 (ucast hi :: u16) AND ucast lo = 0"
    by (rule bit_eqI) (auto simp: bit_simps dest!: bit_imp_le_length)
  have "be16 hi lo = push_bit 8 (ucast hi) + ucast lo"
    unfolding be16_def using disj by (simp add: disjunctive_add_eq_or)
  then show ?thesis
    using unat_u8_less [of hi] unat_u8_less [of lo]
    by (simp add: unat_word_ariths unat_push_bit_8)
qed

lemma be16_split: "be16 (ucast (drop_bit 8 n)) (ucast n) = n"
  by (rule bit_word_eqI) (auto simp: be16_def bit_simps)

lemma ucast_be16: "(ucast (be16 hi lo) :: u32) = of_nat (unat lo + 256 * unat hi)"
proof -
  have "(ucast (be16 hi lo) :: u32) = of_nat (unat (be16 hi lo))" by simp
  then show ?thesis by (simp only: unat_be16 add.commute)
qed

section \<open>Signed readings of 32-bit words\<close>

lemma uint_u32_less: "uint (w :: u32) < 4294967296"
proof -
  have "uint w < 2 ^ LENGTH(32)" by (rule unsigned_less)
  then show ?thesis by simp
qed

lemma sint_u32: "sint (w :: u32) = (if uint w < 2147483648 then uint w else uint w - 4294967296)"
proof -
  have "sint w = (uint w + 2147483648) mod 4294967296 - 2147483648"
    by (simp add: sint_uint signed_take_bit_eq_take_bit_shift take_bit_eq_mod)
  moreover have "(uint w + 2147483648) mod 4294967296 =
      (if uint w < 2147483648 then uint w + 2147483648 else uint w - 2147483648)"
  proof (cases "uint w < 2147483648")
    case False
    have "(uint w + 2147483648) mod 4294967296 = (uint w - 2147483648) mod 4294967296"
      using minus_mod_self2 [of "uint w + 2147483648" 4294967296] by simp
    then show ?thesis using False uint_u32_less [of w] by simp
  qed simp
  ultimately show ?thesis by simp
qed

lemma sint_u32_nonneg: "unat (w :: u32) < 2147483648 \<Longrightarrow> sint w = int (unat w)"
proof -
  assume "unat w < 2147483648"
  then have "int (unat w) < 2147483648" by linarith
  then show ?thesis by (simp add: sint_u32)
qed

lemma sint_u32_neg: "2147483648 \<le> unat (w :: u32) \<Longrightarrow> sint w < 0"
proof -
  assume "2147483648 \<le> unat w"
  then have "2147483648 \<le> int (unat w)" by linarith
  then show ?thesis using uint_u32_less [of w] by (simp add: sint_u32)
qed

end
