(* ===== verification/Hash.thy ===== *)
theory Hash
  imports Prelude
begin

text \<open>
  The randomised hash of a TCP four-tuple (\<open>src/libnids/hash.c\<close>).  \<open>getrnd\<close> fills the
  arrays \<open>xor\<close> and \<open>perm\<close> with random bytes, which are its parameter; \<open>init_hash\<close> then
  turns \<open>perm\<close> into a permutation of \<open>0..11\<close>.  \<open>mkhash\<close> then folds the twelve
  bytes of the tuple.  The theorems: \<open>init_hash\<close> always produces a permutation, and
  \<open>mkhash\<close>, whose accumulator is a 32-bit unsigned integer, never wraps, so it is the
  value of a base-256 numeral modulo \<open>0xff100f\<close>.
\<close>

record hash_state =
  xor_key :: bytes
  perm :: bytes

text \<open>
  What the operating system hands to \<open>getrnd\<close>: the descriptor \<open>open\<close> returns, the two
  twelve-byte blocks read from it, and the values of \<open>rand\<close> for the fall-back.
\<close>

record rnd_source =
  urandom_fd :: int
  urandom_xor :: bytes
  urandom_perm :: bytes
  rand_vals :: "u32 list"

definition getrnd :: "rnd_source \<Rightarrow> hash_state" where
  "getrnd r =
     (if urandom_fd r > 0 then \<lparr>xor_key = urandom_xor r, perm = urandom_perm r\<rparr>
      else \<lparr>xor_key = concat (map le_bytes32 (take 3 (rand_vals r))),
            perm = concat (map le_bytes32 (take 3 (drop 3 (rand_vals r))))\<rparr>)"

text \<open>\<open>read\<close> on \<open>/dev/urandom\<close> fills the whole block and \<open>rand\<close> is called six times.\<close>

definition rnd_ok :: "rnd_source \<Rightarrow> bool" where
  "rnd_ok r \<longleftrightarrow> length (urandom_xor r) = 12 \<and> length (urandom_perm r) = 12 \<and> length (rand_vals r) = 6"

text \<open>\<open>for (j = 0; j < 11 - n; j++) p[n + j] = p[n + j + 1];\<close>\<close>

function shift_down :: "nat \<Rightarrow> nat \<Rightarrow> nat list \<Rightarrow> nat list" where
  "shift_down n j p =
     (if j < 11 - n then shift_down n (Suc j) (p[n + j := p ! (n + j + 1)]) else p)"
  by pat_completeness auto
termination
  by (relation "measure (\<lambda>(n, j, p). 11 - n - j)") auto

declare shift_down.simps [simp del]

function init_perm :: "nat \<Rightarrow> nat list \<Rightarrow> bytes \<Rightarrow> bytes" where
  "init_perm i p prm =
     (if i < 12 then
        (let n = unat (prm ! i) mod (12 - i)
         in init_perm (Suc i) (shift_down n 0 p) (prm[i := of_nat (p ! n)]))
      else prm)"
  by pat_completeness auto
termination
  by (relation "measure (\<lambda>(i, p, prm). 12 - i)") auto

declare init_perm.simps [simp del]

definition init_hash :: "rnd_source \<Rightarrow> hash_state" where
  "init_hash r =
     (let h = getrnd r in h\<lparr>perm := init_perm 0 [0..<12] (perm h)\<rparr>)"

text \<open>The array \<open>data\<close> of \<open>mkhash\<close>: the tuple as it lies in memory.\<close>

definition mkhash_data :: "u32 \<Rightarrow> u16 \<Rightarrow> u32 \<Rightarrow> u16 \<Rightarrow> bytes" where
  "mkhash_data src sport dest dport =
     le_bytes32 src @ le_bytes32 dest @ le_bytes16 sport @ le_bytes16 dport"

fun mkhash_loop :: "hash_state \<Rightarrow> bytes \<Rightarrow> nat list \<Rightarrow> u32 \<Rightarrow> u32" where
  "mkhash_loop h d [] res = res"
| "mkhash_loop h d (i # is) res =
     mkhash_loop h d is
       ((push_bit 8 res + ucast (d ! unat (perm h ! i) XOR xor_key h ! i)) mod 0xff100f)"

definition mkhash :: "hash_state \<Rightarrow> u32 \<Rightarrow> u16 \<Rightarrow> u32 \<Rightarrow> u16 \<Rightarrow> u32" where
  "mkhash h src sport dest dport =
     mkhash_loop h (mkhash_data src sport dest dport) [0..<12] 0"

section \<open>The permutation\<close>

lemma length_shift_down [simp]: "length (shift_down n j p) = length p"
  by (induction n j p rule: shift_down.induct) (subst shift_down.simps, simp)

lemma shift_down_eq:
  assumes "length p = 12" and "n + j \<le> 11"
  shows "shift_down n j p = take (n + j) p @ drop (Suc (n + j)) p @ [last p]"
  using assms
proof (induction n j p rule: shift_down.induct)
  case (1 n j p)
  show ?case
  proof (cases "j < 11 - n")
    case True
    let ?p = "p[n + j := p ! (n + j + 1)]"
    have len: "n + j + 1 < length p" using True "1.prems" by simp
    have l: "last ?p = last p"
      using len by (subst last_list_update) auto
    have "shift_down n j p = shift_down n (Suc j) ?p"
      using True by (simp add: shift_down.simps [of n j p])
    also have "\<dots> = take (Suc (n + j)) ?p @ drop (Suc (Suc (n + j))) ?p @ [last ?p]"
      using "1.IH" [OF True] "1.prems" True by simp
    also have "take (Suc (n + j)) ?p = take (n + j) p @ [p ! (n + j + 1)]"
      using len by (simp add: take_Suc_conv_app_nth)
    also have "drop (Suc (Suc (n + j))) ?p = drop (Suc (Suc (n + j))) p"
      by simp
    finally show ?thesis
      using len l by (simp add: Cons_nth_drop_Suc)
  next
    case False
    then have nj: "n + j = 11" using "1.prems" by simp
    then have d: "drop (Suc (n + j)) p = []" using "1.prems" by simp
    have "p \<noteq> []" using "1.prems" by auto
    then have "p = take 11 p @ [last p]"
      using "1.prems" append_butlast_last_id [of p] butlast_conv_take [of p] by simp
    then show ?thesis using False nj d by (simp add: shift_down.simps [of n j p])
  qed
qed

lemma shift_down_0:
  assumes "length p = 12" and "n \<le> 11"
  shows "shift_down n 0 p = take n p @ drop (Suc n) p @ [last p]"
  using shift_down_eq [OF assms(1), of n 0] assms(2) by simp

text \<open>
  The loop invariant of \<open>init_hash\<close>: the first \<open>i\<close> entries of \<open>perm\<close> and the first
  \<open>12 - i\<close> entries of \<open>p\<close> together are the numbers \<open>0..11\<close>.
\<close>

definition perm_inv :: "nat \<Rightarrow> nat list \<Rightarrow> bytes \<Rightarrow> bool" where
  "perm_inv i p prm \<longleftrightarrow> length p = 12 \<and> length prm = 12 \<and>
     mset (map unat (take i prm)) + mset (take (12 - i) p) = mset [0..<12]"

lemma mset_take_shift:
  assumes "length p = 12" and "n < m" and "m \<le> 12"
  shows "mset (take m p) = add_mset (p ! n) (mset (take (m - 1) (shift_down n 0 p)))"
proof -
  have "n \<le> 11" using assms by simp
  then have "take (m - 1) (shift_down n 0 p) = take n p @ take (m - 1 - n) (drop (Suc n) p @ [last p])"
    using assms by (simp add: shift_down_0)
  also have "take (m - 1 - n) (drop (Suc n) p @ [last p]) = take (m - 1 - n) (drop (Suc n) p)"
    using assms by simp
  finally have r: "take (m - 1) (shift_down n 0 p) = take n p @ take (m - 1 - n) (drop (Suc n) p)" .
  have "take m p = take n p @ take (m - n) (drop n p)"
    using assms by (metis le_add_diff_inverse less_imp_le_nat take_add)
  also have "take (m - n) (drop n p) = p ! n # take (m - 1 - n) (drop (Suc n) p)"
    using assms by (simp add: take_Suc_conv_app_nth take_Cons' Cons_nth_drop_Suc [symmetric])
  finally show ?thesis using r by simp
qed

lemma perm_inv_step:
  assumes inv: "perm_inv i p prm" and i: "i < 12"
  defines "n \<equiv> unat (prm ! i) mod (12 - i)"
  shows "perm_inv (Suc i) (shift_down n 0 p) (prm[i := of_nat (p ! n)])"
proof -
  have len: "length p = 12" "length prm = 12"
    and ms: "mset (map unat (take i prm)) + mset (take (12 - i) p) = mset [0..<12]"
    using inv by (auto simp: perm_inv_def)
  have n: "n < 12 - i" using i by (simp add: n_def)
  have pm: "mset (take (12 - i) p) = add_mset (p ! n) (mset (take (12 - Suc i) (shift_down n 0 p)))"
    using mset_take_shift [OF len(1) n] by simp
  have "p ! n \<in># mset [0..<12]"
    by (subst ms [symmetric], subst pm) simp
  then have "p ! n < 12" by simp
  then have u: "unat (of_nat (p ! n) :: u8) = p ! n"
    by (simp add: unsigned_of_nat take_bit_eq_mod)
  have "take (Suc i) (prm[i := of_nat (p ! n)]) = take i prm @ [of_nat (p ! n)]"
    using i len by (simp add: take_Suc_conv_app_nth)
  then show ?thesis
    using len ms pm u by (simp add: perm_inv_def)
qed

lemma init_perm_inv: "perm_inv i p prm \<Longrightarrow> i \<le> 12 \<Longrightarrow> \<exists>q. perm_inv 12 q (init_perm i p prm)"
proof (induction i p prm rule: init_perm.induct)
  case (1 i p prm)
  show ?case
  proof (cases "i < 12")
    case True
    then show ?thesis
      using "1.IH" [OF True refl] perm_inv_step [OF "1.prems"(1) True]
      by (simp add: init_perm.simps [of i p prm] Let_def)
  next
    case False
    then have "i = 12" using "1.prems" by simp
    moreover have "init_perm i p prm = prm" using False by (simp add: init_perm.simps [of i p prm])
    ultimately show ?thesis using "1.prems"(1) by auto
  qed
qed

lemma getrnd_lengths:
  assumes "rnd_ok r"
  shows "length (xor_key (getrnd r)) = 12" "length (perm (getrnd r)) = 12"
proof -
  have l: "length (concat (map le_bytes32 ws)) = 4 * length ws" for ws
    by (induction ws) auto
  show "length (xor_key (getrnd r)) = 12" "length (perm (getrnd r)) = 12"
    using assms by (auto simp: rnd_ok_def getrnd_def l)
qed

lemma init_hash_mset:
  assumes "rnd_ok r"
  shows "mset (map unat (perm (init_hash r))) = mset [0..<12]"
proof -
  have "perm_inv 0 [0..<12] (perm (getrnd r))"
    using getrnd_lengths [OF assms] by (simp add: perm_inv_def)
  then obtain q where "perm_inv 12 q (init_perm 0 [0..<12] (perm (getrnd r)))"
    using init_perm_inv [of 0 "[0..<12]" "perm (getrnd r)"] by auto
  then show ?thesis by (auto simp: perm_inv_def init_hash_def Let_def)
qed

text \<open>A hash state as \<open>init_hash\<close> leaves it: both arrays full, \<open>perm\<close> a permutation.\<close>

definition hash_wf :: "hash_state \<Rightarrow> bool" where
  "hash_wf h \<longleftrightarrow> length (xor_key h) = 12 \<and> mset (map unat (perm h)) = mset [0..<12]"

lemma hash_wf_init [inv_intros]: "rnd_ok r \<Longrightarrow> hash_wf (init_hash r)"
  using init_hash_mset [of r] getrnd_lengths [of r] by (simp add: hash_wf_def init_hash_def Let_def)

lemma hash_wf_perm_less: "hash_wf h \<Longrightarrow> i < 12 \<Longrightarrow> unat (perm h ! i) < 12"
proof -
  assume h: "hash_wf h" and i: "i < 12"
  then have "length (perm h) = 12"
    by (metis hash_wf_def length_map length_upt minus_nat.diff_0 size_mset)
  then have "unat (perm h ! i) \<in> set (map unat (perm h))" using i by simp
  also have "set (map unat (perm h)) = {0..<12}"
    using h by (metis hash_wf_def set_mset_mset set_upt)
  finally show ?thesis by simp
qed

section \<open>The fold\<close>

text \<open>The reference: the keyed, permuted bytes as the digits of a base-256 numeral.\<close>

definition keyed_bytes :: "hash_state \<Rightarrow> bytes \<Rightarrow> nat list" where
  "keyed_bytes h d = map (\<lambda>i. unat (d ! unat (perm h ! i) XOR xor_key h ! i)) [0..<12]"

definition base256 :: "nat list \<Rightarrow> nat" where
  "base256 ds = foldl (\<lambda>acc x. 256 * acc + x) 0 ds"

lemma mkhash_step:
  fixes res :: u32 and x :: u8
  assumes "unat res < 0xff100f"
  shows "unat ((push_bit 8 res + ucast x) mod 0xff100f) = (256 * unat res + unat x) mod 0xff100f"
proof -
  have x: "unat x < 256" by (rule unat_u8_less)
  have p: "unat (push_bit 8 res) = 256 * unat res"
    using assms by (simp add: push_bit_eq_mult unat_word_ariths)
  have "unat (push_bit 8 res + ucast x :: u32) = 256 * unat res + unat x"
    using assms x by (simp add: unat_word_ariths p)
  then show ?thesis by (simp add: unat_mod_distrib)
qed

lemma mkhash_loop_eq:
  "unat res < 0xff100f \<Longrightarrow>
   unat (mkhash_loop h d is res) =
     foldl (\<lambda>acc i. (256 * acc + unat (d ! unat (perm h ! i) XOR xor_key h ! i)) mod 0xff100f) (unat res) is"
proof (induction "is" arbitrary: res)
  case Nil
  then show ?case by simp
next
  case (Cons i "is")
  let ?r = "(push_bit 8 res + ucast (d ! unat (perm h ! i) XOR xor_key h ! i)) mod (0xff100f :: u32)"
  have r: "unat ?r = (256 * unat res + unat (d ! unat (perm h ! i) XOR xor_key h ! i)) mod 0xff100f"
    by (rule mkhash_step [OF Cons.prems])
  then have "unat ?r < 0xff100f" by simp
  from Cons.IH [OF this] show ?case by (simp only: mkhash_loop.simps foldl_Cons r)
qed

lemma foldl_mod_horner:
  "(m :: nat) > 0 \<Longrightarrow> foldl (\<lambda>acc x. (256 * acc + f x) mod m) (a mod m) xs =
     foldl (\<lambda>acc x. 256 * acc + f x) a xs mod m"
proof (induction xs arbitrary: a)
  case Nil
  then show ?case by simp
next
  case (Cons x xs)
  have "(256 * (a mod m) + f x) mod m = (256 * a + f x) mod m"
    by (metis mod_add_left_eq mod_mult_right_eq)
  then show ?case using Cons.IH [of "256 * a + f x"] Cons.prems by simp
qed

lemma mkhash_numeral:
  "unat (mkhash h src sport dest dport) =
     base256 (keyed_bytes h (mkhash_data src sport dest dport)) mod 0xff100f"
proof -
  let ?d = "mkhash_data src sport dest dport"
  let ?f = "\<lambda>i. unat (?d ! unat (perm h ! i) XOR xor_key h ! i)"
  have "unat (mkhash h src sport dest dport) =
      foldl (\<lambda>acc i. (256 * acc + ?f i) mod 0xff100f) (0 mod 0xff100f) [0..<12]"
    unfolding mkhash_def by (subst mkhash_loop_eq) simp_all
  also have "\<dots> = foldl (\<lambda>acc i. 256 * acc + ?f i) 0 [0..<12] mod 0xff100f"
    by (rule foldl_mod_horner) simp
  also have "foldl (\<lambda>acc i. 256 * acc + ?f i) 0 [0..<12] = base256 (keyed_bytes h ?d)"
    by (simp only: base256_def keyed_bytes_def foldl_map)
  finally show ?thesis .
qed

lemma mkhash_less: "unat (mkhash h src sport dest dport) < 0xff100f"
  by (simp add: mkhash_numeral)

text \<open>
  C22.  Whatever random bytes \<open>getrnd\<close> obtains, \<open>init_hash\<close> turns \<open>perm\<close> into a permutation
  of \<open>0..11\<close>, so \<open>mkhash\<close> reads every byte of the four-tuple exactly once.
\<close>

theorem init_hash_permutation:
  assumes "rnd_ok r"
  shows "mset (map unat (perm (init_hash r))) = mset [0..<12]"
  using assms by (rule init_hash_mset)

theorem init_hash_permutation_witness:
  "mset (map unat (perm (init_hash \<lparr>urandom_fd = -1, urandom_xor = replicate 12 7,
     urandom_perm = replicate 12 200, rand_vals = [1, 2, 3, 4, 5, 6]\<rparr>))) = mset [0..<12]"
  by (rule init_hash_permutation) (simp add: rnd_ok_def)

text \<open>
  C23.  \<open>mkhash\<close> never wraps its 32-bit accumulator: it is the base-256 numeral of the keyed,
  permuted bytes modulo \<open>0xff100f\<close>, so it is below that modulus.
\<close>

theorem mkhash_is_numeral_mod:
  "unat (mkhash h src sport dest dport) =
     base256 (keyed_bytes h (mkhash_data src sport dest dport)) mod 0xff100f"
  by (rule mkhash_numeral)

end
