(* ===== verification/Bpf_Filter.thy ===== *)
theory Bpf_Filter
  imports Prelude
begin

text \<open>
  The packet filter machine (\<open>bpf/net/bpf_filter.c\<close>, with the encodings of
  \<open>pcap-bpf.h\<close>): the interpreter \<open>bpf_filter\<close> and the checker \<open>bpf_validate\<close>, as
  compiled for user space (neither \<open>KERNEL\<close> nor \<open>_KERNEL\<close> defined) on a target with
  32-bit \<open>int\<close> and \<open>size_t\<close>.

  One turn of the interpreter's \<open>while (1)\<close> is \<open>bpf_step\<close>; it returns the next machine
  state, the value of a \<open>return\<close>, or the reason C gives the turn no meaning (a read outside
  the packet, outside \<open>mem\<close> or outside the program, a shift by 32 or more, a division by
  zero, \<open>abort\<close>).  \<open>bpf_loop\<close> iterates it with fuel, since nothing in the interpreter stops
  a program that jumps backwards.  The contents of the uninitialised array \<open>mem\<close> are a
  parameter.
\<close>

section \<open>Instructions\<close>

record bpf_insn =
  insn_code :: u16
  insn_jt :: u8
  insn_jf :: u8
  insn_k :: u32  \<comment> \<open>\<open>bpf_int32\<close>, two's complement\<close>

definition BPF_CLASS :: "u16 \<Rightarrow> u16" where "BPF_CLASS c = c AND 0x07"
definition BPF_OP :: "u16 \<Rightarrow> u16" where "BPF_OP c = c AND 0xf0"

abbreviation (input) "BPF_LD \<equiv> (0x00 :: u16)"
abbreviation (input) "BPF_LDX \<equiv> (0x01 :: u16)"
abbreviation (input) "BPF_ST \<equiv> (0x02 :: u16)"
abbreviation (input) "BPF_STX \<equiv> (0x03 :: u16)"
abbreviation (input) "BPF_ALU \<equiv> (0x04 :: u16)"
abbreviation (input) "BPF_JMP \<equiv> (0x05 :: u16)"
abbreviation (input) "BPF_RET \<equiv> (0x06 :: u16)"
abbreviation (input) "BPF_MISC \<equiv> (0x07 :: u16)"
abbreviation (input) "BPF_W \<equiv> (0x00 :: u16)"
abbreviation (input) "BPF_H \<equiv> (0x08 :: u16)"
abbreviation (input) "BPF_B \<equiv> (0x10 :: u16)"
abbreviation (input) "BPF_IMM \<equiv> (0x00 :: u16)"
abbreviation (input) "BPF_ABS \<equiv> (0x20 :: u16)"
abbreviation (input) "BPF_IND \<equiv> (0x40 :: u16)"
abbreviation (input) "BPF_MEM \<equiv> (0x60 :: u16)"
abbreviation (input) "BPF_LEN \<equiv> (0x80 :: u16)"
abbreviation (input) "BPF_MSH \<equiv> (0xa0 :: u16)"
abbreviation (input) "BPF_ADD \<equiv> (0x00 :: u16)"
abbreviation (input) "BPF_SUB \<equiv> (0x10 :: u16)"
abbreviation (input) "BPF_MUL \<equiv> (0x20 :: u16)"
abbreviation (input) "BPF_DIV \<equiv> (0x30 :: u16)"
abbreviation (input) "BPF_OR \<equiv> (0x40 :: u16)"
abbreviation (input) "BPF_AND \<equiv> (0x50 :: u16)"
abbreviation (input) "BPF_LSH \<equiv> (0x60 :: u16)"
abbreviation (input) "BPF_RSH \<equiv> (0x70 :: u16)"
abbreviation (input) "BPF_NEG \<equiv> (0x80 :: u16)"
abbreviation (input) "BPF_JA \<equiv> (0x00 :: u16)"
abbreviation (input) "BPF_JEQ \<equiv> (0x10 :: u16)"
abbreviation (input) "BPF_JGT \<equiv> (0x20 :: u16)"
abbreviation (input) "BPF_JGE \<equiv> (0x30 :: u16)"
abbreviation (input) "BPF_JSET \<equiv> (0x40 :: u16)"
abbreviation (input) "BPF_K \<equiv> (0x00 :: u16)"
abbreviation (input) "BPF_X \<equiv> (0x08 :: u16)"
abbreviation (input) "BPF_A \<equiv> (0x10 :: u16)"
abbreviation (input) "BPF_TAX \<equiv> (0x00 :: u16)"
abbreviation (input) "BPF_TXA \<equiv> (0x80 :: u16)"

abbreviation (input) BPF_MEMWORDS :: nat where "BPF_MEMWORDS \<equiv> 16"

section \<open>The machine\<close>

datatype bpf_fault = Bad_pc | Bad_packet | Bad_mem | Bad_shift | Div_by_zero | Aborted

record bpf_state =
  bpf_pc :: int
  bpf_A :: u32
  bpf_X :: u32
  bpf_mem :: "u32 list"

datatype bpf_turn = Next bpf_state | Return u32 | Undefined bpf_fault

text \<open>\<open>continue\<close> after an instruction that does not jump.\<close>

definition cont :: "bpf_state \<Rightarrow> bpf_turn" where
  "cont s = Next (s\<lparr>bpf_pc := bpf_pc s + 1\<rparr>)"

text \<open>\<open>p[i]\<close> for an \<open>int\<close> index.\<close>

definition pkt_byte :: "bytes \<Rightarrow> int \<Rightarrow> u8 option" where
  "pkt_byte p i = (if 0 \<le> i then rd8 p (nat i) else None)"

definition EXTRACT_SHORT :: "bytes \<Rightarrow> int \<Rightarrow> u32 option" where
  "EXTRACT_SHORT p i = do { a \<leftarrow> pkt_byte p i; b \<leftarrow> pkt_byte p (i + 1); Some (ucast (be16 a b)) }"

definition EXTRACT_LONG :: "bytes \<Rightarrow> int \<Rightarrow> u32 option" where
  "EXTRACT_LONG p i = do { a \<leftarrow> pkt_byte p i; b \<leftarrow> pkt_byte p (i + 1);
     c \<leftarrow> pkt_byte p (i + 2); d \<leftarrow> pkt_byte p (i + 3); Some (be32 a b c d) }"

definition load_acc :: "bpf_state \<Rightarrow> u32 option \<Rightarrow> bpf_turn" where
  "load_acc s v = (case v of None \<Rightarrow> Undefined Bad_packet | Some x \<Rightarrow> cont (s\<lparr>bpf_A := x\<rparr>))"

text \<open>The three sizes of a packet load at index \<open>i\<close>, with the guards of the source.\<close>

definition load_word :: "bytes \<Rightarrow> u32 \<Rightarrow> u32 \<Rightarrow> bpf_state \<Rightarrow> bpf_turn" where
  "load_word p buflen i s =
     (if i + 4 > buflen then Return 0 else load_acc s (EXTRACT_LONG p (sint i)))"

definition load_half :: "bytes \<Rightarrow> u32 \<Rightarrow> u32 \<Rightarrow> bpf_state \<Rightarrow> bpf_turn" where
  "load_half p buflen i s =
     (if i + 2 > buflen then Return 0 else load_acc s (EXTRACT_SHORT p (sint i)))"

definition load_byte :: "bytes \<Rightarrow> u32 \<Rightarrow> u32 \<Rightarrow> bpf_state \<Rightarrow> bpf_turn" where
  "load_byte p buflen i s =
     (if i \<ge> buflen then Return 0 else load_acc s (map_option ucast (pkt_byte p (sint i))))"

text \<open>The \<open>BPF_RET\<close>, \<open>BPF_LD\<close> and \<open>BPF_LDX\<close> cases, up to the scratch memory.\<close>

definition exec_load :: "bytes \<Rightarrow> u32 \<Rightarrow> u32 \<Rightarrow> bpf_insn \<Rightarrow> bpf_state \<Rightarrow> bpf_turn option" where
  "exec_load p wirelen buflen i s =
     (if insn_code i = (BPF_RET OR BPF_K) then Some (Return (insn_k i))
      else if insn_code i = (BPF_RET OR BPF_A) then Some (Return (bpf_A s))
      else if insn_code i = (BPF_LD OR BPF_W OR BPF_ABS) then Some (load_word p buflen (insn_k i) s)
      else if insn_code i = (BPF_LD OR BPF_H OR BPF_ABS) then Some (load_half p buflen (insn_k i) s)
      else if insn_code i = (BPF_LD OR BPF_B OR BPF_ABS) then Some (load_byte p buflen (insn_k i) s)
      else if insn_code i = (BPF_LD OR BPF_W OR BPF_LEN) then Some (cont (s\<lparr>bpf_A := wirelen\<rparr>))
      else if insn_code i = (BPF_LDX OR BPF_W OR BPF_LEN) then Some (cont (s\<lparr>bpf_X := wirelen\<rparr>))
      else if insn_code i = (BPF_LD OR BPF_W OR BPF_IND) then Some (load_word p buflen (bpf_X s + insn_k i) s)
      else if insn_code i = (BPF_LD OR BPF_H OR BPF_IND) then Some (load_half p buflen (bpf_X s + insn_k i) s)
      else if insn_code i = (BPF_LD OR BPF_B OR BPF_IND) then Some (load_byte p buflen (bpf_X s + insn_k i) s)
      else if insn_code i = (BPF_LDX OR BPF_MSH OR BPF_B) then
        Some (if insn_k i \<ge> buflen then Return 0
              else (case pkt_byte p (sint (insn_k i)) of None \<Rightarrow> Undefined Bad_packet
                    | Some b \<Rightarrow> cont (s\<lparr>bpf_X := push_bit 2 (ucast b AND 0xf)\<rparr>)))
      else if insn_code i = (BPF_LD OR BPF_IMM) then Some (cont (s\<lparr>bpf_A := insn_k i\<rparr>))
      else if insn_code i = (BPF_LDX OR BPF_IMM) then Some (cont (s\<lparr>bpf_X := insn_k i\<rparr>))
      else None)"

text \<open>
  The scratch memory cases.  \<open>mem[pc->k]\<close> with an index outside the array is undefined.
\<close>

definition exec_mem :: "bpf_insn \<Rightarrow> bpf_state \<Rightarrow> bpf_turn option" where
  "exec_mem i s =
     (let inside = (0 \<le> sint (insn_k i) \<and> sint (insn_k i) < int BPF_MEMWORDS); n = unat (insn_k i) in
      if insn_code i = (BPF_LD OR BPF_MEM) then
        Some (if inside then cont (s\<lparr>bpf_A := bpf_mem s ! n\<rparr>) else Undefined Bad_mem)
      else if insn_code i = (BPF_LDX OR BPF_MEM) then
        Some (if inside then cont (s\<lparr>bpf_X := bpf_mem s ! n\<rparr>) else Undefined Bad_mem)
      else if insn_code i = BPF_ST then
        Some (if inside then cont (s\<lparr>bpf_mem := (bpf_mem s)[n := bpf_A s]\<rparr>) else Undefined Bad_mem)
      else if insn_code i = BPF_STX then
        Some (if inside then cont (s\<lparr>bpf_mem := (bpf_mem s)[n := bpf_X s]\<rparr>) else Undefined Bad_mem)
      else None)"

text \<open>\<open>pc += (test) ? pc->jt : pc->jf; continue;\<close>\<close>

definition branch :: "bpf_insn \<Rightarrow> bpf_state \<Rightarrow> bool \<Rightarrow> bpf_turn" where
  "branch i s b = Next (s\<lparr>bpf_pc := bpf_pc s + (if b then int (unat (insn_jt i)) else int (unat (insn_jf i))) + 1\<rparr>)"

definition exec_jump :: "bpf_insn \<Rightarrow> bpf_state \<Rightarrow> bpf_turn option" where
  "exec_jump i s =
     (if insn_code i = (BPF_JMP OR BPF_JA) then Some (Next (s\<lparr>bpf_pc := bpf_pc s + sint (insn_k i) + 1\<rparr>))
      else if insn_code i = (BPF_JMP OR BPF_JGT OR BPF_K) then Some (branch i s (bpf_A s > insn_k i))
      else if insn_code i = (BPF_JMP OR BPF_JGE OR BPF_K) then Some (branch i s (bpf_A s \<ge> insn_k i))
      else if insn_code i = (BPF_JMP OR BPF_JEQ OR BPF_K) then Some (branch i s (bpf_A s = insn_k i))
      else if insn_code i = (BPF_JMP OR BPF_JSET OR BPF_K) then Some (branch i s (bpf_A s AND insn_k i \<noteq> 0))
      else if insn_code i = (BPF_JMP OR BPF_JGT OR BPF_X) then Some (branch i s (bpf_A s > bpf_X s))
      else if insn_code i = (BPF_JMP OR BPF_JGE OR BPF_X) then Some (branch i s (bpf_A s \<ge> bpf_X s))
      else if insn_code i = (BPF_JMP OR BPF_JEQ OR BPF_X) then Some (branch i s (bpf_A s = bpf_X s))
      else if insn_code i = (BPF_JMP OR BPF_JSET OR BPF_X) then Some (branch i s (bpf_A s AND bpf_X s \<noteq> 0))
      else None)"

definition set_acc :: "bpf_state \<Rightarrow> u32 \<Rightarrow> bpf_turn" where
  "set_acc s v = cont (s\<lparr>bpf_A := v\<rparr>)"

text \<open>A shift of a 32-bit value by 32 or more (a negative count is one of these) is undefined.\<close>

definition shift_acc :: "bpf_state \<Rightarrow> u32 \<Rightarrow> u32 \<Rightarrow> bpf_turn" where
  "shift_acc s n v = (if n < 32 then set_acc s v else Undefined Bad_shift)"

definition exec_alu :: "bpf_insn \<Rightarrow> bpf_state \<Rightarrow> bpf_turn option" where
  "exec_alu i s =
     (let a = bpf_A s; x = bpf_X s; c = insn_k i in
      if insn_code i = (BPF_ALU OR BPF_ADD OR BPF_X) then Some (set_acc s (a + x))
      else if insn_code i = (BPF_ALU OR BPF_SUB OR BPF_X) then Some (set_acc s (a - x))
      else if insn_code i = (BPF_ALU OR BPF_MUL OR BPF_X) then Some (set_acc s (a * x))
      else if insn_code i = (BPF_ALU OR BPF_DIV OR BPF_X) then
        Some (if x = 0 then Return 0 else set_acc s (a div x))
      else if insn_code i = (BPF_ALU OR BPF_AND OR BPF_X) then Some (set_acc s (a AND x))
      else if insn_code i = (BPF_ALU OR BPF_OR OR BPF_X) then Some (set_acc s (a OR x))
      else if insn_code i = (BPF_ALU OR BPF_LSH OR BPF_X) then Some (shift_acc s x (push_bit (unat x) a))
      else if insn_code i = (BPF_ALU OR BPF_RSH OR BPF_X) then Some (shift_acc s x (drop_bit (unat x) a))
      else if insn_code i = (BPF_ALU OR BPF_ADD OR BPF_K) then Some (set_acc s (a + c))
      else if insn_code i = (BPF_ALU OR BPF_SUB OR BPF_K) then Some (set_acc s (a - c))
      else if insn_code i = (BPF_ALU OR BPF_MUL OR BPF_K) then Some (set_acc s (a * c))
      else if insn_code i = (BPF_ALU OR BPF_DIV OR BPF_K) then
        Some (if c = 0 then Undefined Div_by_zero else set_acc s (a div c))
      else if insn_code i = (BPF_ALU OR BPF_AND OR BPF_K) then Some (set_acc s (a AND c))
      else if insn_code i = (BPF_ALU OR BPF_OR OR BPF_K) then Some (set_acc s (a OR c))
      else if insn_code i = (BPF_ALU OR BPF_LSH OR BPF_K) then Some (shift_acc s c (push_bit (unat c) a))
      else if insn_code i = (BPF_ALU OR BPF_RSH OR BPF_K) then Some (shift_acc s c (drop_bit (unat c) a))
      else if insn_code i = (BPF_ALU OR BPF_NEG) then Some (set_acc s (- a))
      else None)"

definition exec_misc :: "bpf_insn \<Rightarrow> bpf_state \<Rightarrow> bpf_turn option" where
  "exec_misc i s =
     (if insn_code i = (BPF_MISC OR BPF_TAX) then Some (cont (s\<lparr>bpf_X := bpf_A s\<rparr>))
      else if insn_code i = (BPF_MISC OR BPF_TXA) then Some (cont (s\<lparr>bpf_A := bpf_X s\<rparr>))
      else None)"

text \<open>The \<open>switch\<close>: the cases are disjoint, any other code reaches \<open>default\<close>.\<close>

definition exec_insn :: "bytes \<Rightarrow> u32 \<Rightarrow> u32 \<Rightarrow> bpf_insn \<Rightarrow> bpf_state \<Rightarrow> bpf_turn" where
  "exec_insn p wirelen buflen i s =
     (case exec_load p wirelen buflen i s of Some t \<Rightarrow> t | None \<Rightarrow>
      (case exec_mem i s of Some t \<Rightarrow> t | None \<Rightarrow>
       (case exec_jump i s of Some t \<Rightarrow> t | None \<Rightarrow>
        (case exec_alu i s of Some t \<Rightarrow> t | None \<Rightarrow>
         (case exec_misc i s of Some t \<Rightarrow> t | None \<Rightarrow> Undefined Aborted)))))"

definition bpf_step :: "bpf_insn list \<Rightarrow> bytes \<Rightarrow> u32 \<Rightarrow> u32 \<Rightarrow> bpf_state \<Rightarrow> bpf_turn" where
  "bpf_step f p wirelen buflen s =
     (if 0 \<le> bpf_pc s \<and> bpf_pc s < int (length f) then exec_insn p wirelen buflen (f ! nat (bpf_pc s)) s
      else Undefined Bad_pc)"

datatype bpf_result = Ret u32 | Undef bpf_fault

fun bpf_loop :: "nat \<Rightarrow> (bpf_state \<Rightarrow> bpf_turn) \<Rightarrow> bpf_state \<Rightarrow> bpf_result option" where
  "bpf_loop 0 turn s = None"
| "bpf_loop (Suc n) turn s =
     (case turn s of
        Next s' \<Rightarrow> bpf_loop n turn s'
      | Return v \<Rightarrow> Some (Ret v)
      | Undefined e \<Rightarrow> Some (Undef e))"

text \<open>
  The whole function: no program accepts everything; otherwise \<open>A = X = 0\<close> and the loop runs
  from the first instruction with the indeterminate array \<open>mem0\<close>.
\<close>

definition bpf_filter ::
  "nat \<Rightarrow> u32 list \<Rightarrow> bpf_insn list option \<Rightarrow> bytes \<Rightarrow> u32 \<Rightarrow> u32 \<Rightarrow> bpf_result option" where
  "bpf_filter fuel mem0 prog p wirelen buflen =
     (case prog of None \<Rightarrow> Some (Ret (-1))
      | Some f \<Rightarrow> bpf_loop fuel (bpf_step f p wirelen buflen) \<lparr>bpf_pc = 0, bpf_A = 0, bpf_X = 0, bpf_mem = mem0\<rparr>)"

section \<open>The checker\<close>

text \<open>
  One turn of the loop of \<open>bpf_validate\<close> at index \<open>i\<close>.  \<open>from + p->k\<close> is an \<open>int\<close> that the
  comparison with \<open>(unsigned)len\<close> converts to unsigned: a negative sum is huge.
\<close>

definition check_insn :: "int \<Rightarrow> int \<Rightarrow> bpf_insn \<Rightarrow> bool" where
  "check_insn len i p =
     (let from = i + 1 in
      (BPF_CLASS (insn_code p) = BPF_JMP \<longrightarrow>
         (if BPF_OP (insn_code p) = BPF_JA then (word_of_int (from + sint (insn_k p)) :: u32) < word_of_int len
          else from + int (unat (insn_jt p)) < len \<and> from + int (unat (insn_jf p)) < len)) \<and>
      \<not> ((BPF_CLASS (insn_code p) = BPF_ST \<or>
           (BPF_CLASS (insn_code p) = BPF_LD \<and> (insn_code p AND 0xe0) = BPF_MEM)) \<and>
          (sint (insn_k p) \<ge> int BPF_MEMWORDS \<or> sint (insn_k p) < 0)) \<and>
      \<not> (insn_code p = (BPF_ALU OR BPF_DIV OR BPF_K) \<and> insn_k p = 0))"

fun check_from :: "int \<Rightarrow> int \<Rightarrow> bpf_insn list \<Rightarrow> bool" where
  "check_from len i [] = True"
| "check_from len i (p # ps) = (check_insn len i p \<and> check_from len (i + 1) ps)"

text \<open>
  The final \<open>return\<close> reads \<open>f[len - 1]\<close>, which for the empty program is outside the array:
  \<open>None\<close>.
\<close>

definition bpf_validate :: "bpf_insn list \<Rightarrow> bool option" where
  "bpf_validate f =
     (if \<not> check_from (int (length f)) 0 f then Some False
      else if f = [] then None
      else Some (BPF_CLASS (insn_code (last f)) = BPF_RET))"

section \<open>What one instruction does to the program counter\<close>

lemmas turn_defs = cont_def load_acc_def load_word_def load_half_def load_byte_def branch_def
  set_acc_def shift_acc_def

text \<open>
  A turn that goes on either falls through, or is the unconditional jump, or is a conditional
  jump; it is never a \<open>BPF_RET\<close>.
\<close>

definition falls_or_jumps :: "bpf_insn \<Rightarrow> bpf_state \<Rightarrow> bpf_state \<Rightarrow> bool" where
  "falls_or_jumps i s s' \<longleftrightarrow>
     BPF_CLASS (insn_code i) \<noteq> BPF_RET \<and>
     (bpf_pc s' = bpf_pc s + 1 \<and> BPF_CLASS (insn_code i) \<noteq> BPF_JMP
      \<or> BPF_CLASS (insn_code i) = BPF_JMP \<and> BPF_OP (insn_code i) = BPF_JA \<and>
          bpf_pc s' = bpf_pc s + sint (insn_k i) + 1
      \<or> BPF_CLASS (insn_code i) = BPF_JMP \<and> BPF_OP (insn_code i) \<noteq> BPF_JA \<and>
          (bpf_pc s' = bpf_pc s + int (unat (insn_jt i)) + 1 \<or>
           bpf_pc s' = bpf_pc s + int (unat (insn_jf i)) + 1)) \<and>
     length (bpf_mem s') = length (bpf_mem s)"

lemma exec_load_next: "exec_load p w b i s = Some (Next s') \<Longrightarrow> falls_or_jumps i s s'"
  by (auto simp: exec_load_def falls_or_jumps_def turn_defs BPF_CLASS_def BPF_OP_def
      split: if_splits option.splits)

lemma exec_mem_next: "exec_mem i s = Some (Next s') \<Longrightarrow> falls_or_jumps i s s'"
  by (auto simp: exec_mem_def falls_or_jumps_def turn_defs BPF_CLASS_def BPF_OP_def Let_def
      split: if_splits)

lemma exec_jump_next: "exec_jump i s = Some (Next s') \<Longrightarrow> falls_or_jumps i s s'"
  by (auto simp: exec_jump_def falls_or_jumps_def turn_defs BPF_CLASS_def BPF_OP_def
      split: if_splits)

lemma exec_alu_next: "exec_alu i s = Some (Next s') \<Longrightarrow> falls_or_jumps i s s'"
  by (auto simp: exec_alu_def falls_or_jumps_def turn_defs BPF_CLASS_def BPF_OP_def Let_def
      split: if_splits)

lemma exec_misc_next: "exec_misc i s = Some (Next s') \<Longrightarrow> falls_or_jumps i s s'"
  by (auto simp: exec_misc_def falls_or_jumps_def turn_defs BPF_CLASS_def BPF_OP_def
      split: if_splits)

lemmas exec_next = exec_load_next exec_mem_next exec_jump_next exec_alu_next exec_misc_next

lemma exec_insn_next: "exec_insn p w b i s = Next s' \<Longrightarrow> falls_or_jumps i s s'"
  by (auto simp: exec_insn_def intro: exec_next split: option.splits)

section \<open>What the checker guarantees\<close>

lemma check_from_nth:
  "check_from len i f \<Longrightarrow> n < length f \<Longrightarrow> check_insn len (i + int n) (f ! n)"
proof (induction f arbitrary: i n)
  case Nil
  then show ?case by simp
next
  case (Cons p ps)
  show ?case
  proof (cases n)
    case 0
    then show ?thesis using Cons.prems by simp
  next
    case (Suc m)
    then show ?thesis using Cons.IH [of "i + 1" m] Cons.prems by (simp add: add.assoc)
  qed
qed

lemma bpf_validate_nth:
  assumes "bpf_validate f = Some True" and "n < length f"
  shows "check_insn (int (length f)) (int n) (f ! n)"
  using check_from_nth [of "int (length f)" 0 f n] assms by (simp add: bpf_validate_def split: if_splits)

lemma bpf_validate_last:
  "bpf_validate f = Some True \<Longrightarrow> f \<noteq> [] \<and> BPF_CLASS (insn_code (last f)) = BPF_RET"
  by (auto simp: bpf_validate_def split: if_splits)

text \<open>No unconditional jump goes backwards: what the checker's comment promises and its test lets through.\<close>

definition ja_forward :: "bpf_insn list \<Rightarrow> bool" where
  "ja_forward f \<longleftrightarrow>
     list_all (\<lambda>i. BPF_CLASS (insn_code i) = BPF_JMP \<and> BPF_OP (insn_code i) = BPF_JA \<longrightarrow>
       0 \<le> sint (insn_k i)) f"

lemma uint_word_of_int_small: "x < 2 ^ 32 \<Longrightarrow> 0 \<le> x \<Longrightarrow> uint (word_of_int x :: u32) = x"
  by (simp add: uint_word_of_int)

lemma check_insn_ja_target:
  assumes "check_insn len i p" and "BPF_CLASS (insn_code p) = BPF_JMP" and "BPF_OP (insn_code p) = BPF_JA"
    and "0 \<le> sint (insn_k p)" and "0 \<le> i" and "i < len" and "len < 2 ^ 31"
  shows "i + sint (insn_k p) + 1 < len"
proof -
  have lt: "(word_of_int (i + 1 + sint (insn_k p)) :: u32) < word_of_int len"
    using assms by (simp add: check_insn_def)
  have k: "sint (insn_k p) < 2 ^ 31"
    using sint_lt [of "insn_k p"] by simp
  have "i + 1 + sint (insn_k p) < 2 ^ 32" and "0 \<le> i + 1 + sint (insn_k p)"
    using assms k by simp_all
  then have "uint (word_of_int (i + 1 + sint (insn_k p)) :: u32) = i + 1 + sint (insn_k p)"
    by (rule uint_word_of_int_small)
  moreover have "uint (word_of_int len :: u32) = len"
    using assms by (intro uint_word_of_int_small) simp_all
  ultimately show ?thesis using lt by (simp only: word_less_def)
qed

lemma step_progress:
  assumes "bpf_validate f = Some True" and "ja_forward f" and "int (length f) < 2 ^ 31"
    and "bpf_step f p w b s = Next s'"
  shows "bpf_pc s < bpf_pc s' \<and> 0 \<le> bpf_pc s' \<and> bpf_pc s' < int (length f)"
proof -
  let ?n = "nat (bpf_pc s)"
  let ?i = "f ! ?n"
  have pc: "0 \<le> bpf_pc s" "bpf_pc s < int (length f)" and ex: "exec_insn p w b ?i s = Next s'"
    using assms(4) by (auto simp: bpf_step_def split: if_splits)
  then have n: "?n < length f" "int ?n = bpf_pc s" by auto
  from ex have foj: "falls_or_jumps ?i s s'" by (rule exec_insn_next)
  have chk: "check_insn (int (length f)) (bpf_pc s) ?i"
    using bpf_validate_nth [OF assms(1) n(1)] n(2) by simp
  have fwd: "BPF_CLASS (insn_code ?i) = BPF_JMP \<Longrightarrow> BPF_OP (insn_code ?i) = BPF_JA \<Longrightarrow> 0 \<le> sint (insn_k ?i)"
    using assms(2) n(1) by (simp add: ja_forward_def list_all_length)
  have ne: "f \<noteq> []" and ret: "BPF_CLASS (insn_code (last f)) = BPF_RET"
    using bpf_validate_last [OF assms(1)] by auto
  consider (fall) "bpf_pc s' = bpf_pc s + 1"
    | (ja) "BPF_CLASS (insn_code ?i) = BPF_JMP" "BPF_OP (insn_code ?i) = BPF_JA"
        "bpf_pc s' = bpf_pc s + sint (insn_k ?i) + 1"
    | (cj) "BPF_CLASS (insn_code ?i) = BPF_JMP" "BPF_OP (insn_code ?i) \<noteq> BPF_JA"
        "bpf_pc s' = bpf_pc s + int (unat (insn_jt ?i)) + 1 \<or>
         bpf_pc s' = bpf_pc s + int (unat (insn_jf ?i)) + 1"
    using foj unfolding falls_or_jumps_def by blast
  then show ?thesis
  proof cases
    case fall
    have "?n \<noteq> length f - 1"
      using foj ret ne by (auto simp: falls_or_jumps_def last_conv_nth)
    then show ?thesis using fall n pc by linarith
  next
    case ja
    then show ?thesis
      using check_insn_ja_target [OF chk ja(1,2) fwd [OF ja(1,2)]] fwd [OF ja(1,2)] pc assms(3) by simp
  next
    case cj
    then show ?thesis using chk pc by (auto simp: check_insn_def Let_def)
  qed
qed

section \<open>The contract between checker and interpreter\<close>

text \<open>
  What the interpreter needs from a check of its programs: in a checked program a turn at a valid
  position stays inside the program and only moves forward.  The client lemma: the loop ends, and
  as many turns as the program has instructions are enough.
\<close>

locale checked_machine =
  fixes valid :: "'f \<Rightarrow> bool"
    and size_of :: "'f \<Rightarrow> nat"
    and turn :: "'f \<Rightarrow> 'e \<Rightarrow> bpf_state \<Rightarrow> bpf_turn"
  assumes forward: "valid f \<Longrightarrow> turn f e s = Next s' \<Longrightarrow>
      bpf_pc s < bpf_pc s' \<and> 0 \<le> bpf_pc s' \<and> bpf_pc s' < int (size_of f)"
    and inside: "0 \<le> bpf_pc s \<Longrightarrow> bpf_pc s < int (size_of f) \<Longrightarrow> turn f e s \<noteq> Undefined Bad_pc"
begin

lemma loop_returns:
  "valid f \<Longrightarrow> 0 \<le> bpf_pc s \<Longrightarrow> bpf_pc s < int (size_of f) \<Longrightarrow>
   int (size_of f) - bpf_pc s \<le> int n \<Longrightarrow>
   \<exists>r. bpf_loop n (turn f e) s = Some r \<and> r \<noteq> Undef Bad_pc"
proof (induction n arbitrary: s)
  case 0
  then show ?case by simp
next
  case (Suc n)
  show ?case
  proof (cases "turn f e s")
    case (Next s')
    with forward [OF Suc.prems(1) Next] Suc.prems have "int (size_of f) - bpf_pc s' \<le> int n"
      by linarith
    with Suc.IH [of s'] forward [OF Suc.prems(1) Next] Suc.prems(1) Next show ?thesis by simp
  next
    case (Return v)
    then show ?thesis by simp
  next
    case (Undefined e')
    with inside [of s f e] Suc.prems show ?thesis by simp
  qed
qed

end

definition bpf_checked :: "bpf_insn list \<Rightarrow> bool" where
  "bpf_checked f \<longleftrightarrow> bpf_validate f = Some True \<and> ja_forward f \<and> int (length f) < 2 ^ 31"

lemma exec_insn_not_bad_pc: "exec_insn p w b i s \<noteq> Undefined Bad_pc"
proof -
  have "exec_load p w b i s \<noteq> Some (Undefined Bad_pc)"
    by (auto simp: exec_load_def turn_defs split: if_splits option.splits)
  moreover have "exec_mem i s \<noteq> Some (Undefined Bad_pc)"
    by (auto simp: exec_mem_def turn_defs Let_def split: if_splits)
  moreover have "exec_jump i s \<noteq> Some (Undefined Bad_pc)"
    by (auto simp: exec_jump_def turn_defs split: if_splits)
  moreover have "exec_alu i s \<noteq> Some (Undefined Bad_pc)"
    by (auto simp: exec_alu_def turn_defs Let_def split: if_splits)
  moreover have "exec_misc i s \<noteq> Some (Undefined Bad_pc)"
    by (auto simp: exec_misc_def turn_defs split: if_splits)
  ultimately show ?thesis
    by (auto simp: exec_insn_def split: option.splits)
qed

interpretation bpf: checked_machine bpf_checked length "\<lambda>f (p, w, b). bpf_step f p w b"
proof unfold_locales
  fix f :: "bpf_insn list" and e :: "bytes \<times> u32 \<times> u32" and s s'
  assume "bpf_checked f" and "(\<lambda>f (p, w, b). bpf_step f p w b) f e s = Next s'"
  then show "bpf_pc s < bpf_pc s' \<and> 0 \<le> bpf_pc s' \<and> bpf_pc s' < int (length f)"
    by (cases e) (auto simp: bpf_checked_def dest: step_progress)
next
  fix f :: "bpf_insn list" and e :: "bytes \<times> u32 \<times> u32" and s :: bpf_state
  assume "0 \<le> bpf_pc s" and "bpf_pc s < int (length f)"
  then show "(\<lambda>f (p, w, b). bpf_step f p w b) f e s \<noteq> Undefined Bad_pc"
    by (cases e) (simp add: bpf_step_def exec_insn_not_bad_pc)
qed

text \<open>
  C16.  A program that \<open>bpf_validate\<close> accepts and whose unconditional jumps go forward always
  returns from \<open>bpf_filter\<close>, on every packet, within as many turns as it has instructions, and
  never leaves the program text.
\<close>

theorem bpf_filter_terminates:
  assumes "bpf_validate f = Some True" and "ja_forward f" and "int (length f) < 2 ^ 31"
  shows "\<exists>r. bpf_filter (length f) mem0 (Some f) p wirelen buflen = Some r \<and> r \<noteq> Undef Bad_pc"
proof -
  have "0 < length f" using bpf_validate_last [OF assms(1)] by simp
  then show ?thesis
    using bpf.loop_returns [of f "\<lparr>bpf_pc = 0, bpf_A = 0, bpf_X = 0, bpf_mem = mem0\<rparr>" "length f" "(p, wirelen, buflen)"]
      assms by (simp add: bpf_checked_def bpf_filter_def)
qed

theorem bpf_filter_terminates_witness:
  "\<exists>r. bpf_filter 2 [] (Some [\<lparr>insn_code = 0x15, insn_jt = 0, insn_jf = 0, insn_k = 5\<rparr>,
      \<lparr>insn_code = 0x06, insn_jt = 0, insn_jf = 0, insn_k = 96\<rparr>]) [] 0 0 = Some r \<and> r \<noteq> Undef Bad_pc"
  (is "\<exists>r. bpf_filter 2 [] (Some ?f) [] 0 0 = Some r \<and> _")
proof -
  have "bpf_validate ?f = Some True" by code_simp
  moreover have "ja_forward ?f" by code_simp
  moreover have "int (length ?f) < 2 ^ 31" by simp
  ultimately show ?thesis
    using bpf_filter_terminates [of ?f "[]" "[]" 0 0] by (simp add: eval_nat_numeral)
qed

section \<open>Packet loads\<close>

lemma unat_add_4: "(i :: u32) < -4 \<Longrightarrow> unat (i + 4) = unat i + 4"
  by (simp add: word_less_nat_alt unat_word_ariths)

lemma unat_add_2: "(i :: u32) < -2 \<Longrightarrow> unat (i + 2) = unat i + 2"
  by (simp add: word_less_nat_alt unat_word_ariths)

text \<open>The indices for which \<open>k + sizeof(int32)\<close> wraps to a small number: \<open>-4 .. -1\<close>.\<close>

lemma pkt_byte_in: "unat (i :: u32) + n < length p \<Longrightarrow> unat i < 2 ^ 31 \<Longrightarrow>
   pkt_byte p (sint i + int n) = Some (p ! (unat i + n))"
  by (simp add: pkt_byte_def rd8_def sint_u32_nonneg nat_add_distrib)

lemma pkt_byte_in0: "unat (i :: u32) < length p \<Longrightarrow> unat i < 2 ^ 31 \<Longrightarrow> pkt_byte p (sint i) = Some (p ! unat i)"
  using pkt_byte_in [of i 0 p] by simp

lemma pkt_byte_neg: "2 ^ 31 \<le> unat (i :: u32) \<Longrightarrow> pkt_byte p (sint i) = None"
  using sint_u32_neg [of i] by (simp add: pkt_byte_def)

lemma load_word_cases:
  assumes "unat buflen \<le> length p" and "unat buflen < 2 ^ 31"
  shows "load_word p buflen i s =
     (if i < -4 then
        (if unat i + 4 \<le> unat buflen then
           cont (s\<lparr>bpf_A := be32 (p ! unat i) (p ! (unat i + 1)) (p ! (unat i + 2)) (p ! (unat i + 3))\<rparr>)
         else Return 0)
      else if i + 4 \<le> buflen then Undefined Bad_packet else Return 0)"
proof (cases "i < -4")
  case True
  then have u: "unat (i + 4) = unat i + 4" by (rule unat_add_4)
  show ?thesis
  proof (cases "unat i + 4 \<le> unat buflen")
    case in_range: True
    then have "EXTRACT_LONG p (sint i) =
        Some (be32 (p ! unat i) (p ! (unat i + 1)) (p ! (unat i + 2)) (p ! (unat i + 3)))"
      using assms pkt_byte_in [of i 1 p] pkt_byte_in [of i 2 p] pkt_byte_in [of i 3 p] pkt_byte_in0 [of i p]
      by (simp add: EXTRACT_LONG_def)
    then show ?thesis using True in_range u by (simp add: load_word_def load_acc_def word_less_nat_alt)
  next
    case False
    then show ?thesis using True u by (simp add: load_word_def word_less_nat_alt)
  qed
next
  case False
  then have "2 ^ 31 \<le> unat i" by (simp add: word_less_nat_alt)
  then have "EXTRACT_LONG p (sint i) = None" by (simp add: EXTRACT_LONG_def pkt_byte_neg)
  then show ?thesis using False by (auto simp: load_word_def load_acc_def not_less)
qed

lemma load_half_cases:
  assumes "unat buflen \<le> length p" and "unat buflen < 2 ^ 31"
  shows "load_half p buflen i s =
     (if i < -2 then
        (if unat i + 2 \<le> unat buflen then
           cont (s\<lparr>bpf_A := ucast (be16 (p ! unat i) (p ! (unat i + 1)))\<rparr>)
         else Return 0)
      else if i + 2 \<le> buflen then Undefined Bad_packet else Return 0)"
proof (cases "i < -2")
  case True
  then have u: "unat (i + 2) = unat i + 2" by (rule unat_add_2)
  show ?thesis
  proof (cases "unat i + 2 \<le> unat buflen")
    case in_range: True
    then have "EXTRACT_SHORT p (sint i) = Some (ucast (be16 (p ! unat i) (p ! (unat i + 1))))"
      using assms pkt_byte_in [of i 1 p] pkt_byte_in0 [of i p] by (simp add: EXTRACT_SHORT_def)
    then show ?thesis using True in_range u by (simp add: load_half_def load_acc_def word_less_nat_alt)
  next
    case False
    then show ?thesis using True u by (simp add: load_half_def word_less_nat_alt)
  qed
next
  case False
  then have "2 ^ 31 \<le> unat i" by (simp add: word_less_nat_alt)
  then have "EXTRACT_SHORT p (sint i) = None" by (simp add: EXTRACT_SHORT_def pkt_byte_neg)
  then show ?thesis using False by (auto simp: load_half_def load_acc_def not_less)
qed

lemma load_byte_cases:
  assumes "unat buflen \<le> length p" and "unat buflen < 2 ^ 31"
  shows "load_byte p buflen i s =
     (if unat i < unat buflen then cont (s\<lparr>bpf_A := ucast (p ! unat i)\<rparr>) else Return 0)"
  using assms pkt_byte_in0 [of i p] by (simp add: load_byte_def load_acc_def word_le_nat_alt)

text \<open>
  C24.  A word load is exact: below the wrap it yields the four packet bytes in network order
  when they all lie in the captured data and ends the filter with 0 otherwise; it is undefined
  exactly when \<open>k\<close> is one of \<open>-4 .. -1\<close> and \<open>k + 4\<close> has wrapped to a value within \<open>buflen\<close>,
  where the interpreter reads in front of the packet.
\<close>

theorem load_word_exact:
  assumes "unat buflen \<le> length p" and "unat buflen < 2 ^ 31"
  shows "load_word p buflen i s =
     (if i < -4 then
        (if unat i + 4 \<le> unat buflen then
           cont (s\<lparr>bpf_A := be32 (p ! unat i) (p ! (unat i + 1)) (p ! (unat i + 2)) (p ! (unat i + 3))\<rparr>)
         else Return 0)
      else if i + 4 \<le> buflen then Undefined Bad_packet else Return 0)"
  using assms by (rule load_word_cases)

theorem load_word_exact_witness:
  "load_word [1, 2, 3, 4] 4 (-4) \<lparr>bpf_pc = 0, bpf_A = 0, bpf_X = 0, bpf_mem = []\<rparr> = Undefined Bad_packet \<and>
   load_word [1, 2, 3, 4] 4 0 \<lparr>bpf_pc = 0, bpf_A = 0, bpf_X = 0, bpf_mem = []\<rparr> =
     Next \<lparr>bpf_pc = 1, bpf_A = be32 1 2 3 4, bpf_X = 0, bpf_mem = []\<rparr>"
  using load_word_exact [of 4 "[1, 2, 3, 4]" "-4" "\<lparr>bpf_pc = 0, bpf_A = 0, bpf_X = 0, bpf_mem = []\<rparr>"]
    load_word_exact [of 4 "[1, 2, 3, 4]" 0 "\<lparr>bpf_pc = 0, bpf_A = 0, bpf_X = 0, bpf_mem = []\<rparr>"]
  by (simp add: word_less_nat_alt cont_def)

section \<open>Gaps of the checker\<close>

text \<open>The opcodes \<open>bpf_filter\<close> knows.\<close>

definition bpf_codes :: "u16 list" where
  "bpf_codes = [0x06, 0x16, 0x20, 0x28, 0x30, 0x80, 0x81, 0x40, 0x48, 0x50, 0xb1, 0x00, 0x01,
     0x60, 0x61, 0x02, 0x03, 0x05, 0x25, 0x35, 0x15, 0x45, 0x2d, 0x3d, 0x1d, 0x4d,
     0x0c, 0x1c, 0x2c, 0x3c, 0x5c, 0x4c, 0x6c, 0x7c, 0x04, 0x14, 0x24, 0x34, 0x54, 0x44, 0x64, 0x74, 0x84,
     0x07, 0x87]"

text \<open>
  What \<open>bpf_validate\<close> leaves unchecked, made into a test of one instruction: the opcode is
  known, \<open>BPF_LDX|BPF_MEM\<close> and \<open>BPF_STX\<close> index the scratch memory, constant offsets are not
  negative, no word or half-word is loaded at an index computed at run time, and shifts are
  by a constant below 32.
\<close>

definition hardened_insn :: "bpf_insn \<Rightarrow> bool" where
  "hardened_insn i \<longleftrightarrow>
     insn_code i \<in> set bpf_codes \<and>
     (insn_code i \<in> {0x61, 0x03} \<longrightarrow> 0 \<le> sint (insn_k i) \<and> sint (insn_k i) < 16) \<and>
     (insn_code i \<in> {0x20, 0x28} \<longrightarrow> 0 \<le> sint (insn_k i)) \<and>
     insn_code i \<notin> {0x40, 0x48, 0x6c, 0x7c} \<and>
     (insn_code i \<in> {0x64, 0x74} \<longrightarrow> insn_k i < 32)"


text \<open>Stuck turns, case by case: a hardened instruction is never one, whatever the state.\<close>

lemma nonneg_below_wrap: "0 \<le> sint (j :: u32) \<Longrightarrow> j < -4 \<and> j < -2"
  using sint_u32_neg [of j] by (force simp: word_less_nat_alt not_le [symmetric])

lemma exec_load_undefined:
  "exec_load p w b i s = Some (Undefined e) \<Longrightarrow>
     insn_code i = 0x20 \<and> load_word p b (insn_k i) s = Undefined e \<or>
     insn_code i = 0x28 \<and> load_half p b (insn_k i) s = Undefined e \<or>
     insn_code i = 0x40 \<or> insn_code i = 0x48 \<or>
     (\<exists>j. load_byte p b j s = Undefined e) \<or>
     insn_k i < b \<and> pkt_byte p (sint (insn_k i)) = None"
  by (auto simp: exec_load_def cont_def not_le split: if_splits option.splits)

lemma exec_load_defined:
  assumes "hardened_insn i" and "unat b \<le> length p" and "unat b < 2 ^ 31"
  shows "exec_load p w b i s \<noteq> Some (Undefined e)"
proof -
  have abs: "insn_code i = 0x20 \<or> insn_code i = 0x28 \<Longrightarrow> 0 \<le> sint (insn_k i)"
    and ind: "insn_code i \<noteq> 0x40" "insn_code i \<noteq> 0x48"
    using assms(1) by (auto simp: hardened_insn_def)
  have word: "insn_code i = 0x20 \<Longrightarrow> load_word p b (insn_k i) s \<noteq> Undefined e"
    using nonneg_below_wrap [OF abs] by (simp add: load_word_cases [OF assms(2,3)] cont_def)
  have half: "insn_code i = 0x28 \<Longrightarrow> load_half p b (insn_k i) s \<noteq> Undefined e"
    using nonneg_below_wrap [OF abs] by (simp add: load_half_cases [OF assms(2,3)] cont_def)
  have byte: "load_byte p b j s \<noteq> Undefined e" for j
    by (simp add: load_byte_cases [OF assms(2,3)] cont_def)
  have msh: "insn_k i < b \<Longrightarrow> pkt_byte p (sint (insn_k i)) = Some (p ! unat (insn_k i))"
    using pkt_byte_in0 [of "insn_k i" p] assms by (simp add: word_less_nat_alt)
  show ?thesis
    using exec_load_undefined [of p w b i s e] word half byte msh ind by (metis option.distinct(1))
qed

lemma exec_mem_defined:
  assumes "hardened_insn i" and "check_insn len n i"
  shows "exec_mem i s \<noteq> Some (Undefined e)"
proof -
  have "insn_code i = 0x61 \<or> insn_code i = 0x03 \<Longrightarrow> 0 \<le> sint (insn_k i) \<and> sint (insn_k i) < 16"
    using assms(1) by (auto simp: hardened_insn_def)
  moreover have "insn_code i = 0x60 \<or> insn_code i = 0x02 \<Longrightarrow> 0 \<le> sint (insn_k i) \<and> sint (insn_k i) < 16"
    using assms(2) by (auto simp: check_insn_def BPF_CLASS_def Let_def not_le)
  ultimately show ?thesis
    by (auto simp: exec_mem_def cont_def Let_def)
qed

lemma exec_jump_defined: "exec_jump i s \<noteq> Some (Undefined e)"
  by (auto simp: exec_jump_def branch_def split: if_splits)

lemma exec_alu_defined:
  assumes "hardened_insn i" and "check_insn len n i"
  shows "exec_alu i s \<noteq> Some (Undefined e)"
  using assms by (auto simp: exec_alu_def hardened_insn_def check_insn_def turn_defs Let_def split: if_splits)

lemma exec_misc_defined: "exec_misc i s \<noteq> Some (Undefined e)"
  by (auto simp: exec_misc_def cont_def split: if_splits)

lemma known_code_executes:
  "insn_code i \<in> set bpf_codes \<Longrightarrow>
   exec_load p w b i s \<noteq> None \<or> exec_mem i s \<noteq> None \<or> exec_jump i s \<noteq> None \<or>
   exec_alu i s \<noteq> None \<or> exec_misc i s \<noteq> None"
  by (auto simp: bpf_codes_def exec_load_def exec_mem_def exec_jump_def exec_alu_def exec_misc_def Let_def)

lemma exec_insn_defined:
  assumes "hardened_insn i" and "check_insn len n i" and "unat b \<le> length p" and "unat b < 2 ^ 31"
  shows "exec_insn p w b i s \<noteq> Undefined e"
proof -
  have "insn_code i \<in> set bpf_codes" using assms(1) by (simp add: hardened_insn_def)
  from known_code_executes [OF this, of p w b s] show ?thesis
    using exec_load_defined [OF assms(1,3,4)] exec_mem_defined [OF assms(1,2)]
      exec_jump_defined exec_alu_defined [OF assms(1,2)] exec_misc_defined
    by (auto simp: exec_insn_def split: option.splits)
qed

definition hardened :: "bpf_insn list \<Rightarrow> bool" where
  "hardened f \<longleftrightarrow> list_all hardened_insn f"

lemma bpf_step_defined:
  assumes "bpf_checked f" and "hardened f" and "unat b \<le> length p" and "unat b < 2 ^ 31"
    and "0 \<le> bpf_pc s" and "bpf_pc s < int (length f)"
  shows "bpf_step f p w b s \<noteq> Undefined e"
proof -
  let ?n = "nat (bpf_pc s)"
  have n: "?n < length f" using assms by simp
  have "check_insn (int (length f)) (int ?n) (f ! ?n)"
    using assms(1) n by (simp only: bpf_checked_def bpf_validate_nth)
  moreover have "hardened_insn (f ! ?n)" using assms(2) n by (simp add: hardened_def list_all_length)
  ultimately show ?thesis using exec_insn_defined assms by (simp add: bpf_step_def)
qed

lemma loop_defined:
  assumes "bpf_checked f" and "hardened f" and "unat b \<le> length p" and "unat b < 2 ^ 31"
  shows "0 \<le> bpf_pc s \<Longrightarrow> bpf_pc s < int (length f) \<Longrightarrow> bpf_loop n (bpf_step f p w b) s \<noteq> Some (Undef e)"
proof (induction n arbitrary: s)
  case 0
  then show ?case by simp
next
  case (Suc n)
  show ?case
  proof (cases "bpf_step f p w b s")
    case (Next s')
    then have "0 \<le> bpf_pc s' \<and> bpf_pc s' < int (length f)"
      using assms(1) by (auto simp: bpf_checked_def dest: step_progress)
    then show ?thesis using Suc.IH [of s'] Next by simp
  next
    case (Return v)
    then show ?thesis by simp
  next
    case (Undefined e')
    then show ?thesis using bpf_step_defined [OF assms Suc.prems] by simp
  qed
qed

lemma bpf_filter_returns:
  assumes "bpf_validate f = Some True" and "ja_forward f" and "int (length f) < 2 ^ 31" and "hardened f"
    and "unat buflen \<le> length p" and "unat buflen < 2 ^ 31"
  shows "\<exists>v. bpf_filter (length f) mem0 (Some f) p wirelen buflen = Some (Ret v)"
proof -
  let ?s = "\<lparr>bpf_pc = 0, bpf_A = 0, bpf_X = 0, bpf_mem = mem0\<rparr>"
  have chk: "bpf_checked f" using assms by (simp add: bpf_checked_def)
  have len: "0 < length f" using bpf_validate_last [OF assms(1)] by simp
  obtain r where r: "bpf_loop (length f) (bpf_step f p wirelen buflen) ?s = Some r"
    using bpf.loop_returns [OF chk, of ?s "length f" "(p, wirelen, buflen)"] len by auto
  moreover have "r \<noteq> Undef e" for e
    using loop_defined [OF chk assms(4,5,6), of ?s "length f" wirelen e] len r by simp
  ultimately show ?thesis by (cases r) (auto simp: bpf_filter_def)
qed

text \<open>
  C15.  A program that \<open>bpf_validate\<close> accepts and that also passes the tests the checker leaves
  out runs on every packet without undefined behaviour and returns a verdict: no read outside
  the captured bytes, the scratch memory or the program, no bad shift, no \<open>abort\<close>.
\<close>

theorem bpf_filter_safe:
  assumes "bpf_validate f = Some True" and "ja_forward f" and "int (length f) < 2 ^ 31" and "hardened f"
    and "unat buflen \<le> length p" and "unat buflen < 2 ^ 31"
  shows "\<exists>v. bpf_filter (length f) mem0 (Some f) p wirelen buflen = Some (Ret v)"
  using assms by (rule bpf_filter_returns)

theorem bpf_filter_safe_witness:
  "\<exists>v. bpf_filter 3 (replicate 16 0) (Some [\<lparr>insn_code = 0x28, insn_jt = 0, insn_jf = 0, insn_k = 12\<rparr>,
      \<lparr>insn_code = 0x15, insn_jt = 0, insn_jf = 0, insn_k = 0x800\<rparr>,
      \<lparr>insn_code = 0x16, insn_jt = 0, insn_jf = 0, insn_k = 0\<rparr>]) [1, 2, 3] 3 3 = Some (Ret v)"
  (is "\<exists>v. bpf_filter 3 _ (Some ?f) _ 3 3 = Some (Ret v)")
proof -
  have v: "bpf_validate ?f = Some True" by code_simp
  have j: "ja_forward ?f" by code_simp
  have h: "hardened ?f" by code_simp
  have l: "int (length ?f) < 2 ^ 31" and n: "length ?f = 3" by simp_all
  show ?thesis
    using bpf_filter_safe [OF v j l h, of 3 "[1, 2, 3]" "replicate 16 0" 3] unfolding n by simp
qed

text \<open>
  C25.  The checker's comment says every jump is forward, but its test of an unconditional jump
  only bounds the target: a jump onto itself is accepted, and \<open>bpf_filter\<close> never returns from
  it, however long it runs.
\<close>

theorem bpf_validate_accepts_endless_loop:
  "\<exists>f. bpf_validate f = Some True \<and>
     (\<forall>fuel mem0 p wirelen buflen. bpf_filter fuel mem0 (Some f) p wirelen buflen = None)"
proof (intro exI conjI allI)
  let ?f = "[\<lparr>insn_code = 0x05, insn_jt = 0, insn_jf = 0, insn_k = -1\<rparr>,
     \<lparr>insn_code = 0x06, insn_jt = 0, insn_jf = 0, insn_k = 0\<rparr>]"
  show "bpf_validate ?f = Some True" by code_simp
  fix fuel mem0 p wirelen buflen
  have "bpf_loop fuel (bpf_step ?f p wirelen buflen)
      \<lparr>bpf_pc = 0, bpf_A = 0, bpf_X = 0, bpf_mem = mem0\<rparr> = None"
    by (induction fuel)
      (simp_all add: bpf_step_def exec_insn_def exec_load_def exec_mem_def exec_jump_def Let_def)
  then show "bpf_filter fuel mem0 (Some ?f) p wirelen buflen = None"
    by (simp add: bpf_filter_def)
qed

text \<open>
  The checker tests the scratch index of \<open>BPF_ST\<close> and \<open>BPF_LD|BPF_MEM\<close> but not of
  \<open>BPF_STX\<close>: it accepts a program that writes outside \<open>mem\<close> on every packet.
\<close>

theorem bpf_validate_accepts_wild_store:
  "\<exists>f. bpf_validate f = Some True \<and> ja_forward f \<and>
     (\<forall>mem0 p wirelen buflen. bpf_filter (length f) mem0 (Some f) p wirelen buflen = Some (Undef Bad_mem))"
proof (intro exI conjI allI)
  let ?f = "[\<lparr>insn_code = 0x03, insn_jt = 0, insn_jf = 0, insn_k = 100\<rparr>,
     \<lparr>insn_code = 0x06, insn_jt = 0, insn_jf = 0, insn_k = 0\<rparr>]"
  show "bpf_validate ?f = Some True" by code_simp
  show "ja_forward ?f" by code_simp
  fix mem0 p wirelen buflen
  show "bpf_filter (length ?f) mem0 (Some ?f) p wirelen buflen = Some (Undef Bad_mem)"
    by (simp add: bpf_filter_def bpf_step_def exec_insn_def exec_load_def exec_mem_def Let_def)
qed

end
