(* ===== verification/Checksum.thy ===== *)
theory Checksum
  imports Prelude
begin

text \<open>
  Internet checksums (\<open>src/libnids/checksum.c\<close>): the portable branch, which is compiled for the two ARM
  targets of \<open>Application.mk\<close>.  For its third target, x86, the inline assembly of the other branch
  is compiled; it is not modelled.  \<open>ip_check_ext\<close> adds the 16-bit words of a block into a 32-bit \<open>int\<close>, folds the
  carries twice and complements; the entry points differ in the pseudo header they add and in
  the table of exempted networks that \<open>nids_register_chksum_ctl\<close> installs and \<open>dontchksum\<close>
  searches.  The theorems: the routine computes the complemented one's complement sum of
  the block (RFC 1071), it cannot overflow on anything an IP datagram can carry, and a block whose
  checksum field holds the computed value checks to zero.
\<close>

record nids_chksum_ctl =
  netaddr :: u32
  ctl_mask :: u32
  action :: u32
  reserved :: u32

text \<open>
  The array and count registered by \<open>nids_register_chksum_ctl\<close> are one list of \<open>nr\<close> entries.
\<close>

type_synonym chksum_table = "nids_chksum_ctl list"

definition nids_register_chksum_ctl :: "nids_chksum_ctl list \<Rightarrow> nat \<Rightarrow> chksum_table" where
  "nids_register_chksum_ctl ptr nr = take nr ptr"

fun dontchksum :: "chksum_table \<Rightarrow> u32 \<Rightarrow> u32" where
  "dontchksum [] ip = 0"
| "dontchksum (c # cs) ip = (if ip AND ctl_mask c = netaddr c then action c else dontchksum cs ip)"

section \<open>The sum\<close>

text \<open>
  \<open>while (nleft > 1) { sum += *w++; nleft -= 2; }\<close> on the block \<open>b\<close> from offset \<open>w\<close>; the result is
  the final \<open>w\<close>, \<open>nleft\<close> and \<open>sum\<close>.
\<close>

function csum_loop :: "bytes \<Rightarrow> nat \<Rightarrow> int \<Rightarrow> u32 \<Rightarrow> (nat \<times> int \<times> u32) option" where
  "csum_loop b w nleft acc =
     (if nleft > 1 then do { x \<leftarrow> rd_le16 b w; csum_loop b (w + 2) (nleft - 2) (acc + ucast x) }
      else Some (w, nleft, acc))"
  by pat_completeness auto
termination
  by (relation "measure (\<lambda>(b, w, nleft, acc). nat nleft)") auto

declare csum_loop.simps [simp del]

text \<open>\<open>sum >> 16\<close> is the arithmetic shift of an \<open>int\<close>.\<close>

definition fold_carries :: "u32 \<Rightarrow> u16" where
  "fold_carries acc =
     (let s1 = signed_drop_bit 16 acc + (acc AND 0xffff);
          s2 = s1 + signed_drop_bit 16 s1
      in NOT (ucast s2))"

text \<open>The loop and the odd byte, which becomes the low byte of a 16-bit word.\<close>

definition csum_words :: "bytes \<Rightarrow> nat \<Rightarrow> int \<Rightarrow> u32 \<Rightarrow> u32 option" where
  "csum_words b addr len addon = do {
     (w, nleft, acc) \<leftarrow> csum_loop b addr len addon;
     if nleft = 1 then do { x \<leftarrow> rd8 b w; Some (acc + ucast x) } else Some acc }"

definition ip_check_ext :: "bytes \<Rightarrow> nat \<Rightarrow> int \<Rightarrow> u32 \<Rightarrow> u16 option" where
  "ip_check_ext b addr len addon = do {
     acc \<leftarrow> csum_words b addr len addon;
     Some (fold_carries acc) }"

definition ip_fast_csum :: "chksum_table \<Rightarrow> bytes \<Rightarrow> nat \<Rightarrow> u16 option" where
  "ip_fast_csum t b len = do {
     src \<leftarrow> rd_le32 b 12;
     if dontchksum t src \<noteq> 0 then Some 0 else ip_check_ext b 0 (int (4 * len)) 0 }"

definition ip_compute_csum :: "bytes \<Rightarrow> nat \<Rightarrow> int \<Rightarrow> u16 option" where
  "ip_compute_csum b addr len = ip_check_ext b addr len 0"

text \<open>\<open>struct psuedo_hdr\<close> as it lies in memory, and the loop over its six 16-bit words.\<close>

definition psuedo_hdr :: "u32 \<Rightarrow> u32 \<Rightarrow> u8 \<Rightarrow> int \<Rightarrow> bytes" where
  "psuedo_hdr saddr daddr protocol len =
     le_bytes32 saddr @ le_bytes32 daddr @
     [0, protocol, ucast (drop_bit 8 (word_of_int len :: u16)), ucast (word_of_int len :: u16)]"

fun psuedo_sum :: "bytes \<Rightarrow> u32 \<Rightarrow> u32" where
  "psuedo_sum (x # y # r) acc = psuedo_sum r (acc + ucast (be16 y x))"
| "psuedo_sum _ acc = acc"

definition l4_check :: "u8 \<Rightarrow> chksum_table \<Rightarrow> bytes \<Rightarrow> nat \<Rightarrow> int \<Rightarrow> u32 \<Rightarrow> u32 \<Rightarrow> u16 option" where
  "l4_check protocol t b th len saddr daddr =
     (if dontchksum t saddr \<noteq> 0 then Some 0
      else ip_check_ext b th len (psuedo_sum (psuedo_hdr saddr daddr protocol len) 0))"

definition my_tcp_check :: "chksum_table \<Rightarrow> bytes \<Rightarrow> nat \<Rightarrow> int \<Rightarrow> u32 \<Rightarrow> u32 \<Rightarrow> u16 option" where
  "my_tcp_check = l4_check 6"

definition my_udp_check :: "chksum_table \<Rightarrow> bytes \<Rightarrow> nat \<Rightarrow> int \<Rightarrow> u32 \<Rightarrow> u32 \<Rightarrow> u16 option" where
  "my_udp_check = l4_check 17"

section \<open>The specification\<close>

text \<open>
  The 16-bit words of a block as the machine loads them, the odd byte padded, and the one's
  complement reduction of a sum: 0 only for 0, otherwise a representative in \<open>1 .. 65535\<close>.
\<close>

fun words16 :: "bytes \<Rightarrow> nat list" where
  "words16 [] = []"
| "words16 [x] = [unat x]"
| "words16 (x # y # r) = (unat x + 256 * unat y) # words16 r"

definition ones_sum :: "nat \<Rightarrow> nat" where
  "ones_sum t = (if t = 0 then 0 else (t - 1) mod 65535 + 1)"

lemma ones_sum_le: "ones_sum t \<le> 65535"
  using mod_less_divisor [of 65535 "t - 1"] unfolding ones_sum_def by (simp only: split: if_split) linarith

lemma words16_le: "sum_list (words16 b) \<le> 65535 * ((length b + 1) div 2)"
proof (induction b rule: words16.induct)
  case (2 x)
  then show ?case using unat_u8_less [of x] by simp
next
  case (3 x y r)
  then show ?case using unat_u8_less [of x] unat_u8_less [of y] by simp
qed simp

lemma csum_loop_out: "\<lbrakk>int (length b) < int w + nleft; 1 < nleft; even nleft\<rbrakk> \<Longrightarrow> csum_loop b w nleft acc = None"
proof (induction b w nleft acc rule: csum_loop.induct)
  case (1 b w nleft acc)
  show ?case
  proof (cases "rd_le16 b w")
    case None
    then show ?thesis using "1.prems" by (simp add: csum_loop.simps)
  next
    case (Some x)
    then have "Suc w < length b" by (auto simp: rd_le16_def rd8_def bind_eq_Some_conv split: if_splits)
    then have "2 < nleft" using "1.prems" by linarith
    moreover have "even (nleft - 2)" using "1.prems"(3) by simp
    ultimately have "1 < nleft - 2" by presburger
    then show ?thesis using 1 Some \<open>even (nleft - 2)\<close> by (subst csum_loop.simps) simp
  qed
qed

lemma csum_words_sum:
  assumes "w + nat nleft \<le> length b" and "0 \<le> nleft"
  shows "csum_words b w nleft acc = Some (acc + of_nat (sum_list (words16 (take (nat nleft) (drop w b)))))"
  using assms
proof (induction b w nleft acc rule: csum_loop.induct)
  case (1 b w nleft acc)
  show ?case
  proof (cases "nleft > 1")
    case True
    then have len: "Suc w < length b" using "1.prems" by linarith
    define m where "m = nat (nleft - 2)"
    have nl: "nat nleft = Suc (Suc m)" using True by (simp add: m_def)
    have d: "drop w b = b ! w # b ! Suc w # drop (w + 2) b"
      using len by (simp add: Cons_nth_drop_Suc)
    have u: "ucast (be16 (b ! Suc w) (b ! w)) = (of_nat (unat (b ! w) + 256 * unat (b ! Suc w)) :: u32)"
      by (rule ucast_be16)
    show ?thesis
      using "1.IH" [OF True] "1.prems" True len u
      by (simp add: csum_words_def csum_loop.simps [of b w nleft acc] rd_le16_in nl d m_def [symmetric] add.assoc)
  next
    case False
    then consider "nleft = 0" | "nleft = 1" using "1.prems" by linarith
    then show ?thesis
    proof cases
      case 1
      then show ?thesis by (simp add: csum_words_def csum_loop.simps)
    next
      case 2
      then have "w < length b" using "1.prems" by simp
      then show ?thesis using 2
        by (simp add: csum_words_def csum_loop.simps rd8_def take_Suc_conv_app_nth hd_drop_conv_nth take_Suc)
    qed
  qed
qed


lemma unat_signed_drop_16:
  assumes "unat (w :: u32) < 2147483648"
  shows "unat (signed_drop_bit 16 w) = unat w div 65536"
proof -
  have "sint (signed_drop_bit 16 w) = int (unat w div 65536)"
    using assms by (simp add: sint_signed_drop_bit_eq sint_u32_nonneg drop_bit_eq_div zdiv_int)
  moreover have n: "unat (of_nat (unat w div 65536) :: u32) = unat w div 65536"
    using assms by (simp add: unsigned_of_nat take_bit_eq_mod)
  then have "sint (of_nat (unat w div 65536) :: u32) = int (unat w div 65536)"
    using assms sint_u32_nonneg [of "of_nat (unat w div 65536)"] by simp
  ultimately have "signed_drop_bit 16 w = of_nat (unat w div 65536)"
    by (metis word_eq_iff_signed)
  then show ?thesis using n by simp
qed

lemma unat_not_u16: "unat (NOT (x :: u16)) = 65535 - unat x"
proof -
  have "NOT x = -1 - x" by (simp add: not_eq_complement)
  moreover have "x \<le> -1" by (rule word_order.extremum)
  moreover have "unat (-1 :: u16) = 65535" by (simp add: unsigned_minus_1_eq_mask mask_eq_exp_minus_1)
  ultimately show ?thesis by (simp add: unat_sub)
qed

text \<open>One's complement reduction by folding the high half twice.\<close>

lemma ones_sum_fold:
  assumes "t < 2147483648"
  defines "s1 \<equiv> t div 65536 + t mod 65536"
  shows "(s1 + s1 div 65536) mod 65536 = ones_sum t"
proof -
  have t: "t = 65536 * (t div 65536) + t mod 65536" by simp
  have b: "t div 65536 < 32768" "t mod 65536 < 65536" using assms by simp_all
  then have s1: "s1 < 98304" by (simp add: s1_def)
  have m: "t mod 65535 = s1 mod 65535"
  proof -
    have "t = s1 + 65535 * (t div 65536)" using t by (simp add: s1_def)
    then show ?thesis by (metis mod_mult_self2)
  qed
  show ?thesis
  proof (cases "s1 = 0")
    case True
    then show ?thesis using t by (simp add: s1_def ones_sum_def)
  next
    case False
    then have t0: "0 < t" using t by (auto simp: s1_def)
    have tm: "(t - 1) mod 65535 = (s1 - 1) mod 65535"
    proof -
      have "t - 1 = (s1 - 1) + 65535 * (t div 65536)" using t False unfolding s1_def by linarith
      then show ?thesis by (metis mod_mult_self2)
    qed
    show ?thesis
    proof (cases "s1 < 65536")
      case True
      then show ?thesis using tm t0 False by (simp add: ones_sum_def)
    next
      case False
      then have "s1 div 65536 = 1" using s1 by (simp add: div_nat_eqI)
      moreover have "(s1 + 1) mod 65536 = s1 - 65535"
        using False s1 by (simp add: mod_if)
      moreover have "(s1 - 1) mod 65535 = s1 - 1 - 65535"
        using False s1 by (simp add: mod_if)
      moreover have "s1 - 65535 = (s1 - 1 - 65535) + 1" using False by linarith
      ultimately show ?thesis using tm t0 by (simp add: ones_sum_def)
    qed
  qed
qed

lemma fold_carries_spec:
  assumes "unat acc < 2147483648"
  shows "unat (fold_carries acc) = 65535 - ones_sum (unat acc)"
proof -
  define s1 where "s1 = signed_drop_bit 16 acc + (acc AND 0xffff)"
  have low: "unat (acc AND 0xffff) = unat acc mod 65536"
  proof -
    have "acc AND 0xffff = take_bit 16 acc" by (simp add: take_bit_eq_mask mask_eq_exp_minus_1)
    then show ?thesis by (simp add: take_bit_eq_mod unat_mod_distrib)
  qed
  have u1: "unat s1 = unat acc div 65536 + unat acc mod 65536"
    using assms by (simp add: s1_def unat_word_ariths unat_signed_drop_16 low)
  have b1: "unat s1 < 98304" using assms by (simp add: u1)
  have u2: "unat (s1 + signed_drop_bit 16 s1) = unat s1 + unat s1 div 65536"
    using b1 by (simp add: unat_word_ariths unat_signed_drop_16)
  have "unat (ucast (s1 + signed_drop_bit 16 s1) :: u16) = ones_sum (unat acc)"
    using ones_sum_fold [OF assms] by (simp add: unsigned_ucast_eq take_bit_eq_mod u2 u1)
  then show ?thesis by (simp add: fold_carries_def Let_def s1_def [symmetric] unat_not_u16)
qed


section \<open>The routine against its specification\<close>

definition block_sum :: "bytes \<Rightarrow> nat \<Rightarrow> nat \<Rightarrow> nat" where
  "block_sum b addr len = sum_list (words16 (take len (drop addr b)))"

lemma ip_check_ext_spec:
  assumes "addr + len \<le> length b" and "unat addon + block_sum b addr len < 2147483648"
  shows "ip_check_ext b addr (int len) addon =
           Some (of_nat (65535 - ones_sum (unat addon + block_sum b addr len)))"
proof -
  let ?t = "unat addon + block_sum b addr len"
  let ?acc = "addon + of_nat (block_sum b addr len) :: u32"
  have "unat ?acc = ?t"
    using assms(2) by (simp add: unat_word_ariths unsigned_of_nat take_bit_eq_mod)
  then have f: "unat (fold_carries ?acc) = 65535 - ones_sum ?t"
    using fold_carries_spec [of ?acc] assms(2) by simp
  have "ip_check_ext b addr (int len) addon = Some (fold_carries ?acc)"
    using csum_words_sum [of addr "int len" b addon] assms(1) by (simp add: ip_check_ext_def block_sum_def)
  then show ?thesis using f by (metis of_nat_unat ucast_id)
qed

lemma block_sum_le: "block_sum b addr len \<le> 65535 * ((len + 1) div 2)"
proof -
  have "block_sum b addr len \<le> 65535 * ((length (take len (drop addr b)) + 1) div 2)"
    unfolding block_sum_def by (rule words16_le)
  also have "\<dots> \<le> 65535 * ((len + 1) div 2)" by (intro mult_le_mono2 div_le_mono) simp
  finally show ?thesis .
qed

text \<open>The six words of a pseudo header sum to at most \<open>6 * 65535\<close>.\<close>

lemma psuedo_sum_bound: "length h \<le> 2 * n \<Longrightarrow> unat acc + 65535 * n < 4294967296 \<Longrightarrow> unat (psuedo_sum h acc) \<le> unat acc + 65535 * n"
proof (induction h acc arbitrary: n rule: psuedo_sum.induct)
  case (1 x y r acc)
  then obtain m where n: "n = Suc m" by (cases n) auto
  have "unat (acc + ucast (be16 y x)) = unat acc + unat (be16 y x)"
    using "1.prems" n unat_u16_less [of "be16 y x"] by (simp add: unat_word_ariths)
  then show ?case
    using "1.IH" [of m] "1.prems" n unat_u16_less [of "be16 y x"] by simp
qed auto

text \<open>
  C26.  \<open>ip_check_ext\<close> is the Internet checksum: for every block of at most 65515 bytes (the largest
  payload of an IP datagram) and every pseudo header, its 32-bit accumulator does not
  overflow, it reads inside the block, and it returns the complement of the one's complement
  sum.
\<close>

theorem ip_check_ext_is_rfc1071:
  assumes "addr + len \<le> length b" and "len \<le> 65515" and "length hdr = 12"
  shows "ip_check_ext b addr (int len) (psuedo_sum hdr 0) =
           Some (of_nat (65535 - ones_sum (unat (psuedo_sum hdr 0) + block_sum b addr len)))"
proof (rule ip_check_ext_spec [OF assms(1)])
  have "unat (psuedo_sum hdr 0) \<le> 65535 * 6"
    using psuedo_sum_bound [of hdr 6 0] assms(3) by simp
  moreover have "block_sum b addr len \<le> 65535 * 32758"
  proof -
    have "(len + 1) div 2 \<le> 32758" using assms(2) by linarith
    then show ?thesis using block_sum_le [of b addr len] by (meson le_trans mult_le_mono2)
  qed
  ultimately show "unat (psuedo_sum hdr 0) + block_sum b addr len < 2147483648" by simp
qed

theorem ip_check_ext_is_rfc1071_witness:
  "ip_check_ext [0x45, 0, 1] 0 3 (psuedo_sum (psuedo_hdr 1 2 6 3) 0) =
     Some (of_nat (65535 - ones_sum (unat (psuedo_sum (psuedo_hdr 1 2 6 3) 0) + block_sum [0x45, 0, 1] 0 3)))"
  using ip_check_ext_is_rfc1071 [of 0 3 "[0x45, 0, 1]" "psuedo_hdr 1 2 6 3"] by (simp add: psuedo_hdr_def)


section \<open>A stored checksum verifies\<close>

text \<open>
  Storing the 16-bit value \<open>c\<close> at offset \<open>p\<close> of a block, in the machine's byte order (the
  checksum is computed and stored without byte swapping).
\<close>

definition store16 :: "bytes \<Rightarrow> nat \<Rightarrow> u16 \<Rightarrow> bytes" where
  "store16 b p c = b[p := ucast c, Suc p := ucast (drop_bit 8 c)]"

lemma length_store16 [simp]: "length (store16 b p c) = length b"
  by (simp add: store16_def)

lemma unat_split_u16: "unat (ucast (c :: u16) :: u8) + 256 * unat (ucast (drop_bit 8 c) :: u8) = unat c"
proof -
  have "unat (ucast c :: u8) = unat c mod 256"
    by (simp add: unsigned_ucast_eq take_bit_eq_mod)
  moreover have "unat (ucast (drop_bit 8 c) :: u8) = unat c div 256"
  proof -
    have "unat c div 256 < 256" using unat_u16_less [of c] by linarith
    then show ?thesis by (simp add: unsigned_ucast_eq take_bit_eq_mod drop_bit_eq_div unat_div_distrib)
  qed
  ultimately show ?thesis by (simp add: mult.commute)
qed

lemma words16_store:
  "even p \<Longrightarrow> Suc p < length b \<Longrightarrow> b ! p = 0 \<Longrightarrow> b ! Suc p = 0 \<Longrightarrow>
   sum_list (words16 (store16 b p c)) = sum_list (words16 b) + unat c"
proof (induction b arbitrary: p rule: words16.induct)
  case (3 x y r)
  show ?case
  proof (cases p)
    case 0
    then show ?thesis using "3.prems" by (simp add: store16_def unat_split_u16)
  next
    case (Suc q)
    then obtain m where p: "p = Suc (Suc m)" and "even m" using "3.prems" by (cases q) auto
    have "store16 (x # y # r) p c = x # y # store16 r m c" by (simp add: store16_def p)
    then show ?thesis using "3.IH" [of m] "3.prems" p \<open>even m\<close> by simp
  qed
qed auto

lemma block_sum_store:
  assumes "even p" and "p + 1 < len" and "addr + len \<le> length b"
    and "b ! (addr + p) = 0" and "b ! (addr + p + 1) = 0"
  shows "block_sum (store16 b (addr + p) c) addr len = block_sum b addr len + unat c"
proof -
  have "take len (drop addr (store16 b (addr + p) c)) = store16 (take len (drop addr b)) p c"
    using assms by (simp add: store16_def drop_update_swap take_update_swap)
  then show ?thesis
    using words16_store [of p "take len (drop addr b)" c] assms by (simp add: block_sum_def)
qed

lemma ones_sum_complement: "0 < t \<Longrightarrow> ones_sum (t + (65535 - ones_sum t)) = 65535"
proof -
  assume t: "0 < t"
  let ?m = "(t - 1) mod 65535"
  have m: "?m < 65535" by simp
  have e: "t + (65535 - ones_sum t) - 1 = (t - 1 - ?m) + 65534"
    using t m by (simp add: ones_sum_def)
  have "t - 1 - ?m = 65535 * ((t - 1) div 65535)" by (rule minus_mod_eq_mult_div)
  then have "(t - 1 - ?m + 65534) mod 65535 = 65534" by (simp only: mod_mult_self4) simp
  then show ?thesis using t e by (simp add: ones_sum_def)
qed

text \<open>
  C27.  Round trip: compute the checksum of a block whose checksum field (at an even offset) is
  zero, store it there, and the check of the result is zero, whatever pseudo header is added;
  the only exception is the all-zero sum, which no packet with a header has.
\<close>

theorem stored_checksum_verifies:
  assumes "addr + len \<le> length b" and "len \<le> 65515" and "length hdr = 12"
    and "even p" and "p + 1 < len" and "b ! (addr + p) = 0" and "b ! (addr + p + 1) = 0"
    and "0 < unat (psuedo_sum hdr 0) + block_sum b addr len"
    and "ip_check_ext b addr (int len) (psuedo_sum hdr 0) = Some c"
  shows "ip_check_ext (store16 b (addr + p) c) addr (int len) (psuedo_sum hdr 0) = Some 0"
proof -
  let ?a = "psuedo_sum hdr 0"
  let ?t = "unat ?a + block_sum b addr len"
  have a: "unat ?a \<le> 65535 * 6" using psuedo_sum_bound [of hdr 6 0] assms(3) by simp
  have lim: "65535 * ((len + 1) div 2) \<le> 65535 * 32758"
    using assms(2) by (intro mult_le_mono2) linarith
  have s: "block_sum b addr len \<le> 65535 * 32758" "block_sum (store16 b (addr + p) c) addr len \<le> 65535 * 32758"
    using block_sum_le lim by (meson le_trans)+
  have "unat c = 65535 - ones_sum ?t"
    using ip_check_ext_spec [OF assms(1), of ?a] assms(9) a s by (auto simp: unsigned_of_nat take_bit_eq_mod)
  then have r: "unat ?a + block_sum (store16 b (addr + p) c) addr len = ?t + (65535 - ones_sum ?t)"
    using block_sum_store [OF assms(4,5,1,6,7), of c] by simp
  have "ones_sum (unat ?a + block_sum (store16 b (addr + p) c) addr len) = 65535"
    unfolding r by (rule ones_sum_complement [OF assms(8)])
  then show ?thesis
    using ip_check_ext_spec [of addr len "store16 b (addr + p) c" ?a] assms(1) a s by simp
qed

theorem stored_checksum_verifies_witness:
  "ip_check_ext [0x45, 0, 0, 0] 0 4 (psuedo_sum (psuedo_hdr 1 2 6 4) 0) = Some 0xf5b7 \<and>
   ip_check_ext (store16 [0x45, 0, 0, 0] (0 + 2) 0xf5b7) 0 4 (psuedo_sum (psuedo_hdr 1 2 6 4) 0) = Some 0"
proof -
  have c: "ip_check_ext [0x45, 0, 0, 0] 0 (int 4) (psuedo_sum (psuedo_hdr 1 2 6 (4)) 0) = Some 0xf5b7"
    by code_simp
  have l: "length (psuedo_hdr 1 2 6 4) = 12" by (simp add: psuedo_hdr_def)
  have t: "0 < unat (psuedo_sum (psuedo_hdr 1 2 6 4) 0) + block_sum [0x45, 0, 0, 0] 0 4"
    by code_simp
  show ?thesis
    using stored_checksum_verifies [OF _ _ l _ _ _ _ t c, of 2] c by simp
qed

text \<open>
  \<open>dontchksum\<close> answers with the action of the first registered network that contains the
  address, and 0 when there is none; the entry with network and mask 0 and action 1, which the
  sniffer registers to switch checksums off, makes every TCP and UDP check succeed without
  reading the packet.
\<close>

theorem dontchksum_first_match:
  "dontchksum t ip = (case find (\<lambda>c. ip AND ctl_mask c = netaddr c) t of None \<Rightarrow> 0 | Some c \<Rightarrow> action c) \<and>
   my_tcp_check (nids_register_chksum_ctl [\<lparr>netaddr = 0, ctl_mask = 0, action = 1, reserved = r\<rparr>] 1) b th len ip daddr = Some 0 \<and>
   my_udp_check (nids_register_chksum_ctl [\<lparr>netaddr = 0, ctl_mask = 0, action = 1, reserved = r\<rparr>] 1) b th len ip daddr = Some 0"
proof -
  have "dontchksum t ip = (case find (\<lambda>c. ip AND ctl_mask c = netaddr c) t of None \<Rightarrow> 0 | Some c \<Rightarrow> action c)"
    by (induction t) auto
  then show ?thesis
    by (simp add: my_tcp_check_def my_udp_check_def l4_check_def nids_register_chksum_ctl_def)
qed

end
