(* ===== verification/Ip_Options.thy ===== *)
theory Ip_Options
  imports Prelude
begin

text \<open>
  The check of the options of an IP header (\<open>src/libnids/ip_options.c\<close>).  The routine walks the
  option area and rewrites it in place: it fills record-route and timestamp slots and clears
  what follows an end-of-list octet.  \<open>gen_ip_frag_proc\<close> drops a packet for which it
  answers \<open>-1\<close>.  The model returns \<open>None\<close> for an access outside the block, otherwise the
  answer and the rewritten block.  The theorems: the walk ends and writes only inside the
  option area; the answer is 0 exactly for option lists that are well formed and carry no
  source route.
\<close>

abbreviation (input) "IPOPT_END \<equiv> (0 :: u8)"
abbreviation (input) "IPOPT_NOOP \<equiv> (1 :: u8)"
abbreviation (input) "IPOPT_LSRR \<equiv> (131 :: u8)"
abbreviation (input) "IPOPT_SSRR \<equiv> (137 :: u8)"
abbreviation (input) "IPOPT_RR \<equiv> (7 :: u8)"
abbreviation (input) "IPOPT_TIMESTAMP \<equiv> (68 :: u8)"

text \<open>The members of \<open>struct options\<close> that the routine uses.\<close>

record ip_opts =
  srr :: u8
  rr :: u8
  ts :: u8
  is_strictroute :: bool
  is_changed :: bool
  rr_needaddr :: bool
  ts_needtime :: bool
  ts_needaddr :: bool

definition opts0 :: ip_opts where
  "opts0 = \<lparr>srr = 0, rr = 0, ts = 0, is_strictroute = False, is_changed = False,
     rr_needaddr = False, ts_needtime = False, ts_needaddr = False\<rparr>"

text \<open>A \<open>goto error\<close>, or the block and the record after the option.\<close>

datatype opt_result = Opt_error | Opt_ok bytes ip_opts

abbreviation (input) skb_pa_addr :: u32 where "skb_pa_addr \<equiv> 314159"

text \<open>
  \<open>for (optptr++, l--; l > 0; l--)\<close>: the pointer moves once, before the loop, so every turn looks at
  the same octet.
\<close>

fun end_loop :: "bytes \<Rightarrow> nat \<Rightarrow> nat \<Rightarrow> ip_opts \<Rightarrow> (bytes \<times> ip_opts) option" where
  "end_loop b optptr 0 opt = Some (b, opt)"
| "end_loop b optptr (Suc l) opt = do {
     x \<leftarrow> rd8 b optptr;
     if x \<noteq> IPOPT_END
     then do { b' \<leftarrow> wr b optptr [IPOPT_END]; end_loop b' optptr l (opt\<lparr>is_changed := True\<rparr>) }
     else end_loop b optptr l opt }"

definition opt_srr :: "bytes \<Rightarrow> nat \<Rightarrow> u8 \<Rightarrow> u8 \<Rightarrow> ip_opts \<Rightarrow> opt_result option" where
  "opt_srr b optptr kind optlen opt =
     (if optlen < 3 then Some Opt_error
      else do {
        ptr \<leftarrow> rd8 b (optptr + 2);
        if ptr < 4 then Some Opt_error
        else if srr opt \<noteq> 0 then Some Opt_error
        else Some (Opt_ok b (opt\<lparr>is_strictroute := (kind = IPOPT_SSRR), srr := of_nat optptr\<rparr>)) })"

definition opt_rr :: "bytes \<Rightarrow> nat \<Rightarrow> u8 \<Rightarrow> ip_opts \<Rightarrow> opt_result option" where
  "opt_rr b optptr optlen opt =
     (if rr opt \<noteq> 0 then Some Opt_error
      else if optlen < 3 then Some Opt_error
      else do {
        ptr \<leftarrow> rd8 b (optptr + 2);
        if ptr < 4 then Some Opt_error
        else if ptr \<le> optlen then
          if unat ptr + 3 > unat optlen then Some Opt_error
          else do {
            b1 \<leftarrow> wr b (optptr + unat ptr - 1) (le_bytes32 skb_pa_addr);
            b2 \<leftarrow> wr b1 (optptr + 2) [ptr + 4];
            Some (Opt_ok b2 (opt\<lparr>is_changed := True, rr_needaddr := True, rr := of_nat optptr\<rparr>)) }
        else Some (Opt_ok b (opt\<lparr>rr := of_nat optptr\<rparr>)) })"

text \<open>
  The slot of a timestamp option that still has room.  \<open>ip_chk_addr(x)\<close> is the constant 0, so the
  prespecified case leaves the option untouched.
\<close>

definition opt_ts_slot :: "bytes \<Rightarrow> nat \<Rightarrow> u8 \<Rightarrow> u8 \<Rightarrow> ip_opts \<Rightarrow> opt_result option" where
  "opt_ts_slot b optptr optlen ptr opt = do {
     fl \<leftarrow> rd8 b (optptr + 3);
     if unat ptr + 3 > unat optlen then Some Opt_error
     else if fl AND 0x0f = 0 then do {
       b1 \<leftarrow> wr b (optptr + 2) [ptr + 4];
       b2 \<leftarrow> wr b1 (optptr + unat ptr - 1) (le_bytes32 1);
       Some (Opt_ok b2 (opt\<lparr>ts := of_nat optptr, ts_needtime := True, is_changed := True\<rparr>)) }
     else if fl AND 0x0f = 1 then
       if unat ptr + 7 > unat optlen then Some Opt_error
       else do {
         b1 \<leftarrow> wr b (optptr + unat ptr - 1) (le_bytes32 skb_pa_addr);
         b2 \<leftarrow> wr b1 (optptr + 2) [ptr + 8];
         b3 \<leftarrow> wr b2 (optptr + unat ptr + 3) (le_bytes32 1);
         Some (Opt_ok b3 (opt\<lparr>ts := of_nat optptr, ts_needaddr := True, ts_needtime := True, is_changed := True\<rparr>)) }
     else if fl AND 0x0f = 3 then
       if unat ptr + 7 > unat optlen then Some Opt_error
       else do { _ \<leftarrow> rd_le32 b (optptr + unat ptr - 1); Some (Opt_ok b (opt\<lparr>ts := of_nat optptr\<rparr>)) }
     else Some Opt_error }"

text \<open>A full timestamp option: the overflow count in the high half of its flag octet.\<close>

definition opt_ts_full :: "bytes \<Rightarrow> nat \<Rightarrow> ip_opts \<Rightarrow> opt_result option" where
  "opt_ts_full b optptr opt = do {
     fl \<leftarrow> rd8 b (optptr + 3);
     if drop_bit 4 fl = 15 then Some Opt_error
     else do {
       b1 \<leftarrow> wr b (optptr + 3) [fl + 0x10];
       Some (Opt_ok b1 (opt\<lparr>ts := of_nat optptr, is_changed := True\<rparr>)) } }"

definition opt_ts :: "bytes \<Rightarrow> nat \<Rightarrow> u8 \<Rightarrow> ip_opts \<Rightarrow> opt_result option" where
  "opt_ts b optptr optlen opt =
     (if ts opt \<noteq> 0 then Some Opt_error
      else if optlen < 4 then Some Opt_error
      else do {
        ptr \<leftarrow> rd8 b (optptr + 2);
        if ptr < 5 then Some Opt_error
        else if ptr \<le> optlen then opt_ts_slot b optptr optlen ptr opt
        else opt_ts_full b optptr opt })"

text \<open>The second \<open>switch\<close>: one option of \<open>optlen\<close> octets at \<open>optptr\<close> (\<open>skb\<close> is 1 throughout).\<close>

definition opt_switch :: "bytes \<Rightarrow> nat \<Rightarrow> u8 \<Rightarrow> u8 \<Rightarrow> ip_opts \<Rightarrow> opt_result option" where
  "opt_switch b optptr kind optlen opt =
     (if kind = IPOPT_SSRR \<or> kind = IPOPT_LSRR then opt_srr b optptr kind optlen opt
      else if kind = IPOPT_RR then opt_rr b optptr optlen opt
      else if kind = IPOPT_TIMESTAMP then opt_ts b optptr optlen opt
      else Some (Opt_ok b opt))"

text \<open>The walk over the remaining \<open>l\<close> octets; an error answers \<open>-1\<close> at once.\<close>

function options_loop :: "bytes \<Rightarrow> nat \<Rightarrow> nat \<Rightarrow> ip_opts \<Rightarrow> (int \<times> bytes) option" where
  "options_loop b optptr l opt =
     (if l = 0 then Some (if srr opt = 0 then 0 else -1, b)
      else (case rd8 b optptr of None \<Rightarrow> None | Some kind \<Rightarrow>
        if kind = IPOPT_END then
          do { (b', opt') \<leftarrow> end_loop b (optptr + 1) (l - 1) opt; Some (if srr opt' = 0 then 0 else -1, b') }
        else if kind = IPOPT_NOOP then options_loop b (optptr + 1) (l - 1) opt
        else (case rd8 b (optptr + 1) of None \<Rightarrow> None | Some optlen \<Rightarrow>
          if optlen < 2 \<or> unat optlen > l then Some (-1, b)
          else (case opt_switch b optptr kind optlen opt of None \<Rightarrow> None
            | Some Opt_error \<Rightarrow> Some (-1, b)
            | Some (Opt_ok b' opt') \<Rightarrow> options_loop b' (optptr + unat optlen) (l - unat optlen) opt'))))"
  by pat_completeness auto
termination
proof (relation "measure (\<lambda>(b, optptr, l, opt). l)", goal_cases)
  case (3 b optptr l opt kind optlen r b' opt')
  then show ?case by (auto simp: word_less_nat_alt)
qed auto

declare options_loop.simps [simp del]

definition ip_options_compile :: "bytes \<Rightarrow> (int \<times> bytes) option" where
  "ip_options_compile b = do {
     x \<leftarrow> rd8 b 0;
     let ihl = unat (x AND 0x0f);
     let optlen = (word_of_int (int (ihl * 4) - 20) :: u8);
     options_loop b 20 (unat optlen) opts0 }"


section \<open>Writes stay inside the option\<close>

text \<open>Two blocks of the same size that agree outside \<open>[lo, hi)\<close>.\<close>

definition same_outside :: "nat \<Rightarrow> nat \<Rightarrow> bytes \<Rightarrow> bytes \<Rightarrow> bool" where
  "same_outside lo hi b b' \<longleftrightarrow>
     length b' = length b \<and> (\<forall>j. j < lo \<or> hi \<le> j \<longrightarrow> b' ! j = b ! j)"

lemma same_outside_refl [simp, intro]: "same_outside lo hi b b"
  by (simp add: same_outside_def)

lemma same_outside_length: "same_outside lo hi b b' \<Longrightarrow> length b' = length b"
  by (simp add: same_outside_def)

lemma same_outside_trans:
  "same_outside lo hi b b' \<Longrightarrow> same_outside lo' hi' b' b'' \<Longrightarrow> min lo lo' = l \<Longrightarrow> max hi hi' = h \<Longrightarrow>
   same_outside l h b b''"
  by (auto simp: same_outside_def)

lemma same_outside_mono:
  "same_outside lo' hi' b b' \<Longrightarrow> lo \<le> lo' \<Longrightarrow> hi' \<le> hi \<Longrightarrow> same_outside lo hi b b'"
  by (auto simp: same_outside_def)

lemma wr_same_outside:
  assumes "lo \<le> i" and "i + length xs \<le> hi" and "hi \<le> length b"
  shows "\<exists>b'. wr b i xs = Some b' \<and> same_outside lo hi b b'"
proof -
  obtain b' where w: "wr b i xs = Some b'" using assms by (simp add: wr_def)
  have "same_outside lo hi b b'"
    using length_wr [OF w] nth_wr [OF w] assms by (auto simp: same_outside_def)
  then show ?thesis using w by blast
qed

lemma wr_option:
  assumes "lo \<le> i" and "i + length xs \<le> hi" and "hi \<le> length c" and "same_outside lo hi b c"
  obtains b' where "wr c i xs = Some b'" and "same_outside lo hi b b'" and "length b' = length c"
  using wr_same_outside [OF assms(1-3)] assms(4)
  by (metis same_outside_trans same_outside_length max.idem min.idem)


section \<open>Specification of an option list\<close>

text \<open>
  Splitting an option area into its options: one-octet options stand alone, every other option is
  a kind, a length that counts both, and its data; nothing after an end-of-list octet counts.
\<close>

function split_options :: "bytes \<Rightarrow> bytes list option" where
  "split_options [] = Some []"
| "split_options [x] = (if x = IPOPT_END \<or> x = IPOPT_NOOP then Some [] else None)"
| "split_options (x # n # r) =
     (if x = IPOPT_END then Some []
      else if x = IPOPT_NOOP then split_options (n # r)
      else if n < 2 \<or> unat n > length (x # n # r) then None
      else map_option (Cons (take (unat n) (x # n # r))) (split_options (drop (unat n) (x # n # r))))"
  by pat_completeness auto
termination
proof (relation "measure length", goal_cases)
  case (3 x n r)
  then show ?case by (auto simp: word_less_nat_alt)
qed auto

definition is_srr :: "bytes \<Rightarrow> bool" where "is_srr o1 \<longleftrightarrow> hd o1 = IPOPT_SSRR \<or> hd o1 = IPOPT_LSRR"
definition is_rr :: "bytes \<Rightarrow> bool" where "is_rr o1 \<longleftrightarrow> hd o1 = IPOPT_RR"
definition is_ts :: "bytes \<Rightarrow> bool" where "is_ts o1 \<longleftrightarrow> hd o1 = IPOPT_TIMESTAMP"

text \<open>A slot option whose pointer is past the end is full; otherwise the slot fits.\<close>

definition rr_wf :: "bytes \<Rightarrow> bool" where
  "rr_wf o1 \<longleftrightarrow> 3 \<le> length o1 \<and> 4 \<le> unat (o1 ! 2) \<and>
     (unat (o1 ! 2) \<le> length o1 \<longrightarrow> unat (o1 ! 2) + 3 \<le> length o1)"

definition ts_wf :: "bytes \<Rightarrow> bool" where
  "ts_wf o1 \<longleftrightarrow> 4 \<le> length o1 \<and> 5 \<le> unat (o1 ! 2) \<and>
     (if unat (o1 ! 2) \<le> length o1
      then (o1 ! 3 AND 0x0f = 0 \<and> unat (o1 ! 2) + 3 \<le> length o1) \<or>
           ((o1 ! 3 AND 0x0f = 1 \<or> o1 ! 3 AND 0x0f = 3) \<and> unat (o1 ! 2) + 7 \<le> length o1)
      else drop_bit 4 (o1 ! 3) \<noteq> 15)"

definition srr_wf :: "bytes \<Rightarrow> bool" where
  "srr_wf o1 \<longleftrightarrow> 3 \<le> length o1 \<and> 4 \<le> unat (o1 ! 2)"

definition options_accepted :: "bytes \<Rightarrow> bool" where
  "options_accepted area \<longleftrightarrow> (case split_options area of None \<Rightarrow> False
     | Some opts \<Rightarrow> (\<forall>o1 \<in> set opts. \<not> is_srr o1 \<and> (is_rr o1 \<longrightarrow> rr_wf o1) \<and> (is_ts o1 \<longrightarrow> ts_wf o1)) \<and>
         length (filter is_rr opts) \<le> 1 \<and> length (filter is_ts opts) \<le> 1)"

section \<open>One option\<close>

text \<open>What an option must satisfy given the options seen before it, and what it leaves behind.\<close>

definition opt_accept :: "ip_opts \<Rightarrow> bytes \<Rightarrow> bool" where
  "opt_accept opt o1 \<longleftrightarrow> (is_srr o1 \<longrightarrow> srr_wf o1 \<and> srr opt = 0) \<and>
     (is_rr o1 \<longrightarrow> rr_wf o1 \<and> rr opt = 0) \<and> (is_ts o1 \<longrightarrow> ts_wf o1 \<and> ts opt = 0)"

definition seen_after :: "ip_opts \<Rightarrow> bytes \<Rightarrow> ip_opts \<Rightarrow> bool" where
  "seen_after opt o1 opt' \<longleftrightarrow> (srr opt' \<noteq> 0 \<longleftrightarrow> srr opt \<noteq> 0 \<or> is_srr o1) \<and>
     (rr opt' \<noteq> 0 \<longleftrightarrow> rr opt \<noteq> 0 \<or> is_rr o1) \<and> (ts opt' \<noteq> 0 \<longleftrightarrow> ts opt \<noteq> 0 \<or> is_ts o1)"

definition opt_outcome :: "ip_opts \<Rightarrow> bytes \<Rightarrow> nat \<Rightarrow> nat \<Rightarrow> bool \<Rightarrow> opt_result option \<Rightarrow> bool" where
  "opt_outcome opt b lo hi ok r \<longleftrightarrow> (\<exists>x. r = Some x \<and> (case x of Opt_error \<Rightarrow> \<not> ok
     | Opt_ok b' opt' \<Rightarrow> ok \<and> same_outside lo hi b b' \<and> seen_after opt (take (hi - lo) (drop lo b)) opt'))"

lemma opt_outcome_error [simp]: "opt_outcome opt b lo hi ok (Some Opt_error) \<longleftrightarrow> \<not> ok"
  by (simp add: opt_outcome_def)

lemma opt_outcome_ok [simp]:
  "opt_outcome opt b lo hi ok (Some (Opt_ok b' opt')) \<longleftrightarrow>
     ok \<and> same_outside lo hi b b' \<and> seen_after opt (take (hi - lo) (drop lo b)) opt'"
  by (simp add: opt_outcome_def)

lemma opt_outcome_wr:
  assumes "lo \<le> i" and "i + length xs \<le> hi" and "hi \<le> length c" and "same_outside lo hi b c"
    and "\<And>c'. same_outside lo hi b c' \<Longrightarrow> length c' = length c \<Longrightarrow> opt_outcome opt b lo hi ok (f c')"
  shows "opt_outcome opt b lo hi ok (wr c i xs \<bind> f)"
proof -
  obtain c' where "wr c i xs = Some c'" "same_outside lo hi b c'" "length c' = length c"
    using wr_option [OF assms(1-4)] by blast
  then show ?thesis using assms(5) [of c'] by simp
qed

lemma of_nat_optptr: "0 < n \<Longrightarrow> n < 256 \<Longrightarrow> (of_nat n :: u8) \<noteq> 0"
proof
  assume n: "0 < n" "n < 256" and z: "(of_nat n :: u8) = 0"
  have "unat (of_nat n :: u8) = n" using n by (simp add: unsigned_of_nat take_bit_eq_mod)
  then show False using z n by simp
qed


text \<open>The facts the three cases share: \<open>n\<close> octets of the block at \<open>p\<close>.\<close>

definition opt_at :: "bytes \<Rightarrow> nat \<Rightarrow> nat \<Rightarrow> bytes" where
  "opt_at b p n = take n (drop p b)"

lemma length_opt_at: "p + n \<le> length b \<Longrightarrow> length (opt_at b p n) = n"
  by (simp add: opt_at_def)

lemma nth_opt_at: "p + n \<le> length b \<Longrightarrow> i < n \<Longrightarrow> opt_at b p n ! i = b ! (p + i)"
  by (simp add: opt_at_def)

lemma hd_opt_at: "p + n \<le> length b \<Longrightarrow> 0 < n \<Longrightarrow> hd (opt_at b p n) = b ! p"
  by (simp add: opt_at_def hd_drop_conv_nth)

lemmas opt_at_simps = length_opt_at nth_opt_at hd_opt_at

lemma opt_srr_outcome:
  assumes "p + unat n \<le> length b" and "2 \<le> n" and "20 \<le> p" and "p < 256"
    and "is_srr (opt_at b p (unat n))"
  shows "opt_outcome opt b p (p + unat n) (opt_accept opt (opt_at b p (unat n))) (opt_srr b p (b ! p) n opt)"
proof (cases "n < 3")
  case True
  then show ?thesis using assms by (simp add: opt_srr_def opt_accept_def srr_wf_def opt_at_simps word_less_nat_alt)
next
  case False
  then have n: "3 \<le> unat n" by (simp add: word_less_nat_alt)
  then have r: "rd8 b (p + 2) = Some (b ! (p + 2))" using assms(1) by (simp add: rd8_def)
  have acc: "opt_accept opt (opt_at b p (unat n)) \<longleftrightarrow> 4 \<le> unat (b ! (p + 2)) \<and> srr opt = 0"
    using assms n by (auto simp: opt_accept_def srr_wf_def opt_at_simps is_srr_def is_rr_def is_ts_def)
  have nz: "(of_nat p :: u8) \<noteq> 0" using assms by (intro of_nat_optptr) simp_all
  show ?thesis using False r assms(5) nz unfolding acc
    by (auto simp: opt_srr_def seen_after_def opt_at_def [symmetric] word_less_nat_alt is_rr_def is_ts_def is_srr_def)
qed

lemma opt_rr_outcome:
  assumes "p + unat n \<le> length b" and "2 \<le> n" and "20 \<le> p" and "p < 256"
    and "is_rr (opt_at b p (unat n))"
  shows "opt_outcome opt b p (p + unat n) (opt_accept opt (opt_at b p (unat n))) (opt_rr b p n opt)"
proof (cases "n < 3")
  case True
  then show ?thesis using assms by (simp add: opt_rr_def opt_accept_def rr_wf_def opt_at_simps word_less_nat_alt)
next
  case False
  then have n: "3 \<le> unat n" by (simp add: word_less_nat_alt)
  then have r: "rd8 b (p + 2) = Some (b ! (p + 2))" using assms(1) by (simp add: rd8_def)
  let ?q = "unat (b ! (p + 2))"
  have acc: "opt_accept opt (opt_at b p (unat n)) \<longleftrightarrow> rr opt = 0 \<and> 4 \<le> ?q \<and> (?q \<le> unat n \<longrightarrow> ?q + 3 \<le> unat n)"
    using assms n by (auto simp: opt_accept_def rr_wf_def opt_at_simps is_srr_def is_rr_def is_ts_def)
  have nz: "(of_nat p :: u8) \<noteq> 0" using assms by (intro of_nat_optptr) simp_all
  have seen: "seen_after opt (take (p + unat n - p) (drop p b)) (opt\<lparr>is_changed := True, rr_needaddr := True, rr := of_nat p\<rparr>)"
    "seen_after opt (take (p + unat n - p) (drop p b)) (opt\<lparr>rr := of_nat p\<rparr>)"
    using assms(5) nz by (auto simp: seen_after_def opt_at_def [symmetric] is_rr_def is_srr_def is_ts_def)
  show ?thesis
  proof (cases "rr opt = 0 \<and> 4 \<le> ?q \<and> ?q \<le> unat n \<and> ?q + 3 \<le> unat n")
    case True
    then have e: "opt_rr b p n opt = (wr b (p + ?q - 1) (le_bytes32 skb_pa_addr) \<bind> (\<lambda>b1.
         wr b1 (p + 2) [b ! (p + 2) + 4] \<bind> (\<lambda>b2.
         Some (Opt_ok b2 (opt\<lparr>is_changed := True, rr_needaddr := True, rr := of_nat p\<rparr>)))))"
      using False r by (simp add: opt_rr_def word_less_nat_alt word_le_nat_alt)
    show ?thesis unfolding e
      by (intro opt_outcome_wr) (use True assms(1) n seen acc in auto)
  next
    case F: False
    then show ?thesis using False r seen unfolding acc
      by (auto simp: opt_rr_def word_less_nat_alt word_le_nat_alt)
  qed
qed

lemma opt_ts_slot_outcome:
  assumes "p + unat n \<le> length b" and "4 \<le> unat n" and "20 \<le> p" and "p < 256"
    and "is_ts (opt_at b p (unat n))" and "5 \<le> unat q" and "unat q \<le> unat n" and "q = b ! (p + 2)" and "ts opt = 0"
  shows "opt_outcome opt b p (p + unat n) (opt_accept opt (opt_at b p (unat n))) (opt_ts_slot b p n q opt)"
proof -
  let ?fl = "b ! (p + 3)"
  have r: "rd8 b (p + 3) = Some ?fl" using assms(1,2) by (simp add: rd8_def)
  have acc: "opt_accept opt (opt_at b p (unat n)) \<longleftrightarrow> (?fl AND 0x0f = 0 \<and> unat q + 3 \<le> unat n) \<or>
      ((?fl AND 0x0f = 1 \<or> ?fl AND 0x0f = 3) \<and> unat q + 7 \<le> unat n)"
    using assms by (auto simp: opt_accept_def ts_wf_def opt_at_simps is_srr_def is_rr_def is_ts_def)
  have nz: "(of_nat p :: u8) \<noteq> 0" using assms by (intro of_nat_optptr) simp_all
  have seen: "\<And>x y z. seen_after opt (take (p + unat n - p) (drop p b)) (opt\<lparr>ts := of_nat p, ts_needtime := x, is_changed := y\<rparr>)"
    "\<And>x y z. seen_after opt (take (p + unat n - p) (drop p b)) (opt\<lparr>ts := of_nat p, ts_needaddr := z, ts_needtime := x, is_changed := y\<rparr>)"
    "seen_after opt (take (p + unat n - p) (drop p b)) (opt\<lparr>ts := of_nat p\<rparr>)"
    using assms(5) nz by (auto simp: seen_after_def opt_at_def [symmetric] is_rr_def is_srr_def is_ts_def)
  consider (small) "unat q + 3 > unat n" | (only) "unat q + 3 \<le> unat n" "?fl AND 0x0f = 0"
    | (addr) "unat q + 3 \<le> unat n" "?fl AND 0x0f = 1" | (spec) "unat q + 3 \<le> unat n" "?fl AND 0x0f = 3"
    | (bad) "unat q + 3 \<le> unat n" "?fl AND 0x0f \<noteq> 0" "?fl AND 0x0f \<noteq> 1" "?fl AND 0x0f \<noteq> 3" by linarith
  then show ?thesis
  proof cases
    case small
    then show ?thesis using r acc by (simp add: opt_ts_slot_def)
  next
    case only
    have e: "opt_ts_slot b p n q opt = (wr b (p + 2) [q + 4] \<bind> (\<lambda>b1. wr b1 (p + unat q - 1) (le_bytes32 1) \<bind>
        (\<lambda>b2. Some (Opt_ok b2 (opt\<lparr>ts := of_nat p, ts_needtime := True, is_changed := True\<rparr>)))))"
      using only r by (simp add: opt_ts_slot_def)
    show ?thesis unfolding e by (intro opt_outcome_wr) (use only assms acc seen in auto)
  next
    case addr
    show ?thesis
    proof (cases "unat q + 7 > unat n")
      case True
      then show ?thesis using addr r acc by (simp add: opt_ts_slot_def)
    next
      case False
      have e: "opt_ts_slot b p n q opt = (wr b (p + unat q - 1) (le_bytes32 skb_pa_addr) \<bind> (\<lambda>b1. wr b1 (p + 2) [q + 8] \<bind>
          (\<lambda>b2. wr b2 (p + unat q + 3) (le_bytes32 1) \<bind>
          (\<lambda>b3. Some (Opt_ok b3 (opt\<lparr>ts := of_nat p, ts_needaddr := True, ts_needtime := True, is_changed := True\<rparr>))))))"
        using addr False r by (simp add: opt_ts_slot_def)
      show ?thesis unfolding e by (intro opt_outcome_wr) (use False addr assms acc seen in auto)
    qed
  next
    case spec
    have w: "rd_le32 b (p + unat q - 1) \<noteq> None" if "unat q + 7 \<le> unat n"
      using that assms(1,6) by (simp add: rd_le32_in)
    show ?thesis
    proof (cases "unat q + 7 > unat n")
      case True
      then show ?thesis using spec r acc by (simp add: opt_ts_slot_def)
    next
      case False
      then obtain v where "rd_le32 b (p + unat q - 1) = Some v" using w by fastforce
      then show ?thesis using False spec r acc seen(3) by (simp add: opt_ts_slot_def)
    qed
  next
    case bad
    then show ?thesis using r acc by (simp add: opt_ts_slot_def)
  qed
qed


lemma opt_ts_outcome:
  assumes "p + unat n \<le> length b" and "2 \<le> n" and "20 \<le> p" and "p < 256"
    and "is_ts (opt_at b p (unat n))"
  shows "opt_outcome opt b p (p + unat n) (opt_accept opt (opt_at b p (unat n))) (opt_ts b p n opt)"
proof (cases "n < 4")
  case True
  then show ?thesis using assms by (simp add: opt_ts_def opt_accept_def ts_wf_def opt_at_simps word_less_nat_alt)
next
  case False
  then have n: "4 \<le> unat n" by (simp add: word_less_nat_alt)
  let ?q = "b ! (p + 2)" and ?fl = "b ! (p + 3)"
  have r: "rd8 b (p + 2) = Some ?q" "rd8 b (p + 3) = Some ?fl" using assms(1) n by (simp_all add: rd8_def)
  show ?thesis
  proof (cases "ts opt = 0 \<and> 5 \<le> unat ?q")
    case F: False
    then have "\<not> opt_accept opt (opt_at b p (unat n))"
      using assms n by (auto simp: opt_accept_def ts_wf_def opt_at_simps)
    then show ?thesis using F False r by (auto simp: opt_ts_def word_less_nat_alt)
  next
    case T: True
    show ?thesis
    proof (cases "unat ?q \<le> unat n")
      case True
      then have "opt_ts b p n opt = opt_ts_slot b p n ?q opt"
        using T False r by (simp add: opt_ts_def word_less_nat_alt word_le_nat_alt)
      then show ?thesis using opt_ts_slot_outcome [OF assms(1) n assms(3,4,5) _ True refl] T by simp
    next
      case F: False
      then have acc: "opt_accept opt (opt_at b p (unat n)) \<longleftrightarrow> drop_bit 4 ?fl \<noteq> 15"
        using T assms n by (auto simp: opt_accept_def ts_wf_def opt_at_simps is_srr_def is_rr_def is_ts_def)
      have nz: "(of_nat p :: u8) \<noteq> 0" using assms by (intro of_nat_optptr) simp_all
      have seen: "seen_after opt (take (p + unat n - p) (drop p b)) (opt\<lparr>ts := of_nat p, is_changed := True\<rparr>)"
        using assms(5) nz by (auto simp: seen_after_def opt_at_def [symmetric] is_rr_def is_srr_def is_ts_def)
      have e: "opt_ts b p n opt = (if drop_bit 4 ?fl = 15 then Some Opt_error else
          wr b (p + 3) [?fl + 0x10] \<bind> (\<lambda>b1. Some (Opt_ok b1 (opt\<lparr>ts := of_nat p, is_changed := True\<rparr>))))"
        using T F False r by (simp add: opt_ts_def opt_ts_full_def word_less_nat_alt word_le_nat_alt)
      show ?thesis
      proof (cases "drop_bit 4 ?fl = 15")
        case True
        then show ?thesis using acc e by simp
      next
        case nb: False
        show ?thesis unfolding e if_not_P [OF nb]
          by (intro opt_outcome_wr) (use nb assms(1) n acc seen in auto)
      qed
    qed
  qed
qed

lemma opt_switch_outcome:
  assumes "p + unat n \<le> length b" and "2 \<le> n" and "20 \<le> p" and "p < 256"
  shows "opt_outcome opt b p (p + unat n) (opt_accept opt (opt_at b p (unat n))) (opt_switch b p (b ! p) n opt)"
proof -
  have n: "0 < unat n" using assms(2) by (simp add: word_le_nat_alt)
  have hd: "hd (opt_at b p (unat n)) = b ! p" using assms(1) n by (rule hd_opt_at)
  consider (srr) "is_srr (opt_at b p (unat n))" | (rr) "is_rr (opt_at b p (unat n))" | (ts) "is_ts (opt_at b p (unat n))"
    | (other) "\<not> is_srr (opt_at b p (unat n))" "\<not> is_rr (opt_at b p (unat n))" "\<not> is_ts (opt_at b p (unat n))" by blast
  then show ?thesis
  proof cases
    case srr
    then have "opt_switch b p (b ! p) n opt = opt_srr b p (b ! p) n opt"
      by (auto simp: opt_switch_def is_srr_def hd)
    then show ?thesis using opt_srr_outcome [OF assms srr] by simp
  next
    case rr
    then have "opt_switch b p (b ! p) n opt = opt_rr b p n opt"
      by (simp add: opt_switch_def is_rr_def hd)
    then show ?thesis using opt_rr_outcome [OF assms rr] by simp
  next
    case ts
    then have "opt_switch b p (b ! p) n opt = opt_ts b p n opt"
      by (simp add: opt_switch_def is_ts_def hd)
    then show ?thesis using opt_ts_outcome [OF assms ts] by simp
  next
    case other
    then have "opt_switch b p (b ! p) n opt = Some (Opt_ok b opt)"
      by (simp add: opt_switch_def is_srr_def is_rr_def is_ts_def hd)
    then show ?thesis using other by (simp add: opt_accept_def seen_after_def opt_at_def)
  qed
qed

section \<open>The walk\<close>

lemma end_loop_ok:
  "p < length b \<Longrightarrow> \<exists>b' opt'. end_loop b p l opt = Some (b', opt') \<and> same_outside p (Suc p) b b' \<and> srr opt' = srr opt"
proof (induction b p l opt rule: end_loop.induct)
  case (2 b p l opt)
  have r: "rd8 b p = Some (b ! p)" using "2.prems" by (simp add: rd8_def)
  show ?case
  proof (cases "b ! p = IPOPT_END")
    case True
    then show ?thesis using "2.IH"(2) [of "b ! p"] "2.prems" r by simp
  next
    case False
    obtain c where w: "wr b p [IPOPT_END] = Some c" and s: "same_outside p (Suc p) b c" and lc: "length c = length b"
      using wr_option [of p p "[IPOPT_END]" "Suc p" b b] "2.prems" by auto
    then obtain b' opt' where "end_loop c p l (opt\<lparr>is_changed := True\<rparr>) = Some (b', opt')"
        and "same_outside p (Suc p) c b'" and "srr opt' = srr opt"
      using "2.IH"(1) [of "b ! p" c] r False "2.prems" by auto
    then show ?thesis using r False w s same_outside_trans [of p "Suc p" b c p "Suc p" b'] by simp
  qed
qed auto

lemma same_outside_opt_at:
  "same_outside lo hi b b' \<Longrightarrow> hi \<le> p \<Longrightarrow> p + n \<le> length b \<Longrightarrow> opt_at b' p n = opt_at b p n"
  by (rule nth_equalityI) (auto simp: opt_at_simps same_outside_def)

text \<open>The options still to come, judged after the ones already seen.\<close>

definition rest_accepted :: "ip_opts \<Rightarrow> bytes \<Rightarrow> bool" where
  "rest_accepted opt area \<longleftrightarrow> srr opt = 0 \<and> (case split_options area of None \<Rightarrow> False
     | Some opts \<Rightarrow> (\<forall>o1 \<in> set opts. \<not> is_srr o1 \<and> (is_rr o1 \<longrightarrow> rr_wf o1) \<and> (is_ts o1 \<longrightarrow> ts_wf o1)) \<and>
         length (filter is_rr opts) + (if rr opt = 0 then 0 else 1) \<le> 1 \<and>
         length (filter is_ts opts) + (if ts opt = 0 then 0 else 1) \<le> 1)"

lemma rest_accepted_Nil: "rest_accepted opt [] \<longleftrightarrow> srr opt = 0"
  by (auto simp: rest_accepted_def)

lemma rest_accepted_end: "rest_accepted opt (IPOPT_END # r) \<longleftrightarrow> srr opt = 0"
  by (cases r) (auto simp: rest_accepted_def)

lemma rest_accepted_noop: "rest_accepted opt (IPOPT_NOOP # r) \<longleftrightarrow> rest_accepted opt r"
  by (cases r) (auto simp: rest_accepted_def)

lemma rest_accepted_reject:
  "x \<noteq> IPOPT_END \<Longrightarrow> x \<noteq> IPOPT_NOOP \<Longrightarrow> r = [] \<or> hd r < 2 \<or> unat (hd r) > length (x # r) \<Longrightarrow> \<not> rest_accepted opt (x # r)"
  by (cases r) (auto simp: rest_accepted_def)

lemma rest_accepted_option:
  assumes "x \<noteq> IPOPT_END" and "x \<noteq> IPOPT_NOOP" and "2 \<le> n" and "unat n \<le> length (x # n # r)"
  defines "o1 \<equiv> take (unat n) (x # n # r)" and "rest \<equiv> drop (unat n) (x # n # r)"
  shows "\<not> opt_accept opt o1 \<Longrightarrow> \<not> rest_accepted opt (x # n # r)"
    and "opt_accept opt o1 \<Longrightarrow> seen_after opt o1 opt' \<Longrightarrow> rest_accepted opt (x # n # r) \<longleftrightarrow> rest_accepted opt' rest"
proof -
  have n: "\<not> n < 2" using assms(3) by simp
  have s: "split_options (x # n # r) = map_option (Cons o1) (split_options rest)"
    using assms n by simp
  show "\<not> opt_accept opt o1 \<Longrightarrow> \<not> rest_accepted opt (x # n # r)"
    unfolding rest_accepted_def s opt_accept_def
    by (cases "split_options rest") (auto split: if_splits)
  show "opt_accept opt o1 \<Longrightarrow> seen_after opt o1 opt' \<Longrightarrow> rest_accepted opt (x # n # r) \<longleftrightarrow> rest_accepted opt' rest"
    unfolding rest_accepted_def s opt_accept_def seen_after_def
    by (cases "split_options rest") (auto split: if_splits)
qed


text \<open>The outcome of the walk over \<open>l\<close> octets at \<open>p\<close>; one lemma per branch of the loop.\<close>

definition walk_ok :: "bytes \<Rightarrow> nat \<Rightarrow> nat \<Rightarrow> ip_opts \<Rightarrow> bool" where
  "walk_ok b p l opt \<longleftrightarrow> (\<exists>b'. options_loop b p l opt =
       Some (if rest_accepted opt (opt_at b p l) then 0 else -1, b') \<and> same_outside p (p + l) b b')"

lemma opt_at_Cons: "0 < l \<Longrightarrow> p < length b \<Longrightarrow> opt_at b p l = b ! p # opt_at b (p + 1) (l - 1)"
  by (cases l) (auto simp: opt_at_def Cons_nth_drop_Suc [symmetric])

lemma walk_end:
  assumes "0 < l" and "p + l < length b" and "b ! p = IPOPT_END"
  shows "walk_ok b p l opt"
proof -
  obtain b' opt' where e: "end_loop b (p + 1) (l - 1) opt = Some (b', opt')"
      and s: "same_outside (p + 1) (Suc (p + 1)) b b'" and o': "srr opt' = srr opt"
    using end_loop_ok [of "p + 1" b "l - 1" opt] assms by auto
  have "same_outside p (p + l) b b'"
  proof (cases "l = 1")
    case True
    then show ?thesis using e by simp
  next
    case False
    then show ?thesis using assms(1) by (intro same_outside_mono [OF s]) simp_all
  qed
  then show ?thesis
    using assms e o' by (simp add: walk_ok_def options_loop.simps [of b p l] opt_at_Cons rest_accepted_end rd8_def)
qed

lemma walk_noop:
  assumes "0 < l" and "p + l < length b" and "b ! p = IPOPT_NOOP" and "walk_ok b (p + 1) (l - 1) opt"
  shows "walk_ok b p l opt"
proof -
  obtain b' where e: "options_loop b (p + 1) (l - 1) opt =
        Some (if rest_accepted opt (opt_at b (p + 1) (l - 1)) then 0 else -1, b')"
      and s: "same_outside (p + 1) (p + 1 + (l - 1)) b b'"
    using assms(4) unfolding walk_ok_def by blast
  have "same_outside p (p + l) b b'" using assms(1) by (intro same_outside_mono [OF s]) simp_all
  then show ?thesis
    using assms(1-3) e by (simp add: walk_ok_def options_loop.simps [of b p l] opt_at_Cons rest_accepted_noop rd8_def)
qed

lemma walk_reject:
  assumes "0 < l" and "p + l < length b" and "b ! p \<noteq> IPOPT_END" and "b ! p \<noteq> IPOPT_NOOP"
    and "b ! (p + 1) < 2 \<or> unat (b ! (p + 1)) > l"
  shows "walk_ok b p l opt"
proof -
  have "opt_at b p l = b ! p # opt_at b (p + 1) (l - 1)" using assms by (simp add: opt_at_Cons)
  moreover have "\<not> rest_accepted opt (b ! p # opt_at b (p + 1) (l - 1))"
  proof (cases "l = 1")
    case True
    then show ?thesis using assms(3,4) by (intro rest_accepted_reject) (auto simp: opt_at_def)
  next
    case False
    then show ?thesis using assms by (intro rest_accepted_reject) (auto simp: opt_at_simps)
  qed
  ultimately show ?thesis
    using assms by (auto simp: walk_ok_def options_loop.simps [of b p l] rd8_def)
qed

lemma opt_at_option:
  assumes "2 \<le> n" and "n \<le> l" and "p + l < length b"
  shows "opt_at b p n = take n (b ! p # b ! (p + 1) # opt_at b (p + 2) (l - 2))"
    and "opt_at b (p + n) (l - n) = drop n (b ! p # b ! (p + 1) # opt_at b (p + 2) (l - 2))"
    and "opt_at b p l = b ! p # b ! (p + 1) # opt_at b (p + 2) (l - 2)"
proof -
  show shape: "opt_at b p l = b ! p # b ! (p + 1) # opt_at b (p + 2) (l - 2)"
    using assms opt_at_Cons [of l p b] opt_at_Cons [of "l - 1" "p + 1" b]
    by (simp add: numeral_2_eq_2)
  show "opt_at b p n = take n (b ! p # b ! (p + 1) # opt_at b (p + 2) (l - 2))"
    unfolding shape [symmetric] using assms by (simp add: opt_at_def)
  show "opt_at b (p + n) (l - n) = drop n (b ! p # b ! (p + 1) # opt_at b (p + 2) (l - 2))"
    unfolding shape [symmetric] using assms by (simp add: opt_at_def drop_take add.commute)
qed

lemma walk_option:
  assumes "20 \<le> p" and "p + l < length b" and "p + l < 256"
    and opt: "b ! p \<noteq> IPOPT_END" "b ! p \<noteq> IPOPT_NOOP"
    and n: "n = b ! (p + 1)" "2 \<le> n" "unat n \<le> l"
    and IH: "\<And>b' opt'. opt_switch b p (b ! p) n opt = Some (Opt_ok b' opt') \<Longrightarrow> length b' = length b \<Longrightarrow>
               walk_ok b' (p + unat n) (l - unat n) opt'"
  shows "walk_ok b p l opt"
proof -
  let ?o = "opt_at b p (unat n)"
  have n2: "2 \<le> unat n" and nl: "\<not> n < 2" using n(2) by (simp_all add: word_le_nat_alt word_less_nat_alt)
  have out: "opt_outcome opt b p (p + unat n) (opt_accept opt ?o) (opt_switch b p (b ! p) n opt)"
    by (rule opt_switch_outcome) (use n assms in auto)
  note shape = opt_at_option [OF n2 n(3) assms(2), folded n(1)]
  have fits: "unat n \<le> length (b ! p # n # opt_at b (p + 2) (l - 2))"
    unfolding shape(3) [symmetric] using n assms by (simp add: opt_at_simps)
  note ra = rest_accepted_option [OF opt n(2) fits, folded shape]
  have rd: "rd8 b p = Some (b ! p)" "rd8 b (p + 1) = Some n" "l \<noteq> 0" using assms(2) n n2 by (auto simp: rd8_def)
  obtain x where x: "opt_switch b p (b ! p) n opt = Some x" using out by (auto simp: opt_outcome_def)
  show ?thesis
  proof (cases x)
    case Opt_error
    then show ?thesis
      using x out ra(1) rd opt nl n(3) by (simp add: walk_ok_def options_loop.simps [of b p l] split: if_splits)
  next
    case (Opt_ok c opt')
    then have acc: "opt_accept opt ?o" and sm: "same_outside p (p + unat n) b c" and seen: "seen_after opt ?o opt'"
      using out x by (simp_all add: opt_at_def)
    have oc: "opt_at c (p + unat n) (l - unat n) = opt_at b (p + unat n) (l - unat n)"
      by (rule same_outside_opt_at [OF sm]) (use n assms in auto)
    obtain b' where lp: "options_loop c (p + unat n) (l - unat n) opt' =
          Some (if rest_accepted opt (opt_at b p l) then 0 else -1, b')"
        and s': "same_outside (p + unat n) (p + unat n + (l - unat n)) c b'"
      using IH [of c opt'] x Opt_ok same_outside_length [OF sm] ra(2) [OF acc seen] oc unfolding walk_ok_def by auto
    have "same_outside p (p + l) b b'" by (rule same_outside_trans [OF sm s']) (use n in auto)
    then show ?thesis
      using lp x Opt_ok rd opt nl n(3) by (simp add: walk_ok_def options_loop.simps [of b p l])
  qed
qed

lemma options_loop_spec: "20 \<le> p \<Longrightarrow> p + l < length b \<Longrightarrow> p + l < 256 \<Longrightarrow> walk_ok b p l opt"
proof (induction b p l opt rule: options_loop.induct)
  case (1 b p l opt)
  let ?x = "b ! p" and ?n = "b ! (p + 1)"
  show ?case
  proof (cases "l = 0")
    case True
    then show ?thesis
      by (auto simp: walk_ok_def options_loop.simps [of b p 0] opt_at_def rest_accepted_Nil)
  next
    case False
    have r: "rd8 b p = Some ?x" "rd8 b (p + 1) = Some ?n" using False "1.prems" by (simp_all add: rd8_def)
    consider "?x = IPOPT_END" | "?x = IPOPT_NOOP"
      | (bad) "?x \<noteq> IPOPT_END" "?x \<noteq> IPOPT_NOOP" "?n < 2 \<or> unat ?n > l"
      | (opt) "?x \<noteq> IPOPT_END" "?x \<noteq> IPOPT_NOOP" "\<not> (?n < 2 \<or> unat ?n > l)" by blast
    then show ?thesis
    proof cases
      case 1
      then show ?thesis using False "1.prems" by (intro walk_end) simp_all
    next
      case 2
      then have "?x \<noteq> IPOPT_END" by simp
      then have "walk_ok b (p + 1) (l - 1) opt"
        by (rule "1.IH"(1) [OF False r(1) _ 2]) (use False "1.prems" in linarith)+
      then show ?thesis by (rule walk_noop [OF _ _ 2, rotated 2]) (use False "1.prems" in linarith)+
    next
      case bad
      then show ?thesis using False "1.prems" by (intro walk_reject) simp_all
    next
      case opt
      then have n: "2 \<le> ?n" "unat ?n \<le> l" by (simp_all add: not_less)
      show ?thesis
      proof (rule walk_option [OF "1.prems" opt(1,2) refl n])
        fix b' opt'
        assume sw: "opt_switch b p ?x ?n opt = Some (Opt_ok b' opt')" and lb: "length b' = length b"
        show "walk_ok b' (p + unat ?n) (l - unat ?n) opt'"
          by (rule "1.IH"(2) [OF False r(1) opt(1,2) r(2) opt(3) sw refl]) (use lb n "1.prems" in linarith)+
      qed
    qed
  qed
qed


section \<open>The whole routine\<close>

definition ihl_of :: "bytes \<Rightarrow> nat" where
  "ihl_of b = unat (b ! 0 AND 0x0f)"

lemma ihl_of_le: "ihl_of b \<le> 15"
proof -
  have "b ! 0 AND 0x0f = take_bit 4 (b ! 0)" by (simp add: take_bit_eq_mask mask_eq_exp_minus_1)
  then show ?thesis by (simp add: ihl_of_def take_bit_eq_mod unat_mod_distrib) 
qed

lemma rest_accepted_opts0: "rest_accepted opts0 area \<longleftrightarrow> options_accepted area"
  by (auto simp: rest_accepted_def options_accepted_def opts0_def split: option.splits)

lemma ip_options_compile_spec:
  assumes "5 \<le> ihl_of b" and "4 * ihl_of b < length b"
  shows "\<exists>b'. ip_options_compile b =
           Some (if options_accepted (opt_at b 20 (4 * ihl_of b - 20)) then 0 else -1, b') \<and>
           same_outside 20 (4 * ihl_of b) b b'"
proof -
  let ?l = "4 * ihl_of b - 20"
  have i: "ihl_of b \<le> 15" by (rule ihl_of_le)
  have e: "int (ihl_of b * 4) - 20 = int ?l" using assms(1) by simp
  have "unat (of_nat ?l :: u8) = ?l" using i by (simp add: unsigned_of_nat take_bit_eq_mod)
  then have "unat (word_of_int (int (ihl_of b * 4) - 20) :: u8) = ?l"
    by (simp only: e of_int_of_nat_eq)
  moreover have "b \<noteq> []" using assms(2) by auto
  ultimately have "ip_options_compile b = options_loop b 20 ?l opts0"
    using assms by (simp add: ip_options_compile_def rd8_def ihl_of_def)
  moreover have "walk_ok b 20 ?l opts0" by (rule options_loop_spec) (use assms i in auto)
  ultimately show ?thesis using assms by (simp add: walk_ok_def rest_accepted_opts0)
qed

text \<open>
  C29.  For a header of at least five words with at least one octet behind it in the buffer, the octet that the
  routine may read past the header (without it the read is outside the buffer, see
  \<open>ip_options_compile_overread\<close>), the routine ends, stays inside the buffer, and writes
  only inside the option area: the fixed header and the payload keep every octet.
\<close>

theorem ip_options_compile_frame:
  assumes "5 \<le> ihl_of b" and "4 * ihl_of b < length b"
  shows "\<exists>v b'. ip_options_compile b = Some (v, b') \<and> length b' = length b \<and>
           take 20 b' = take 20 b \<and> drop (4 * ihl_of b) b' = drop (4 * ihl_of b) b"
proof -
  obtain v b' where c: "ip_options_compile b = Some (v, b')" and s: "same_outside 20 (4 * ihl_of b) b b'"
    using ip_options_compile_spec [OF assms] by blast
  have "take 20 b' = take 20 b" using s by (intro nth_equalityI) (auto simp: same_outside_def)
  moreover have "drop (4 * ihl_of b) b' = drop (4 * ihl_of b) b"
    using s by (intro nth_equalityI) (auto simp: same_outside_def)
  ultimately show ?thesis using c same_outside_length [OF s] by blast
qed

theorem ip_options_compile_frame_witness:
  "\<exists>v b'. ip_options_compile (0x46 # replicate 19 0 @ [7, 3, 4, 0, 9]) = Some (v, b') \<and> length b' = 25 \<and>
     take 20 b' = 0x46 # replicate 19 0 \<and> drop 24 b' = [9]"
proof -
  let ?b = "0x46 # replicate 19 0 @ [7, 3, 4, 0, 9] :: bytes"
  have "ihl_of ?b = 6" by code_simp
  then show ?thesis
    using ip_options_compile_frame [of ?b] by (simp add: take_Cons')
qed

text \<open>
  C28.  The routine answers 0 exactly for the option areas that split into options, contain no source
  route, at most one record-route and one timestamp option, and whose record-route and
  timestamp slots lie inside their option (or are full, without an overflow of the count); it
  answers \<open>-1\<close> for every other area.  The judgement is about the area as it arrived: what the
  routine writes into one option never changes how it reads a later one.
\<close>

theorem ip_options_compile_accepts:
  assumes "5 \<le> ihl_of b" and "4 * ihl_of b < length b"
  shows "map_option fst (ip_options_compile b) =
           Some (if options_accepted (take (4 * ihl_of b - 20) (drop 20 b)) then 0 else -1)"
  using ip_options_compile_spec [OF assms] by (auto simp: opt_at_def)

theorem ip_options_compile_accepts_witness:
  "map_option fst (ip_options_compile (0x47 # replicate 19 0 @ [7, 7, 4, 0, 0, 0, 0, 1, 9])) = Some 0 \<and>
   map_option fst (ip_options_compile (0x47 # replicate 19 0 @ [131, 7, 4, 0, 0, 0, 0, 1, 9])) = Some (-1)"
proof -
  let ?b = "0x47 # replicate 19 0 @ [7, 7, 4, 0, 0, 0, 0, 1, 9] :: bytes"
  let ?c = "0x47 # replicate 19 0 @ [131, 7, 4, 0, 0, 0, 0, 1, 9] :: bytes"
  have i: "ihl_of ?b = 7" "ihl_of ?c = 7" by code_simp+
  have a: "options_accepted (take 8 (drop 20 ?b))" "\<not> options_accepted (take 8 (drop 20 ?c))" by code_simp+
  show ?thesis
    using ip_options_compile_accepts [of ?b] ip_options_compile_accepts [of ?c] a unfolding i by simp
qed

text \<open>
  After an end-of-list octet at \<open>p\<close> the loop that should clear the rest of the option area looks
  at the octet at \<open>p + 1\<close> on every turn: that octet is cleared and every octet behind it
  keeps its value.
\<close>

theorem end_loop_clears_one_octet:
  assumes "0 < l" and "p < length b"
  shows "map_option fst (end_loop b p l opt) = Some (b[p := IPOPT_END])"
proof -
  have z: "map_option fst (end_loop c p m opt') = Some c" if "p < length c" "c ! p = IPOPT_END" for c m opt'
    using that by (induction m arbitrary: opt') (simp_all add: rd8_def)
  obtain m where l: "l = Suc m" using assms(1) by (cases l) auto
  show ?thesis
  proof (cases "b ! p = IPOPT_END")
    case True
    then show ?thesis using z [OF assms(2) True] assms(2) unfolding l by (simp add: rd8_def) (metis list_update_id)
  next
    case False
    have "wr b p [IPOPT_END] = Some (b[p := IPOPT_END])"
      using assms(2) by (simp add: wr_def upd_conv_take_nth_drop Suc_le_eq)
    then show ?thesis using z [of "b[p := IPOPT_END]"] assms(2) False unfolding l by (simp add: rd8_def)
  qed
qed

theorem end_loop_clears_one_octet_witness:
  "map_option fst (end_loop [0, 5, 6, 7] 1 3 opts0) = Some [0, 0, 6, 7]"
  using end_loop_clears_one_octet [of 3 1 "[0, 5, 6, 7]" opts0] by simp


text \<open>
  When the block ends with the header, an option area whose last octet is neither end-of-list nor
  no-operation makes the routine read the octet behind the block.
\<close>

lemma ip_options_compile_overread: "ip_options_compile (0x46 # replicate 19 0 @ [1, 1, 1, 7]) = None"
  by code_simp

end
