(* ===== verification/Nids.thy ===== *)
theory Nids
  imports Prelude
begin

text \<open>
  The declarations of \<open>include/libnids/nids.h\<close> that several components use: the connection
  tuple, the integer members of the parameter block \<open>nids_params\<close> with the values the program
  starts from (\<open>src/libnids/libnids.c\<close>), and the warnings passed to \<open>nids_params.syslog\<close>.
  Members that are pointers or functions (the callbacks \<open>syslog\<close>, \<open>no_mem\<close>, \<open>ip_filter\<close>, the
  device and filter strings, the pcap handle) are arguments of the definitions that use them,
  or events they emit.  Allocation is taken to succeed: \<open>no_mem\<close> ends the process by default.
\<close>

record tuple4 =
  t_source :: u16
  t_dest :: u16
  t_saddr :: u32
  t_daddr :: u32

record nids_prm =
  n_tcp_streams :: int
  n_hosts :: int
  sk_buff_size :: int
  dev_addon :: int
  syslog_level :: int
  scan_num_hosts :: int
  scan_delay :: int
  scan_num_ports :: int
  promisc :: int
  one_loop_less :: int
  pcap_timeout :: int
  multiproc :: int
  queue_limit :: int
  tcp_workarounds :: int
  checksum :: int

definition nids_params0 :: nids_prm where
  "nids_params0 = \<lparr>n_tcp_streams = 1040, n_hosts = 256, sk_buff_size = 168, dev_addon = -1,
     syslog_level = 0, scan_num_hosts = 256, scan_delay = 3000, scan_num_ports = 10, promisc = 1,
     one_loop_less = 0, pcap_timeout = 1024, multiproc = 0, queue_limit = 20000, tcp_workarounds = 0,
     checksum = 0\<rparr>"

text \<open>The type and error arguments of a warning.\<close>

datatype nids_warn_type = NIDS_WARN_IP | NIDS_WARN_TCP | NIDS_WARN_UDP | NIDS_WARN_SCAN

datatype nids_warn =
  NIDS_WARN_UNDEFINED | NIDS_WARN_IP_OVERSIZED | NIDS_WARN_IP_INVLIST | NIDS_WARN_IP_OVERLAP
  | NIDS_WARN_IP_HDR | NIDS_WARN_IP_SRR | NIDS_WARN_TCP_TOOMUCH | NIDS_WARN_TCP_HDR
  | NIDS_WARN_TCP_BIGQUEUE | NIDS_WARN_TCP_BADFLAGS

text \<open>An \<open>int\<close> of 32 bits that keeps the low bits of \<open>x\<close>.\<close>

definition i32 :: "int \<Rightarrow> int" where
  "i32 x = signed_take_bit 31 x"

lemma i32_id: "- 2147483648 \<le> x \<Longrightarrow> x < 2147483648 \<Longrightarrow> i32 x = x"
  by (simp add: i32_def signed_take_bit_int_eq_self)

lemma i32_range: "- 2147483648 \<le> i32 x" "i32 x < 2147483648"
  using signed_take_bit_int_greater_eq_minus_exp [of 31 x] signed_take_bit_int_less_exp [of 31 x]
  by (simp_all add: i32_def)

section \<open>The clock\<close>

text \<open>
  The successive readings of \<open>gettimeofday\<close> (seconds, microseconds), and a reading in milliseconds
  since second \<open>t0\<close> as \<open>scan.c\<close> and \<open>ip_fragment.c\<close> compute it.
\<close>

type_synonym clock = "nat \<Rightarrow> int \<times> int"

definition clock_ms :: "clock \<Rightarrow> int \<Rightarrow> nat \<Rightarrow> int" where
  "clock_ms clk t0 n = (case clk n of (sec, usec) \<Rightarrow> i32 ((sec - t0) * 1000 + usec div 1000))"

text \<open>A clock that does not run backwards, with readings inside the range of \<open>int\<close>.\<close>

definition clock_ok :: "clock \<Rightarrow> int \<Rightarrow> bool" where
  "clock_ok clk t0 \<longleftrightarrow> mono (clock_ms clk t0) \<and>
     (\<forall>n. 0 \<le> clock_ms clk t0 n \<and> clock_ms clk t0 n < 2147483647)"

lemma clock_ok_mono: "clock_ok clk t0 \<Longrightarrow> m \<le> n \<Longrightarrow> clock_ms clk t0 m \<le> clock_ms clk t0 n"
  by (simp add: clock_ok_def monoD)

lemma clock_ok_range: "clock_ok clk t0 \<Longrightarrow> 0 \<le> clock_ms clk t0 n" "clock_ok clk t0 \<Longrightarrow> clock_ms clk t0 n < 2147483647"
  by (simp_all add: clock_ok_def)

end
