(* ===== verification/Scan.thy ===== *)
theory Scan
  imports Nids "HOL-Library.Signed_Division"
begin

text \<open>
  The port scan detector (\<open>src/libnids/scan.c\<close>, \<open>include/libnids/scan.h\<close>).  A table of
  \<open>scan_num_hosts\<close> buckets holds chains of at most ten hosts; a host remembers the targets
  (address and port) its packets went to and raises an alarm when it has more than
  \<open>scan_num_ports\<close> of them.  A chain is the list of its hosts from the head, so the \<open>next\<close> and
  \<open>prev\<close> links are implicit; the \<open>packets\<close> array of \<open>scan_num_ports + 1\<close> entries is its first
  \<open>n_packets\<close> entries.  \<open>None\<close> is an access outside the table, the array or the packet, or
  through a null pointer.  The readings of \<open>gettimeofday\<close> are a parameter.
\<close>

section \<open>State\<close>

record scan_entry =
  scan_addr :: u32
  scan_port :: u16
  scan_flags :: u8

record host =
  host_addr :: u32
  host_modtime :: int
  host_packets :: "scan_entry list"

record scan_state =
  hashhost :: "host list list option"
  time0 :: int
  timenow :: int
  clock_reads :: nat  \<comment> \<open>how many readings of the clock were taken\<close>

definition gettime :: "clock \<Rightarrow> scan_state \<Rightarrow> int \<times> scan_state" where
  "gettime clk s =
     (if timenow s \<noteq> 0 then (timenow s, s)
      else (let t = clock_ms clk (time0 s) (clock_reads s)
            in (t, s\<lparr>timenow := t, clock_reads := Suc (clock_reads s)\<rparr>)))"

definition scan_init :: "nids_prm \<Rightarrow> clock \<Rightarrow> scan_state \<Rightarrow> scan_state" where
  "scan_init prm clk s =
     (if scan_num_hosts prm > 0
      then s\<lparr>time0 := fst (clk (clock_reads s)), clock_reads := Suc (clock_reads s),
             hashhost := Some (replicate (nat (scan_num_hosts prm)) [])\<rparr>
      else s)"

definition scan_exit :: "scan_state \<Rightarrow> scan_state" where
  "scan_exit s = s\<lparr>hashhost := None\<rparr>"

text \<open>\<open>%\<close> on \<open>int\<close> truncates towards zero; \<open>>>\<close> is an arithmetic shift.\<close>

definition scan_hash :: "nids_prm \<Rightarrow> int \<Rightarrow> int" where
  "scan_hash prm addr = ((addr smod 65536) XOR (drop_bit 16 addr)) smod (scan_num_hosts prm)"

section \<open>Detection\<close>

text \<open>The search loop: the counter \<open>i\<close>, the least recently modified host so far, and whether the
  address was found (then at index \<open>i\<close>).\<close>

fun host_walk :: "u32 \<Rightarrow> host list \<Rightarrow> nat \<Rightarrow> int \<Rightarrow> nat option \<Rightarrow> nat \<times> nat option \<times> bool" where
  "host_walk addr [] i mtime oldest = (i, oldest, False)"
| "host_walk addr (h # hs) i mtime oldest =
     (if host_addr h = addr then (i, oldest, True)
      else if host_modtime h < mtime then host_walk addr hs (Suc i) (host_modtime h) (Some i)
      else host_walk addr hs (Suc i) mtime oldest)"

text \<open>The host that will record the packet: found, recycled, or new at the head of the chain.\<close>

definition get_host :: "clock \<Rightarrow> u32 \<Rightarrow> host list \<Rightarrow> scan_state \<Rightarrow> (host list \<times> nat \<times> scan_state) option" where
  "get_host clk src chain s =
     (case host_walk src chain 0 2147483647 None of (i, oldest, found) \<Rightarrow>
        if found then Some (chain, i, s)
        else if i = 10 then
          (case oldest of None \<Rightarrow> None
           | Some j \<Rightarrow> (case gettime clk s of (t, s1) \<Rightarrow>
               Some (chain[j := \<lparr>host_addr = src, host_modtime = t, host_packets = []\<rparr>], j, s1)))
        else (case gettime clk s of (t, s1) \<Rightarrow>
               Some (\<lparr>host_addr = src, host_modtime = t, host_packets = []\<rparr> # chain, 0, s1)))"

definition same_target :: "u32 \<Rightarrow> u16 \<Rightarrow> scan_entry \<Rightarrow> bool" where
  "same_target dst dport e \<longleftrightarrow> scan_addr e = dst \<and> scan_port e = dport"

text \<open>Recording the target in the host; the second component is the host passed to \<open>syslog\<close>.\<close>

definition record_target :: "nids_prm \<Rightarrow> u32 \<Rightarrow> u16 \<Rightarrow> u8 option \<Rightarrow> host \<Rightarrow> (host \<times> host option) option" where
  "record_target prm dst dport flags h =
     (if \<exists>e \<in> set (host_packets h). same_target dst dport e then Some (h, None)
      else do {
        fl \<leftarrow> flags;
        if int (length (host_packets h)) \<ge> scan_num_ports prm + 1 then None
        else let h' = h\<lparr>host_packets := host_packets h @ [\<lparr>scan_addr = dst, scan_port = dport, scan_flags = fl\<rparr>]\<rparr>
             in if int (length (host_packets h')) > scan_num_ports prm
                then Some (h'\<lparr>host_packets := []\<rparr>, Some h')
                else Some (h', None) })"

definition detect_scan :: "nids_prm \<Rightarrow> clock \<Rightarrow> bytes \<Rightarrow> scan_state \<Rightarrow> (scan_state \<times> host option) option" where
  "detect_scan prm clk iph s =
     (if scan_num_hosts prm \<le> 0 then Some (s, None)
      else do {
        b0 \<leftarrow> rd8 iph 0;
        src \<leftarrow> rd_le32 iph 12;
        table \<leftarrow> hashhost s;
        let th = 4 * unat (b0 AND 0x0f);
        let hash = scan_hash prm (sint src);
        if hash < 0 \<or> hash \<ge> int (length table) then None
        else do {
          (chain, j, s1) \<leftarrow> get_host clk src (table ! nat hash) (s\<lparr>timenow := 0\<rparr>);
          let h = chain ! j;
          let (t2, s2) = gettime clk s1;
          let h1 = (if i32 (host_modtime h - t2) > scan_delay prm then h\<lparr>host_packets := []\<rparr> else h);
          let (t3, s3) = gettime clk s2;
          let h2 = h1\<lparr>host_modtime := t3\<rparr>;
          dst \<leftarrow> rd_le32 iph 16;
          dport \<leftarrow> rd_be16 iph (th + 2);
          (h3, alarm) \<leftarrow> record_target prm dst dport (rd8 iph (th + 13)) h2;
          Some (s3\<lparr>hashhost := Some (table[nat hash := chain[j := h3]])\<rparr>, alarm) } })"


section \<open>The clock\<close>

text \<open>The state inside one call that began at reading \<open>r0\<close>.\<close>

definition in_call :: "clock \<Rightarrow> nat \<Rightarrow> scan_state \<Rightarrow> bool" where
  "in_call clk r0 s \<longleftrightarrow> r0 \<le> clock_reads s \<and> (timenow s \<noteq> 0 \<longrightarrow>
     clock_ms clk (time0 s) r0 \<le> timenow s \<and> timenow s \<le> clock_ms clk (time0 s) (clock_reads s))"

lemma gettime_in_call:
  assumes "clock_ok clk (time0 s)" and "in_call clk r0 s" and "gettime clk s = (t, s')"
  shows "in_call clk r0 s'" and "time0 s' = time0 s" and "hashhost s' = hashhost s" and "timenow s' = t"
    and "clock_ms clk (time0 s) r0 \<le> t" and "t \<le> clock_ms clk (time0 s) (clock_reads s')"
    and "timenow s \<le> t"
proof -
  have m: "clock_ms clk (time0 s) r0 \<le> clock_ms clk (time0 s) (clock_reads s)"
    "clock_ms clk (time0 s) (clock_reads s) \<le> clock_ms clk (time0 s) (Suc (clock_reads s))"
    using assms(1,2) by (auto intro!: clock_ok_mono simp: in_call_def)
  have n: "0 \<le> clock_ms clk (time0 s) (clock_reads s)" using assms(1) by (rule clock_ok_range)
  show "in_call clk r0 s'" "time0 s' = time0 s" "hashhost s' = hashhost s" "timenow s' = t"
    "clock_ms clk (time0 s) r0 \<le> t" "t \<le> clock_ms clk (time0 s) (clock_reads s')" "timenow s \<le> t"
    using assms(2,3) m n by (auto simp: gettime_def in_call_def Let_def split: if_splits)
qed

section \<open>The chain of a bucket\<close>

definition target :: "scan_entry \<Rightarrow> u32 \<times> u16" where
  "target e = (scan_addr e, scan_port e)"

definition host_wf :: "nids_prm \<Rightarrow> host \<Rightarrow> bool" where
  "host_wf prm h \<longleftrightarrow> int (length (host_packets h)) \<le> scan_num_ports prm \<and> distinct (map target (host_packets h))"

definition chain_wf :: "nids_prm \<Rightarrow> nat \<Rightarrow> host list \<Rightarrow> bool" where
  "chain_wf prm i chain \<longleftrightarrow> length chain \<le> 10 \<and> distinct (map host_addr chain) \<and>
     (\<forall>h \<in> set chain. host_wf prm h \<and> scan_hash prm (sint (host_addr h)) = int i)"

definition time_wf :: "int \<Rightarrow> host \<Rightarrow> bool" where
  "time_wf now h \<longleftrightarrow> 0 \<le> host_modtime h \<and> host_modtime h \<le> now"

definition host_of :: "u32 \<Rightarrow> host list \<Rightarrow> host option" where
  "host_of src chain = find (\<lambda>h. host_addr h = src) chain"

lemma host_of_None_iff: "host_of src chain = None \<longleftrightarrow> src \<notin> host_addr ` set chain"
  by (auto simp: host_of_def find_None_iff)

lemma host_of_nth:
  "distinct (map host_addr chain) \<Longrightarrow> j < length chain \<Longrightarrow> host_addr (chain ! j) = src \<Longrightarrow> host_of src chain = Some (chain ! j)"
proof (induction chain arbitrary: j)
  case (Cons h hs)
  then show ?case by (cases j) (auto simp: host_of_def)
qed simp

lemma host_of_update_other:
  "host_addr h = host_addr (chain ! j) \<Longrightarrow> j < length chain \<Longrightarrow> a \<noteq> host_addr h \<Longrightarrow> host_of a (chain[j := h]) = host_of a chain"
proof (induction chain arbitrary: j)
  case (Cons h hs)
  then show ?case by (cases j) (auto simp: host_of_def)
qed simp

lemma host_walk_found:
  "host_walk a hs i m ol = (k, ol', True) \<Longrightarrow> i \<le> k \<and> k - i < length hs \<and> host_addr (hs ! (k - i)) = a"
proof (induction hs arbitrary: i m ol)
  case (Cons h hs)
  show ?case
  proof (cases "host_addr h = a")
    case False
    then have "\<exists>m' ol''. host_walk a hs (Suc i) m' ol'' = (k, ol', True)"
      using Cons.prems by (auto split: if_splits)
    then have "Suc i \<le> k \<and> k - Suc i < length hs \<and> host_addr (hs ! (k - Suc i)) = a"
      using Cons.IH by blast
    then show ?thesis by (auto simp: nth_Cons' Suc_diff_le)
  qed (use Cons.prems in auto)
qed simp

lemma host_walk_absent:
  "host_walk a hs i m ol = (k, ol', False) \<Longrightarrow> k = i + length hs \<and> a \<notin> host_addr ` set hs \<and>
     (ol' = ol \<and> (\<forall>h \<in> set hs. m \<le> host_modtime h) \<or> (\<exists>j. ol' = Some j \<and> i \<le> j \<and> j < k))"
proof (induction hs arbitrary: i m ol)
  case (Cons h hs)
  then show ?case by (auto split: if_splits dest!: Cons.IH) 
qed simp


text \<open>
  The host that records a packet: the chain keeps its well-formedness, and unless a host had to be
  recycled every other host keeps its entry.
\<close>

definition evicts :: "u32 \<Rightarrow> host list \<Rightarrow> bool" where
  "evicts src chain \<longleftrightarrow> length chain = 10 \<and> src \<notin> host_addr ` set chain"

definition packets_of :: "u32 \<Rightarrow> host list \<Rightarrow> scan_entry list" where
  "packets_of src chain = (case host_of src chain of None \<Rightarrow> [] | Some h \<Rightarrow> host_packets h)"

lemma chain_wf_insert:
  assumes "chain_wf prm i chain" and "src \<notin> host_addr ` set chain" and "host_addr h = src"
    and "host_wf prm h" and "scan_hash prm (sint src) = int i"
  shows "j < length chain \<Longrightarrow> chain_wf prm i (chain[j := h])" "length chain \<noteq> 10 \<Longrightarrow> chain_wf prm i (h # chain)"
proof -
  have "distinct (map host_addr (chain[j := h]))" if "j < length chain"
    using assms(1-3) that by (auto simp: map_update chain_wf_def intro!: distinct_list_update)
  then show "j < length chain \<Longrightarrow> chain_wf prm i (chain[j := h])"
    using assms set_update_subset_insert [of chain j h] by (auto simp: chain_wf_def)
  show "length chain \<noteq> 10 \<Longrightarrow> chain_wf prm i (h # chain)"
    using assms by (auto simp: chain_wf_def)
qed

lemma chain_wf_update:
  assumes "chain_wf prm i chain" and "j < length chain" and "host_addr h = host_addr (chain ! j)" and "host_wf prm h"
  shows "chain_wf prm i (chain[j := h])"
proof -
  have "map host_addr (chain[j := h]) = map host_addr chain"
    using assms(2,3) by (metis length_map list_update_id map_update nth_map)
  then show ?thesis
    using assms set_update_subset_insert [of chain j h] nth_mem [OF assms(2)]
    by (auto simp: chain_wf_def dest!: subsetD)
qed

lemma host_wf_new [simp]: "0 \<le> scan_num_ports prm \<Longrightarrow> host_wf prm \<lparr>host_addr = a, host_modtime = t, host_packets = []\<rparr>"
  by (simp add: host_wf_def)

definition got_host :: "nids_prm \<Rightarrow> clock \<Rightarrow> nat \<Rightarrow> nat \<Rightarrow> u32 \<Rightarrow> host list \<Rightarrow> scan_state \<Rightarrow> host list \<Rightarrow> nat \<Rightarrow> scan_state \<Rightarrow> bool" where
  "got_host prm clk r0 i src chain s chain' j s' \<longleftrightarrow>
     in_call clk r0 s' \<and> time0 s' = time0 s \<and> hashhost s' = hashhost s \<and>
     chain_wf prm i chain' \<and> j < length chain' \<and> host_addr (chain' ! j) = src \<and>
     (\<forall>h \<in> set chain'. 0 \<le> host_modtime h \<and> host_modtime h \<le> max (clock_ms clk (time0 s) r0) (timenow s')) \<and>
     (\<forall>h \<in> set chain'. host_modtime h \<le> clock_ms clk (time0 s) (clock_reads s')) \<and>
     (\<not> evicts src chain \<longrightarrow> (\<forall>a. packets_of a chain' = packets_of a chain)) \<and>
     host_addr ` set chain' \<subseteq> insert src (host_addr ` set chain)"

lemma get_host_found:
  assumes "clock_ok clk (time0 s)" and "in_call clk r0 s" and "chain_wf prm i chain"
    and "\<forall>h \<in> set chain. time_wf (clock_ms clk (time0 s) r0) h"
    and "host_walk src chain 0 2147483647 None = (k, ol, True)"
  shows "got_host prm clk r0 i src chain s chain k s"
proof -
  have k: "k < length chain" "host_addr (chain ! k) = src" using host_walk_found [OF assms(5)] by auto
  have "clock_ms clk (time0 s) r0 \<le> clock_ms clk (time0 s) (clock_reads s)"
    using assms(1,2) by (intro clock_ok_mono) (auto simp: in_call_def)
  then show ?thesis using assms k by (fastforce simp: got_host_def time_wf_def)
qed

lemma got_host_new:
  assumes "clock_ok clk (time0 s)" and "in_call clk r0 s" and "chain_wf prm i chain"
    and "\<forall>h \<in> set chain. time_wf (clock_ms clk (time0 s) r0) h"
    and "gettime clk s = (t, s')"
    and "chain_wf prm i chain'" and "j < length chain'" and "chain' ! j = \<lparr>host_addr = src, host_modtime = t, host_packets = []\<rparr>"
    and "set chain' \<subseteq> insert (chain' ! j) (set chain)"
    and "\<not> evicts src chain \<longrightarrow> (\<forall>a. packets_of a chain' = packets_of a chain)"
  shows "got_host prm clk r0 i src chain s chain' j s'"
proof -
  note g = gettime_in_call [OF assms(1,2,5)]
  have n: "0 \<le> clock_ms clk (time0 s) r0" using assms(1) by (rule clock_ok_range)
  have r: "clock_ms clk (time0 s) r0 \<le> clock_ms clk (time0 s) (clock_reads s')" using g(5,6) by linarith
  have "0 \<le> host_modtime h \<and> host_modtime h \<le> max (clock_ms clk (time0 s) r0) t \<and>
      host_modtime h \<le> clock_ms clk (time0 s) (clock_reads s')" if "h \<in> set chain'" for h
  proof (cases "h = chain' ! j")
    case True
    then show ?thesis using g(5,6) n assms(8) by simp
  next
    case False
    then have "h \<in> set chain" using that assms(9) by blast
    then show ?thesis using assms(4) r by (fastforce simp: time_wf_def)
  qed
  moreover have "host_addr ` set chain' \<subseteq> insert src (host_addr ` set chain)"
    using assms(8,9) by auto
  ultimately show ?thesis
    using g(1-4) assms(6,7,8,10) by (simp add: got_host_def)
qed

lemma packets_of_Cons_new:
  "src \<notin> host_addr ` set chain \<Longrightarrow> packets_of a (\<lparr>host_addr = src, host_modtime = t, host_packets = []\<rparr> # chain) = packets_of a chain"
  using host_of_None_iff [of src chain] by (auto simp: packets_of_def host_of_def)

lemma get_host_ok:
  assumes "clock_ok clk (time0 s)" and "in_call clk r0 s" and "chain_wf prm i chain"
    and "\<forall>h \<in> set chain. time_wf (clock_ms clk (time0 s) r0) h"
    and "scan_hash prm (sint src) = int i" and "0 \<le> scan_num_ports prm"
  shows "\<exists>chain' j s'. get_host clk src chain s = Some (chain', j, s') \<and> got_host prm clk r0 i src chain s chain' j s'"
proof -
  obtain k ol found where w: "host_walk src chain 0 2147483647 None = (k, ol, found)" by (metis prod.exhaust)
  obtain t s' where g: "gettime clk s = (t, s')" by (metis prod.exhaust)
  let ?h = "\<lparr>host_addr = src, host_modtime = t, host_packets = []\<rparr>"
  show ?thesis
  proof (cases found)
    case True
    then show ?thesis using w get_host_found [OF assms(1-4), of src k ol] by (auto simp: get_host_def)
  next
    case False
    then have a: "k = length chain" "src \<notin> host_addr ` set chain"
        and o: "(ol = None \<and> (\<forall>h \<in> set chain. 2147483647 \<le> host_modtime h)) \<or> (\<exists>j. ol = Some j \<and> j < k)"
      using host_walk_absent [of src chain 0 2147483647 None k ol] w by auto
    note cw = chain_wf_insert [OF assms(3) a(2), of ?h, OF _ host_wf_new [OF assms(6)] assms(5), simplified]
    show ?thesis
    proof (cases "length chain = 10")
      case full: True
      then have "chain ! 0 \<in> set chain" by simp
      moreover have "clock_ms clk (time0 s) r0 < 2147483647" using assms(1) by (rule clock_ok_range)
      ultimately have "\<not> (\<forall>h \<in> set chain. 2147483647 \<le> host_modtime h)"
        using assms(4) by (fastforce simp: time_wf_def)
      then obtain j where j: "ol = Some j" "j < length chain" using o a(1) by blast
      have "got_host prm clk r0 i src chain s (chain[j := ?h]) j s'"
        by (rule got_host_new [OF assms(1-4) g cw(1) [OF j(2)]])
          (use j full a(2) set_update_subset_insert [of chain j ?h] in \<open>auto simp: evicts_def\<close>)
      then show ?thesis using w False a(1) full j g by (auto simp: get_host_def)
    next
      case room: False
      have "got_host prm clk r0 i src chain s (?h # chain) 0 s'"
        by (rule got_host_new [OF assms(1-4) g cw(2) [OF room]]) (use a(2) in \<open>auto simp: packets_of_Cons_new\<close>)
      then show ?thesis using w False a(1) room g by (auto simp: get_host_def)
    qed
  qed
qed


section \<open>Specification\<close>

text \<open>
  What the detector promises for one source: it remembers the distinct targets seen; a new target
  that makes them more than \<open>n\<close> raises an alarm and starts afresh.  Time plays no part.
\<close>

definition scan_spec :: "int \<Rightarrow> (u32 \<times> u16) list \<Rightarrow> u32 \<times> u16 \<Rightarrow> (u32 \<times> u16) list \<times> bool" where
  "scan_spec n seen x =
     (if x \<in> set seen then (seen, False)
      else if int (length seen) \<ge> n then ([], True) else (seen @ [x], False))"

lemma record_target_ok:
  assumes "host_wf prm h" and "0 \<le> scan_num_ports prm"
  shows "\<exists>h' al. record_target prm dst dport (Some fl) h = Some (h', al) \<and> host_wf prm h' \<and>
     host_addr h' = host_addr h \<and> host_modtime h' = host_modtime h \<and>
     (map target (host_packets h'), al \<noteq> None) = scan_spec (scan_num_ports prm) (map target (host_packets h)) (dst, dport) \<and>
     (\<forall>a. al = Some a \<longrightarrow> host_addr a = host_addr h \<and> map target (host_packets a) = map target (host_packets h) @ [(dst, dport)])"
proof -
  have m: "(\<exists>e \<in> set (host_packets h). same_target dst dport e) \<longleftrightarrow> (dst, dport) \<in> target ` set (host_packets h)"
    by (force simp: same_target_def target_def)
  show ?thesis using assms unfolding record_target_def m
    by (auto simp: host_wf_def scan_spec_def Let_def target_def image_iff)
qed

text \<open>The four octets of an address as the \<open>int\<close> the hash takes: negative with a low half of
  zero gives a negative index.\<close>

definition hash_safe :: "u32 \<Rightarrow> bool" where
  "hash_safe a \<longleftrightarrow> \<not> (sint a < 0 \<and> sint a mod 65536 = 0)"

lemma smod_int_nonneg: "0 \<le> (a :: int) \<Longrightarrow> 0 < b \<Longrightarrow> 0 \<le> a smod b \<and> a smod b < b"
  by (auto simp: smod_int_alt_def sgn_if)

lemma smod_int_neg: "(a :: int) < 0 \<Longrightarrow> 0 < b \<Longrightarrow> a smod b \<le> 0 \<and> (a smod b = 0 \<longleftrightarrow> a mod b = 0)"
  by (auto simp: smod_int_alt_def sgn_if mod_eq_0_iff_dvd)

lemma smod_int_less: "0 < (b :: int) \<Longrightarrow> a smod b < b"
  using smod_int_nonneg [of a b] smod_int_neg [of a b] by linarith

lemma scan_hash_range:
  assumes "hash_safe a" and "0 < scan_num_hosts prm"
  shows "0 \<le> scan_hash prm (sint a) \<and> scan_hash prm (sint a) < scan_num_hosts prm"
proof -
  have "0 \<le> (sint a smod 65536) XOR drop_bit 16 (sint a)"
  proof (cases "sint a < 0")
    case True
    then have "sint a smod 65536 < 0"
      using assms(1) smod_int_neg [of "sint a" 65536] by (auto simp: hash_safe_def)
    then show ?thesis using True by (simp add: xor_nonnegative_int_iff)
  next
    case False
    then show ?thesis using smod_int_nonneg [of "sint a" 65536] by (simp add: xor_nonnegative_int_iff)
  qed
  then show ?thesis using assms(2) by (simp add: scan_hash_def smod_int_nonneg)
qed

section \<open>One packet\<close>

definition scan_wf :: "nids_prm \<Rightarrow> clock \<Rightarrow> scan_state \<Rightarrow> bool" where
  "scan_wf prm clk s \<longleftrightarrow> (case hashhost s of None \<Rightarrow> False
     | Some t \<Rightarrow> int (length t) = scan_num_hosts prm \<and>
         (\<forall>i < length t. chain_wf prm i (t ! i) \<and>
            (\<forall>h \<in> set (t ! i). time_wf (clock_ms clk (time0 s) (clock_reads s)) h)))"

definition bucket :: "nids_prm \<Rightarrow> scan_state \<Rightarrow> u32 \<Rightarrow> host list" where
  "bucket prm s src = the (hashhost s) ! nat (scan_hash prm (sint src))"

definition targets_of :: "nids_prm \<Rightarrow> scan_state \<Rightarrow> u32 \<Rightarrow> (u32 \<times> u16) list" where
  "targets_of prm s src = map target (packets_of src (bucket prm s src))"

definition prm_ok :: "nids_prm \<Rightarrow> bool" where
  "prm_ok prm \<longleftrightarrow> 0 < scan_num_hosts prm \<and> 0 \<le> scan_num_ports prm \<and> 0 \<le> scan_delay prm"

text \<open>The addresses and the port of a packet whose TCP header is present up to its flags.\<close>

definition tcp_readable :: "bytes \<Rightarrow> bool" where
  "tcp_readable iph \<longleftrightarrow> 20 \<le> length iph \<and> 4 * unat (iph ! 0 AND 0x0f) + 13 < length iph"

definition src_of :: "bytes \<Rightarrow> u32" where "src_of iph = the (rd_le32 iph 12)"
definition dst_of :: "bytes \<Rightarrow> u32" where "dst_of iph = the (rd_le32 iph 16)"
definition dport_of :: "bytes \<Rightarrow> u16" where "dport_of iph = the (rd_be16 iph (4 * unat (iph ! 0 AND 0x0f) + 2))"

lemma tcp_readable_reads:
  assumes "tcp_readable iph"
  shows "rd8 iph 0 = Some (iph ! 0)" "rd_le32 iph 12 = Some (src_of iph)" "rd_le32 iph 16 = Some (dst_of iph)"
    "rd_be16 iph (4 * unat (iph ! 0 AND 0x0f) + 2) = Some (dport_of iph)"
    "rd8 iph (4 * unat (iph ! 0 AND 0x0f) + 13) = Some (iph ! (4 * unat (iph ! 0 AND 0x0f) + 13))"
  using assms by (auto simp: tcp_readable_def src_of_def dst_of_def dport_of_def mem_simps)

text \<open>The tail of the routine on the host that was found: no expiry, the target is recorded.\<close>

lemma record_on_host:
  assumes "clock_ok clk (time0 s)" and "in_call clk r0 s" and "chain_wf prm i chain" and "j < length chain"
    and "\<forall>h \<in> set chain. 0 \<le> host_modtime h \<and> host_modtime h \<le> max (clock_ms clk (time0 s) r0) (timenow s)"
    and "prm_ok prm" and "gettime clk s = (t2, s2)" and "gettime clk s2 = (t3, s3)"
  shows "\<not> i32 (host_modtime (chain ! j) - t2) > scan_delay prm"
    and "in_call clk r0 s3" "time0 s3 = time0 s" "hashhost s3 = hashhost s" "0 \<le> t3" "t3 \<le> clock_ms clk (time0 s) (clock_reads s3)"
proof -
  note g2 = gettime_in_call [OF assms(1,2,7)]
  have c2: "clock_ok clk (time0 s2)" using assms(1) g2(2) by simp
  note g3 = gettime_in_call [OF c2 g2(1) assms(8)]
  have h: "0 \<le> host_modtime (chain ! j)" "host_modtime (chain ! j) \<le> max (clock_ms clk (time0 s) r0) (timenow s)"
    using assms(4,5) nth_mem by blast+
  have "host_modtime (chain ! j) \<le> t2" using h(2) g2(5,7) by linarith
  moreover have "t2 < 2147483647" using g2(6) clock_ok_range(2) [OF assms(1), of "clock_reads s2"] by linarith
  ultimately have "i32 (host_modtime (chain ! j) - t2) = host_modtime (chain ! j) - t2"
    using h(1) by (intro i32_id) linarith+
  then show "\<not> i32 (host_modtime (chain ! j) - t2) > scan_delay prm"
    using \<open>host_modtime (chain ! j) \<le> t2\<close> assms(6) by (simp add: prm_ok_def)
  show "in_call clk r0 s3" "time0 s3 = time0 s" "hashhost s3 = hashhost s" using g3 g2 by simp_all
  show "0 \<le> t3" using g3(5) clock_ok_range(1) [OF c2, of r0] by linarith
  show "t3 \<le> clock_ms clk (time0 s) (clock_reads s3)" using g3(6) g2(2) by simp
qed


lemma packets_of_update:
  assumes "chain_wf prm i chain" and "j < length chain" and "host_addr (chain ! j) = src" and "host_addr h = src" and "host_wf prm h"
  shows "packets_of a (chain[j := h]) = (if a = src then host_packets h else packets_of a chain)"
proof (cases "a = src")
  case True
  have "distinct (map host_addr (chain[j := h]))"
    using chain_wf_update [OF assms(1,2), of h] assms(3-5) by (simp add: chain_wf_def)
  then have "host_of src (chain[j := h]) = Some h"
    using host_of_nth [of "chain[j := h]" j src] assms(2,4) by simp
  then show ?thesis using True by (simp add: packets_of_def)
next
  case False
  then show ?thesis using host_of_update_other [of h chain j a] assms by (simp add: packets_of_def)
qed

lemma time_wf_mono: "time_wf m h \<Longrightarrow> m \<le> n \<Longrightarrow> time_wf n h"
  by (simp add: time_wf_def)

lemma packets_of_nth:
  "chain_wf prm i chain \<Longrightarrow> j < length chain \<Longrightarrow> host_packets (chain ! j) = packets_of (host_addr (chain ! j)) chain"
  using host_of_nth [of chain j] by (simp add: chain_wf_def packets_of_def)

text \<open>Putting a chain back into the table.\<close>

lemma scan_wf_put:
  assumes "hashhost s = Some t" and "scan_wf prm clk s" and "chain_wf prm i chain" and "i < length t"
    and "time0 s' = time0 s" and "clock_ms clk (time0 s) (clock_reads s) \<le> clock_ms clk (time0 s) (clock_reads s')"
    and "\<forall>h \<in> set chain. time_wf (clock_ms clk (time0 s) (clock_reads s')) h"
  shows "scan_wf prm clk (s'\<lparr>hashhost := Some (t[i := chain])\<rparr>)"
  using assms by (auto simp: scan_wf_def nth_list_update intro: time_wf_mono)

lemma targets_of_put:
  assumes "hashhost s = Some t" and "i < length t" and "i = nat (scan_hash prm (sint src))"
    and "\<forall>a. packets_of a chain = (if a = src then ps else packets_of a (t ! i))"
  shows "targets_of prm (s'\<lparr>hashhost := Some (t[i := chain])\<rparr>) =
           (\<lambda>a. if a = src then map target ps else targets_of prm s a)"
proof (rule ext)
  fix a
  show "targets_of prm (s'\<lparr>hashhost := Some (t[i := chain])\<rparr>) a = (if a = src then map target ps else targets_of prm s a)"
    using assms by (auto simp: targets_of_def bucket_def nth_list_update)
qed

definition spec_step :: "nids_prm \<Rightarrow> (u32 \<Rightarrow> (u32 \<times> u16) list) \<Rightarrow> bytes \<Rightarrow> (u32 \<Rightarrow> (u32 \<times> u16) list) \<times> bool" where
  "spec_step prm A iph =
     (case scan_spec (scan_num_ports prm) (A (src_of iph)) (dst_of iph, dport_of iph) of
        (seen, al) \<Rightarrow> (A(src_of iph := seen), al))"

definition alarm_ok :: "nids_prm \<Rightarrow> u32 \<Rightarrow> host option \<Rightarrow> bool" where
  "alarm_ok prm src al \<longleftrightarrow> (\<forall>h. al = Some h \<longrightarrow> host_addr h = src \<and>
     int (length (host_packets h)) = scan_num_ports prm + 1 \<and> distinct (map target (host_packets h)))"

lemma record_target_alarm:
  assumes "host_wf prm h" and "0 \<le> scan_num_ports prm" and "record_target prm dst dport (Some fl) h = Some (h', al)"
  shows "alarm_ok prm (host_addr h) al"
proof (cases al)
  case (Some a)
  have s: "(map target (host_packets h'), True) = scan_spec (scan_num_ports prm) (map target (host_packets h)) (dst, dport)"
    and a: "host_addr a = host_addr h" "map target (host_packets a) = map target (host_packets h) @ [(dst, dport)]"
    using record_target_ok [OF assms(1,2), of dst dport fl] assms(3) Some by auto
  have new: "(dst, dport) \<notin> set (map target (host_packets h))" and n: "int (length (host_packets h)) \<ge> scan_num_ports prm"
    using s by (auto simp: scan_spec_def split: if_splits)
  have "length (host_packets a) = Suc (length (host_packets h))" using arg_cong [OF a(2), of length] by simp
  then show ?thesis using Some a new n assms(1) by (simp add: alarm_ok_def host_wf_def)
qed (simp add: alarm_ok_def)

text \<open>What one call did, in one record of facts: the host at \<open>j\<close> of the chain became \<open>h3\<close>.\<close>

definition detected :: "nids_prm \<Rightarrow> clock \<Rightarrow> bytes \<Rightarrow> scan_state \<Rightarrow> host list list \<Rightarrow> host list \<Rightarrow> nat \<Rightarrow> host \<Rightarrow> scan_state \<Rightarrow> host option \<Rightarrow> bool" where
  "detected prm clk iph s t chain j h3 s3 al \<longleftrightarrow>
     (let src = src_of iph; i = nat (scan_hash prm (sint src)) in
      hashhost s = Some t \<and> i < length t \<and> chain_wf prm i chain \<and> j < length chain \<and> host_addr (chain ! j) = src \<and>
      time0 s3 = time0 s \<and> clock_ms clk (time0 s) (clock_reads s) \<le> clock_ms clk (time0 s) (clock_reads s3) \<and>
      (\<forall>h \<in> set chain. time_wf (clock_ms clk (time0 s) (clock_reads s3)) h) \<and>
      time_wf (clock_ms clk (time0 s) (clock_reads s3)) h3 \<and> host_wf prm h3 \<and> host_addr h3 = src \<and>
      (map target (host_packets h3), al \<noteq> None) =
        scan_spec (scan_num_ports prm) (map target (host_packets (chain ! j))) (dst_of iph, dport_of iph) \<and>
      alarm_ok prm src al \<and>
      (\<not> evicts src (t ! i) \<longrightarrow> (\<forall>a. packets_of a chain = packets_of a (t ! i))) \<and>
      host_addr ` set chain \<subseteq> insert src (host_addr ` set (t ! i)))"

lemma tail_times:
  assumes "clock_ok clk (time0 s)" and "in_call clk r0 s" and "gettime clk s = (t2, s2)" and "gettime clk s2 = (t3, s3)"
  shows "timenow s \<le> clock_ms clk (time0 s) (clock_reads s3)"
proof -
  note g2 = gettime_in_call [OF assms(1-3)]
  have c2: "clock_ok clk (time0 s2)" using assms(1) g2(2) by simp
  note g3 = gettime_in_call [OF c2 g2(1) assms(4)]
  have "timenow s \<le> t3" using g2(4,7) g3(7) by linarith
  then show ?thesis using g3(6) g2(2) by simp
qed

lemma detect_scan_detected:
  assumes "prm_ok prm" and "clock_ok clk (time0 s)" and "scan_wf prm clk s" and "tcp_readable iph" and "hash_safe (src_of iph)"
  shows "\<exists>t chain j h3 s3 al. detected prm clk iph s t chain j h3 s3 al \<and>
     detect_scan prm clk iph s = Some (s3\<lparr>hashhost := Some (t[nat (scan_hash prm (sint (src_of iph))) := chain[j := h3]])\<rparr>, al)"
proof -
  let ?src = "src_of iph" and ?s0 = "s\<lparr>timenow := 0\<rparr>" and ?r = "clock_reads s"
  let ?i = "nat (scan_hash prm (sint ?src))" and ?ms = "clock_ms clk (time0 s)"
  obtain t where t: "hashhost s = Some t" using assms(3) by (auto simp: scan_wf_def split: option.splits)
  have len: "int (length t) = scan_num_hosts prm" using assms(3) t by (simp add: scan_wf_def)
  have hr: "0 \<le> scan_hash prm (sint ?src)" "scan_hash prm (sint ?src) < int (length t)"
    using scan_hash_range [OF assms(5), of prm] assms(1) len by (auto simp: prm_ok_def)
  then have i: "?i < length t" "scan_hash prm (sint ?src) = int ?i" by auto
  have cw: "chain_wf prm ?i (t ! ?i)" and tw: "\<forall>h \<in> set (t ! ?i). time_wf (?ms ?r) h"
    using assms(3) t i(1) by (auto simp: scan_wf_def)
  have pp: "0 \<le> scan_num_ports prm" using assms(1) by (simp add: prm_ok_def)
  have "\<exists>chain j s1. get_host clk ?src (t ! ?i) ?s0 = Some (chain, j, s1) \<and> got_host prm clk ?r ?i ?src (t ! ?i) ?s0 chain j s1"
    by (rule get_host_ok) (use assms(2) cw tw i(2) pp in \<open>auto simp: in_call_def\<close>)
  then obtain chain j s1 where g: "get_host clk ?src (t ! ?i) ?s0 = Some (chain, j, s1)"
    and gh: "got_host prm clk ?r ?i ?src (t ! ?i) ?s0 chain j s1" by blast
  then have s1: "in_call clk ?r s1" "time0 s1 = time0 s" and cw1: "chain_wf prm ?i chain" and j: "j < length chain"
      and src: "host_addr (chain ! j) = ?src"
      and mt: "\<forall>h \<in> set chain. 0 \<le> host_modtime h \<and> host_modtime h \<le> max (?ms ?r) (timenow s1)"
    by (simp_all add: got_host_def)
  obtain t2 s2 where g2: "gettime clk s1 = (t2, s2)" by (metis prod.exhaust)
  obtain t3 s3 where g3: "gettime clk s2 = (t3, s3)" by (metis prod.exhaust)
  have c1: "clock_ok clk (time0 s1)" using assms(2) s1 by simp
  note tail = record_on_host [OF c1 s1(1) cw1 j mt [folded s1(2)] assms(1) g2 g3, unfolded s1(2)]
  let ?h = "(chain ! j)\<lparr>host_modtime := t3\<rparr>"
  have hw: "host_wf prm ?h" using cw1 j by (auto simp: chain_wf_def host_wf_def dest!: nth_mem)
  obtain h3 al where r: "record_target prm (dst_of iph) (dport_of iph) (Some (iph ! (4 * unat (iph ! 0 AND 0x0f) + 13))) ?h = Some (h3, al)"
      and h3: "host_wf prm h3" "host_addr h3 = ?src" "host_modtime h3 = t3"
        "(map target (host_packets h3), al \<noteq> None) = scan_spec (scan_num_ports prm) (map target (host_packets (chain ! j))) (dst_of iph, dport_of iph)"
    using record_target_ok [OF hw pp] src by fastforce
  have d: "detect_scan prm clk iph s = Some (s3\<lparr>hashhost := Some (t[?i := chain[j := h3]])\<rparr>, al)"
    using assms(1) hr g g2 g3 r tail(1) t
    by (simp add: detect_scan_def tcp_readable_reads [OF assms(4)] prm_ok_def Let_def not_less del: add_2_eq_Suc')
  have ms3: "?ms ?r \<le> ?ms (clock_reads s3)" using assms(2) tail(2,3) by (intro clock_ok_mono) (auto simp: in_call_def)
  have "\<forall>h \<in> set chain. time_wf (?ms (clock_reads s3)) h"
    using mt ms3 tail_times [OF c1 s1(1) g2 g3] s1(2) by (fastforce simp: time_wf_def)
  moreover have "time_wf (?ms (clock_reads s3)) h3" using tail(5,6) h3(3) by (simp add: time_wf_def)
  moreover have "alarm_ok prm ?src al" using record_target_alarm [OF hw pp r] src by simp
  ultimately have "detected prm clk iph s t chain j h3 s3 al"
    using t i(1) cw1 j src tail(3) ms3 h3 gh by (simp add: detected_def got_host_def Let_def)
  then show ?thesis using d by blast
qed

lemma detected_spec:
  assumes "detected prm clk iph s t chain j h3 s3 al" and "\<not> evicts (src_of iph) (bucket prm s (src_of iph))"
  shows "(targets_of prm (s3\<lparr>hashhost := Some (t[nat (scan_hash prm (sint (src_of iph))) := chain[j := h3]])\<rparr>), al \<noteq> None) =
           spec_step prm (targets_of prm s) iph"
proof -
  let ?src = "src_of iph"
  let ?i = "nat (scan_hash prm (sint ?src))"
  have t: "hashhost s = Some t" "?i < length t" and cw: "chain_wf prm ?i chain" and j: "j < length chain"
      and src: "host_addr (chain ! j) = ?src" and h3: "host_wf prm h3" "host_addr h3 = ?src"
      and sp: "(map target (host_packets h3), al \<noteq> None) = scan_spec (scan_num_ports prm) (map target (host_packets (chain ! j))) (dst_of iph, dport_of iph)"
      and keep: "\<not> evicts ?src (t ! ?i) \<longrightarrow> (\<forall>a. packets_of a chain = packets_of a (t ! ?i))"
    using assms(1) by (simp_all add: detected_def Let_def)
  have k: "\<forall>a. packets_of a chain = packets_of a (t ! ?i)" using assms(2) keep t by (simp add: bucket_def)
  have "targets_of prm (s3\<lparr>hashhost := Some (t[?i := chain[j := h3]])\<rparr>) =
      (\<lambda>a. if a = ?src then map target (host_packets h3) else targets_of prm s a)"
    by (rule targets_of_put [OF t refl]) (use packets_of_update [OF cw j src h3(2,1)] k in auto)
  moreover have "map target (host_packets (chain ! j)) = targets_of prm s ?src"
    using packets_of_nth [OF cw j] src k t by (simp add: targets_of_def bucket_def)
  ultimately show ?thesis using sp by (auto simp: spec_step_def split: prod.splits)
qed

lemma detected_wf:
  assumes "detected prm clk iph s t chain j h3 s3 al" and "scan_wf prm clk s"
  shows "scan_wf prm clk (s3\<lparr>hashhost := Some (t[nat (scan_hash prm (sint (src_of iph))) := chain[j := h3]])\<rparr>)"
proof (rule scan_wf_put)
  show "hashhost s = Some t" "nat (scan_hash prm (sint (src_of iph))) < length t" "time0 s3 = time0 s"
    "clock_ms clk (time0 s) (clock_reads s) \<le> clock_ms clk (time0 s) (clock_reads s3)" "scan_wf prm clk s"
    using assms by (simp_all add: detected_def Let_def)
  show "chain_wf prm (nat (scan_hash prm (sint (src_of iph)))) (chain[j := h3])"
    using assms(1) by (intro chain_wf_update) (simp_all add: detected_def Let_def)
  show "\<forall>h \<in> set (chain[j := h3]). time_wf (clock_ms clk (time0 s) (clock_reads s3)) h"
    using assms(1) set_update_subset_insert [of chain j h3] by (auto simp: detected_def Let_def)
qed

definition hosts_in :: "scan_state \<Rightarrow> u32 set \<Rightarrow> bool" where
  "hosts_in s A \<longleftrightarrow> (\<forall>t \<in> set (the (hashhost s)). host_addr ` set t \<subseteq> A)"

lemma detected_hosts:
  assumes "detected prm clk iph s t chain j h3 s3 al" and "hosts_in s A" and "src_of iph \<in> A"
  shows "hosts_in (s3\<lparr>hashhost := Some (t[nat (scan_hash prm (sint (src_of iph))) := chain[j := h3]])\<rparr>) A"
proof -
  let ?i = "nat (scan_hash prm (sint (src_of iph)))"
  have t: "hashhost s = Some t" "?i < length t" and h3: "host_addr h3 = src_of iph"
      and sub: "host_addr ` set chain \<subseteq> insert (src_of iph) (host_addr ` set (t ! ?i))"
    using assms(1) by (simp_all add: detected_def Let_def)
  have "host_addr ` set (t ! ?i) \<subseteq> A" using assms(2) t by (simp add: hosts_in_def)
  then have "insert (src_of iph) (host_addr ` set (t ! ?i)) \<subseteq> A" using assms(3) by simp
  with sub have "host_addr ` set chain \<subseteq> A" by (rule subset_trans)
  then have "host_addr ` insert h3 (set chain) \<subseteq> A" using h3 assms(3) by simp
  then have c: "host_addr ` set (chain[j := h3]) \<subseteq> A"
    by (rule subset_trans [OF image_mono [OF set_update_subset_insert]])
  have "host_addr ` set u \<subseteq> A" if "u \<in> set (t[?i := chain[j := h3]])" for u
  proof -
    have "u = chain[j := h3] \<or> u \<in> set t"
      using that set_update_subset_insert [of t ?i "chain[j := h3]"] by auto
    then show ?thesis using c assms(2) t unfolding hosts_in_def by (metis option.sel)
  qed
  then show ?thesis by (simp add: hosts_in_def)
qed


section \<open>Properties\<close>

lemma scan_wf_init:
  assumes "prm_ok prm"
  shows "scan_wf prm clk (scan_init prm clk s)" "targets_of prm (scan_init prm clk s) = (\<lambda>_. [])" "hosts_in (scan_init prm clk s) A"
proof -
  have r: "hashhost (scan_init prm clk s) = Some (replicate (nat (scan_num_hosts prm)) [])" and n: "0 < nat (scan_num_hosts prm)"
    using assms by (simp_all add: scan_init_def prm_ok_def)
  show "scan_wf prm clk (scan_init prm clk s)"
    using assms by (simp add: scan_wf_def r chain_wf_def prm_ok_def)
  show "hosts_in (scan_init prm clk s) A" by (simp add: hosts_in_def r)
  have "nat (scan_hash prm (sint a)) < nat (scan_num_hosts prm)" for a :: u32
  proof -
    have "scan_hash prm (sint a) < scan_num_hosts prm"
      unfolding scan_hash_def using assms by (intro smod_int_less) (simp add: prm_ok_def)
    then show ?thesis using n by linarith
  qed
  then have "replicate (nat (scan_num_hosts prm)) [] ! nat (scan_hash prm (sint a)) = ([] :: host list)" for a :: u32
    by (rule nth_replicate)
  then show "targets_of prm (scan_init prm clk s) = (\<lambda>_. [])"
    by (simp add: fun_eq_iff targets_of_def bucket_def r packets_of_def host_of_def)
qed

text \<open>
  C30.  The detector is memory safe and keeps its invariant: on a well-formed table (chains of at most
  ten hosts with distinct addresses, each in the bucket of its hash, at most \<open>scan_num_ports\<close>
  distinct targets per host) and a packet whose TCP header is present, \<open>detect_scan\<close> reads and
  writes only inside the table, the packet array and the packet, and leaves a well-formed
  table; an alarm names the source of the packet with \<open>scan_num_ports + 1\<close> distinct targets.
  The source address must not be 0.0.x.y with \<open>y \<ge> 128\<close> (\<open>hash_safe\<close>: such an address is a negative
  \<open>int\<close> with a low half of zero, its hash is negative, and the detector accesses memory in front of the table, see
  \<open>detect_scan_negative_index\<close>); the clock does not run backwards and stays within \<open>2^31\<close> milliseconds of
  its start.
\<close>

theorem detect_scan_safe:
  assumes "prm_ok prm" and "clock_ok clk (time0 s)" and "scan_wf prm clk s" and "tcp_readable iph" and "hash_safe (src_of iph)"
  shows "\<exists>s' al. detect_scan prm clk iph s = Some (s', al) \<and> scan_wf prm clk s' \<and> alarm_ok prm (src_of iph) al"
proof -
  obtain t chain j h3 s3 al where d: "detected prm clk iph s t chain j h3 s3 al"
      and e: "detect_scan prm clk iph s = Some (s3\<lparr>hashhost := Some (t[nat (scan_hash prm (sint (src_of iph))) := chain[j := h3]])\<rparr>, al)"
    using detect_scan_detected [OF assms] by blast
  have "alarm_ok prm (src_of iph) al" using d by (simp add: detected_def Let_def)
  then show ?thesis using e detected_wf [OF d assms(3)] by blast
qed

text \<open>A packet from 10.0.0.1 to port 80 of 10.0.0.2, and a clock that advances by a second at each reading.\<close>

definition syn_packet :: bytes where
  "syn_packet = [0x45, 0, 0, 40, 0, 0, 0, 0, 64, 6, 0, 0, 10, 0, 0, 1, 10, 0, 0, 2] @ [0, 9, 0, 80] @ replicate 16 2"

definition scan_start :: scan_state where
  "scan_start = \<lparr>hashhost = None, time0 = 0, timenow = 0, clock_reads = 0\<rparr>"

definition tick :: clock where "tick n = (int (min n 1000), 0)"

lemma tick_ok: "clock_ok tick 0"
proof -
  have "clock_ms tick 0 n = int (min n 1000) * 1000" for n
    by (simp add: clock_ms_def tick_def i32_id)
  then show ?thesis by (auto simp: clock_ok_def mono_def)
qed

lemma nids_params0_scan: "prm_ok nids_params0"
  by (simp add: prm_ok_def nids_params0_def)

theorem detect_scan_safe_witness:
  "\<exists>s' al. detect_scan nids_params0 tick syn_packet (scan_init nids_params0 tick scan_start) = Some (s', al) \<and>
     scan_wf nids_params0 tick s' \<and> alarm_ok nids_params0 (src_of syn_packet) al"
proof -
  have "clock_ok tick (time0 (scan_init nids_params0 tick scan_start))"
    using tick_ok by (simp add: scan_init_def scan_start_def nids_params0_def tick_def)
  moreover have "tcp_readable syn_packet" "hash_safe (src_of syn_packet)" by code_simp+
  ultimately show ?thesis
    using detect_scan_safe nids_params0_scan scan_wf_init(1) [OF nids_params0_scan] by blast
qed

text \<open>A run of the detector over a sequence of packets, and of its specification.\<close>

fun scan_run :: "nids_prm \<Rightarrow> clock \<Rightarrow> bytes list \<Rightarrow> scan_state \<Rightarrow> (scan_state \<times> bool list) option" where
  "scan_run prm clk [] s = Some (s, [])"
| "scan_run prm clk (p # ps) s = do {
     (s1, al) \<leftarrow> detect_scan prm clk p s;
     (s2, als) \<leftarrow> scan_run prm clk ps s1;
     Some (s2, (al \<noteq> None) # als) }"

fun spec_run :: "nids_prm \<Rightarrow> bytes list \<Rightarrow> (u32 \<Rightarrow> (u32 \<times> u16) list) \<Rightarrow> bool list" where
  "spec_run prm [] A = []"
| "spec_run prm (p # ps) A = snd (spec_step prm A p) # spec_run prm ps (fst (spec_step prm A p))"

lemma no_eviction:
  assumes "scan_wf prm clk s" and "hosts_in s A" and "finite A" and "card A \<le> 10" and "src \<in> A"
    and "prm_ok prm" and "hash_safe src"
  shows "\<not> evicts src (bucket prm s src)"
proof
  assume e: "evicts src (bucket prm s src)"
  obtain t where t: "hashhost s = Some t" using assms(1) by (auto simp: scan_wf_def split: option.splits)
  have i: "nat (scan_hash prm (sint src)) < length t"
    using scan_hash_range [OF assms(7), of prm] assms(1,6) t by (auto simp: scan_wf_def prm_ok_def)
  let ?c = "t ! nat (scan_hash prm (sint src))"
  have "distinct (map host_addr ?c)" using assms(1) t i by (simp add: scan_wf_def chain_wf_def)
  then have "card (host_addr ` set ?c) = length ?c" by (metis distinct_card length_map set_map)
  moreover have "host_addr ` set ?c \<subseteq> A" using assms(2) t i by (simp add: hosts_in_def)
  then have "host_addr ` set ?c \<subseteq> A - {src}" using t e unfolding evicts_def bucket_def by auto
  ultimately have "length ?c \<le> card (A - {src})" using assms(3) by (metis card_mono finite_Diff)
  moreover have "card (A - {src}) < card A" using assms(3,5) by (rule card_Diff1_less)
  ultimately show False using e t assms(4) by (simp add: evicts_def bucket_def)
qed

lemma scan_run_spec:
  assumes "prm_ok prm" and "clock_ok clk (time0 s)" and "scan_wf prm clk s" and "hosts_in s A" and "finite A" and "card A \<le> 10"
    and "\<forall>p \<in> set ps. tcp_readable p \<and> hash_safe (src_of p) \<and> src_of p \<in> A"
  shows "\<exists>s'. scan_run prm clk ps s = Some (s', spec_run prm ps (targets_of prm s))"
  using assms(2,3,4,7)
proof (induction ps arbitrary: s)
  case (Cons p ps)
  have p: "tcp_readable p" "hash_safe (src_of p)" "src_of p \<in> A" using Cons.prems(4) by simp_all
  obtain t chain j h3 s3 al where d: "detected prm clk p s t chain j h3 s3 al"
      and e: "detect_scan prm clk p s = Some (s3\<lparr>hashhost := Some (t[nat (scan_hash prm (sint (src_of p))) := chain[j := h3]])\<rparr>, al)"
    using detect_scan_detected [OF assms(1) Cons.prems(1,2) p(1,2)] by blast
  have sp: "(targets_of prm (s3\<lparr>hashhost := Some (t[nat (scan_hash prm (sint (src_of p))) := chain[j := h3]])\<rparr>), al \<noteq> None) =
      spec_step prm (targets_of prm s) p"
    using detected_spec [OF d] no_eviction [OF Cons.prems(2,3) assms(5,6) p(3) assms(1) p(2)] by blast
  have t0: "time0 s3 = time0 s" using d by (simp add: detected_def Let_def)
  have "\<exists>s'. scan_run prm clk ps (s3\<lparr>hashhost := Some (t[nat (scan_hash prm (sint (src_of p))) := chain[j := h3]])\<rparr>) =
      Some (s', spec_run prm ps (targets_of prm (s3\<lparr>hashhost := Some (t[nat (scan_hash prm (sint (src_of p))) := chain[j := h3]])\<rparr>)))"
    by (rule Cons.IH) (use Cons.prems t0 detected_wf [OF d] detected_hosts [OF d] p in simp_all)
  then show ?case using e sp by (auto simp: prod_eq_iff)
qed simp

text \<open>
  C11.  Refinement: from the initial table, for any sequence of packets from at most ten sources, none of
  them 0.0.x.y with \<open>y \<ge> 128\<close> (\<open>hash_safe\<close>; for those the detector indexes in front of its table and the run is
  undefined, see \<open>detect_scan_negative_index\<close>), each with its TCP header up to the flags, the
  alarms are those of the specification run per source: exactly when a source contacts a new
  target with \<open>scan_num_ports\<close> distinct ones recorded since its last alarm.  In particular
  targets never expire, however much time passes between packets: the test
  \<open>modtime - gettime() > scan_delay\<close> is never true on a clock that does not run backwards
  and stays within \<open>2^31\<close> milliseconds of its start.
\<close>

theorem detect_scan_refines_spec:
  assumes "prm_ok prm" and "clock_ok clk (fst (clk (clock_reads s)))"
    and "card (src_of ` set ps) \<le> 10"
    and "\<forall>p \<in> set ps. tcp_readable p \<and> hash_safe (src_of p)"
  shows "\<exists>s'. scan_run prm clk ps (scan_init prm clk s) = Some (s', spec_run prm ps (\<lambda>_. []))"
proof -
  have "time0 (scan_init prm clk s) = fst (clk (clock_reads s))"
    using assms(1) by (simp add: scan_init_def prm_ok_def)
  then have "\<exists>s'. scan_run prm clk ps (scan_init prm clk s) =
      Some (s', spec_run prm ps (targets_of prm (scan_init prm clk s)))"
    using assms by (intro scan_run_spec [where A = "src_of ` set ps"] scan_wf_init) auto
  then show ?thesis by (simp add: scan_wf_init(2) [OF assms(1)])
qed

theorem detect_scan_refines_spec_witness:
  "\<exists>s'. scan_run (nids_params0\<lparr>scan_num_ports := 0\<rparr>) tick [syn_packet, syn_packet]
          (scan_init (nids_params0\<lparr>scan_num_ports := 0\<rparr>) tick scan_start) = Some (s', [True, True])"
proof -
  let ?prm = "nids_params0\<lparr>scan_num_ports := 0\<rparr>"
  have "prm_ok ?prm" by (simp add: prm_ok_def nids_params0_def)
  moreover have "clock_ok tick (fst (tick (clock_reads scan_start)))" using tick_ok by (simp add: tick_def scan_start_def)
  moreover have "tcp_readable syn_packet" "hash_safe (src_of syn_packet)" by code_simp+
  moreover have "spec_run ?prm [syn_packet, syn_packet] (\<lambda>_. []) = [True, True]" by code_simp
  ultimately show ?thesis using detect_scan_refines_spec [of ?prm tick scan_start "[syn_packet, syn_packet]"] by simp
qed

text \<open>
  A source address that is a negative \<open>int\<close> with a low half of zero (0.0.x.y with \<open>y\<close> at least
  128) hashes to a negative index: the detector accesses the table before its start.
\<close>

theorem detect_scan_negative_index:
  "scan_hash nids_params0 (sint (src_of (syn_packet[12 := 0, 13 := 0, 14 := 1, 15 := 0x80]))) = -255 \<and>
   detect_scan nids_params0 clk (syn_packet[12 := 0, 13 := 0, 14 := 1, 15 := 0x80])
     (scan_init nids_params0 clk s) = None"
proof -
  let ?p = "syn_packet[12 := 0, 13 := 0, 14 := 1, 15 := 0x80]"
  have h: "scan_hash nids_params0 (sint (src_of ?p)) = -255" by code_simp
  have "tcp_readable ?p" by code_simp
  then show ?thesis
    using h tcp_readable_reads [of ?p] by (simp add: detect_scan_def scan_init_def nids_params0_def Let_def)
qed

end
