(* ===== verification/Frag_List.thy ===== *)
theory Frag_List
  imports Nids
begin

text \<open>
  The fragment list of one incomplete datagram (\<open>src/libnids/ip_fragment.c\<close>: \<open>ip_frag_create\<close>,
  \<open>ip_done\<close>, the copying loop of \<open>ip_glue\<close>, and the placement and overlap handling of
  \<open>ip_defrag\<close>).  A chain of \<open>struct ipfrag\<close> is the list of its members in order; a pointer into
  fragment data is an index into the octets of its buffer.  The theorems: for the fragments of
  a datagram, in any order and with duplicates, the list stays sorted and gap free where it
  should be, \<open>ip_done\<close> answers exactly when every octet has arrived, and the glued
  payload is the payload that was sent.
\<close>

section \<open>Data\<close>

record sk_buff =
  skb_data :: bytes
  truesize :: int

record ipfrag =
  frag_offset :: int
  frag_end :: int
  frag_len :: int
  frag_skb :: sk_buff
  frag_ptr :: int

definition ip_frag_create :: "int \<Rightarrow> int \<Rightarrow> sk_buff \<Rightarrow> int \<Rightarrow> ipfrag" where
  "ip_frag_create offset e skb ptr =
     \<lparr>frag_offset = offset, frag_end = e, frag_len = e - offset, frag_skb = skb, frag_ptr = ptr\<rparr>"

section \<open>Insertion\<close>

text \<open>\<open>prev\<close> is the last fragment of the first part, \<open>next\<close> the head of the second.\<close>

definition find_place :: "int \<Rightarrow> ipfrag list \<Rightarrow> ipfrag list \<times> ipfrag list" where
  "find_place offset frs =
     (takeWhile (\<lambda>f. frag_offset f < offset) frs, dropWhile (\<lambda>f. frag_offset f < offset) frs)"

text \<open>
  The loop over the succeeding fragments.  \<open>kept\<close> holds the chain from \<open>next\<close> up to \<open>tmp\<close>, so the head
  of \<open>kept @ [tmp]\<close> is \<open>next\<close>; removing \<open>tmp\<close> makes its successor the new \<open>next\<close>.  The
  result is the chain from the final \<open>next\<close> on, the fragments freed, and how often an overlap
  was reported.
\<close>

fun next_overlaps :: "int \<Rightarrow> ipfrag list \<Rightarrow> ipfrag list \<Rightarrow> ipfrag list \<times> ipfrag list \<times> nat" where
  "next_overlaps e kept [] = (kept, [], 0)"
| "next_overlaps e kept (tmp # rest) =
     (if frag_offset tmp \<ge> e then (kept @ tmp # rest, [], 0)
      else
        let i = e - frag_offset (hd (kept @ [tmp]));
            tmp' = tmp\<lparr>frag_len := frag_len tmp - i, frag_offset := frag_offset tmp + i, frag_ptr := frag_ptr tmp + i\<rparr>
        in if frag_len tmp' \<le> 0
           then (case next_overlaps e [] rest of (nxt, freed, n) \<Rightarrow> (nxt, tmp' # freed, Suc n))
           else (case next_overlaps e (kept @ [tmp']) rest of (nxt, freed, n) \<Rightarrow> (nxt, freed, Suc n)))"

text \<open>The whole placement of a fragment: the new chain, the fragments freed, the overlaps reported.\<close>

definition insert_fragment ::
  "int \<Rightarrow> int \<Rightarrow> sk_buff \<Rightarrow> int \<Rightarrow> ipfrag list \<Rightarrow> ipfrag list \<times> ipfrag list \<times> nat" where
  "insert_fragment offset e skb ptr frs =
     (case find_place offset frs of (pre, post) \<Rightarrow>
        let over = (pre \<noteq> [] \<and> offset < frag_end (last pre));
            i = (if over then frag_end (last pre) - offset else 0)
        in (case next_overlaps e [] post of (nxt, freed, n) \<Rightarrow>
              (pre @ ip_frag_create (offset + i) e skb (ptr + i) # nxt, freed, (if over then Suc n else n))))"

section \<open>Completion and gluing\<close>

fun connected :: "int \<Rightarrow> ipfrag list \<Rightarrow> bool" where
  "connected offset [] = True"
| "connected offset (fp # r) = (if frag_offset fp > offset then False else connected (frag_end fp) r)"

definition ip_done :: "int \<Rightarrow> ipfrag list \<Rightarrow> bool" where
  "ip_done qlen frs = (if qlen = 0 then False else connected 0 frs)"

text \<open>\<open>memcpy\<close> with \<open>int\<close> offsets: \<open>n\<close> octets of \<open>src\<close> at \<open>i\<close> to \<open>dst\<close> at \<open>j\<close>.\<close>

definition copy_block :: "bytes \<Rightarrow> int \<Rightarrow> bytes \<Rightarrow> int \<Rightarrow> int \<Rightarrow> bytes option" where
  "copy_block dst j src i n =
     (if 0 \<le> i \<and> 0 \<le> j \<and> 0 \<le> n \<and> i + n \<le> int (length src)
      then wr dst (nat j) (take (nat n) (drop (nat i) src)) else None)"

text \<open>The outcome of the copying loop: an invalid list, or the buffer and the octets counted.\<close>

datatype glue_result = Glue_invlist | Glue_ok bytes int

fun glue_loop :: "int \<Rightarrow> int \<Rightarrow> ipfrag list \<Rightarrow> bytes \<Rightarrow> int \<Rightarrow> glue_result option" where
  "glue_loop ihlen len [] buf cnt = Some (Glue_ok buf cnt)"
| "glue_loop ihlen len (fp # r) buf cnt =
     (if frag_len fp < 0 \<or> frag_offset fp + ihlen + frag_len fp > len then Some Glue_invlist
      else do {
        buf' \<leftarrow> copy_block buf (ihlen + frag_offset fp) (skb_data (frag_skb fp)) (frag_ptr fp) (frag_len fp);
        glue_loop ihlen len r buf' (cnt + frag_len fp) })"

text \<open>\<open>iph->ip_off = 0; iph->ip_len = htons(iph->ip_hl * 4 + count)\<close> on the glued buffer.\<close>

definition fix_header :: "bytes \<Rightarrow> int \<Rightarrow> bytes option" where
  "fix_header skb cnt = do {
     b1 \<leftarrow> wr skb 6 [0, 0];
     x \<leftarrow> rd8 b1 0;
     let n = (word_of_int (int (unat (x AND 0x0f)) * 4 + cnt) :: u16);
     wr b1 2 [ucast (drop_bit 8 n), ucast n] }"


section \<open>Fragments of a payload\<close>

text \<open>A fragment that carries the octets \<open>[offset, end)\<close> of the payload \<open>D\<close>.\<close>

definition slice :: "int \<Rightarrow> int \<Rightarrow> bytes \<Rightarrow> bytes" where
  "slice i n b = take (nat n) (drop (nat i) b)"

definition carries :: "bytes \<Rightarrow> int \<Rightarrow> int \<Rightarrow> bytes \<Rightarrow> int \<Rightarrow> bool" where
  "carries D offset e buf ptr \<longleftrightarrow> 0 \<le> offset \<and> offset < e \<and> e \<le> int (length D) \<and> 0 \<le> ptr \<and>
     ptr + (e - offset) \<le> int (length buf) \<and> slice ptr (e - offset) buf = slice offset (e - offset) D"

definition frag_ok :: "bytes \<Rightarrow> ipfrag \<Rightarrow> bool" where
  "frag_ok D f \<longleftrightarrow> frag_len f = frag_end f - frag_offset f \<and>
     carries D (frag_offset f) (frag_end f) (skb_data (frag_skb f)) (frag_ptr f)"

definition chain_ok :: "bytes \<Rightarrow> ipfrag list \<Rightarrow> bool" where
  "chain_ok D frs \<longleftrightarrow> (\<forall>f \<in> set frs. frag_ok D f) \<and> sorted_wrt (\<lambda>f g. frag_end f \<le> frag_offset g) frs"

definition covers :: "ipfrag list \<Rightarrow> int set" where
  "covers frs = (\<Union>f \<in> set frs. {frag_offset f..<frag_end f})"

lemma covers_simps [simp]:
  "covers [] = {}" "covers (f # fs) = {frag_offset f..<frag_end f} \<union> covers fs" "covers (fs @ gs) = covers fs \<union> covers gs"
  by (auto simp: covers_def)

lemma chain_ok_simps [simp]:
  "chain_ok D []"
  "chain_ok D (f # fs) \<longleftrightarrow> frag_ok D f \<and> (\<forall>g \<in> set fs. frag_end f \<le> frag_offset g) \<and> chain_ok D fs"
  "chain_ok D (fs @ gs) \<longleftrightarrow> chain_ok D fs \<and> chain_ok D gs \<and> (\<forall>f \<in> set fs. \<forall>g \<in> set gs. frag_end f \<le> frag_offset g)"
  by (auto simp: chain_ok_def sorted_wrt_append)

lemma frag_ok_less: "frag_ok D f \<Longrightarrow> frag_offset f < frag_end f"
  by (simp add: frag_ok_def carries_def)

lemma slice_slice: "0 \<le> i \<Longrightarrow> 0 \<le> j \<Longrightarrow> j + n \<le> m \<Longrightarrow> slice j n (slice i m b) = slice (i + j) n b"
  by (cases "n \<le> 0") (simp_all add: slice_def drop_take nat_add_distrib [symmetric] min_def nat_le_eq_zle
      nat_diff_distrib' add.commute)

lemma carries_tail:
  assumes "carries D offset e buf ptr" and "0 \<le> i" and "offset + i < e"
  shows "carries D (offset + i) e buf (ptr + i)"
proof -
  have "slice (ptr + i) (e - (offset + i)) buf = slice i (e - (offset + i)) (slice ptr (e - offset) buf)"
    using assms by (subst slice_slice) (auto simp: carries_def)
  also have "\<dots> = slice i (e - (offset + i)) (slice offset (e - offset) D)"
    using assms(1) by (simp add: carries_def)
  also have "\<dots> = slice (offset + i) (e - (offset + i)) D"
    using assms by (subst slice_slice) (auto simp: carries_def)
  finally show ?thesis using assms by (auto simp: carries_def)
qed

section \<open>Insertion keeps the list\<close>

text \<open>Interval arithmetic on the octets present.\<close>

lemma cover_insert:
  fixes a i e :: int
  assumes "{a..<a + i} \<subseteq> P" and "Q \<inter> {..<a} = {}" and "0 \<le> i" and "a + i < e"
  shows "P \<union> ({a + i..<e} \<union> (Q - {..<e})) = P \<union> Q \<union> {a..<e}"
proof (rule set_eqI)
  fix x
  have "a \<le> x \<Longrightarrow> x < a + i \<Longrightarrow> x \<in> P" "x \<in> Q \<Longrightarrow> a \<le> x" using assms(1,2) by auto
  then show "x \<in> P \<union> ({a + i..<e} \<union> (Q - {..<e})) \<longleftrightarrow> x \<in> P \<union> Q \<union> {a..<e}"
    using assms(3,4) by (simp, linarith)
qed

lemma cover_split:
  fixes a b c :: int
  assumes "Q \<inter> {..<b} = {}" and "a \<le> b" and "b \<le> c"
  shows "{a..<b} \<union> Q = {a..<c} \<longleftrightarrow> Q = {b..<c}"
proof
  assume "{a..<b} \<union> Q = {a..<c}"
  moreover have "Q = ({a..<b} \<union> Q) - {..<b}" using assms(1) by auto
  ultimately have "Q = {a..<c} - {..<b}" by simp
  then show "Q = {b..<c}" using assms(2) by auto
next
  assume "Q = {b..<c}"
  then show "{a..<b} \<union> Q = {a..<c}" using assms(2,3) by auto
qed

text \<open>On a sorted list the loop over the successors cuts everything below \<open>e\<close>.\<close>

lemma next_overlaps_break: "\<forall>f \<in> set rest. e \<le> frag_offset f \<Longrightarrow> next_overlaps e kept rest = (kept @ rest, [], 0)"
  by (cases rest) auto

lemma next_overlaps_chain:
  assumes "chain_ok D post" and "next_overlaps e [] post = (nxt, freed, n)"
  shows "chain_ok D nxt \<and> (\<forall>f \<in> set nxt. e \<le> frag_offset f) \<and> covers nxt = covers post - {..<e}"
  using assms
proof (induction post arbitrary: nxt freed n)
  case (Cons tmp rest)
  have t: "frag_ok D tmp" and r: "chain_ok D rest" and gap: "\<forall>g \<in> set rest. frag_end tmp \<le> frag_offset g"
    using Cons.prems(1) by simp_all
  have low: "covers rest \<inter> {..<frag_end tmp} = {}" using gap by (fastforce simp: covers_def)
  consider (brk) "frag_offset tmp \<ge> e" | (rm) "frag_offset tmp < e" "frag_end tmp \<le> e"
    | (cut) "frag_offset tmp < e" "e < frag_end tmp" by linarith
  then show ?case
  proof cases
    case brk
    then have "\<forall>g \<in> set rest. e \<le> frag_offset g" using gap frag_ok_less [OF t] by fastforce
    moreover have "covers rest \<inter> {..<e} = {}" using calculation by (fastforce simp: covers_def)
    ultimately show ?thesis using brk Cons.prems by auto
  next
    case rm
    then obtain nx fr m where no: "next_overlaps e [] rest = (nx, fr, m)" by (metis prod_cases3)
    have "nxt = nx" using Cons.prems(2) rm t no by (auto simp: frag_ok_def Let_def)
    moreover have "covers (tmp # rest) - {..<e} = covers rest - {..<e}" using rm by auto
    ultimately show ?thesis using Cons.IH [OF r no] by simp
  next
    case cut
    let ?i = "e - frag_offset tmp"
    let ?t = "tmp\<lparr>frag_len := frag_len tmp - ?i, frag_offset := frag_offset tmp + ?i, frag_ptr := frag_ptr tmp + ?i\<rparr>"
    have g: "\<forall>g \<in> set rest. e \<le> frag_offset g" using gap cut by fastforce
    have "carries D (frag_offset tmp + ?i) (frag_end tmp) (skb_data (frag_skb tmp)) (frag_ptr tmp + ?i)"
      by (rule carries_tail) (use t cut in \<open>auto simp: frag_ok_def\<close>)
    then have ok: "frag_ok D ?t" using t by (simp add: frag_ok_def)
    have "nxt = ?t # rest"
      using Cons.prems(2) cut t next_overlaps_break [OF g, of "[?t]"] by (auto simp: frag_ok_def Let_def)
    moreover have "covers rest \<inter> {..<e} = {}" using g by (fastforce simp: covers_def)
    ultimately show ?thesis using ok r gap g cut by auto
  qed
qed simp

text \<open>
  A new fragment that no earlier fragment covers: the chain stays sorted, every fragment still
  carries its part of the payload, and the octets present are the old ones and the new ones.
\<close>

definition not_covered :: "int \<Rightarrow> int \<Rightarrow> ipfrag list \<Rightarrow> bool" where
  "not_covered offset e frs \<longleftrightarrow> (\<forall>f \<in> set frs. frag_offset f < offset \<longrightarrow> offset < frag_end f \<longrightarrow> frag_end f < e)"

lemma chain_ok_last:
  "chain_ok D fs \<Longrightarrow> f \<in> set fs \<Longrightarrow> frag_end f \<le> frag_end (last fs)"
proof (induction fs)
  case (Cons g gs)
  show ?case
  proof (cases "gs = []")
    case False
    then have l: "last gs \<in> set gs" by simp
    have "frag_offset (last gs) < frag_end (last gs)"
      using Cons.prems(1) l by (intro frag_ok_less [of D]) (auto simp: chain_ok_def)
    moreover have "frag_end g \<le> frag_offset (last gs)" using Cons.prems(1) l by simp
    moreover have "f = g \<or> f \<in> set gs" using Cons.prems(2) by auto
    moreover have "chain_ok D gs" using Cons.prems(1) by simp
    ultimately show ?thesis using Cons.IH False by fastforce
  qed (use Cons.prems in simp)
qed simp

lemma insert_fragment_ok:
  assumes "chain_ok D frs" and "carries D offset e (skb_data skb) ptr" and "not_covered offset e frs"
    and "insert_fragment offset e skb ptr frs = (frs', freed, n)"
  shows "chain_ok D frs'" and "covers frs' = covers frs \<union> {offset..<e}"
proof -
  let ?P = "\<lambda>f. frag_offset f < offset"
  define pre post where "pre = takeWhile ?P frs" and "post = dropWhile ?P frs"
  have split: "frs = pre @ post" by (simp add: pre_def post_def)
  then have c: "chain_ok D pre" "chain_ok D post" "\<forall>f \<in> set pre. \<forall>g \<in> set post. frag_end f \<le> frag_offset g"
    using assms(1) by auto
  obtain nxt fr m where no: "next_overlaps e [] post = (nxt, fr, m)" by (metis prod_cases3)
  note nx = next_overlaps_chain [OF c(2) no]
  define over where "over = (pre \<noteq> [] \<and> offset < frag_end (last pre))"
  define i where "i = (if over then frag_end (last pre) - offset else 0)"
  define new where "new = ip_frag_create (offset + i) e skb (ptr + i)"
  have frs': "frs' = pre @ new # nxt"
    using assms(4) no by (auto simp: insert_fragment_def find_place_def pre_def [symmetric] post_def [symmetric]
        over_def i_def new_def Let_def split: if_splits)
  have lp: "frag_offset (last pre) < offset" if "pre \<noteq> []"
    using that last_in_set [OF that] unfolding pre_def by (meson set_takeWhileD)
  have i: "0 \<le> i" "offset + i < e"
  proof -
    show "0 \<le> i" by (simp add: i_def over_def)
    show "offset + i < e"
    proof (cases over)
      case True
      then have "last pre \<in> set frs" by (simp add: split over_def)
      then show ?thesis using True lp assms(3) by (auto simp: not_covered_def over_def i_def)
    next
      case False
      then show ?thesis using assms(2) by (simp add: i_def carries_def)
    qed
  qed
  have ok: "frag_ok D new" using carries_tail [OF assms(2) i] by (simp add: frag_ok_def new_def ip_frag_create_def)
  have le: "\<forall>f \<in> set pre. frag_end f \<le> offset + i"
    using chain_ok_last [OF c(1)] by (fastforce simp: i_def over_def)
  have pn: "\<forall>f \<in> set pre. \<forall>g \<in> set nxt. frag_end f \<le> frag_offset g" using le i(2) nx by fastforce
  show "chain_ok D frs'"
    using c(1) nx ok le pn by (simp add: frs' new_def ip_frag_create_def)
  have gap: "{offset..<offset + i} \<subseteq> covers pre"
  proof (cases over)
    case True
    then have "last pre \<in> set pre" by (simp add: over_def)
    then have "{frag_offset (last pre)..<frag_end (last pre)} \<subseteq> covers pre"
      unfolding covers_def by (rule UN_upper)
    then show ?thesis using lp True by (fastforce simp: i_def over_def)
  qed (simp add: i_def)
  have post: "\<forall>f \<in> set post. offset \<le> frag_offset f"
  proof (cases post)
    case (Cons a list)
    then have "\<not> frag_offset a < offset" using hd_dropWhile [of ?P frs] by (simp add: post_def)
    then show ?thesis using c(2) Cons frag_ok_less [of D a] by fastforce
  qed simp
  then have "covers post \<inter> {..<offset} = {}" by (fastforce simp: covers_def)
  then show "covers frs' = covers frs \<union> {offset..<e}"
    using nx cover_insert [OF gap _ i] by (simp add: frs' split new_def ip_frag_create_def)
qed


section \<open>Completion\<close>

definition last_end :: "int \<Rightarrow> ipfrag list \<Rightarrow> int" where
  "last_end a frs = (if frs = [] then a else frag_end (last frs))"

lemma last_end_simps [simp]: "last_end a [] = a" "last_end a (f # fs) = last_end (frag_end f) fs"
  by (simp_all add: last_end_def)

lemma last_end_ge: "chain_ok D frs \<Longrightarrow> \<forall>f \<in> set frs. a \<le> frag_offset f \<Longrightarrow> a \<le> last_end a frs"
proof (induction frs arbitrary: a)
  case (Cons f fs)
  have "frag_offset f < frag_end f" using Cons.prems(1) frag_ok_less by auto
  then show ?case using Cons.IH [of "frag_end f"] Cons.prems by fastforce
qed simp

lemma connected_covers:
  assumes "chain_ok D frs" and "\<forall>f \<in> set frs. a \<le> frag_offset f"
  shows "connected a frs \<longleftrightarrow> covers frs = {a..<last_end a frs}"
  using assms
proof (induction frs arbitrary: a)
  case (Cons f fs)
  have f: "frag_offset f < frag_end f" "a \<le> frag_offset f" using Cons.prems frag_ok_less by auto
  have fs: "chain_ok D fs" "\<forall>g \<in> set fs. frag_end f \<le> frag_offset g" using Cons.prems(1) by auto
  have low: "covers fs \<inter> {..<frag_end f} = {}" using fs(2) by (fastforce simp: covers_def)
  have e: "frag_end f \<le> last_end (frag_end f) fs" using last_end_ge [OF fs] .
  note IH = Cons.IH [OF fs]
  show ?case
  proof (cases "frag_offset f = a")
    case True
    have "frag_end f \<ge> a" using f by simp
    note cover_split [OF low this e]
    then show ?thesis using True IH by simp
  next
    case False
    then have g: "a < frag_offset f" using f by simp
    have "a \<notin> covers (f # fs)" using g f low by auto
    moreover have "a \<in> {a..<last_end a (f # fs)}" using e f by simp
    ultimately have "covers (f # fs) \<noteq> {a..<last_end a (f # fs)}" by blast
    then show ?thesis using g by simp
  qed
qed simp

section \<open>Gluing\<close>

lemma copy_block_slice:
  assumes "0 \<le> i" and "0 \<le> j" and "0 \<le> n" and "i + n \<le> int (length src)" and "j + n \<le> int (length dst)"
  shows "copy_block dst j src i n = Some (take (nat j) dst @ slice i n src @ drop (nat (j + n)) dst)"
proof -
  have l: "length (slice i n src) = nat n" using assms by (simp add: slice_def)
  then have "nat j + length (slice i n src) \<le> length dst" and "nat j + length (slice i n src) = nat (j + n)"
    using assms by (simp_all add: nat_add_distrib)
  then show ?thesis using assms by (simp add: copy_block_def wr_def slice_def [symmetric])
qed

text \<open>The buffer holds the header and the first \<open>a\<close> octets of the payload.\<close>

definition glued :: "bytes \<Rightarrow> bytes \<Rightarrow> int \<Rightarrow> bytes \<Rightarrow> bool" where
  "glued hdr D a buf \<longleftrightarrow> length buf = length hdr + length D \<and> take (length hdr + nat a) buf = hdr @ take (nat a) D"

lemma glue_step:
  assumes "glued hdr D a buf" and "frag_ok D f" and "frag_offset f = a"
  shows "\<exists>buf'. copy_block buf (int (length hdr) + frag_offset f) (skb_data (frag_skb f)) (frag_ptr f) (frag_len f) = Some buf' \<and>
           glued hdr D (frag_end f) buf'"
proof -
  let ?h = "length hdr" and ?n = "frag_len f"
  have c: "0 \<le> a" "a < frag_end f" "frag_end f \<le> int (length D)" "?n = frag_end f - a" "0 \<le> frag_ptr f"
      "frag_ptr f + ?n \<le> int (length (skb_data (frag_skb f)))"
      and s: "slice (frag_ptr f) ?n (skb_data (frag_skb f)) = slice a ?n D"
    using assms(2,3) by (auto simp: frag_ok_def carries_def)
  let ?b = "take (nat (int ?h + a)) buf @ slice a ?n D @ drop (nat (int ?h + a + ?n)) buf"
  have n: "nat (int ?h + a) = ?h + nat a" "nat (int ?h + a + ?n) = ?h + nat (frag_end f)"
    using c by (simp_all add: nat_add_distrib)
  have cp: "copy_block buf (int ?h + frag_offset f) (skb_data (frag_skb f)) (frag_ptr f) ?n = Some ?b"
    using c assms(1,3) s by (subst copy_block_slice) (auto simp: glued_def)
  have sl: "length (slice a ?n D) = nat ?n" using c by (simp add: slice_def)
  have lb: "length (take (?h + nat a) buf) = ?h + nat a" using assms(1) c by (simp add: glued_def)
  have len: "length ?b = ?h + length D"
    unfolding n using sl assms(1) c by (simp add: glued_def)
  have "take (nat (frag_end f)) D = take (nat a) D @ slice a ?n D"
    using c by (simp add: slice_def take_add [symmetric] nat_add_distrib [symmetric])
  moreover have "take (?h + nat (frag_end f)) ?b = take (?h + nat a) buf @ slice a ?n D"
    unfolding n using lb sl c by (simp del: length_take)
  ultimately have "glued hdr D (frag_end f) ?b" using assms(1) len by (simp add: glued_def)
  then show ?thesis using cp by blast
qed

lemma glue_loop_ok:
  assumes "chain_ok D frs" and "\<forall>f \<in> set frs. a \<le> frag_offset f" and "connected a frs" and "glued hdr D a buf"
  shows "\<exists>buf'. glue_loop (int (length hdr)) (int (length hdr + length D)) frs buf a = Some (Glue_ok buf' (last_end a frs)) \<and>
           glued hdr D (last_end a frs) buf'"
  using assms
proof (induction frs arbitrary: a buf)
  case (Cons f fs)
  have f: "frag_ok D f" "frag_offset f = a" and fs: "chain_ok D fs" "\<forall>g \<in> set fs. frag_end f \<le> frag_offset g" "connected (frag_end f) fs"
    using Cons.prems by (auto split: if_splits)
  obtain buf' where cp: "copy_block buf (int (length hdr) + frag_offset f) (skb_data (frag_skb f)) (frag_ptr f) (frag_len f) = Some buf'"
      and g: "glued hdr D (frag_end f) buf'"
    using glue_step [OF Cons.prems(4) f] by blast
  have "0 \<le> frag_len f" "a + frag_len f = frag_end f" "frag_end f \<le> int (length D)"
    using f by (auto simp: frag_ok_def carries_def)
  then show ?case using Cons.IH [OF fs g] cp f(2) by (auto simp: algebra_simps)
qed simp


section \<open>A queue of one datagram\<close>

text \<open>
  What \<open>ip_defrag\<close> does to the queue entry of a datagram: a final fragment fixes the length, and the
  fragment is placed.  An arrival is the \<open>more\<close> flag, the range, the buffer and where the
  data starts in it.
\<close>

record arrival =
  arr_more :: bool
  arr_offset :: int
  arr_end :: int
  arr_skb :: sk_buff
  arr_ptr :: int

definition queue_fragment :: "arrival \<Rightarrow> int \<times> ipfrag list \<Rightarrow> (int \<times> ipfrag list) \<times> ipfrag list \<times> nat" where
  "queue_fragment a q = (case q of (qlen, frs) \<Rightarrow>
     (case insert_fragment (arr_offset a) (arr_end a) (arr_skb a) (arr_ptr a) frs of (frs', freed, n) \<Rightarrow>
        ((if arr_more a then qlen else arr_end a, frs'), freed, n)))"

definition queue_fragments :: "arrival list \<Rightarrow> int \<times> ipfrag list" where
  "queue_fragments as = fold (\<lambda>a q. fst (queue_fragment a q)) as (0, [])"

text \<open>The fragments of \<open>D\<close>: each carries its part, the final one reaches the end, and two
  of them are either the same range (a duplicate) or disjoint.\<close>

definition fragment_of :: "bytes \<Rightarrow> arrival \<Rightarrow> bool" where
  "fragment_of D a \<longleftrightarrow> carries D (arr_offset a) (arr_end a) (skb_data (arr_skb a)) (arr_ptr a) \<and>
     (arr_more a \<longleftrightarrow> arr_end a < int (length D))"

definition apart :: "arrival \<Rightarrow> arrival \<Rightarrow> bool" where
  "apart a b \<longleftrightarrow> (arr_offset a = arr_offset b \<and> arr_end a = arr_end b) \<or>
     arr_end a \<le> arr_offset b \<or> arr_end b \<le> arr_offset a"

definition fragmentation :: "bytes \<Rightarrow> arrival list \<Rightarrow> bool" where
  "fragmentation D as \<longleftrightarrow> (\<forall>a \<in> set as. fragment_of D a) \<and> (\<forall>a \<in> set as. \<forall>b \<in> set as. apart a b)"

definition arrived :: "arrival list \<Rightarrow> int set" where
  "arrived as = (\<Union>a \<in> set as. {arr_offset a..<arr_end a})"

text \<open>The ranges in the chain are ranges that arrived.\<close>

definition ranges :: "ipfrag list \<Rightarrow> (int \<times> int) set" where
  "ranges frs = (\<lambda>f. (frag_offset f, frag_end f)) ` set frs"

definition arr_ranges :: "arrival list \<Rightarrow> (int \<times> int) set" where
  "arr_ranges as = (\<lambda>a. (arr_offset a, arr_end a)) ` set as"

text \<open>An exact duplicate replaces its original, and a disjoint fragment disturbs nothing.\<close>

lemma next_overlaps_apart:
  assumes "\<forall>f \<in> set post. (frag_offset f = off \<and> frag_end f = e \<and> frag_len f = e - off) \<or> e \<le> frag_offset f"
  shows "ranges (fst (next_overlaps e [] post)) \<subseteq> ranges post"
  using assms
proof (induction post)
  case (Cons f fs)
  show ?case
  proof (cases "e \<le> frag_offset f")
    case False
    then have "fst (next_overlaps e [] (f # fs)) = fst (next_overlaps e [] fs)"
      using Cons.prems by (auto simp: Let_def split: prod.splits)
    then show ?thesis using Cons by (auto simp: ranges_def)
  qed simp
qed (simp add: ranges_def)

lemma insert_fragment_ranges:
  assumes "chain_ok D frs" and "off < e"
    and "\<forall>f \<in> set frs. (frag_offset f = off \<and> frag_end f = e) \<or> e \<le> frag_offset f \<or> frag_end f \<le> off"
  shows "ranges (fst (insert_fragment off e skb ptr frs)) \<subseteq> insert (off, e) (ranges frs)" and "not_covered off e frs"
proof -
  let ?P = "\<lambda>f. frag_offset f < off"
  let ?pre = "takeWhile ?P frs" and ?post = "dropWhile ?P frs"
  have ok: "frag_ok D f" if "f \<in> set frs" for f using assms(1) that by (simp add: chain_ok_def)
  have pre: "frag_end f \<le> off" if "f \<in> set ?pre" for f
  proof -
    have "f \<in> set frs" "frag_offset f < off" using that by (auto dest: set_takeWhileD)
    then show ?thesis using assms(2,3) by fastforce
  qed
  show "not_covered off e frs" using assms(2,3) by (fastforce simp: not_covered_def)
  have mem: "f \<in> set frs" if "f \<in> set ?post" for f using that by (rule set_dropWhileD)
  have ge: "off \<le> frag_offset f" if "f \<in> set ?post" for f
  proof -
    have "chain_ok D ?post" using assms(1) by (metis chain_ok_simps(3) takeWhile_dropWhile_id)
    then show ?thesis using that hd_dropWhile [of ?P frs] frag_ok_less [of D "hd ?post"]
      by (cases ?post) fastforce+
  qed
  have post: "\<forall>f \<in> set ?post. (frag_offset f = off \<and> frag_end f = e \<and> frag_len f = e - off) \<or> e \<le> frag_offset f"
  proof
    fix f assume f: "f \<in> set ?post"
    show "(frag_offset f = off \<and> frag_end f = e \<and> frag_len f = e - off) \<or> e \<le> frag_offset f"
      using assms(3) mem [OF f] ge [OF f] ok [OF mem [OF f]] frag_ok_less [of D f] by (fastforce simp: frag_ok_def)
  qed
  have no: "\<not> (?pre \<noteq> [] \<and> off < frag_end (last ?pre))" using pre [of "last ?pre"] by fastforce
  then have e: "fst (insert_fragment off e skb ptr frs) = ?pre @ ip_frag_create off e skb ptr # fst (next_overlaps e [] ?post)"
    by (auto simp: insert_fragment_def find_place_def Let_def split: prod.splits)
  have "ranges frs = ranges ?pre \<union> ranges ?post"
    unfolding ranges_def by (metis image_Un set_append takeWhile_dropWhile_id)
  then show "ranges (fst (insert_fragment off e skb ptr frs)) \<subseteq> insert (off, e) (ranges frs)"
    using next_overlaps_apart [OF post] by (auto simp: e ranges_def ip_frag_create_def)
qed

lemma queue_fragments_ok:
  assumes "fragmentation D as"
  defines "q \<equiv> queue_fragments as"
  shows "chain_ok D (snd q) \<and> covers (snd q) = arrived as \<and> ranges (snd q) \<subseteq> arr_ranges as \<and>
     fst q = (if \<exists>a \<in> set as. \<not> arr_more a then int (length D) else 0)"
  using assms(1) unfolding q_def
proof (induction as rule: rev_induct)
  case Nil
  then show ?case by (simp add: queue_fragments_def arrived_def ranges_def)
next
  case (snoc a as)
  obtain qlen frs where q: "queue_fragments as = (qlen, frs)" by (metis prod.exhaust)
  have fr: "fragmentation D as" using snoc.prems by (simp add: fragmentation_def)
  then have ih: "chain_ok D frs" "covers frs = arrived as" "ranges frs \<subseteq> arr_ranges as"
      "qlen = (if \<exists>a \<in> set as. \<not> arr_more a then int (length D) else 0)"
    using snoc.IH q by simp_all
  have a: "fragment_of D a" and ap: "\<forall>b \<in> set as. apart b a" using snoc.prems by (auto simp: fragmentation_def)
  then have c: "carries D (arr_offset a) (arr_end a) (skb_data (arr_skb a)) (arr_ptr a)" by (simp add: fragment_of_def)
  then have lt: "arr_offset a < arr_end a" by (simp add: carries_def)
  have "\<forall>f \<in> set frs. (frag_offset f = arr_offset a \<and> frag_end f = arr_end a) \<or> arr_end a \<le> frag_offset f \<or> frag_end f \<le> arr_offset a"
  proof
    fix f assume "f \<in> set frs"
    then obtain b where "b \<in> set as" "frag_offset f = arr_offset b" "frag_end f = arr_end b"
      using ih(3) by (fastforce simp: ranges_def arr_ranges_def)
    then show "(frag_offset f = arr_offset a \<and> frag_end f = arr_end a) \<or> arr_end a \<le> frag_offset f \<or> frag_end f \<le> arr_offset a"
      using ap by (auto simp: apart_def)
  qed
  note sep = this
  have ins1: "ranges (fst (insert_fragment (arr_offset a) (arr_end a) (arr_skb a) (arr_ptr a) frs)) \<subseteq>
      insert (arr_offset a, arr_end a) (ranges frs)" by (rule insert_fragment_ranges(1) [OF ih(1) lt sep])
  have ins2: "not_covered (arr_offset a) (arr_end a) frs" by (rule insert_fragment_ranges(2) [OF ih(1) lt sep])
  obtain frs' freed n where i: "insert_fragment (arr_offset a) (arr_end a) (arr_skb a) (arr_ptr a) frs = (frs', freed, n)"
    by (metis prod_cases3)
  note new = insert_fragment_ok [OF ih(1) c ins2 i]
  have q': "queue_fragments (as @ [a]) = (if arr_more a then qlen else arr_end a, frs')"
    using q i by (simp add: queue_fragments_def queue_fragment_def)
  have "arr_end a = int (length D)" if "\<not> arr_more a" using a c that by (auto simp: fragment_of_def carries_def)
  then show ?case using new ih ins1 i unfolding q' by (auto simp: arrived_def arr_ranges_def)
qed


lemma chain_last_end:
  assumes "chain_ok D frs" and "int (length D) - 1 \<in> covers frs"
  shows "last_end a frs = int (length D)"
proof -
  obtain f where f: "f \<in> set frs" "int (length D) \<le> frag_end f" using assms(2) by (auto simp: covers_def)
  then have n: "frs \<noteq> []" by auto
  have "frag_end (last frs) \<le> int (length D)"
    using assms(1) n by (auto simp: chain_ok_def frag_ok_def carries_def)
  then show ?thesis using f chain_ok_last [OF assms(1) f(1)] n by (simp add: last_end_def)
qed

lemma ip_done_iff_arrived:
  assumes "fragmentation D as" and "D \<noteq> []" and "queue_fragments as = (qlen, frs)"
  shows "ip_done qlen frs \<longleftrightarrow> arrived as = {0..<int (length D)}"
proof -
  have q: "chain_ok D frs" "covers frs = arrived as" "qlen = (if \<exists>a \<in> set as. \<not> arr_more a then int (length D) else 0)"
    using queue_fragments_ok [OF assms(1)] assms(3) by simp_all
  have d: "0 < int (length D)" using assms(2) by simp
  have z: "\<forall>f \<in> set frs. 0 \<le> frag_offset f" using q(1) by (auto simp: chain_ok_def frag_ok_def carries_def)
  have fo: "\<And>a. a \<in> set as \<Longrightarrow> fragment_of D a" using assms(1) by (simp add: fragmentation_def)
  have fin: "qlen \<noteq> 0 \<longleftrightarrow> int (length D) - 1 \<in> arrived as"
  proof
    assume "qlen \<noteq> 0"
    then obtain a where a: "a \<in> set as" "\<not> arr_more a" using q(3) by (auto split: if_splits)
    then have "int (length D) - 1 \<in> {arr_offset a..<arr_end a}" using fo [OF a(1)] by (auto simp: fragment_of_def carries_def)
    then show "int (length D) - 1 \<in> arrived as" using a(1) unfolding arrived_def by blast
  next
    assume "int (length D) - 1 \<in> arrived as"
    then obtain a where "a \<in> set as" "int (length D) - 1 < arr_end a" by (auto simp: arrived_def)
    then have "a \<in> set as \<and> \<not> arr_more a" using fo by (auto simp: fragment_of_def)
    then show "qlen \<noteq> 0" using q(3) d by auto
  qed
  show ?thesis
  proof (cases "int (length D) - 1 \<in> arrived as")
    case True
    then have "last_end 0 frs = int (length D)" using chain_last_end [OF q(1)] q(2) by simp
    then show ?thesis using True fin connected_covers [OF q(1) z] q(2) by (simp add: ip_done_def)
  next
    case False
    then have "arrived as \<noteq> {0..<int (length D)}" using d by auto
    then show ?thesis using False fin by (simp add: ip_done_def)
  qed
qed

lemma glue_arrived:
  assumes "fragmentation D as" and "D \<noteq> []" and "queue_fragments as = (qlen, frs)" and "ip_done qlen frs"
    and "length buf = length hdr + length D" and "take (length hdr) buf = hdr"
  shows "qlen = int (length D)"
    and "glue_loop (int (length hdr)) (int (length hdr) + qlen) frs buf 0 = Some (Glue_ok (hdr @ D) (int (length D)))"
proof -
  have q: "chain_ok D frs" "covers frs = arrived as" "qlen = (if \<exists>a \<in> set as. \<not> arr_more a then int (length D) else 0)"
    using queue_fragments_ok [OF assms(1)] assms(3) by simp_all
  show ql: "qlen = int (length D)" using assms(4) q(3) by (auto simp: ip_done_def split: if_splits)
  have z: "\<forall>f \<in> set frs. 0 \<le> frag_offset f" using q(1) by (auto simp: chain_ok_def frag_ok_def carries_def)
  have "arrived as = {0..<int (length D)}" using ip_done_iff_arrived [OF assms(1-3)] assms(4) by simp
  then have "int (length D) - 1 \<in> covers frs" using q(2) assms(2) by (simp add: length_greater_0_conv [symmetric] Suc_le_eq del: length_greater_0_conv)
  then have le: "last_end 0 frs = int (length D)" by (rule chain_last_end [OF q(1)])
  have "connected 0 frs" using assms(4) by (auto simp: ip_done_def split: if_splits)
  moreover have "glued hdr D 0 buf" using assms(5,6) by (simp add: glued_def)
  ultimately obtain buf' where g: "glue_loop (int (length hdr)) (int (length hdr + length D)) frs buf 0 = Some (Glue_ok buf' (int (length D)))"
      and b: "glued hdr D (int (length D)) buf'"
    using glue_loop_ok [OF q(1) z] le by auto
  have "take (length buf') buf' = hdr @ D" using b by (simp add: glued_def)
  then have "buf' = hdr @ D" by simp
  then show "glue_loop (int (length hdr)) (int (length hdr) + qlen) frs buf 0 = Some (Glue_ok (hdr @ D) (int (length D)))"
    using g ql by simp
qed

text \<open>
  C4.  Reassembly is correct and complete: for the fragments of a payload \<open>D\<close> arriving in any order, any
  number of times each, \<open>ip_done\<close> answers yes exactly when every octet of \<open>D\<close> has arrived, and
  then the copying loop of \<open>ip_glue\<close> turns any buffer that starts with the header into the
  header followed by \<open>D\<close>.
\<close>

theorem reassembly_correct:
  assumes "fragmentation D as" and "D \<noteq> []" and "queue_fragments as = (qlen, frs)"
    and "length buf = length hdr + length D" and "take (length hdr) buf = hdr"
  shows "(ip_done qlen frs \<longleftrightarrow> arrived as = {0..<int (length D)}) \<and>
     (ip_done qlen frs \<longrightarrow> glue_loop (int (length hdr)) (int (length hdr) + qlen) frs buf 0 =
        Some (Glue_ok (hdr @ D) (int (length D))))"
  using ip_done_iff_arrived [OF assms(1-3)] glue_arrived(2) [OF assms(1-3) _ assms(4,5)] by blast

text \<open>Two fragments of eight and three octets; the second arrives first, the first one twice.\<close>

definition sample_frag :: "bool \<Rightarrow> int \<Rightarrow> bytes \<Rightarrow> arrival" where
  "sample_frag mf off d = \<lparr>arr_more = mf, arr_offset = off, arr_end = off + int (length d),
     arr_skb = \<lparr>skb_data = replicate 20 0 @ d, truesize = 64\<rparr>, arr_ptr = 20\<rparr>"

definition sample_arrivals :: "arrival list" where
  "sample_arrivals = [sample_frag False 8 [9, 10, 11], sample_frag True 0 [1, 2, 3, 4, 5, 6, 7, 8],
     sample_frag True 0 [1, 2, 3, 4, 5, 6, 7, 8]]"

theorem reassembly_correct_witness:
  "glue_loop 1 12 (snd (queue_fragments sample_arrivals)) (replicate 12 7) 0 =
     Some (Glue_ok [7, 1, 2, 3, 4, 5, 6, 7, 8, 9, 10, 11] 11)"
proof -
  let ?D = "[1, 2, 3, 4, 5, 6, 7, 8, 9, 10, 11] :: bytes"
  have f: "fragmentation ?D sample_arrivals"
    unfolding fragmentation_def fragment_of_def apart_def by code_simp
  have d: "ip_done (fst (queue_fragments sample_arrivals)) (snd (queue_fragments sample_arrivals))" by code_simp
  have q: "queue_fragments sample_arrivals = (11, snd (queue_fragments sample_arrivals))" by code_simp
  show ?thesis
    using reassembly_correct [OF f _ q, of "replicate 12 7" "[7]"] d unfolding q [THEN arg_cong, of fst] by simp
qed

section \<open>A fragment inside its predecessor\<close>

lemma connected_gap: "frag_end f < frag_offset g \<Longrightarrow> \<not> connected n (fs @ f # g # r)"
  by (induction fs arbitrary: n) simp_all

lemma insert_inner:
  assumes "\<forall>f \<in> set pre. frag_offset f < offset" and "frag_offset p < offset" and "offset < e" and "e < frag_end p"
    and "frag_end p \<le> frag_offset nx"
  shows "insert_fragment offset e skb ptr (pre @ p # nx # rest) =
     (pre @ p # ip_frag_create (frag_end p) e skb (ptr + (frag_end p - offset)) # nx # rest, [], 1)"
proof -
  have stop: "\<not> frag_offset nx < offset" "e \<le> frag_offset nx" using assms by simp_all
  have "find_place offset ((pre @ [p]) @ nx # rest) = (pre @ [p], nx # rest)"
    using assms(1,2) stop(1) unfolding find_place_def by (auto simp: takeWhile_append dropWhile_append)
  then show ?thesis using assms(3,4) stop(2) by (simp add: insert_fragment_def Let_def)
qed

text \<open>
  C34.  A fragment that lies inside an earlier one blocks the datagram.  Let the list hold a fragment \<open>p\<close>,
  in front of it fragments that start before \<open>offset\<close>, behind it a fragment \<open>nx\<close> that starts at or after
  the end of \<open>p\<close>, and let the octets from \<open>offset\<close> to \<open>e\<close> arrive, strictly inside \<open>p\<close>.  Instead of being
  dropped the fragment is stored behind \<open>p\<close>, with its start moved to the end of \<open>p\<close>, its end left at \<open>e\<close>
  and so a negative length, and one overlap is reported; \<open>ip_done\<close> then sees a gap in front of \<open>nx\<close> and
  answers that the datagram is not complete, whatever has arrived.  In the witness every octet of
  the payload has arrived.
\<close>

theorem inner_fragment_blocks_datagram:
  assumes "\<forall>f \<in> set pre. frag_offset f < offset" and "frag_offset p < offset" and "offset < e" and "e < frag_end p"
    and "frag_end p \<le> frag_offset nx"
    and "bad = \<lparr>frag_offset = frag_end p, frag_end = e, frag_len = e - frag_end p, frag_skb = skb, frag_ptr = ptr + (frag_end p - offset)\<rparr>"
  shows "insert_fragment offset e skb ptr (pre @ p # nx # rest) = (pre @ p # bad # nx # rest, [], 1) \<and>
     frag_len bad < 0 \<and> \<not> ip_done qlen (pre @ p # bad # nx # rest)"
proof -
  have "\<not> connected 0 ((pre @ [p]) @ bad # nx # rest)" by (rule connected_gap) (use assms(4-6) in simp)
  then show ?thesis using insert_inner [OF assms(1-5), of skb ptr rest] assms(4,6) by (simp add: ip_frag_create_def ip_done_def)
qed

text \<open>Octets 0 to 23 and 24 to 39, then octets 8 to 15 again.\<close>

definition inner_arrivals :: "arrival list" where
  "inner_arrivals = [sample_frag True 0 (replicate 24 1), sample_frag False 24 (replicate 16 1), sample_frag True 8 (replicate 8 1)]"

theorem inner_fragment_blocks_datagram_witness:
  "list_all (fragment_of (replicate 40 1)) inner_arrivals \<and> arrived inner_arrivals = {0..<40} \<and>
   \<not> ip_done (fst (queue_fragments inner_arrivals)) (snd (queue_fragments inner_arrivals))"
proof (intro conjI)
  show "list_all (fragment_of (replicate 40 1)) inner_arrivals" by code_simp
  show "arrived inner_arrivals = {0..<40}" by (auto simp: arrived_def inner_arrivals_def sample_frag_def)
  let ?skb = "\<lambda>n. \<lparr>skb_data = replicate 20 0 @ replicate n 1, truesize = 64\<rparr>"
  let ?p = "ip_frag_create 0 24 (?skb 24) 20" and ?nx = "ip_frag_create 24 40 (?skb 16) 20"
  have two: "queue_fragments (butlast inner_arrivals) = (40, [?p, ?nx])" by code_simp
  let ?bad = "\<lparr>frag_offset = 24, frag_end = 16, frag_len = - 8, frag_skb = ?skb 8, frag_ptr = 36\<rparr>"
  let ?frs = "[?p, ?bad, ?nx]"
  have "insert_fragment 8 16 (?skb 8) 20 [?p, ?nx] = (?frs, [], 1)" and nd: "\<not> ip_done 40 ?frs"
    using inner_fragment_blocks_datagram [of "[]" 8 ?p 16 ?nx _ "?skb 8" 20 "[]" 40] by (simp_all add: ip_frag_create_def)
  then have "queue_fragment (last inner_arrivals) (40, [?p, ?nx]) = ((40, ?frs), [], 1)"
    by (simp add: queue_fragment_def inner_arrivals_def sample_frag_def)
  then have "queue_fragments (butlast inner_arrivals @ [last inner_arrivals]) = (40, ?frs)"
    using two by (simp add: queue_fragments_def)
  moreover have "butlast inner_arrivals @ [last inner_arrivals] = inner_arrivals" by (simp add: inner_arrivals_def)
  ultimately show "\<not> ip_done (fst (queue_fragments inner_arrivals)) (snd (queue_fragments inner_arrivals))" using nd by simp
qed

end
