(* ===== verification/Timer_List.thy ===== *)
theory Timer_List
  imports Prelude
begin

text \<open>
  The list of running timers (\<open>src/libnids/ip_fragment.c\<close>: \<open>struct timer_list\<close>, \<open>add_timer\<close>,
  \<open>del_timer\<close>) with its \<open>prev\<close> and \<open>next\<close> pointers.  A timer is named by its address.  The
  locale \<open>timer_queue\<close> states what the fragment code relies on: adding appends, deleting
  removes, and deleting a timer that was just deleted changes nothing (\<open>ip_find\<close> deletes the
  timer of the queue it returns, and \<open>ip_defrag\<close> or \<open>ip_free\<close> deletes it again).
\<close>

record timer_list =
  t_prev :: "nat \<Rightarrow> nat option"
  t_next :: "nat \<Rightarrow> nat option"
  timer_head :: "nat option"
  timer_tail :: "nat option"

definition no_timers :: timer_list where
  "no_timers = \<lparr>t_prev = (\<lambda>_. None), t_next = (\<lambda>_. None), timer_head = None, timer_tail = None\<rparr>"

definition add_timer :: "nat \<Rightarrow> timer_list \<Rightarrow> timer_list" where
  "add_timer x t =
     (case timer_tail t of
        Some l \<Rightarrow> t\<lparr>t_next := (t_next t)(l := Some x, x := None), t_prev := (t_prev t)(x := Some l), timer_tail := Some x\<rparr>
      | None \<Rightarrow> t\<lparr>t_prev := (t_prev t)(x := None), t_next := (t_next t)(x := None), timer_tail := Some x, timer_head := Some x\<rparr>)"

definition del_timer :: "nat \<Rightarrow> timer_list \<Rightarrow> timer_list" where
  "del_timer x t =
     (let t1 = (case t_prev t x of
                  Some p \<Rightarrow> t\<lparr>t_next := (t_next t)(p := t_next t x)\<rparr>
                | None \<Rightarrow> t\<lparr>timer_head := t_next t x\<rparr>)
      in (case t_next t1 x of
            Some n \<Rightarrow> t1\<lparr>t_prev := (t_prev t1)(n := t_prev t1 x)\<rparr>
          | None \<Rightarrow> t1\<lparr>timer_tail := t_prev t1 x\<rparr>))"

section \<open>The contract\<close>

locale timer_queue =
  fixes holds :: "'t \<Rightarrow> nat list \<Rightarrow> bool"
    and add del :: "nat \<Rightarrow> 't \<Rightarrow> 't"
    and first :: "'t \<Rightarrow> nat option"
  assumes add_holds: "holds t xs \<Longrightarrow> x \<notin> set xs \<Longrightarrow> holds (add x t) (xs @ [x])"
    and del_holds: "holds t xs \<Longrightarrow> x \<in> set xs \<Longrightarrow> holds (del x t) (remove1 x xs)"
    and del_del: "holds t xs \<Longrightarrow> x \<in> set xs \<Longrightarrow> del x (del x t) = del x t"
    and first_holds: "holds t xs \<Longrightarrow> first t = (if xs = [] then None else Some (hd xs))"
    and holds_distinct: "holds t xs \<Longrightarrow> distinct xs"
begin

text \<open>Restarting a timer, with the double deletion of the source, moves it to the end.\<close>

lemma restart:
  assumes "holds t xs" and "x \<in> set xs"
  shows "holds (add x (del x (del x t))) (remove1 x xs @ [x])"
proof -
  have "x \<notin> set (remove1 x xs)" using holds_distinct [OF assms(1)] by (simp add: set_remove1_eq)
  then show ?thesis using del_del [OF assms] del_holds [OF assms] by (simp add: add_holds)
qed

lemma del_twice: "holds t xs \<Longrightarrow> x \<in> set xs \<Longrightarrow> holds (del x (del x t)) (remove1 x xs)"
  using del_del del_holds by simp

lemma del_set: "holds t xs \<Longrightarrow> x \<in> set xs \<Longrightarrow> set (remove1 x xs) = set xs - {x}"
  using holds_distinct by (simp add: set_remove1_eq)

end

section \<open>The pointers keep the contract\<close>

text \<open>The pointers of the list \<open>xs\<close>, with \<open>p\<close> before it and \<open>n\<close> behind it.\<close>

fun linked :: "timer_list \<Rightarrow> nat option \<Rightarrow> nat list \<Rightarrow> nat option \<Rightarrow> bool" where
  "linked t p [] n \<longleftrightarrow> True"
| "linked t p [x] n \<longleftrightarrow> t_prev t x = p \<and> t_next t x = n"
| "linked t p (x # y # r) n \<longleftrightarrow> t_prev t x = p \<and> t_next t x = Some y \<and> linked t (Some x) (y # r) n"

definition first_of :: "nat list \<Rightarrow> nat option \<Rightarrow> nat option" where
  "first_of xs n = (if xs = [] then n else Some (hd xs))"

definition last_of :: "nat option \<Rightarrow> nat list \<Rightarrow> nat option" where
  "last_of p xs = (if xs = [] then p else Some (last xs))"

lemma linked_append: "linked t p (xs @ ys) n \<longleftrightarrow> linked t p xs (first_of ys n) \<and> linked t (last_of p xs) ys n"
  by (induction t p xs n rule: linked.induct) (cases ys; auto simp: first_of_def last_of_def)+

lemma linked_cong:
  "(\<And>x. x \<in> set xs \<Longrightarrow> t_prev t x = t_prev u x \<and> t_next t x = t_next u x) \<Longrightarrow> linked t p xs n = linked u p xs n"
  by (induction t p xs n rule: linked.induct) auto

definition timer_rep :: "timer_list \<Rightarrow> nat list \<Rightarrow> bool" where
  "timer_rep t xs \<longleftrightarrow> distinct xs \<and> linked t None xs None \<and>
     timer_head t = first_of xs None \<and> timer_tail t = last_of None xs"

lemma linked_middle: "linked t p (xs @ x # ys) n \<Longrightarrow> t_prev t x = last_of p xs \<and> t_next t x = first_of ys n"
  unfolding linked_append by (cases ys) (auto simp: first_of_def)

text \<open>Changing the last \<open>next\<close> or the first \<open>prev\<close> pointer.\<close>

lemma linked_set_next:
  "xs \<noteq> [] \<Longrightarrow> distinct xs \<Longrightarrow> linked t p xs n \<Longrightarrow> linked (t\<lparr>t_next := (t_next t)(last xs := m)\<rparr>) p xs m"
proof (induction xs arbitrary: p)
  case (Cons x xs)
  then show ?case by (cases xs) auto
qed simp

lemma linked_set_prev:
  "xs \<noteq> [] \<Longrightarrow> distinct xs \<Longrightarrow> linked t p xs n \<Longrightarrow> linked (t\<lparr>t_prev := (t_prev t)(hd xs := q)\<rparr>) q xs n"
proof (cases xs)
  case (Cons x r)
  assume a: "distinct xs" "linked t p xs n"
  have "linked (t\<lparr>t_prev := (t_prev t)(x := q)\<rparr>) (Some x) r n = linked t (Some x) r n"
    using a Cons by (intro linked_cong) auto
  then show ?thesis using a Cons by (cases r) auto
qed simp

lemma timer_rep_add: "timer_rep t xs \<Longrightarrow> x \<notin> set xs \<Longrightarrow> timer_rep (add_timer x t) (xs @ [x])"
proof -
  assume r: "timer_rep t xs" and x: "x \<notin> set xs"
  show ?thesis
  proof (cases "xs = []")
    case True
    then show ?thesis using r by (simp add: timer_rep_def add_timer_def last_of_def first_of_def)
  next
    case False
    let ?t = "t\<lparr>t_next := (t_next t)(last xs := Some x)\<rparr>"
    have l: "timer_tail t = Some (last xs)" using r False by (simp add: timer_rep_def last_of_def)
    have "linked ?t None xs (Some x)" using r False by (intro linked_set_next) (auto simp: timer_rep_def)
    moreover have "linked (add_timer x t) None xs (Some x) = linked ?t None xs (Some x)"
      using x l by (intro linked_cong) (auto simp: add_timer_def)
    ultimately show ?thesis
      using r x l False by (auto simp: timer_rep_def linked_append add_timer_def first_of_def last_of_def)
  qed
qed

text \<open>The state after unlinking \<open>x\<close>, written without the case distinctions.\<close>

lemma del_timer_parts:
  assumes "timer_rep t (xs @ x # ys)"
  shows "t_next (del_timer x t) = (if xs = [] then t_next t else (t_next t)(last xs := first_of ys None))"
    and "t_prev (del_timer x t) = (if ys = [] then t_prev t else (t_prev t)(hd ys := last_of None xs))"
    and "timer_head (del_timer x t) = (if xs = [] then first_of ys None else timer_head t)"
    and "timer_tail (del_timer x t) = (if ys = [] then last_of None xs else timer_tail t)"
proof -
  have m: "t_prev t x = last_of None xs" "t_next t x = first_of ys None"
    using assms linked_middle [of t None xs x ys None] by (auto simp: timer_rep_def)
  have d: "xs \<noteq> [] \<Longrightarrow> last xs \<noteq> x" using assms by (auto simp: timer_rep_def)
  show "t_next (del_timer x t) = (if xs = [] then t_next t else (t_next t)(last xs := first_of ys None))"
    "t_prev (del_timer x t) = (if ys = [] then t_prev t else (t_prev t)(hd ys := last_of None xs))"
    "timer_head (del_timer x t) = (if xs = [] then first_of ys None else timer_head t)"
    "timer_tail (del_timer x t) = (if ys = [] then last_of None xs else timer_tail t)"
    using m d by (auto simp: del_timer_def Let_def last_of_def first_of_def split: if_splits)
qed

lemma timer_rep_del_split:
  assumes "timer_rep t (xs @ x # ys)"
  shows "timer_rep (del_timer x t) (xs @ ys)"
proof -
  note parts = del_timer_parts [OF assms]
  have d: "distinct (xs @ x # ys)" and l: "linked t None xs (Some x)" "linked t (last_of None xs) (x # ys) None"
      and e: "timer_head t = first_of (xs @ [x]) None" "timer_tail t = last_of None (x # ys)"
    using assms by (auto simp: timer_rep_def linked_append first_of_def last_of_def hd_append)
  have ly: "linked t (Some x) ys None" using l(2) by (cases ys) auto
  have "linked (del_timer x t) None xs (first_of ys None)"
  proof (cases "xs = []")
    case False
    have "linked (t\<lparr>t_next := (t_next t)(last xs := first_of ys None)\<rparr>) None xs (first_of ys None)"
      using False d l(1) by (intro linked_set_next) auto
    moreover have "linked (del_timer x t) None xs (first_of ys None) =
        linked (t\<lparr>t_next := (t_next t)(last xs := first_of ys None)\<rparr>) None xs (first_of ys None)"
      using False d parts by (intro linked_cong) (cases ys; auto)
    ultimately show ?thesis by simp
  qed simp
  moreover have "linked (del_timer x t) (last_of None xs) ys None"
  proof (cases "ys = []")
    case False
    have "linked (t\<lparr>t_prev := (t_prev t)(hd ys := last_of None xs)\<rparr>) (last_of None xs) ys None"
      using False d ly by (intro linked_set_prev) auto
    moreover have "linked (del_timer x t) (last_of None xs) ys None =
        linked (t\<lparr>t_prev := (t_prev t)(hd ys := last_of None xs)\<rparr>) (last_of None xs) ys None"
      using False d parts by (intro linked_cong) (auto dest!: last_in_set)
    ultimately show ?thesis by simp
  qed simp
  ultimately have "linked (del_timer x t) None (xs @ ys) None" by (simp add: linked_append)
  moreover have "timer_head (del_timer x t) = first_of (xs @ ys) None" "timer_tail (del_timer x t) = last_of None (xs @ ys)"
    using parts(3,4) e by (auto simp: first_of_def last_of_def)
  ultimately show ?thesis using d by (auto simp: timer_rep_def)
qed

lemma timer_rep_del_del:
  assumes "timer_rep t (xs @ x # ys)"
  shows "del_timer x (del_timer x t) = del_timer x t"
proof -
  note parts = del_timer_parts [OF assms]
  have m: "t_prev t x = last_of None xs" "t_next t x = first_of ys None"
    using assms linked_middle [of t None xs x ys None] by (auto simp: timer_rep_def)
  have d: "xs \<noteq> [] \<Longrightarrow> last xs \<noteq> x" "ys \<noteq> [] \<Longrightarrow> hd ys \<noteq> x" using assms by (cases ys; auto simp: timer_rep_def)+
  have k: "t_prev (del_timer x t) x = last_of None xs" "t_next (del_timer x t) x = first_of ys None"
    using m d parts by auto
  let ?u = "del_timer x t"
  have h: "xs \<noteq> [] \<Longrightarrow> t_next ?u (last xs) = first_of ys None" "xs = [] \<Longrightarrow> timer_head ?u = first_of ys None"
    "ys \<noteq> [] \<Longrightarrow> t_prev ?u (hd ys) = last_of None xs" "ys = [] \<Longrightarrow> timer_tail ?u = last_of None xs"
    using parts by simp_all
  show ?thesis unfolding del_timer_def [of x ?u] k
    using h k d by (cases xs rule: rev_cases; cases ys) (simp_all add: Let_def last_of_def first_of_def fun_upd_idem_iff)
qed

interpretation dll: timer_queue timer_rep add_timer del_timer timer_head
proof
  fix t xs x
  show "timer_rep t xs \<Longrightarrow> x \<notin> set xs \<Longrightarrow> timer_rep (add_timer x t) (xs @ [x])" by (rule timer_rep_add)
  show "timer_rep t xs \<Longrightarrow> x \<in> set xs \<Longrightarrow> timer_rep (del_timer x t) (remove1 x xs)"
  proof -
    assume r: "timer_rep t xs" and x: "x \<in> set xs"
    obtain ys zs where s: "xs = ys @ x # zs" "x \<notin> set ys" using x split_list_first by metis
    then show ?thesis using timer_rep_del_split [of t ys x zs] r by (simp add: remove1_append)
  qed
  show "timer_rep t xs \<Longrightarrow> x \<in> set xs \<Longrightarrow> del_timer x (del_timer x t) = del_timer x t"
    using timer_rep_del_del by (metis split_list)
  show "timer_rep t xs \<Longrightarrow> timer_head t = (if xs = [] then None else Some (hd xs))"
    by (simp add: timer_rep_def first_of_def)
  show "timer_rep t xs \<Longrightarrow> distinct xs" by (simp add: timer_rep_def)
qed

lemma no_timers_rep: "timer_rep no_timers []"
  by (simp add: no_timers_def timer_rep_def first_of_def last_of_def)

end
