(* ===== verification/Ip_Fragment.thy ===== *)
theory Ip_Fragment
  imports Frag_List Timer_List "HOL-Library.AList"
begin

text \<open>
  The fragment table (\<open>src/libnids/ip_fragment.c\<close>).  Hosts (\<open>struct hostfrags\<close>) and queues (\<open>struct
  ipq\<close>) live in an explicit store of finitely many addresses; an access to an address that is
  not in the store (freed, or never allocated) is \<open>None\<close>, and so is \<open>panic\<close>.  A hash chain and the
  queue list of a host are lists of addresses, the timers keep their pointers.  The statics of
  the file are the record \<open>frag_state\<close>; \<open>syslogs\<close> lists the warnings sent to
  \<open>nids_params.syslog\<close>.
\<close>

section \<open>State\<close>

text \<open>
  What the file takes from its environment: the sizes of the two structures it charges for, and
  the contents of fresh memory.
\<close>

record frag_env =
  sizeof_ipfrag :: int
  sizeof_ipq :: int
  heap_fill :: u8

record hostfrags =
  ipqueue :: "nat list"
  ip_frag_mem :: int
  hf_ip :: u32
  hash_index :: nat

record ipq =
  q_iph :: bytes
  q_len :: int
  q_ihlen :: int
  q_expires :: int
  q_fragments :: "ipfrag list"
  q_hf :: nat

record frag_state =
  fragtable :: "nat list list"
  hosts :: "(nat \<times> hostfrags) list"
  queues :: "(nat \<times> ipq) list"
  timers :: timer_list
  this_host :: "nat option"
  numpack :: int
  hash_size :: nat
  frag_timenow :: int
  frag_time0 :: int
  frag_reads :: nat
  fresh_addr :: nat
  syslogs :: "nids_warn list"

abbreviation (input) IP_MF :: u16 where "IP_MF \<equiv> 0x2000"
abbreviation (input) IP_OFFSET :: u16 where "IP_OFFSET \<equiv> 0x1FFF"
abbreviation (input) IP_FRAG_TIME :: int where "IP_FRAG_TIME \<equiv> 30 * 1000"
abbreviation (input) IPFRAG_HIGH_THRESH :: int where "IPFRAG_HIGH_THRESH \<equiv> 256 * 1024"
abbreviation (input) IPFRAG_LOW_THRESH :: int where "IPFRAG_LOW_THRESH \<equiv> 192 * 1024"

definition jiffies :: "clock \<Rightarrow> frag_state \<Rightarrow> int \<times> frag_state" where
  "jiffies clk s =
     (if frag_timenow s \<noteq> 0 then (frag_timenow s, s)
      else (let t = clock_ms clk (frag_time0 s) (frag_reads s)
            in (t, s\<lparr>frag_timenow := t, frag_reads := Suc (frag_reads s)\<rparr>)))"

definition warn :: "nids_warn \<Rightarrow> frag_state \<Rightarrow> frag_state" where
  "warn w s = s\<lparr>syslogs := syslogs s @ [w]\<rparr>"

section \<open>Memory tracking\<close>

definition put_host :: "nat \<Rightarrow> hostfrags \<Rightarrow> frag_state \<Rightarrow> frag_state" where
  "put_host h hf s = s\<lparr>hosts := AList.update h hf (hosts s)\<rparr>"

definition put_queue :: "nat \<Rightarrow> ipq \<Rightarrow> frag_state \<Rightarrow> frag_state" where
  "put_queue a q s = s\<lparr>queues := AList.update a q (queues s)\<rparr>"

text \<open>\<open>frag_kmalloc\<close> and the charge of \<open>ip_frag_create\<close> use \<open>this_host\<close> without a test.\<close>

definition frag_charge :: "int \<Rightarrow> frag_state \<Rightarrow> frag_state option" where
  "frag_charge n s = do {
     h \<leftarrow> this_host s;
     hf \<leftarrow> map_of (hosts s) h;
     Some (put_host h (hf\<lparr>ip_frag_mem := ip_frag_mem hf + n\<rparr>) s) }"

text \<open>\<open>frag_kfree_skb\<close> and \<open>frag_kfree_s\<close> credit \<open>this_host\<close> when there is one.\<close>

definition frag_credit :: "int \<Rightarrow> frag_state \<Rightarrow> frag_state option" where
  "frag_credit n s =
     (case this_host s of None \<Rightarrow> Some s
      | Some h \<Rightarrow> do {
          hf \<leftarrow> map_of (hosts s) h;
          Some (put_host h (hf\<lparr>ip_frag_mem := ip_frag_mem hf - n\<rparr>) s) })"

fun free_fragments :: "frag_env \<Rightarrow> ipfrag list \<Rightarrow> frag_state \<Rightarrow> frag_state option" where
  "free_fragments env [] s = Some s"
| "free_fragments env (fp # r) s = do {
     s1 \<leftarrow> frag_credit (truesize (frag_skb fp)) s;
     s2 \<leftarrow> frag_credit (sizeof_ipfrag env) s1;
     free_fragments env r s2 }"

section \<open>Hosts\<close>

definition ip_dst :: "bytes \<Rightarrow> u32 option" where "ip_dst iph = rd_le32 iph 16"

definition frag_index :: "bytes \<Rightarrow> frag_state \<Rightarrow> nat option" where
  "frag_index iph s = do {
     ip \<leftarrow> rd_be32 iph 16;
     if hash_size s = 0 then None else Some (unat ip mod hash_size s) }"

fun find_host :: "u32 \<Rightarrow> nat list \<Rightarrow> (nat \<times> hostfrags) list \<Rightarrow> nat option option" where
  "find_host ip [] hs = Some None"
| "find_host ip (h # r) hs =
     (case map_of hs h of None \<Rightarrow> None
      | Some hf \<Rightarrow> if hf_ip hf = ip then Some (Some h) else find_host ip r hs)"

definition hostfrag_find :: "bytes \<Rightarrow> frag_state \<Rightarrow> (bool \<times> frag_state) option" where
  "hostfrag_find iph s = do {
     i \<leftarrow> frag_index iph s;
     ip \<leftarrow> ip_dst iph;
     if i < length (fragtable s) then do {
       h \<leftarrow> find_host ip (fragtable s ! i) (hosts s);
       Some (h \<noteq> None, s\<lparr>this_host := h\<rparr>) }
     else None }"

definition hostfrag_create :: "bytes \<Rightarrow> frag_state \<Rightarrow> frag_state option" where
  "hostfrag_create iph s = do {
     i \<leftarrow> frag_index iph s;
     ip \<leftarrow> ip_dst iph;
     if i < length (fragtable s) then
       let a = fresh_addr s in
       Some (put_host a \<lparr>ipqueue = [], ip_frag_mem = 0, hf_ip = ip, hash_index = i\<rparr>
         (s\<lparr>fragtable := (fragtable s)[i := a # fragtable s ! i], fresh_addr := Suc a, this_host := Some a\<rparr>))
     else None }"

definition rmthis_host :: "frag_state \<Rightarrow> frag_state option" where
  "rmthis_host s = do {
     h \<leftarrow> this_host s;
     hf \<leftarrow> map_of (hosts s) h;
     if hash_index hf < length (fragtable s) then
       Some (s\<lparr>fragtable := (fragtable s)[hash_index hf := remove1 h (fragtable s ! hash_index hf)],
               hosts := AList.delete h (hosts s), this_host := None\<rparr>)
     else None }"

section \<open>Queues\<close>

text \<open>The comparison of \<open>ip_find\<close>: identification, addresses and protocol.\<close>

definition same_datagram :: "bytes \<Rightarrow> bytes \<Rightarrow> bool option" where
  "same_datagram iph qh = do {
     id1 \<leftarrow> rd_le16 iph 4; id2 \<leftarrow> rd_le16 qh 4;
     s1 \<leftarrow> rd_le32 iph 12; s2 \<leftarrow> rd_le32 qh 12;
     d1 \<leftarrow> rd_le32 iph 16; d2 \<leftarrow> rd_le32 qh 16;
     p1 \<leftarrow> rd8 iph 9; p2 \<leftarrow> rd8 qh 9;
     Some (id1 = id2 \<and> s1 = s2 \<and> d1 = d2 \<and> p1 = p2) }"

fun find_queue :: "bytes \<Rightarrow> nat list \<Rightarrow> (nat \<times> ipq) list \<Rightarrow> nat option option" where
  "find_queue iph [] qs = Some None"
| "find_queue iph (a # r) qs =
     (case map_of qs a of None \<Rightarrow> None
      | Some q \<Rightarrow> (case same_datagram iph (q_iph q) of None \<Rightarrow> None
          | Some b \<Rightarrow> if b then Some (Some a) else find_queue iph r qs))"

definition ip_find :: "bytes \<Rightarrow> frag_state \<Rightarrow> (nat option \<times> frag_state) option" where
  "ip_find iph s = do {
     h \<leftarrow> this_host s;
     hf \<leftarrow> map_of (hosts s) h;
     r \<leftarrow> find_queue iph (ipqueue hf) (queues s);
     case r of None \<Rightarrow> Some (None, s)
     | Some a \<Rightarrow> Some (Some a, s\<lparr>timers := del_timer a (timers s)\<rparr>) }"

definition ip_free :: "frag_env \<Rightarrow> nat \<Rightarrow> frag_state \<Rightarrow> frag_state option" where
  "ip_free env qp s = do {
     q \<leftarrow> map_of (queues s) qp;
     h \<leftarrow> this_host s;
     hf \<leftarrow> map_of (hosts s) h;
     let s1 = put_host h (hf\<lparr>ipqueue := remove1 qp (ipqueue hf)\<rparr>) (s\<lparr>timers := del_timer qp (timers s)\<rparr>);
     s2 \<leftarrow> (if remove1 qp (ipqueue hf) = [] then rmthis_host s1 else Some s1);
     s3 \<leftarrow> free_fragments env (q_fragments q) s2;
     s4 \<leftarrow> frag_credit (64 + 8) s3;
     s5 \<leftarrow> frag_credit (sizeof_ipq env) s4;
     Some (s5\<lparr>queues := AList.delete qp (queues s5)\<rparr>) }"

definition ip_expire :: "frag_env \<Rightarrow> nat \<Rightarrow> frag_state \<Rightarrow> frag_state option" where
  "ip_expire env qp s = ip_free env qp s"


text \<open>The releases touch only the accounting; \<open>ip_free\<close> removes one queue from the store.\<close>

lemma frag_credit_queues: "frag_credit n s = Some s' \<Longrightarrow> queues s' = queues s \<and> timers s' = timers s"
  by (auto simp: frag_credit_def put_host_def split: option.splits bind_splits)

lemma free_fragments_queues: "free_fragments env fs s = Some s' \<Longrightarrow> queues s' = queues s \<and> timers s' = timers s"
  by (induction env fs s rule: free_fragments.induct) (auto split: bind_splits dest!: frag_credit_queues)

lemma rmthis_host_queues: "rmthis_host s = Some s' \<Longrightarrow> queues s' = queues s \<and> timers s' = timers s"
  by (auto simp: rmthis_host_def split: bind_splits if_splits)

lemma ip_free_queues:
  assumes "ip_free env qp s = Some s'"
  shows "queues s' = AList.delete qp (queues s)" and "map_of (queues s) qp \<noteq> None"
  using assms
  by (auto simp: ip_free_def Let_def put_host_def split: bind_splits if_splits
      dest!: frag_credit_queues free_fragments_queues rmthis_host_queues)

lemma length_delete_less: "map_of al k \<noteq> None \<Longrightarrow> length (AList.delete k al) < length al"
proof -
  assume "map_of al k \<noteq> None"
  then obtain v where "(k, v) \<in> set al" by (auto dest: map_of_SomeD)
  then have "k \<in> fst ` set al" by force
  then show ?thesis unfolding AList.delete_eq by (induction al) (auto simp: le_imp_less_Suc)
qed

lemma ip_free_shrinks: "ip_free env qp s = Some s' \<Longrightarrow> length (queues s') < length (queues s)"
  using ip_free_queues [of env qp s s'] length_delete_less by metis

text \<open>\<open>while (this_host && this_host->ip_frag_mem > IPFRAG_LOW_THRESH)\<close>.\<close>

function ip_evictor :: "frag_env \<Rightarrow> frag_state \<Rightarrow> frag_state option" where
  "ip_evictor env s =
     (case this_host s of None \<Rightarrow> Some s
      | Some h \<Rightarrow> (case map_of (hosts s) h of None \<Rightarrow> None
          | Some hf \<Rightarrow>
              if ip_frag_mem hf > IPFRAG_LOW_THRESH then
                (case ipqueue hf of [] \<Rightarrow> None  \<comment> \<open>\<open>panic\<close>\<close>
                 | a # _ \<Rightarrow> (case ip_free env a s of None \<Rightarrow> None | Some s' \<Rightarrow> ip_evictor env s'))
              else Some s))"
  by pat_completeness auto
termination
  by (relation "measure (\<lambda>(env, s). length (queues s))") (auto dest: ip_free_shrinks)

declare ip_evictor.simps [simp del]

text \<open>
  The copy of a packet header with the eight octets behind it, \<open>memcpy(qp->iph, iph, ihlen + 8)\<close>.  The
  buffer of the fragment ends with the packet: when fewer than eight octets follow the header, the
  copy reads behind it, which is \<open>None\<close>.
\<close>

definition header_copy :: "bytes \<Rightarrow> int \<Rightarrow> bytes option" where
  "header_copy iph ihl = (let n = nat (ihl + 8) in if n \<le> length iph then Some (take n iph) else None)"

definition ip_hl4 :: "bytes \<Rightarrow> int option" where
  "ip_hl4 iph = map_option (\<lambda>x. int (unat (x AND 0x0f)) * 4) (rd8 iph 0)"

definition ip_create :: "frag_env \<Rightarrow> clock \<Rightarrow> bytes \<Rightarrow> frag_state \<Rightarrow> (nat \<times> frag_state) option" where
  "ip_create env clk iph s = do {
     s1 \<leftarrow> frag_charge (sizeof_ipq env) s;
     ihlen \<leftarrow> ip_hl4 iph;
     s2 \<leftarrow> frag_charge (64 + 8) s1;
     hdr \<leftarrow> header_copy iph ihlen;
     h \<leftarrow> this_host s2;
     let (now, s3) = jiffies clk s2;
     let a = fresh_addr s3;
     let q = \<lparr>q_iph = hdr, q_len = 0, q_ihlen = ihlen, q_expires = now + IP_FRAG_TIME, q_fragments = [], q_hf = h\<rparr>;
     hf \<leftarrow> map_of (hosts s3) h;
     Some (a, put_queue a q (put_host h (hf\<lparr>ipqueue := a # ipqueue hf\<rparr>)
       (s3\<lparr>timers := add_timer a (timers s3), fresh_addr := Suc a\<rparr>))) }"

text \<open>
  \<open>ip_glue\<close> on a complete queue: too long, an invalid list, or the datagram; the queue is freed in
  every case.
\<close>

definition ip_glue :: "frag_env \<Rightarrow> nat \<Rightarrow> frag_state \<Rightarrow> (bytes option \<times> frag_state) option" where
  "ip_glue env qp s = do {
     q \<leftarrow> map_of (queues s) qp;
     let len = q_ihlen q + q_len q;
     if len > 65535 then do { s' \<leftarrow> ip_free env qp (warn NIDS_WARN_IP_OVERSIZED s); Some (None, s') }
     else if len < 0 then None
     else do {
       buf \<leftarrow> copy_block (replicate (nat len) (heap_fill env)) 0 (q_iph q) 0 (q_ihlen q);
       r \<leftarrow> glue_loop (q_ihlen q) len (q_fragments q) buf 0;
       case r of
         Glue_invlist \<Rightarrow> do { s' \<leftarrow> ip_free env qp (warn NIDS_WARN_IP_INVLIST s); Some (None, s') }
       | Glue_ok b n \<Rightarrow> do { s' \<leftarrow> ip_free env qp s; skb \<leftarrow> fix_header b n; Some (Some skb, s') } } }"

text \<open>The rest of \<open>ip_defrag\<close> once the queue \<open>qp\<close> of the fragment is known.\<close>

definition warns :: "nat \<Rightarrow> nids_warn \<Rightarrow> frag_state \<Rightarrow> frag_state" where
  "warns n w s = s\<lparr>syslogs := syslogs s @ replicate n w\<rparr>"

definition defrag_queue ::
  "frag_env \<Rightarrow> bytes \<Rightarrow> sk_buff \<Rightarrow> bool \<Rightarrow> int \<Rightarrow> int \<Rightarrow> nat \<Rightarrow> frag_state \<Rightarrow> (bytes option \<times> frag_state) option" where
  "defrag_queue env iph skb mf offset ihl qp s = do {
     tot \<leftarrow> rd_be16 iph 2;
     if int (unat tot) + offset > 65535 then Some (None, warn NIDS_WARN_IP_OVERSIZED s)
     else do {
       q \<leftarrow> map_of (queues s) qp;
       let e = offset + int (unat tot) - ihl;
       let ((qlen, frs), freed, n) = queue_fragment
             \<lparr>arr_more = mf, arr_offset = offset, arr_end = e, arr_skb = skb, arr_ptr = ihl\<rparr> (q_len q, q_fragments q);
       s1 \<leftarrow> free_fragments env freed (warns n NIDS_WARN_IP_OVERLAP s);
       s2 \<leftarrow> frag_charge (sizeof_ipfrag env) s1;
       s3 \<leftarrow> frag_charge (truesize skb) s2;
       let s4 = put_queue qp (q\<lparr>q_len := qlen, q_fragments := frs\<rparr>) s3;
       if ip_done qlen frs then ip_glue env qp s4 else Some (None, s4) } }"

text \<open>Restarting the timer of a queue that exists; its first fragment brings the header.\<close>

definition restart_queue :: "clock \<Rightarrow> bytes \<Rightarrow> int \<Rightarrow> int \<Rightarrow> nat \<Rightarrow> frag_state \<Rightarrow> frag_state option" where
  "restart_queue clk iph offset ihl qp s = do {
     q \<leftarrow> map_of (queues s) qp;
     q1 \<leftarrow> (if offset = 0
            then do { hdr \<leftarrow> header_copy iph ihl;
                      Some (q\<lparr>q_ihlen := ihl, q_iph := hdr @ drop (length hdr) (q_iph q)\<rparr>) }
            else Some q);
     let (now, s1) = jiffies clk (s\<lparr>timers := del_timer qp (timers s)\<rparr>);
     Some (put_queue qp (q1\<lparr>q_expires := now + IP_FRAG_TIME\<rparr>) (s1\<lparr>timers := add_timer qp (timers s1)\<rparr>)) }"

text \<open>
  \<open>ip_defrag\<close> in three parts: find or make the host and clean up its memory; find the queue; then
  either drop the queue (the packet is not a fragment) or queue the fragment.
\<close>

definition defrag_host :: "frag_env \<Rightarrow> bytes \<Rightarrow> bool \<Rightarrow> frag_state \<Rightarrow> frag_state option" where
  "defrag_host env iph has_skb s = do {
     (found, s1) \<leftarrow> hostfrag_find iph s;
     s2 \<leftarrow> (if \<not> found \<and> has_skb then hostfrag_create iph s1 else Some s1);
     case this_host s2 of None \<Rightarrow> Some s2
     | Some h \<Rightarrow> do { hf \<leftarrow> map_of (hosts s2) h;
                      if ip_frag_mem hf > IPFRAG_HIGH_THRESH then ip_evictor env s2 else Some s2 } }"

definition defrag_fragment ::
  "frag_env \<Rightarrow> clock \<Rightarrow> bytes \<Rightarrow> sk_buff \<Rightarrow> bool \<Rightarrow> int \<Rightarrow> nat option \<Rightarrow> frag_state \<Rightarrow> (bytes option \<times> frag_state) option" where
  "defrag_fragment env clk iph skb mf offset qp s = do {
     s5 \<leftarrow> (case this_host s of None \<Rightarrow> hostfrag_create iph s | Some _ \<Rightarrow> Some s);
     ihl \<leftarrow> ip_hl4 iph;
     (a, s6) \<leftarrow> (case qp of
                   Some a \<Rightarrow> do { s' \<leftarrow> restart_queue clk iph offset ihl a s5; Some (a, s') }
                 | None \<Rightarrow> ip_create env clk iph s5);
     defrag_queue env iph skb mf offset ihl a s6 }"

definition ip_defrag :: "frag_env \<Rightarrow> clock \<Rightarrow> bytes \<Rightarrow> sk_buff option \<Rightarrow> frag_state \<Rightarrow> (bytes option \<times> frag_state) option" where
  "ip_defrag env clk iph skb s = do {
     s3 \<leftarrow> defrag_host env iph (skb \<noteq> None) s;
     (qp, s4) \<leftarrow> (case this_host s3 of None \<Rightarrow> Some (None, s3) | Some _ \<Rightarrow> ip_find iph s3);
     off \<leftarrow> rd_be16 iph 6;
     let mf = (off AND IP_MF \<noteq> 0);
     let offset = int (unat (off AND IP_OFFSET));
     if \<not> mf \<and> offset = 0 then
       (case qp of None \<Rightarrow> Some (None, s4)
        | Some a \<Rightarrow> do { s5 \<leftarrow> ip_free env a s4; Some (None, s5) })
     else do { b \<leftarrow> skb; defrag_fragment env clk iph b mf (offset * 8) qp s4 } }"

section \<open>Entry points\<close>

text \<open>\<open>while (timer_head && timer_head->expires < jiffies())\<close>.\<close>

function expire_timers :: "frag_env \<Rightarrow> clock \<Rightarrow> frag_state \<Rightarrow> frag_state option" where
  "expire_timers env clk s =
     (case timer_head (timers s) of None \<Rightarrow> Some s
      | Some a \<Rightarrow> (case map_of (queues s) a of None \<Rightarrow> None
          | Some q \<Rightarrow>
              if q_expires q < fst (jiffies clk s) then
                (case ip_expire env a ((snd (jiffies clk s))\<lparr>this_host := Some (q_hf q)\<rparr>) of None \<Rightarrow> None
                 | Some s' \<Rightarrow> expire_timers env clk s')
              else Some (snd (jiffies clk s))))"
  by pat_completeness auto
termination
proof (relation "measure (\<lambda>(env, clk, s). length (queues s))", goal_cases)
  case (2 env clk s a q s')
  have "queues (snd (jiffies clk s)) = queues s" by (simp add: jiffies_def Let_def)
  then show ?case using ip_free_shrinks [OF 2(4) [unfolded ip_expire_def]] by simp
qed simp

declare expire_timers.simps [simp del]

datatype ipf = IPF_NOTF | IPF_NEW | IPF_ISF

definition skb_truesize :: "nids_prm \<Rightarrow> int \<Rightarrow> int" where
  "skb_truesize prm tot_len = ((tot_len + 16 + dev_addon prm + 15) AND (NOT 15)) + sk_buff_size prm"

definition ip_defrag_stub ::
  "nids_prm \<Rightarrow> frag_env \<Rightarrow> clock \<Rightarrow> bytes \<Rightarrow> frag_state \<Rightarrow> (ipf \<times> bytes option \<times> frag_state) option" where
  "ip_defrag_stub prm env clk iph s = do {
     s1 \<leftarrow> expire_timers env clk (s\<lparr>numpack := i32 (numpack s + 1), frag_timenow := 0\<rparr>);
     off \<leftarrow> rd_be16 iph 6;
     if off AND IP_MF = 0 \<and> off AND IP_OFFSET = 0 then do {
       (_, s2) \<leftarrow> ip_defrag env clk iph None s1;
       Some (IPF_NOTF, None, s2) }
     else do {
       tot \<leftarrow> rd_be16 iph 2;
       if unat tot \<le> length iph then do {
         let data = take (unat tot) iph;
         let skb = \<lparr>skb_data = data, truesize = skb_truesize prm (int (unat tot))\<rparr>;
         (r, s2) \<leftarrow> ip_defrag env clk data (Some skb) s1;
         Some (if r \<noteq> None then IPF_NEW else IPF_ISF, r, s2) }
       else None } }"

definition ip_frag_init :: "clock \<Rightarrow> nat \<Rightarrow> frag_state \<Rightarrow> frag_state" where
  "ip_frag_init clk n s = s\<lparr>frag_time0 := fst (clk (frag_reads s)), frag_reads := Suc (frag_reads s),
     fragtable := replicate n [], hash_size := n\<rparr>"

definition ip_frag_exit :: "frag_state \<Rightarrow> frag_state" where
  "ip_frag_exit s = s\<lparr>fragtable := []\<rparr>"

end
