(* ===== verification/Frag_Inv.thy ===== *)
theory Frag_Inv
  imports Ip_Fragment
begin

text \<open>
  The invariant of the fragment table and its preservation.  The parts of the invariant are stated
  over the contents of the store (which host or queue an address holds), one predicate per
  structure: the hash chains, the ownership of queues, the accounting, the timers, the fragment
  lists.  The theorems: every operation of \<open>ip_defrag_stub\<close> stays inside the store
  (no use after free, no null pointer), never panics, ends, and keeps the invariant.
\<close>

section \<open>The invariant\<close>

type_synonym host_map = "nat \<rightharpoonup> hostfrags"
type_synonym queue_map = "nat \<rightharpoonup> ipq"

definition frag_cost :: "frag_env \<Rightarrow> ipfrag \<Rightarrow> int" where
  "frag_cost env f = truesize (frag_skb f) + sizeof_ipfrag env"

definition frags_cost :: "frag_env \<Rightarrow> ipfrag list \<Rightarrow> int" where
  "frags_cost env fs = (\<Sum>f \<leftarrow> fs. frag_cost env f)"

definition queue_cost :: "frag_env \<Rightarrow> ipq \<Rightarrow> int" where
  "queue_cost env q = frags_cost env (q_fragments q) + (64 + 8) + sizeof_ipq env"

definition queues_cost :: "frag_env \<Rightarrow> queue_map \<Rightarrow> nat list \<Rightarrow> int" where
  "queues_cost env qm as = (\<Sum>a \<leftarrow> as. queue_cost env (the (qm a)))"

text \<open>Every chain holds the live hosts of its bucket, each once.\<close>

definition tab_ok :: "nat list list \<Rightarrow> host_map \<Rightarrow> bool" where
  "tab_ok T hm \<longleftrightarrow> (\<forall>i < length T. distinct (T ! i) \<and> (\<forall>h \<in> set (T ! i). \<exists>hf. hm h = Some hf \<and> hash_index hf = i)) \<and>
     (\<forall>h hf. hm h = Some hf \<longrightarrow> hash_index hf < length T \<and> h \<in> set (T ! hash_index hf))"

text \<open>The queue list of a host holds the queues that point back to it, each once.\<close>

definition own_ok :: "host_map \<Rightarrow> queue_map \<Rightarrow> bool" where
  "own_ok hm qm \<longleftrightarrow> (\<forall>h hf. hm h = Some hf \<longrightarrow> distinct (ipqueue hf) \<and> (\<forall>a \<in> set (ipqueue hf). \<exists>q. qm a = Some q \<and> q_hf q = h)) \<and>
     (\<forall>a q. qm a = Some q \<longrightarrow> (\<exists>hf. hm (q_hf q) = Some hf \<and> a \<in> set (ipqueue hf)))"

text \<open>\<open>ip_frag_mem\<close> is what the queues of the host cost.\<close>

definition mem_ok :: "frag_env \<Rightarrow> host_map \<Rightarrow> queue_map \<Rightarrow> bool" where
  "mem_ok env hm qm \<longleftrightarrow> (\<forall>h hf. hm h = Some hf \<longrightarrow> ip_frag_mem hf = queues_cost env qm (ipqueue hf))"

text \<open>Every queue has a running timer.\<close>

definition tim_ok :: "timer_list \<Rightarrow> queue_map \<Rightarrow> bool" where
  "tim_ok t qm \<longleftrightarrow> (\<exists>xs. timer_rep t xs \<and> set xs = dom qm)"

text \<open>Fragments point into their buffers, headers are complete.\<close>

definition frag_wf :: "ipfrag \<Rightarrow> bool" where
  "frag_wf f \<longleftrightarrow> 0 \<le> frag_offset f \<and> 0 \<le> frag_ptr f \<and> frag_len f = frag_end f - frag_offset f \<and>
     frag_ptr f + frag_len f \<le> int (length (skb_data (frag_skb f)))"

text \<open>The order of a list that may hold fragments of negative length.\<close>

definition frags_wf :: "ipfrag list \<Rightarrow> bool" where
  "frags_wf fs \<longleftrightarrow> (\<forall>f \<in> set fs. frag_wf f) \<and>
     sorted_wrt (\<lambda>f g. frag_offset f \<le> frag_offset g \<and> frag_end f \<le> frag_offset g) fs"

text \<open>The length of the header, as its first octet tells it.\<close>

definition hlen :: "bytes \<Rightarrow> nat" where
  "hlen iph = 4 * unat (iph ! 0 AND 0x0f)"

text \<open>
  What \<open>gen_ip_frag_proc\<close> guarantees of the packets it passes on: the header is there, and the total
  length covers it and is covered by the captured data.
\<close>

definition packet_ok :: "bytes \<Rightarrow> bool" where
  "packet_ok iph \<longleftrightarrow> 20 \<le> hlen iph \<and> hlen iph \<le> unat (be16 (iph ! 2) (iph ! 3)) \<and> unat (be16 (iph ! 2) (iph ! 3)) \<le> length iph"

text \<open>
  The source address of the datagram satisfies \<open>P\<close>: the table keeps whatever the caller knows of the
  sources of its packets.
\<close>

definition src_octets :: "bytes \<Rightarrow> bytes" where "src_octets iph = take 4 (drop 12 iph)"

abbreviation any_src :: "bytes \<Rightarrow> bool" where "any_src \<equiv> \<lambda>_. True"

definition ipq_wf :: "(bytes \<Rightarrow> bool) \<Rightarrow> ipq \<Rightarrow> bool" where
  "ipq_wf P q \<longleftrightarrow> 20 \<le> q_ihlen q \<and> q_ihlen q \<le> int (length (q_iph q)) \<and> 0 \<le> q_len q \<and> frags_wf (q_fragments q) \<and>
     int (hlen (q_iph q)) = q_ihlen q \<and> P (src_octets (q_iph q))"

definition addr_ok :: "nat \<Rightarrow> host_map \<Rightarrow> queue_map \<Rightarrow> bool" where
  "addr_ok n hm qm \<longleftrightarrow> (\<forall>h \<in> dom hm. h < n) \<and> (\<forall>a \<in> dom qm. a < n)"

definition hm_of :: "frag_state \<Rightarrow> host_map" where "hm_of s = map_of (hosts s)"
definition qm_of :: "frag_state \<Rightarrow> queue_map" where "qm_of s = map_of (queues s)"

definition frag_core :: "(bytes \<Rightarrow> bool) \<Rightarrow> frag_env \<Rightarrow> frag_state \<Rightarrow> bool" where
  "frag_core P env s \<longleftrightarrow> hash_size s = length (fragtable s) \<and> 0 < hash_size s \<and> tab_ok (fragtable s) (hm_of s) \<and>
     own_ok (hm_of s) (qm_of s) \<and> mem_ok env (hm_of s) (qm_of s) \<and> tim_ok (timers s) (qm_of s) \<and>
     (\<forall>q \<in> ran (qm_of s). ipq_wf P q) \<and> addr_ok (fresh_addr s) (hm_of s) (qm_of s)"

lemma frag_coreI:
  "hash_size s = length (fragtable s) \<Longrightarrow> 0 < hash_size s \<Longrightarrow> tab_ok (fragtable s) (hm_of s) \<Longrightarrow>
   own_ok (hm_of s) (qm_of s) \<Longrightarrow> mem_ok env (hm_of s) (qm_of s) \<Longrightarrow> tim_ok (timers s) (qm_of s) \<Longrightarrow>
   (\<forall>q \<in> ran (qm_of s). ipq_wf P q) \<Longrightarrow> addr_ok (fresh_addr s) (hm_of s) (qm_of s) \<Longrightarrow> frag_core P env s"
  by (simp add: frag_core_def)

lemma frag_coreD:
  assumes "frag_core P env s"
  shows "hash_size s = length (fragtable s)" "0 < hash_size s" "tab_ok (fragtable s) (hm_of s)"
    "own_ok (hm_of s) (qm_of s)" "mem_ok env (hm_of s) (qm_of s)" "tim_ok (timers s) (qm_of s)"
    "\<forall>q \<in> ran (qm_of s). ipq_wf P q" "addr_ok (fresh_addr s) (hm_of s) (qm_of s)"
  using assms unfolding frag_core_def by blast+

text \<open>Between calls no host is without a queue; inside a call only \<open>this_host\<close> may be.\<close>

definition frag_inv :: "(bytes \<Rightarrow> bool) \<Rightarrow> frag_env \<Rightarrow> frag_state \<Rightarrow> bool" where
  "frag_inv P env s \<longleftrightarrow> frag_core P env s \<and> (\<forall>hf \<in> ran (hm_of s). ipqueue hf \<noteq> [])"

definition frag_mid :: "(bytes \<Rightarrow> bool) \<Rightarrow> frag_env \<Rightarrow> frag_state \<Rightarrow> bool" where
  "frag_mid P env s \<longleftrightarrow> frag_core P env s \<and> (\<forall>h hf. hm_of s h = Some hf \<and> ipqueue hf = [] \<longrightarrow> this_host s = Some h) \<and>
     (\<forall>h. this_host s = Some h \<longrightarrow> h \<in> dom (hm_of s))"

section \<open>Charging and crediting\<close>

text \<open>Two states that differ at most in the store of hosts.\<close>

definition only_hosts :: "frag_state \<Rightarrow> frag_state \<Rightarrow> bool" where
  "only_hosts s s' \<longleftrightarrow> s'\<lparr>hosts := hosts s\<rparr> = s"

lemma only_hosts_fields:
  "only_hosts s s' \<Longrightarrow> fragtable s' = fragtable s \<and> queues s' = queues s \<and> timers s' = timers s \<and> this_host s' = this_host s \<and>
     hash_size s' = hash_size s \<and> fresh_addr s' = fresh_addr s \<and> frag_time0 s' = frag_time0 s \<and> frag_reads s' = frag_reads s \<and>
     frag_timenow s' = frag_timenow s \<and> syslogs s' = syslogs s \<and> numpack s' = numpack s"
proof -
  assume "only_hosts s s'"
  then have "s = s'\<lparr>hosts := hosts s\<rparr>" by (simp add: only_hosts_def)
  then show ?thesis by (metis frag_state.select_convs frag_state.update_convs(2) frag_state.surjective)
qed

lemma only_hosts_refl [simp]: "only_hosts s s" by (simp add: only_hosts_def)

lemma only_hosts_trans: "only_hosts s s' \<Longrightarrow> only_hosts s' s'' \<Longrightarrow> only_hosts s s''"
proof -
  assume a: "only_hosts s s'" and b: "only_hosts s' s''"
  have "s''\<lparr>hosts := hosts s\<rparr> = (s''\<lparr>hosts := hosts s'\<rparr>)\<lparr>hosts := hosts s\<rparr>" by simp
  then show ?thesis using a b by (simp only: only_hosts_def)
qed

lemma only_hosts_put [simp]: "only_hosts s (put_host h hf s)"
  by (simp add: only_hosts_def put_host_def)

lemma hm_of_put_host [simp]: "hm_of (put_host h hf s) = (hm_of s)(h \<mapsto> hf)"
  by (simp add: hm_of_def put_host_def update_conv')

lemma qm_of_put_queue [simp]: "qm_of (put_queue a q s) = (qm_of s)(a \<mapsto> q)"
  by (simp add: qm_of_def put_queue_def update_conv')

lemma qm_of_put_host [simp]: "qm_of (put_host h hf s) = qm_of s"
  by (simp add: qm_of_def put_host_def)

lemma hm_of_put_queue [simp]: "hm_of (put_queue a q s) = hm_of s"
  by (simp add: hm_of_def put_queue_def)

definition add_mem :: "int \<Rightarrow> hostfrags \<Rightarrow> hostfrags" where
  "add_mem n hf = hf\<lparr>ip_frag_mem := ip_frag_mem hf + n\<rparr>"

lemma add_mem_simps [simp]: "add_mem 0 hf = hf" "add_mem m (add_mem n hf) = add_mem (n + m) hf"
  "ipqueue (add_mem n hf) = ipqueue hf" "hash_index (add_mem n hf) = hash_index hf" "ip_frag_mem (add_mem n hf) = ip_frag_mem hf + n"
  "hf_ip (add_mem n hf) = hf_ip hf"
  by (simp_all add: add_mem_def add.commute)

lemma frag_charge_ok:
  assumes "this_host s = Some h" and "hm_of s h = Some hf"
  shows "\<exists>s'. frag_charge n s = Some s' \<and> only_hosts s s' \<and> hm_of s' = (hm_of s)(h \<mapsto> add_mem n hf)"
  using assms by (auto simp: frag_charge_def add_mem_def hm_of_def [symmetric])

lemma frag_credit_ok:
  assumes "this_host s = Some h" and "hm_of s h = Some hf"
  shows "\<exists>s'. frag_credit n s = Some s' \<and> only_hosts s s' \<and> hm_of s' = (hm_of s)(h \<mapsto> add_mem (- n) hf)"
  using assms by (auto simp: frag_credit_def add_mem_def hm_of_def [symmetric])

lemma free_fragments_none: "this_host s = None \<Longrightarrow> free_fragments env fs s = Some s"
  by (induction fs) (simp_all add: frag_credit_def)

lemma free_fragments_ok:
  assumes "this_host s = Some h" and "hm_of s h = Some hf"
  shows "\<exists>s'. free_fragments env fs s = Some s' \<and> only_hosts s s' \<and> hm_of s' = (hm_of s)(h \<mapsto> add_mem (- frags_cost env fs) hf)"
  using assms
proof (induction fs arbitrary: s hf)
  case Nil
  then show ?case by (simp add: frags_cost_def map_upd_triv)
next
  case (Cons f fs)
  obtain s1 where s1: "frag_credit (truesize (frag_skb f)) s = Some s1" "only_hosts s s1"
      "hm_of s1 = (hm_of s)(h \<mapsto> add_mem (- truesize (frag_skb f)) hf)"
    using frag_credit_ok [OF Cons.prems] by blast
  have t1: "this_host s1 = Some h" using only_hosts_fields [OF s1(2)] Cons.prems by simp
  obtain s2 where s2: "frag_credit (sizeof_ipfrag env) s1 = Some s2" "only_hosts s1 s2"
      "hm_of s2 = (hm_of s)(h \<mapsto> add_mem (- frag_cost env f) hf)"
    using frag_credit_ok [OF t1, of "add_mem (- truesize (frag_skb f)) hf" "sizeof_ipfrag env"] s1(3)
    by (simp add: frag_cost_def) blast
  have t2: "this_host s2 = Some h" using only_hosts_fields [OF s2(2)] t1 by simp
  have "hm_of s2 h = Some (add_mem (- frag_cost env f) hf)" using s2(3) by simp
  then obtain s3 where s3: "free_fragments env fs s2 = Some s3" "only_hosts s2 s3"
      "hm_of s3 = (hm_of s2)(h \<mapsto> add_mem (- frags_cost env fs) (add_mem (- frag_cost env f) hf))"
    using Cons.IH [OF t2] by blast
  have "free_fragments env (f # fs) s = Some s3" using s1(1) s2(1) s3(1) by simp
  moreover have "only_hosts s s3" using s1(2) s2(2) s3(2) only_hosts_trans by blast
  moreover have "hm_of s3 = (hm_of s)(h \<mapsto> add_mem (- frags_cost env (f # fs)) hf)"
    unfolding s3(3) s2(3) by (simp add: frags_cost_def)
  ultimately show ?case by blast
qed


section \<open>Releasing a queue\<close>

text \<open>The fields no operation on hosts and queues touches.\<close>

definition same_clock :: "frag_state \<Rightarrow> frag_state \<Rightarrow> bool" where
  "same_clock s s' \<longleftrightarrow> frag_time0 s' = frag_time0 s \<and> frag_reads s' = frag_reads s \<and> frag_timenow s' = frag_timenow s \<and>
     hash_size s' = hash_size s \<and> fresh_addr s' = fresh_addr s"

lemma only_hosts_clock: "only_hosts s s' \<Longrightarrow> same_clock s s'"
  using only_hosts_fields by (simp add: same_clock_def)

text \<open>The last three releases of \<open>ip_free\<close>, on a host that is still there and on one that is gone.\<close>

definition release :: "frag_env \<Rightarrow> ipq \<Rightarrow> frag_state \<Rightarrow> frag_state option" where
  "release env q s = do {
     s3 \<leftarrow> free_fragments env (q_fragments q) s;
     s4 \<leftarrow> frag_credit (64 + 8) s3;
     frag_credit (sizeof_ipq env) s4 }"

lemma release_none: "this_host s = None \<Longrightarrow> release env q s = Some s"
  by (simp add: release_def free_fragments_none frag_credit_def)

lemma release_ok:
  assumes "this_host s = Some h" and "hm_of s h = Some hf"
  shows "\<exists>s'. release env q s = Some s' \<and> only_hosts s s' \<and> hm_of s' = (hm_of s)(h \<mapsto> add_mem (- queue_cost env q) hf)"
proof -
  obtain s3 where s3: "free_fragments env (q_fragments q) s = Some s3" "only_hosts s s3"
      "hm_of s3 = (hm_of s)(h \<mapsto> add_mem (- frags_cost env (q_fragments q)) hf)"
    using free_fragments_ok [OF assms] by blast
  have t3: "this_host s3 = Some h" "hm_of s3 h = Some (add_mem (- frags_cost env (q_fragments q)) hf)"
    using only_hosts_fields [OF s3(2)] assms s3(3) by simp_all
  obtain s4 where s4: "frag_credit (64 + 8) s3 = Some s4" "only_hosts s3 s4"
      "hm_of s4 = (hm_of s3)(h \<mapsto> add_mem (- (64 + 8)) (add_mem (- frags_cost env (q_fragments q)) hf))"
    using frag_credit_ok [OF t3] by blast
  have t4: "this_host s4 = Some h" "hm_of s4 h = Some (add_mem (- (64 + 8)) (add_mem (- frags_cost env (q_fragments q)) hf))"
    using only_hosts_fields [OF s4(2)] t3 s4(3) by simp_all
  obtain s5 where s5: "frag_credit (sizeof_ipq env) s4 = Some s5" "only_hosts s4 s5"
      "hm_of s5 = (hm_of s4)(h \<mapsto> add_mem (- sizeof_ipq env) (add_mem (- (64 + 8)) (add_mem (- frags_cost env (q_fragments q)) hf)))"
    using frag_credit_ok [OF t4] by blast
  have "release env q s = Some s5" using s3(1) s4(1) s5(1) by (simp add: release_def)
  moreover have "only_hosts s s5" using s3(2) s4(2) s5(2) only_hosts_trans by blast
  moreover have "hm_of s5 = (hm_of s)(h \<mapsto> add_mem (- queue_cost env q) hf)"
    unfolding s5(3) s4(3) s3(3) by (simp add: queue_cost_def algebra_simps)
  ultimately show ?thesis by blast
qed

lemma ip_free_release:
  "ip_free env qp s = do {
     q \<leftarrow> map_of (queues s) qp;
     h \<leftarrow> this_host s;
     hf \<leftarrow> map_of (hosts s) h;
     let s1 = put_host h (hf\<lparr>ipqueue := remove1 qp (ipqueue hf)\<rparr>) (s\<lparr>timers := del_timer qp (timers s)\<rparr>);
     s2 \<leftarrow> (if remove1 qp (ipqueue hf) = [] then rmthis_host s1 else Some s1);
     s5 \<leftarrow> release env q s2;
     Some (s5\<lparr>queues := AList.delete qp (queues s5)\<rparr>) }"
  by (simp add: ip_free_def release_def)

text \<open>The two outcomes of \<open>ip_free\<close>, as changes of the store.\<close>

lemma ip_free_more:
  assumes "qm_of s a = Some q" and "this_host s = Some h" and "hm_of s h = Some hf" and "remove1 a (ipqueue hf) \<noteq> []"
  shows "\<exists>s'. ip_free env a s = Some s' \<and> same_clock s s' \<and> fragtable s' = fragtable s \<and> this_host s' = Some h \<and>
     timers s' = del_timer a (timers s) \<and> qm_of s' = (qm_of s)(a := None) \<and>
     hm_of s' = (hm_of s)(h \<mapsto> add_mem (- queue_cost env q) (hf\<lparr>ipqueue := remove1 a (ipqueue hf)\<rparr>))"
proof -
  let ?hf = "hf\<lparr>ipqueue := remove1 a (ipqueue hf)\<rparr>"
  let ?s1 = "put_host h ?hf (s\<lparr>timers := del_timer a (timers s)\<rparr>)"
  have s1: "this_host ?s1 = Some h" "hm_of ?s1 h = Some ?hf" "hm_of ?s1 = (hm_of s)(h \<mapsto> ?hf)"
    using assms(2) by (simp_all add: put_host_def hm_of_def update_conv')
  obtain s5 where s5: "release env q ?s1 = Some s5" "only_hosts ?s1 s5" "hm_of s5 = (hm_of ?s1)(h \<mapsto> add_mem (- queue_cost env q) ?hf)"
    using release_ok [OF s1(1,2)] by blast
  have f: "ip_free env a s = Some (s5\<lparr>queues := AList.delete a (queues s5)\<rparr>)"
    using assms s5(1) by (simp add: ip_free_release qm_of_def hm_of_def Let_def)
  have flds: "fragtable s5 = fragtable s" "this_host s5 = Some h" "timers s5 = del_timer a (timers s)" "queues s5 = queues s" "same_clock s s5"
    using only_hosts_fields [OF s5(2)] assms(2) by (simp_all add: put_host_def same_clock_def)
  then show ?thesis
    using f s5(3) s1(3) by (auto simp: same_clock_def hm_of_def qm_of_def delete_conv' )
qed

lemma ip_free_last:
  assumes "qm_of s a = Some q" and "this_host s = Some h" and "hm_of s h = Some hf" and "remove1 a (ipqueue hf) = []"
    and "hash_index hf < length (fragtable s)"
  shows "\<exists>s'. ip_free env a s = Some s' \<and> same_clock s s' \<and>
     fragtable s' = (fragtable s)[hash_index hf := remove1 h (fragtable s ! hash_index hf)] \<and> this_host s' = None \<and>
     timers s' = del_timer a (timers s) \<and> qm_of s' = (qm_of s)(a := None) \<and> hm_of s' = (hm_of s)(h := None)"
proof -
  let ?hf = "hf\<lparr>ipqueue := []\<rparr>"
  let ?s1 = "put_host h ?hf (s\<lparr>timers := del_timer a (timers s)\<rparr>)"
  let ?s2 = "?s1\<lparr>fragtable := (fragtable s)[hash_index hf := remove1 h (fragtable s ! hash_index hf)],
       hosts := AList.delete h (hosts ?s1), this_host := None\<rparr>"
  have r: "rmthis_host ?s1 = Some ?s2"
    using assms by (simp add: rmthis_host_def put_host_def update_conv')
  have f: "ip_free env a s = Some (?s2\<lparr>queues := AList.delete a (queues s)\<rparr>)"
    using assms r by (simp add: ip_free_release qm_of_def hm_of_def Let_def release_none) (simp add: put_host_def)
  then show ?thesis
    by (auto simp: same_clock_def hm_of_def qm_of_def delete_conv' put_host_def update_conv')
qed

section \<open>The store without a queue\<close>

lemma queues_cost_cong: "(\<And>a. a \<in> set as \<Longrightarrow> qm a = qm' a) \<Longrightarrow> queues_cost env qm as = queues_cost env qm' as"
  unfolding queues_cost_def by (rule arg_cong [where f = sum_list]) (rule map_cong, auto)

lemma queues_cost_remove1:
  "a \<in> set as \<Longrightarrow> queues_cost env qm (remove1 a as) = queues_cost env qm as - queue_cost env (the (qm a))"
  unfolding queues_cost_def by (induction as) auto

lemma own_okD:
  assumes "own_ok hm qm"
  shows "hm h = Some hf \<Longrightarrow> distinct (ipqueue hf)"
    and "hm h = Some hf \<Longrightarrow> a \<in> set (ipqueue hf) \<Longrightarrow> \<exists>q. qm a = Some q \<and> q_hf q = h"
    and "qm a = Some q \<Longrightarrow> \<exists>hf. hm (q_hf q) = Some hf \<and> a \<in> set (ipqueue hf)"
    and "qm a = Some q \<Longrightarrow> hm (q_hf q) = Some hf \<Longrightarrow> a \<in> set (ipqueue hf)"
  using assms unfolding own_ok_def by (blast, blast, blast, metis option.inject)

lemma own_ok_other:
  "own_ok hm qm \<Longrightarrow> hm h = Some hf \<Longrightarrow> a \<in> set (ipqueue hf) \<Longrightarrow> hm h' = Some hf' \<Longrightarrow> h' \<noteq> h \<Longrightarrow> a \<notin> set (ipqueue hf')"
  unfolding own_ok_def by (metis option.sel)

lemma own_ok_free:
  assumes "own_ok hm qm" and "hm h = Some hf" and "a \<in> set (ipqueue hf)" and "ipqueue hf' = remove1 a (ipqueue hf)"
  shows "own_ok (hm(h \<mapsto> hf')) (qm(a := None))"
    and "remove1 a (ipqueue hf) = [] \<Longrightarrow> own_ok (hm(h := None)) (qm(a := None))"
proof -
  have d: "distinct (ipqueue hf)" and q: "\<And>b. b \<in> set (ipqueue hf) \<Longrightarrow> \<exists>q. qm b = Some q \<and> q_hf q = h"
    using assms(1,2) by (auto simp: own_ok_def)
  have r: "set (remove1 a (ipqueue hf)) = set (ipqueue hf) - {a}" using d by (rule set_remove1_eq)
  have oth: "\<And>h' g b. h' \<noteq> h \<Longrightarrow> hm h' = Some g \<Longrightarrow> b \<in> set (ipqueue g) \<Longrightarrow> b \<noteq> a"
    using own_ok_other [OF assms(1-3)] by blast
  have bwd: "\<And>b q. qm b = Some q \<Longrightarrow> \<exists>g. hm (q_hf q) = Some g \<and> b \<in> set (ipqueue g)"
    using assms(1) by (simp add: own_ok_def)
  have fwd: "\<And>h' g. hm h' = Some g \<Longrightarrow> distinct (ipqueue g) \<and> (\<forall>b \<in> set (ipqueue g). \<exists>q. qm b = Some q \<and> q_hf q = h')"
    using assms(1) by (simp add: own_ok_def)
  show "own_ok (hm(h \<mapsto> hf')) (qm(a := None))"
    unfolding own_ok_def
  proof (intro conjI allI impI)
    fix h' g assume g: "(hm(h \<mapsto> hf')) h' = Some g"
    show "distinct (ipqueue g)" using g d fwd assms(4) by (auto split: if_splits)
    show "\<forall>b \<in> set (ipqueue g). \<exists>q. (qm(a := None)) b = Some q \<and> q_hf q = h'"
      using g q fwd oth r assms(4) by (cases "h' = h") (fastforce split: if_splits)+
  next
    fix b q assume "(qm(a := None)) b = Some q"
    then have b: "b \<noteq> a" "qm b = Some q" by (auto split: if_splits)
    then obtain g where g: "hm (q_hf q) = Some g" "b \<in> set (ipqueue g)" using bwd by blast
    show "\<exists>g. (hm(h \<mapsto> hf')) (q_hf q) = Some g \<and> b \<in> set (ipqueue g)"
      using g b r assms(2,4) by (cases "q_hf q = h") auto
  qed
  show "own_ok (hm(h := None)) (qm(a := None))" if e: "remove1 a (ipqueue hf) = []"
    unfolding own_ok_def
  proof (intro conjI allI impI)
    fix h' g assume g: "(hm(h := None)) h' = Some g"
    show "distinct (ipqueue g)" using g fwd by (auto split: if_splits)
    show "\<forall>b \<in> set (ipqueue g). \<exists>q. (qm(a := None)) b = Some q \<and> q_hf q = h'"
      using g fwd oth by (fastforce split: if_splits)
  next
    fix b q assume "(qm(a := None)) b = Some q"
    then have b: "b \<noteq> a" "qm b = Some q" by (auto split: if_splits)
    then obtain g where g: "hm (q_hf q) = Some g" "b \<in> set (ipqueue g)" using bwd by blast
    moreover have "q_hf q \<noteq> h" using g b r e assms(2) by auto
    ultimately show "\<exists>g. (hm(h := None)) (q_hf q) = Some g \<and> b \<in> set (ipqueue g)" by simp
  qed
qed


lemma mem_ok_free:
  assumes "own_ok hm qm" and "mem_ok env hm qm" and "hm h = Some hf" and "a \<in> set (ipqueue hf)" and "qm a = Some q"
  shows "mem_ok env (hm(h \<mapsto> add_mem (- queue_cost env q) (hf\<lparr>ipqueue := remove1 a (ipqueue hf)\<rparr>))) (qm(a := None))"
    and "mem_ok env (hm(h := None)) (qm(a := None))"
proof -
  have keep: "queues_cost env (qm(a := None)) as = queues_cost env qm as" if "a \<notin> set as" for as
    using that by (intro queues_cost_cong) auto
  have oth: "a \<notin> set (ipqueue g)" if "hm h' = Some g" "h' \<noteq> h" for h' g
    using own_ok_other [OF assms(1,3,4)] that by blast
  have d: "a \<notin> set (remove1 a (ipqueue hf))" using assms(1,3) by (auto simp: own_ok_def)
  have "queues_cost env (qm(a := None)) (remove1 a (ipqueue hf)) = ip_frag_mem hf - queue_cost env q"
    using keep [OF d] queues_cost_remove1 [OF assms(4), of env qm] assms(2,3,5) by (simp add: mem_ok_def)
  then show "mem_ok env (hm(h \<mapsto> add_mem (- queue_cost env q) (hf\<lparr>ipqueue := remove1 a (ipqueue hf)\<rparr>))) (qm(a := None))"
    using assms(2) keep oth by (auto simp: mem_ok_def)
  show "mem_ok env (hm(h := None)) (qm(a := None))"
    using assms(2) keep oth by (auto simp: mem_ok_def)
qed

lemma tab_ok_update: "tab_ok T hm \<Longrightarrow> hm h = Some hf \<Longrightarrow> hash_index hf' = hash_index hf \<Longrightarrow> tab_ok T (hm(h \<mapsto> hf'))"
proof -
  assume a: "tab_ok T hm" "hm h = Some hf" "hash_index hf' = hash_index hf"
  have l: "\<exists>gf. (hm(h \<mapsto> hf')) g = Some gf \<and> hash_index gf = j" if j: "j < length T" and g: "g \<in> set (T ! j)" for j g
  proof -
    obtain gf where "hm g = Some gf" "hash_index gf = j" using a(1) j g unfolding tab_ok_def by blast
    then show ?thesis using a(2,3) by (cases "g = h") auto
  qed
  have m: "hash_index gf < length T \<and> g \<in> set (T ! hash_index gf)" if "(hm(h \<mapsto> hf')) g = Some gf" for g gf
    using a that by (cases "g = h") (auto simp: tab_ok_def)
  show ?thesis using a(1) l m by (auto simp: tab_ok_def)
qed

lemma tab_ok_remove:
  assumes "tab_ok T hm" and "hm h = Some hf"
  shows "tab_ok (T[hash_index hf := remove1 h (T ! hash_index hf)]) (hm(h := None))"
proof -
  let ?i = "hash_index hf" and ?T = "T[hash_index hf := remove1 h (T ! hash_index hf)]"
  have i: "?i < length T" and d: "\<And>j. j < length T \<Longrightarrow> distinct (T ! j)"
      and l: "\<And>j g. j < length T \<Longrightarrow> g \<in> set (T ! j) \<Longrightarrow> \<exists>gf. hm g = Some gf \<and> hash_index gf = j"
      and m: "\<And>g gf. hm g = Some gf \<Longrightarrow> hash_index gf < length T \<and> g \<in> set (T ! hash_index gf)"
    using assms by (auto simp: tab_ok_def)
  have n: "set (?T ! j) = set (T ! j) - {h}" if "j < length T" for j
  proof (cases "j = ?i")
    case True
    then show ?thesis using i d [OF i] by (simp add: set_remove1_eq)
  next
    case False
    then have "h \<notin> set (T ! j)" using l [OF that] assms(2) by fastforce
    then show ?thesis using False by simp
  qed
  have "distinct (?T ! j)" if "j < length T" for j using d [OF that] i by (cases "j = ?i") simp_all
  then show ?thesis using n l m i by (auto simp: tab_ok_def)
qed

lemma tim_ok_del: "tim_ok t qm \<Longrightarrow> a \<in> dom qm \<Longrightarrow> tim_ok (del_timer a t) (qm(a := None))"
  unfolding tim_ok_def using dll.del_holds dll.del_set by (metis dom_fun_upd)

lemma ran_none_subset: "ran (m(a := None)) \<subseteq> ran m"
  by (auto simp: ran_def split: if_splits)

lemma inv_midI:
  "frag_core P env s \<Longrightarrow> (\<And>h g. hm_of s h = Some g \<Longrightarrow> ipqueue g \<noteq> []) \<Longrightarrow> (\<And>h. this_host s = Some h \<Longrightarrow> h \<in> dom (hm_of s)) \<Longrightarrow>
   frag_inv P env s \<and> frag_mid P env s"
  by (auto simp: frag_inv_def frag_mid_def ran_def)

lemma ip_free_ok:
  assumes "frag_mid P env s" and "this_host s = Some h" and "hm_of s h = Some hf" and "a \<in> set (ipqueue hf)"
  shows "\<exists>s'. ip_free env a s = Some s' \<and> frag_inv P env s' \<and> frag_mid P env s' \<and> same_clock s s' \<and>
     qm_of s' = (qm_of s)(a := None) \<and> (this_host s' = None \<or> this_host s' = Some h)"
proof -
  have core: "frag_core P env s" using assms(1) by (simp add: frag_mid_def)
  then have tab: "tab_ok (fragtable s) (hm_of s)" and own: "own_ok (hm_of s) (qm_of s)" and mem: "mem_ok env (hm_of s) (qm_of s)"
      and tim: "tim_ok (timers s) (qm_of s)" and wf: "\<forall>q \<in> ran (qm_of s). ipq_wf P q"
      and adr: "addr_ok (fresh_addr s) (hm_of s) (qm_of s)" and hs: "hash_size s = length (fragtable s)" "0 < hash_size s"
    unfolding frag_core_def by blast+
  obtain q where q: "qm_of s a = Some q" using own assms(3,4) by (fastforce simp: own_ok_def)
  then have tim': "tim_ok (del_timer a (timers s)) ((qm_of s)(a := None))" using tim by (intro tim_ok_del) auto
  have wf': "\<forall>q \<in> ran ((qm_of s)(a := None)). ipq_wf P q" using wf ran_none_subset by fast
  have ne: "\<And>h' g. hm_of s h' = Some g \<Longrightarrow> h' \<noteq> h \<Longrightarrow> ipqueue g \<noteq> []"
    using assms(1,2) by (auto simp: frag_mid_def)
  let ?r = "remove1 a (ipqueue hf)"
  show ?thesis
  proof (cases "?r = []")
    case True
    have own': "ipqueue (hf\<lparr>ipqueue := ?r\<rparr>) = ?r" by simp
    have ix: "hash_index hf < length (fragtable s)" using tab assms(3) by (simp add: tab_ok_def)
    obtain s' where s': "ip_free env a s = Some s'" "same_clock s s'"
        "fragtable s' = (fragtable s)[hash_index hf := remove1 h (fragtable s ! hash_index hf)]" "this_host s' = None"
        "timers s' = del_timer a (timers s)" "qm_of s' = (qm_of s)(a := None)" "hm_of s' = (hm_of s)(h := None)"
      using ip_free_last [OF q assms(2,3) True ix] by blast
    have "frag_core P env s'"
      using s' hs tab_ok_remove [OF tab assms(3)] own_ok_free(2) [OF own assms(3,4) own' True] mem_ok_free(2) [OF own mem assms(3,4) q]
        tim' wf' adr by (simp add: frag_core_def same_clock_def addr_ok_def)
    moreover have "ipqueue g \<noteq> []" if "hm_of s' h' = Some g" for h' g
      using that ne s'(7) by (auto split: if_splits)
    ultimately have "frag_inv P env s' \<and> frag_mid P env s'" by (rule inv_midI) (use s' in auto)
    then show ?thesis using s' by blast
  next
    case False
    let ?hf = "add_mem (- queue_cost env q) (hf\<lparr>ipqueue := ?r\<rparr>)"
    obtain s' where s': "ip_free env a s = Some s'" "same_clock s s'" "fragtable s' = fragtable s" "this_host s' = Some h"
        "timers s' = del_timer a (timers s)" "qm_of s' = (qm_of s)(a := None)" "hm_of s' = (hm_of s)(h \<mapsto> ?hf)"
      using ip_free_more [OF q assms(2,3) False] by blast
    have "tab_ok (fragtable s) ((hm_of s)(h \<mapsto> ?hf))" by (rule tab_ok_update [OF tab assms(3)]) simp
    moreover have "own_ok ((hm_of s)(h \<mapsto> ?hf)) ((qm_of s)(a := None))" by (rule own_ok_free(1) [OF own assms(3,4)]) simp
    moreover have "addr_ok (fresh_addr s) ((hm_of s)(h \<mapsto> ?hf)) ((qm_of s)(a := None))"
      using adr assms(3) by (auto simp: addr_ok_def)
    ultimately have "frag_core P env s'"
      using s' hs mem_ok_free(1) [OF own mem assms(3,4) q] tim' wf' by (simp add: frag_core_def same_clock_def)
    moreover have "ipqueue g \<noteq> []" if "hm_of s' h' = Some g" for h' g
      using that ne s'(7) False by (auto split: if_splits)
    ultimately have "frag_inv P env s' \<and> frag_mid P env s'" by (rule inv_midI) (use s' in auto)
    then show ?thesis using s' by blast
  qed
qed

section \<open>The loops\<close>

lemma ip_evictor_ok:
  "frag_mid P env s \<Longrightarrow> (\<And>h hf. this_host s = Some h \<Longrightarrow> hm_of s h = Some hf \<Longrightarrow> ip_frag_mem hf > IPFRAG_LOW_THRESH \<Longrightarrow> ipqueue hf \<noteq> []) \<Longrightarrow>
   \<exists>s'. ip_evictor env s = Some s' \<and> frag_mid P env s' \<and> same_clock s s' \<and> (frag_inv P env s \<longrightarrow> frag_inv P env s') \<and>
     (\<forall>h hf. this_host s' = Some h \<and> hm_of s' h = Some hf \<longrightarrow> ip_frag_mem hf \<le> IPFRAG_LOW_THRESH)"
proof (induction env s rule: ip_evictor.induct)
  case (1 env s)
  show ?case
  proof (cases "this_host s")
    case None
    then show ?thesis using "1.prems" by (simp add: ip_evictor.simps [of env s] same_clock_def)
  next
    case (Some h)
    then obtain hf where hf: "hm_of s h = Some hf" using "1.prems"(1) by (auto simp: frag_mid_def)
    show ?thesis
    proof (cases "ip_frag_mem hf > IPFRAG_LOW_THRESH")
      case False
      then show ?thesis using "1.prems" Some hf by (simp add: ip_evictor.simps [of env s] same_clock_def hm_of_def)
    next
      case True
      obtain a r where ar: "ipqueue hf = a # r" using "1.prems"(2) [OF Some hf True] by (cases "ipqueue hf") auto
      obtain s1 where s1: "ip_free env a s = Some s1" "frag_inv P env s1" "frag_mid P env s1" "same_clock s s1"
        using ip_free_ok [OF "1.prems"(1) Some hf, of a] ar by auto
      have "\<exists>s'. ip_evictor env s1 = Some s' \<and> frag_mid P env s' \<and> same_clock s1 s' \<and> (frag_inv P env s1 \<longrightarrow> frag_inv P env s') \<and>
          (\<forall>h hf. this_host s' = Some h \<and> hm_of s' h = Some hf \<longrightarrow> ip_frag_mem hf \<le> IPFRAG_LOW_THRESH)"
      proof (rule "1.IH" [OF Some _ True ar s1(1) s1(3)])
        show "map_of (hosts s) h = Some hf" using hf by (simp add: hm_of_def)
        show "ipqueue hf' \<noteq> []" if "this_host s1 = Some h'" "hm_of s1 h' = Some hf'" "ip_frag_mem hf' > IPFRAG_LOW_THRESH" for h' hf'
          using s1(2) that by (auto simp: frag_inv_def ran_def)
      qed
      then show ?thesis
        using s1 Some hf True ar by (auto simp: ip_evictor.simps [of env s] hm_of_def same_clock_def)
    qed
  qed
qed


text \<open>Operations that leave the store alone keep the invariant.\<close>

definition same_store :: "frag_state \<Rightarrow> frag_state \<Rightarrow> bool" where
  "same_store s s' \<longleftrightarrow> hosts s' = hosts s \<and> queues s' = queues s \<and> fragtable s' = fragtable s \<and> timers s' = timers s \<and>
     hash_size s' = hash_size s \<and> fresh_addr s' = fresh_addr s"

lemma same_store_maps: "same_store s s' \<Longrightarrow> hm_of s' = hm_of s \<and> qm_of s' = qm_of s"
  by (simp add: same_store_def hm_of_def qm_of_def)

lemma same_store_core: "same_store s s' \<Longrightarrow> frag_core P env s' \<longleftrightarrow> frag_core P env s"
  using same_store_maps [of s s'] by (simp add: same_store_def frag_core_def)

lemma same_store_inv: "same_store s s' \<Longrightarrow> frag_inv P env s' \<longleftrightarrow> frag_inv P env s"
  using same_store_maps [of s s'] same_store_core [of s s'] by (simp add: frag_inv_def)

lemma same_store_mid: "same_store s s' \<Longrightarrow> this_host s' = this_host s \<Longrightarrow> frag_mid P env s' \<longleftrightarrow> frag_mid P env s"
  using same_store_maps [of s s'] same_store_core [of s s'] by (simp add: frag_mid_def)

lemma jiffies_frame: "jiffies clk s = (t, s') \<Longrightarrow> same_store s s' \<and> this_host s' = this_host s"
  by (auto simp: jiffies_def same_store_def Let_def split: if_splits)

lemma warn_frame [simp]: "same_store s (warn w s)" "this_host (warn w s) = this_host s" "same_store s (warns n w s)" "this_host (warns n w s) = this_host s"
  by (simp_all add: warn_def warns_def same_store_def)

lemma inv_mid: "frag_inv P env s \<Longrightarrow> (\<And>h. this_host s = Some h \<Longrightarrow> h \<in> dom (hm_of s)) \<Longrightarrow> frag_mid P env s"
  by (auto simp: frag_inv_def frag_mid_def ran_def)

lemma core_owner:
  "frag_core P env s \<Longrightarrow> qm_of s a = Some q \<Longrightarrow> \<exists>hf. hm_of s (q_hf q) = Some hf \<and> a \<in> set (ipqueue hf)"
  by (simp add: frag_core_def own_ok_def)

lemma core_timer:
  "frag_core P env s \<Longrightarrow> \<exists>xs. timer_rep (timers s) xs \<and> set xs = dom (qm_of s)"
  by (simp add: frag_core_def tim_ok_def)

lemma expire_timers_ok: "frag_inv P env s \<Longrightarrow> \<exists>s'. expire_timers env clk s = Some s' \<and> frag_inv P env s'"
proof (induction env clk s rule: expire_timers.induct)
  case (1 env clk s)
  obtain xs where xs: "timer_rep (timers s) xs" "set xs = dom (qm_of s)"
    using core_timer "1.prems" unfolding frag_inv_def by blast
  show ?case
  proof (cases "timer_head (timers s)")
    case None
    then show ?thesis using "1.prems" by (simp add: expire_timers.simps [of env clk s])
  next
    case (Some a)
    then have "a \<in> set xs" using dll.first_holds [OF xs(1)] by (auto split: if_splits)
    then obtain q where q: "qm_of s a = Some q" using xs(2) by auto
    obtain now s1 where j: "jiffies clk s = (now, s1)" by (metis prod.exhaust)
    note ss = jiffies_frame [OF j]
    show ?thesis
    proof (cases "q_expires q < now")
      case False
      then show ?thesis
        using "1.prems" Some q j same_store_inv ss by (auto simp: expire_timers.simps [of env clk s] qm_of_def)
    next
      case True
      let ?s2 = "s1\<lparr>this_host := Some (q_hf q)\<rparr>"
      have st: "same_store s ?s2" using ss by (simp add: same_store_def)
      obtain hf where hf: "hm_of s (q_hf q) = Some hf" "a \<in> set (ipqueue hf)"
        using core_owner q "1.prems" unfolding frag_inv_def by blast
      have hf2: "hm_of ?s2 (q_hf q) = Some hf" using same_store_maps [OF st] hf by simp
      have mid: "frag_mid P env ?s2" by (rule inv_mid) (use "1.prems" same_store_inv [OF st] hf2 in auto)
      obtain s3 where s3: "ip_free env a ?s2 = Some s3" "frag_inv P env s3"
        using ip_free_ok [OF mid _ hf2 hf(2)] by auto
      have e: "ip_expire env a ((snd (jiffies clk s))\<lparr>this_host := Some (q_hf q)\<rparr>) = Some s3"
        using s3(1) j by (simp add: ip_expire_def)
      have "\<exists>s'. expire_timers env clk s3 = Some s' \<and> frag_inv P env s'"
        by (rule "1.IH" [OF Some _ _ e s3(2)]) (use q True j in \<open>auto simp: qm_of_def\<close>)
      then show ?thesis using Some q j True e by (simp add: expire_timers.simps [of env clk s] qm_of_def)
    qed
  qed
qed

section \<open>Finding and creating hosts and queues\<close>

text \<open>A header the caller has checked: at least five words, all present.\<close>

definition hdr_ok :: "bytes \<Rightarrow> bool" where
  "hdr_ok iph \<longleftrightarrow> 20 \<le> hlen iph \<and> hlen iph \<le> length iph"

lemma hlen_take:
  assumes "take (hlen iph) hdr = take (hlen iph) iph" and "hdr_ok iph"
  shows "hlen (hdr @ xs) = hlen iph" "src_octets (hdr @ xs) = src_octets iph" "hlen hdr = hlen iph" "src_octets hdr = src_octets iph"
proof -
  have h: "20 \<le> hlen iph" "hlen iph \<le> length iph" using assms(2) by (simp_all add: hdr_ok_def)
  have l: "hlen iph \<le> length hdr" using arg_cong [OF assms(1), of length] h(2) by (simp add: min_def split: if_splits)
  have n: "hdr ! i = iph ! i" if "i < 20" for i using assms(1) that h(1) by (metis less_le_trans nth_take)
  show "hlen (hdr @ xs) = hlen iph" "hlen hdr = hlen iph" using n [of 0] h l by (auto simp: hlen_def nth_append)
  show "src_octets (hdr @ xs) = src_octets iph" "src_octets hdr = src_octets iph"
    unfolding src_octets_def using n h l by (auto intro!: nth_equalityI simp: nth_append)
qed

lemma hdr_reads:
  assumes "hdr_ok iph"
  shows "ip_dst iph \<noteq> None" "rd_be32 iph 16 \<noteq> None" "rd_be16 iph 2 \<noteq> None" "rd_be16 iph 6 \<noteq> None"
    "ip_hl4 iph = Some (int (hlen iph))"
proof -
  have l: "20 \<le> length iph" using assms by (simp add: hdr_ok_def)
  then show "ip_dst iph \<noteq> None" "rd_be32 iph 16 \<noteq> None" "rd_be16 iph 2 \<noteq> None" "rd_be16 iph 6 \<noteq> None"
    by (simp_all add: ip_dst_def rd_le32_in rd_be32_in rd_be16_in)
  have "rd8 iph 0 = Some (iph ! 0)" using l by (intro rd8_in) linarith
  then show "ip_hl4 iph = Some (int (hlen iph))" by (simp add: ip_hl4_def hlen_def)
qed

lemma frag_index_ok: "hdr_ok iph \<Longrightarrow> frag_core P env s \<Longrightarrow> \<exists>i. frag_index iph s = Some i \<and> i < length (fragtable s)"
  using hdr_reads(2) [of iph] by (auto simp: frag_index_def frag_core_def)

lemma find_host_ok:
  "(\<forall>h \<in> set hs. \<exists>hf. map_of al h = Some hf) \<Longrightarrow>
   \<exists>r. find_host ip hs al = Some r \<and> (\<forall>h. r = Some h \<longrightarrow> h \<in> set hs \<and> (\<exists>hf. map_of al h = Some hf \<and> hf_ip hf = ip))"
  by (induction hs) (auto split: option.splits)

lemma tab_ok_live: "tab_ok T hm \<Longrightarrow> j < length T \<Longrightarrow> h \<in> set (T ! j) \<Longrightarrow> \<exists>hf. hm h = Some hf \<and> hash_index hf = j"
  unfolding tab_ok_def by blast

lemma hostfrag_find_ok:
  assumes "hdr_ok iph" and "frag_inv P env s"
  shows "\<exists>b s'. hostfrag_find iph s = Some (b, s') \<and> frag_inv P env s' \<and> frag_mid P env s' \<and> (b \<longleftrightarrow> this_host s' \<noteq> None)"
proof -
  have core: "frag_core P env s" using assms(2) by (simp add: frag_inv_def)
  obtain i where i: "frag_index iph s = Some i" "i < length (fragtable s)" using frag_index_ok [OF assms(1) core] by blast
  obtain ip where ip: "ip_dst iph = Some ip" using hdr_reads(1) [OF assms(1)] by blast
  have tab: "tab_ok (fragtable s) (map_of (hosts s))" using core by (simp add: frag_core_def hm_of_def)
  have "\<forall>h \<in> set (fragtable s ! i). \<exists>hf. map_of (hosts s) h = Some hf" using tab_ok_live [OF tab i(2)] by blast
  then obtain r where r: "find_host ip (fragtable s ! i) (hosts s) = Some r" "\<forall>h. r = Some h \<longrightarrow> h \<in> dom (hm_of s)"
    using find_host_ok [of "fragtable s ! i" "hosts s" ip] unfolding hm_of_def by (metis domI)
  let ?s' = "s\<lparr>this_host := r\<rparr>"
  have st: "same_store s ?s'" by (simp add: same_store_def)
  have "frag_inv P env ?s'" using assms(2) same_store_inv [OF st] by simp
  moreover have "frag_mid P env ?s'" by (rule inv_mid [OF calculation]) (use r(2) same_store_maps [OF st] in simp)
  ultimately show ?thesis using i ip r(1) by (simp add: hostfrag_find_def)
qed

lemma hostfrag_create_ok:
  assumes "hdr_ok iph" and "frag_inv P env s"
  shows "\<exists>s' h hf. hostfrag_create iph s = Some s' \<and> frag_mid P env s' \<and> this_host s' = Some h \<and> hm_of s' h = Some hf \<and>
     ipqueue hf = [] \<and> ip_frag_mem hf = 0 \<and> qm_of s' = qm_of s"
proof -
  have core: "frag_core P env s" using assms(2) by (simp add: frag_inv_def)
  obtain i where i: "frag_index iph s = Some i" "i < length (fragtable s)" using frag_index_ok [OF assms(1) core] by blast
  obtain ip where ip: "ip_dst iph = Some ip" using hdr_reads(1) [OF assms(1)] by blast
  let ?a = "fresh_addr s"
  let ?hf = "\<lparr>ipqueue = [], ip_frag_mem = 0, hf_ip = ip, hash_index = i\<rparr>"
  define s' where "s' = put_host ?a ?hf (s\<lparr>fragtable := (fragtable s)[i := ?a # fragtable s ! i], fresh_addr := Suc ?a, this_host := Some ?a\<rparr>)"
  have c: "hostfrag_create iph s = Some s'" using i ip by (simp add: hostfrag_create_def Let_def s'_def)
  have maps: "hm_of s' = (hm_of s)(?a \<mapsto> ?hf)" "qm_of s' = qm_of s"
    by (simp_all add: s'_def hm_of_def qm_of_def put_host_def update_conv')
  have fl: "fragtable s' = (fragtable s)[i := ?a # fragtable s ! i]" "timers s' = timers s" "hash_size s' = hash_size s"
    "fresh_addr s' = Suc ?a" "this_host s' = Some ?a" by (simp_all add: s'_def put_host_def)
  have new: "hm_of s ?a = None" using core by (auto simp: frag_core_def addr_ok_def)
  note parts = frag_coreD [OF core]
  note tab = parts(3) and own = parts(4) and mem = parts(5)
  have fresh: "?a \<notin> set (fragtable s ! j)" if "j < length (fragtable s)" for j
    using tab_ok_live [OF tab that, of ?a] new by auto
  have "tab_ok ((fragtable s)[i := ?a # fragtable s ! i]) ((hm_of s)(?a \<mapsto> ?hf))"
    using tab i(2) fresh by (fastforce simp: tab_ok_def nth_list_update)
  moreover have "own_ok ((hm_of s)(?a \<mapsto> ?hf)) (qm_of s)" using own new by (fastforce simp: own_ok_def)
  moreover have "mem_ok env ((hm_of s)(?a \<mapsto> ?hf)) (qm_of s)" using mem by (auto simp: mem_ok_def queues_cost_def)
  moreover have "addr_ok (Suc ?a) ((hm_of s)(?a \<mapsto> ?hf)) (qm_of s)" using core by (auto simp: frag_core_def addr_ok_def less_Suc_eq)
  ultimately have "frag_core P env s'" unfolding frag_core_def maps fl length_list_update using parts by blast
  then have "frag_mid P env s'" using assms(2) maps fl by (auto simp: frag_mid_def frag_inv_def ran_def)
  then show ?thesis using c maps fl by (intro exI [of _ s'] exI [of _ ?a] exI [of _ ?hf]) simp
qed


text \<open>Searching the queues of a host.\<close>

lemma same_datagram_ok: "20 \<le> length a \<Longrightarrow> 20 \<le> length b \<Longrightarrow> \<exists>r. same_datagram a b = Some r"
  by (simp add: same_datagram_def rd_le16_in rd_le32_in rd8_in)

lemma find_queue_ok:
  "20 \<le> length iph \<Longrightarrow> (\<forall>a \<in> set as. \<exists>q. map_of qs a = Some q \<and> 20 \<le> length (q_iph q)) \<Longrightarrow>
   \<exists>r. find_queue iph as qs = Some r \<and> (\<forall>a. r = Some a \<longrightarrow> a \<in> set as)"
proof (induction as)
  case (Cons a as)
  obtain q where q: "map_of qs a = Some q" "20 \<le> length (q_iph q)" using Cons.prems by auto
  obtain b where "same_datagram iph (q_iph q) = Some b" using same_datagram_ok q Cons.prems(1) by blast
  then show ?case using Cons q by auto
qed simp

lemma mid_queue:
  assumes "frag_mid P env s" and "hm_of s h = Some hf" and "a \<in> set (ipqueue hf)"
  shows "\<exists>q. qm_of s a = Some q \<and> q_hf q = h \<and> ipq_wf P q"
proof -
  have c: "frag_core P env s" using assms(1) by (simp add: frag_mid_def)
  obtain q where "qm_of s a = Some q" "q_hf q = h" using own_okD(2) [OF frag_coreD(4) [OF c] assms(2,3)] by blast
  then show ?thesis using frag_coreD(7) [OF c] by (auto simp: ran_def)
qed

lemma ip_find_ok:
  assumes "frag_mid P env s" and "hdr_ok iph" and "this_host s = Some h" and "hm_of s h = Some hf"
  shows "\<exists>r. ip_find iph s = Some (r, case r of None \<Rightarrow> s | Some a \<Rightarrow> s\<lparr>timers := del_timer a (timers s)\<rparr>) \<and>
     (\<forall>a. r = Some a \<longrightarrow> a \<in> set (ipqueue hf))"
proof -
  have "\<forall>a \<in> set (ipqueue hf). \<exists>q. map_of (queues s) a = Some q \<and> 20 \<le> length (q_iph q)"
    using mid_queue [OF assms(1,4)] by (fastforce simp: ipq_wf_def qm_of_def)
  moreover have "20 \<le> length iph" using assms(2) by (simp add: hdr_ok_def)
  ultimately obtain r where r: "find_queue iph (ipqueue hf) (queues s) = Some r" "\<forall>a. r = Some a \<longrightarrow> a \<in> set (ipqueue hf)"
    using find_queue_ok by blast
  then show ?thesis using assms(3,4) by (intro exI [of _ r]) (auto simp: ip_find_def hm_of_def split: option.splits)
qed

text \<open>Deleting the timer of a queue twice is deleting it once.\<close>

lemma del_timer_again:
  assumes "frag_core P env s" and "qm_of s a = Some q"
  shows "del_timer a (del_timer a (timers s)) = del_timer a (timers s)"
proof -
  obtain xs where "timer_rep (timers s) xs" "set xs = dom (qm_of s)" using core_timer [OF assms(1)] by blast
  then show ?thesis using assms(2) by (intro dll.del_del) auto
qed

lemma ip_free_after_find:
  "del_timer a (del_timer a (timers s)) = del_timer a (timers s) \<Longrightarrow>
   ip_free env a (s\<lparr>timers := del_timer a (timers s)\<rparr>) = ip_free env a s"
  by (simp add: ip_free_def put_host_def)

lemma restart_after_find:
  "del_timer a (del_timer a (timers s)) = del_timer a (timers s) \<Longrightarrow>
   restart_queue clk iph off ihl a (s\<lparr>timers := del_timer a (timers s)\<rparr>) = restart_queue clk iph off ihl a s"
  by (simp add: restart_queue_def)

section \<open>Replacing a queue\<close>

text \<open>Changing a queue and its host by the same amount keeps the invariant.\<close>

lemma put_queue_core:
  assumes "frag_core P env s" and "qm_of s a = Some q" and "hm_of s (q_hf q) = Some hf" and "q_hf q' = q_hf q" and "ipq_wf P q'"
    and maps: "hm_of s' = (hm_of s)(q_hf q \<mapsto> add_mem (queue_cost env q' - queue_cost env q) hf)" "qm_of s' = (qm_of s)(a \<mapsto> q')"
    and fl: "fragtable s' = fragtable s" "hash_size s' = hash_size s" "fresh_addr s' = fresh_addr s"
    and tim: "tim_ok (timers s') (qm_of s)"
  shows "frag_core P env s'"
proof -
  note p = frag_coreD [OF assms(1)]
  let ?h = "q_hf q" and ?hf = "add_mem (queue_cost env q' - queue_cost env q) hf"
  have ain: "a \<in> set (ipqueue hf)" using p(4) assms(2,3) by (fastforce simp: own_ok_def)
  have d: "distinct (ipqueue hf)" using p(4) assms(3) by (simp add: own_ok_def)
  have "tab_ok (fragtable s) ((hm_of s)(?h \<mapsto> ?hf))" by (rule tab_ok_update [OF p(3) assms(3)]) simp
  moreover have "own_ok ((hm_of s)(?h \<mapsto> ?hf)) ((qm_of s)(a \<mapsto> q'))"
  proof -
    have "\<exists>g. ((hm_of s)(?h \<mapsto> ?hf)) (q_hf r) = Some g \<and> b \<in> set (ipqueue g)" if "((qm_of s)(a \<mapsto> q')) b = Some r" for b r
    proof (cases "b = a")
      case True
      then show ?thesis using that assms(4) ain by auto
    next
      case False
      then have r: "qm_of s b = Some r" using that by simp
      then show ?thesis using own_okD(3) [OF p(4) r] own_okD(4) [OF p(4) r] assms(3) by (cases "q_hf r = ?h") auto
    qed
    moreover have "distinct (ipqueue g) \<and> (\<forall>b \<in> set (ipqueue g). \<exists>r. ((qm_of s)(a \<mapsto> q')) b = Some r \<and> q_hf r = h')"
      if gh: "((hm_of s)(?h \<mapsto> ?hf)) h' = Some g" for h' g
    proof -
      obtain g0 where g0: "hm_of s h' = Some g0" "ipqueue g = ipqueue g0" using gh assms(3) by (cases "h' = ?h") auto
      have "h' = ?h" if "a \<in> set (ipqueue g0)" using own_okD(2) [OF p(4) g0(1) that] assms(2) by auto
      then have "\<exists>r. ((qm_of s)(a \<mapsto> q')) b = Some r \<and> q_hf r = h'" if "b \<in> set (ipqueue g0)" for b
        using that own_okD(2) [OF p(4) g0(1) that] assms(4) by (cases "b = a") auto
      then show ?thesis using own_okD(1) [OF p(4) g0(1)] g0(2) by simp
    qed
    ultimately show ?thesis by (simp only: own_ok_def) blast
  qed
  moreover have "mem_ok env ((hm_of s)(?h \<mapsto> ?hf)) ((qm_of s)(a \<mapsto> q'))"
  proof -
    have keep: "queues_cost env ((qm_of s)(a \<mapsto> q')) as = queues_cost env (qm_of s) as" if "a \<notin> set as" for as
      using that by (intro queues_cost_cong) auto
    have "queues_cost env ((qm_of s)(a \<mapsto> q')) (ipqueue hf) =
        queues_cost env ((qm_of s)(a \<mapsto> q')) (remove1 a (ipqueue hf)) + queue_cost env q'"
      using queues_cost_remove1 [OF ain, of env "(qm_of s)(a \<mapsto> q')"] by simp
    also have "\<dots> = queues_cost env (qm_of s) (ipqueue hf) - queue_cost env q + queue_cost env q'"
      using keep [of "remove1 a (ipqueue hf)"] d queues_cost_remove1 [OF ain, of env "qm_of s"] assms(2) by simp
    finally have "ip_frag_mem ?hf = queues_cost env ((qm_of s)(a \<mapsto> q')) (ipqueue hf)"
      using p(5) assms(3) by (simp add: mem_ok_def)
    moreover have "a \<notin> set (ipqueue g)" if "hm_of s h' = Some g" "h' \<noteq> ?h" for h' g
      using own_ok_other [OF p(4) assms(3) ain] that by blast
    ultimately show ?thesis using p(5) keep by (auto simp: mem_ok_def)
  qed
  moreover have "tim_ok (timers s') ((qm_of s)(a \<mapsto> q'))"
  proof -
    have "dom ((qm_of s)(a \<mapsto> q')) = dom (qm_of s)" using assms(2) by auto
    then show ?thesis using tim by (simp add: tim_ok_def)
  qed
  moreover have "\<forall>r \<in> ran ((qm_of s)(a \<mapsto> q')). ipq_wf P r" using p(7) assms(5) by (auto simp: ran_def)
  moreover have "addr_ok (fresh_addr s) ((hm_of s)(?h \<mapsto> ?hf)) ((qm_of s)(a \<mapsto> q'))"
    using p(8) assms(2,3) by (auto simp: addr_ok_def)
  ultimately show ?thesis unfolding frag_core_def maps fl using p(1,2) by blast
qed


section \<open>Creating and restarting a queue\<close>

text \<open>A fragment with eight octets behind its header.\<close>

abbreviation (input) has_room :: "bytes \<Rightarrow> bool" where
  "has_room iph \<equiv> hlen iph + 8 \<le> length iph"

lemma header_copy_ok:
  assumes "has_room iph"
  shows "\<exists>hdr. header_copy iph (int (hlen iph)) = Some hdr \<and> length hdr = hlen iph + 8 \<and>
     take (hlen iph) hdr = take (hlen iph) iph"
proof -
  have n: "nat (int (hlen iph) + 8) = hlen iph + 8" by simp
  show ?thesis using assms unfolding header_copy_def n Let_def by simp
qed

lemma header_copy_overread: "length iph < hlen iph + 8 \<Longrightarrow> header_copy iph (int (hlen iph)) = None"
  by (simp add: header_copy_def Let_def nat_add_distrib)

text \<open>A new queue in front of the others of its host.\<close>

lemma new_queue_core:
  assumes "frag_core P env s" and "hm_of s h = Some hf" and "ipq_wf P q" and "q_hf q = h" and "q_fragments q = []"
    and maps: "hm_of s' = (hm_of s)(h \<mapsto> (add_mem (queue_cost env q) hf)\<lparr>ipqueue := a # ipqueue hf\<rparr>)" "qm_of s' = (qm_of s)(a \<mapsto> q)"
    and fl: "fragtable s' = fragtable s" "hash_size s' = hash_size s" "fresh_addr s' = Suc a" "timers s' = add_timer a (timers s)"
    and a: "a = fresh_addr s"
  shows "frag_core P env s'"
proof -
  note p = frag_coreD [OF assms(1)]
  let ?hf = "(add_mem (queue_cost env q) hf)\<lparr>ipqueue := a # ipqueue hf\<rparr>"
  have new: "qm_of s a = None" using p(8) by (auto simp: addr_ok_def a)
  have na: "a \<notin> set (ipqueue g)" if "hm_of s h' = Some g" for h' g using own_okD(2) [OF p(4) that, of a] new by auto
  have "tab_ok (fragtable s) ((hm_of s)(h \<mapsto> ?hf))" by (rule tab_ok_update [OF p(3) assms(2)]) simp
  moreover have "own_ok ((hm_of s)(h \<mapsto> ?hf)) ((qm_of s)(a \<mapsto> q))"
  proof -
    have "\<exists>g. ((hm_of s)(h \<mapsto> ?hf)) (q_hf r) = Some g \<and> b \<in> set (ipqueue g)" if r: "((qm_of s)(a \<mapsto> q)) b = Some r" for b r
      using r own_okD(3) [OF p(4), of b r] own_okD(4) [OF p(4), of b r hf] assms(2,4)
      by (cases "b = a"; cases "q_hf r = h") auto
    moreover have "distinct (ipqueue g) \<and> (\<forall>b \<in> set (ipqueue g). \<exists>r. ((qm_of s)(a \<mapsto> q)) b = Some r \<and> q_hf r = h')"
      if g: "((hm_of s)(h \<mapsto> ?hf)) h' = Some g" for h' g
    proof (cases "h' = h")
      case True
      then show ?thesis using g own_okD(1,2) [OF p(4) assms(2)] na [OF assms(2)] assms(4) by auto
    next
      case False
      then have g': "hm_of s h' = Some g" using g by simp
      show ?thesis using own_okD(1,2) [OF p(4) g'] na [OF g'] by auto
    qed
    ultimately show ?thesis by (simp only: own_ok_def) blast
  qed
  moreover have "mem_ok env ((hm_of s)(h \<mapsto> ?hf)) ((qm_of s)(a \<mapsto> q))"
  proof -
    have "queues_cost env ((qm_of s)(a \<mapsto> q)) (ipqueue g) = queues_cost env (qm_of s) (ipqueue g)" if "hm_of s h' = Some g" for h' g
      using na [OF that] by (intro queues_cost_cong) auto
    then show ?thesis using p(5) assms(2) by (auto simp: mem_ok_def queues_cost_def)
  qed
  moreover have "tim_ok (add_timer a (timers s)) ((qm_of s)(a \<mapsto> q))"
  proof -
    obtain xs where xs: "timer_rep (timers s) xs" "set xs = dom (qm_of s)" using core_timer [OF assms(1)] by blast
    then have "timer_rep (add_timer a (timers s)) (xs @ [a])" using new by (intro dll.add_holds) auto
    then show ?thesis unfolding tim_ok_def using xs(2) by (intro exI [of _ "xs @ [a]"]) auto
  qed
  moreover have "\<forall>r \<in> ran ((qm_of s)(a \<mapsto> q)). ipq_wf P r" using p(7) assms(3) by (auto simp: ran_def)
  moreover have "addr_ok (Suc a) ((hm_of s)(h \<mapsto> ?hf)) ((qm_of s)(a \<mapsto> q))"
    using p(8) assms(2) by (auto simp: addr_ok_def a less_Suc_eq)
  ultimately show ?thesis unfolding frag_core_def maps fl using p(1,2) by blast
qed

text \<open>The state in which a fragment is queued: its queue belongs to \<open>this_host\<close>, every host has one.\<close>

definition has_queue :: "(bytes \<Rightarrow> bool) \<Rightarrow> frag_env \<Rightarrow> nat \<Rightarrow> frag_state \<Rightarrow> bool" where
  "has_queue P env a s \<longleftrightarrow> frag_inv P env s \<and> (\<exists>q. qm_of s a = Some q \<and> this_host s = Some (q_hf q))"

lemma frags_wf_Nil [simp]: "frags_wf []" by (simp add: frags_wf_def)

lemma ip_create_queue:
  assumes "frag_mid P env s" and "this_host s = Some h" and "hdr_ok iph" and "has_room iph" and "P (src_octets iph)"
  shows "\<exists>a s' q. ip_create env clk iph s = Some (a, s') \<and> has_queue P env a s' \<and> qm_of s' a = Some q \<and> q_len q = 0 \<and>
     q_fragments q = [] \<and> q_ihlen q = int (hlen iph) \<and> take (hlen iph) (q_iph q) = take (hlen iph) iph"
proof -
  have core: "frag_core P env s" using assms(1) by (simp add: frag_mid_def)
  obtain hf where hf: "hm_of s h = Some hf" using assms(1,2) by (auto simp: frag_mid_def)
  let ?ihl = "int (hlen iph)"
  obtain s1 where s1: "frag_charge (sizeof_ipq env) s = Some s1" "only_hosts s s1" "hm_of s1 = (hm_of s)(h \<mapsto> add_mem (sizeof_ipq env) hf)"
    using frag_charge_ok [OF assms(2) hf] by blast
  have t1: "this_host s1 = Some h" "hm_of s1 h = Some (add_mem (sizeof_ipq env) hf)"
    using only_hosts_fields [OF s1(2)] assms(2) s1(3) by simp_all
  obtain s2 where s2: "frag_charge (64 + 8) s1 = Some s2" "only_hosts s1 s2" "hm_of s2 = (hm_of s1)(h \<mapsto> add_mem (64 + 8) (add_mem (sizeof_ipq env) hf))"
    using frag_charge_ok [OF t1] by blast
  have o2: "only_hosts s s2" using s1(2) s2(2) by (rule only_hosts_trans)
  obtain hdr where hdr: "header_copy iph ?ihl = Some hdr" "length hdr = hlen iph + 8" "take (hlen iph) hdr = take (hlen iph) iph"
    using header_copy_ok [OF assms(4)] by blast
  obtain now s3 where j: "jiffies clk s2 = (now, s3)" by (metis prod.exhaust)
  note st = jiffies_frame [OF j]
  let ?a = "fresh_addr s"
  define q where "q = \<lparr>q_iph = hdr, q_len = 0, q_ihlen = ?ihl, q_expires = now + IP_FRAG_TIME, q_fragments = [], q_hf = h\<rparr>"
  let ?g = "add_mem (64 + 8) (add_mem (sizeof_ipq env) hf)"
  have hm3: "hm_of s3 = (hm_of s)(h \<mapsto> ?g)" and qm3: "qm_of s3 = qm_of s"
    using same_store_maps [of s2 s3] st s2(3) s1(3) only_hosts_fields [OF o2] by (simp_all add: qm_of_def)
  have f3: "fresh_addr s3 = ?a" "fragtable s3 = fragtable s" "hash_size s3 = hash_size s" "timers s3 = timers s" "this_host s3 = Some h"
    using st only_hosts_fields [OF o2] assms(2) by (simp_all add: same_store_def)
  define s' where "s' = put_queue ?a q (put_host h (?g\<lparr>ipqueue := ?a # ipqueue ?g\<rparr>) (s3\<lparr>timers := add_timer ?a (timers s3), fresh_addr := Suc ?a\<rparr>))"
  have c: "ip_create env clk iph s = Some (?a, s')"
    using s1(1) s2(1) hdr(1) hdr_reads(5) [OF assms(3)] only_hosts_fields [OF o2] assms(2) j hm3 f3(1)
    by (simp add: ip_create_def s'_def q_def Let_def hm_of_def)
  have maps: "hm_of s' = (hm_of s)(h \<mapsto> ?g\<lparr>ipqueue := ?a # ipqueue ?g\<rparr>)" "qm_of s' = (qm_of s)(?a \<mapsto> q)"
    using hm3 qm3 by (simp_all add: s'_def hm_of_def qm_of_def put_queue_def put_host_def update_conv')
  have fl: "fragtable s' = fragtable s" "hash_size s' = hash_size s" "fresh_addr s' = Suc ?a" "timers s' = add_timer ?a (timers s)" "this_host s' = Some h"
    using f3 by (simp_all add: s'_def put_queue_def put_host_def)
  have qc: "?g\<lparr>ipqueue := ?a # ipqueue ?g\<rparr> = (add_mem (queue_cost env q) hf)\<lparr>ipqueue := ?a # ipqueue hf\<rparr>"
    by (simp add: q_def queue_cost_def frags_cost_def)
  have "frag_core P env s'"
    by (rule new_queue_core [OF core hf _ _ _ maps(1) [unfolded qc] maps(2) fl(1-4) refl])
      (use hdr(2) assms(3,5) hlen_take [OF hdr(3) assms(3)] in \<open>auto simp: q_def ipq_wf_def hdr_ok_def\<close>)
  moreover have "ipqueue g \<noteq> []" if "hm_of s' h' = Some g" for h' g
    using that assms(1,2) maps(1) by (auto simp: frag_mid_def split: if_splits)
  ultimately have "frag_inv P env s'" by (auto simp: frag_inv_def ran_def)
  then have "has_queue P env ?a s'" using maps(2) fl(5) by (simp add: has_queue_def q_def)
  then show ?thesis using c maps(2) hdr(3) by (intro exI [of _ ?a] exI [of _ s'] exI [of _ q]) (simp add: q_def)
qed

lemma ip_create_ok:
  "frag_mid P env s \<Longrightarrow> this_host s = Some h \<Longrightarrow> hdr_ok iph \<Longrightarrow> has_room iph \<Longrightarrow> P (src_octets iph) \<Longrightarrow>
   \<exists>a s'. ip_create env clk iph s = Some (a, s') \<and> has_queue P env a s'"
  using ip_create_queue by blast


lemma tim_ok_restart: "tim_ok t qm \<Longrightarrow> a \<in> dom qm \<Longrightarrow> tim_ok (add_timer a (del_timer a t)) qm"
proof -
  assume "tim_ok t qm" and a: "a \<in> dom qm"
  then obtain xs where xs: "timer_rep t xs" "set xs = dom qm" by (auto simp: tim_ok_def)
  have ax: "a \<in> set xs" using a xs(2) by simp
  have "timer_rep (add_timer a (del_timer a (del_timer a t))) (remove1 a xs @ [a])" by (rule dll.restart [OF xs(1) ax])
  moreover have "set (remove1 a xs @ [a]) = dom qm" using dll.del_set [OF xs(1) ax] xs(2) a by auto
  ultimately show ?thesis unfolding tim_ok_def using dll.del_del [OF xs(1) ax] by metis
qed

lemma restart_queue_ok:
  assumes "frag_mid P env s" and "this_host s = Some h" and "hm_of s h = Some hf" and "a \<in> set (ipqueue hf)"
    and "hdr_ok iph" and "has_room iph" and "P (src_octets iph)"
  shows "\<exists>s'. restart_queue clk iph off (int (hlen iph)) a s = Some s' \<and> has_queue P env a s'"
proof -
  have core: "frag_core P env s" using assms(1) by (simp add: frag_mid_def)
  obtain q where q: "qm_of s a = Some q" "q_hf q = h" "ipq_wf P q" using mid_queue [OF assms(1,3,4)] by blast
  obtain hdr where hdr: "header_copy iph (int (hlen iph)) = Some hdr" "length hdr = hlen iph + 8" "take (hlen iph) hdr = take (hlen iph) iph"
    using header_copy_ok [OF assms(6)] by blast
  note hh = hlen_take [OF hdr(3) assms(5)]
  define q1 where "q1 = (if off = 0 then q\<lparr>q_ihlen := int (hlen iph), q_iph := hdr @ drop (length hdr) (q_iph q)\<rparr> else q)"
  obtain now s1 where j: "jiffies clk (s\<lparr>timers := del_timer a (timers s)\<rparr>) = (now, s1)" by (metis prod.exhaust)
  note st = jiffies_frame [OF j]
  define q2 where "q2 = q1\<lparr>q_expires := now + IP_FRAG_TIME\<rparr>"
  define s' where "s' = put_queue a q2 (s1\<lparr>timers := add_timer a (timers s1)\<rparr>)"
  have r: "restart_queue clk iph off (int (hlen iph)) a s = Some s'"
    using q(1) hdr(1) j by (simp add: restart_queue_def qm_of_def q1_def q2_def s'_def Let_def)
  have maps: "hm_of s' = hm_of s" "qm_of s' = (qm_of s)(a \<mapsto> q2)" and fl: "fragtable s' = fragtable s" "hash_size s' = hash_size s"
      "fresh_addr s' = fresh_addr s" "timers s' = add_timer a (del_timer a (timers s))" "this_host s' = Some h"
    using st assms(2) by (simp_all add: s'_def put_queue_def same_store_def hm_of_def qm_of_def update_conv')
  have wf: "ipq_wf P q2" using q(3) hdr(2) assms(5,7) hh by (auto simp: q2_def q1_def ipq_wf_def hdr_ok_def)
  have same: "q_hf q2 = q_hf q" "queue_cost env q2 = queue_cost env q" by (simp_all add: q2_def q1_def queue_cost_def)
  have hm': "hm_of s' = (hm_of s)(q_hf q \<mapsto> add_mem (queue_cost env q2 - queue_cost env q) hf)"
    using maps(1) assms(3) q(2) same(2) by (simp add: map_upd_triv)
  have tim: "tim_ok (timers s') (qm_of s)" unfolding fl(4) using q(1) frag_coreD(6) [OF core] by (intro tim_ok_restart) auto
  have hq: "hm_of s (q_hf q) = Some hf" using assms(3) q(2) by simp
  have "frag_core P env s'" by (rule put_queue_core [OF core q(1) hq same(1) wf hm' maps(2) fl(1-3) tim])
  moreover have "ipqueue g \<noteq> []" if "hm_of s' h' = Some g" for h' g
    using that maps(1) assms(1-4) by (auto simp: frag_mid_def)
  ultimately have "frag_inv P env s'" by (auto simp: frag_inv_def ran_def)
  then have "has_queue P env a s'" using maps(2) fl(5) same(1) q(2) by (simp add: has_queue_def)
  then show ?thesis using r by blast
qed

section \<open>Fragment lists of any fragments\<close>

lemma frags_wf_simps:
  "frags_wf (f # fs) \<longleftrightarrow> frag_wf f \<and> (\<forall>g \<in> set fs. frag_offset f \<le> frag_offset g \<and> frag_end f \<le> frag_offset g) \<and> frags_wf fs"
  "frags_wf (fs @ gs) \<longleftrightarrow> frags_wf fs \<and> frags_wf gs \<and> (\<forall>f \<in> set fs. \<forall>g \<in> set gs. frag_offset f \<le> frag_offset g \<and> frag_end f \<le> frag_offset g)"
  by (auto simp: frags_wf_def sorted_wrt_append)

lemma frags_cost_simps [simp]: "frags_cost env [] = 0" "frags_cost env (f # fs) = frag_cost env f + frags_cost env fs"
  "frags_cost env (fs @ gs) = frags_cost env fs + frags_cost env gs"
  by (simp_all add: frags_cost_def)

lemma next_overlaps_wf:
  assumes "frags_wf post" and "next_overlaps e [] post = (nxt, freed, n)"
  shows "frags_wf nxt \<and> (\<forall>g \<in> set nxt. e \<le> frag_offset g \<and> (\<exists>g0 \<in> set post. frag_offset g0 \<le> frag_offset g)) \<and>
     frags_cost env nxt + frags_cost env freed = frags_cost env post"
  using assms
proof (induction post arbitrary: nxt freed n)
  case (Cons f fs)
  have f: "frag_wf f" "\<forall>g \<in> set fs. frag_offset f \<le> frag_offset g \<and> frag_end f \<le> frag_offset g" "frags_wf fs"
    using Cons.prems(1) by (simp_all add: frags_wf_simps)
  let ?i = "e - frag_offset f"
  let ?f = "f\<lparr>frag_len := frag_len f - ?i, frag_offset := frag_offset f + ?i, frag_ptr := frag_ptr f + ?i\<rparr>"
  have c: "frag_cost env ?f = frag_cost env f" by (simp add: frag_cost_def)
  consider (brk) "e \<le> frag_offset f" | (rm) "frag_offset f < e" "frag_len f \<le> ?i" | (cut) "frag_offset f < e" "frag_len f > ?i" by linarith
  then show ?case
  proof cases
    case brk
    then have "nxt = f # fs" "freed = []" using Cons.prems(2) by simp_all
    moreover have "\<forall>g \<in> set (f # fs). e \<le> frag_offset g" using brk f(2) by fastforce
    ultimately show ?thesis using Cons.prems(1) by auto
  next
    case rm
    obtain nx fr m where no: "next_overlaps e [] fs = (nx, fr, m)" by (metis prod_cases3)
    then have "nxt = nx" "freed = ?f # fr" using Cons.prems(2) rm by (auto simp: Let_def)
    then show ?thesis using Cons.IH [OF f(3) no] c by (fastforce simp: frag_cost_def)
  next
    case cut
    have g: "\<forall>g \<in> set fs. e \<le> frag_offset g" using cut f(1,2) by (fastforce simp: frag_wf_def)
    have nx: "nxt = ?f # fs" "freed = []"
      using Cons.prems(2) cut next_overlaps_break [OF g, of "[?f]"] by (auto simp: Let_def)
    have "frag_wf ?f" using f(1) cut by (auto simp: frag_wf_def)
    then have "frags_wf nxt" using f g nx(1) by (simp add: frags_wf_simps)
    moreover have "\<forall>g \<in> set nxt. e \<le> frag_offset g \<and> (\<exists>g0 \<in> set (f # fs). frag_offset g0 \<le> frag_offset g)"
      using g nx(1) cut by auto
    ultimately show ?thesis using nx c by (simp add: frag_cost_def)
  qed
qed simp

lemma insert_fragment_wf:
  assumes "frags_wf frs" and "0 \<le> off" and "0 \<le> ptr" and "ptr + (e - off) \<le> int (length (skb_data skb))"
    and "insert_fragment off e skb ptr frs = (frs', freed, n)"
  shows "frags_wf frs'" and "frags_cost env frs' + frags_cost env freed = frags_cost env frs + truesize skb + sizeof_ipfrag env"
proof -
  let ?P = "\<lambda>f. frag_offset f < off"
  define pre post where "pre = takeWhile ?P frs" and "post = dropWhile ?P frs"
  have split: "frs = pre @ post" by (simp add: pre_def post_def)
  then have c: "frags_wf pre" "frags_wf post" "\<forall>f \<in> set pre. \<forall>g \<in> set post. frag_offset f \<le> frag_offset g \<and> frag_end f \<le> frag_offset g"
    using assms(1) by (auto simp: frags_wf_simps)
  obtain nxt fr m where no: "next_overlaps e [] post = (nxt, fr, m)" by (metis prod_cases3)
  note nx = next_overlaps_wf [OF c(2) no, of env]
  define i where "i = (if pre \<noteq> [] \<and> off < frag_end (last pre) then frag_end (last pre) - off else 0)"
  define new where "new = ip_frag_create (off + i) e skb (ptr + i)"
  have frs': "frs' = pre @ new # nxt" "freed = fr"
    using assms(5) no by (auto simp: insert_fragment_def find_place_def pre_def [symmetric] post_def [symmetric]
        i_def new_def Let_def split: if_splits)
  have i: "0 \<le> i" by (simp add: i_def)
  have lt: "frag_offset f < off" if "f \<in> set pre" for f using that unfolding pre_def by (rule set_takeWhileD [THEN conjunct2])
  have pe: "frag_end f \<le> off + i" if f: "f \<in> set pre" for f
  proof (cases "f = last pre")
    case True
    then show ?thesis using f by (cases "off < frag_end (last pre)") (auto simp: i_def)
  next
    case False
    have b: "pre = butlast pre @ [last pre]" using f by (metis append_butlast_last_id empty_iff list.set(1))
    then have "f \<in> set (butlast pre)" using f False by (metis Un_iff empty_iff list.set(1) list.set(2) insert_iff set_append)
    then have "frag_end f \<le> frag_offset (last pre)" using c(1) b frags_wf_simps(2) [of "butlast pre" "[last pre]"] by simp
    moreover have "last pre \<in> set pre" using f by (metis empty_iff last_in_set list.set(1))
    ultimately show ?thesis using lt [of "last pre"] i by linarith
  qed
  have po: "off + i \<le> frag_offset g" if g: "g \<in> set post" for g
  proof -
    have "off \<le> frag_offset g"
    proof -
      have "post \<noteq> []" using g by auto
      then have "\<not> frag_offset (hd post) < off" unfolding post_def by (rule hd_dropWhile)
      then show ?thesis using g c(2) by (cases post) (auto simp: frags_wf_simps)
    qed
    then show ?thesis using c(3) g by (cases "pre = []") (auto simp: i_def)
  qed
  have nw: "frag_wf new" using assms(2-4) i by (simp add: new_def ip_frag_create_def frag_wf_def)
  have ng: "off + i \<le> frag_offset g \<and> e \<le> frag_offset g" if "g \<in> set nxt" for g
    using nx that po by fastforce
  have "\<forall>f \<in> set pre. \<forall>g \<in> set nxt. frag_offset f \<le> frag_offset g \<and> frag_end f \<le> frag_offset g"
    using lt pe ng i by fastforce
  then show "frags_wf frs'"
    using c(1) nx nw ng lt pe i by (fastforce simp: frs' frags_wf_simps new_def ip_frag_create_def)
  show "frags_cost env frs' + frags_cost env freed = frags_cost env frs + truesize skb + sizeof_ipfrag env"
    using nx by (simp add: frs' split new_def ip_frag_create_def frag_cost_def)
qed


section \<open>Gluing and queueing\<close>

lemma copy_block_length:
  assumes "0 \<le> i" and "0 \<le> j" and "0 \<le> n" and "i + n \<le> int (length src)" and "j + n \<le> int (length dst)"
  shows "\<exists>b. copy_block dst j src i n = Some b \<and> length b = length dst"
  using copy_block_slice [OF assms] assms by (auto simp: slice_def)

text \<open>What the table hands on.\<close>

definition handed :: "(bytes \<Rightarrow> bool) \<Rightarrow> bytes \<Rightarrow> bool" where
  "handed P d \<longleftrightarrow> packet_ok d \<and> P (src_octets d)"

text \<open>The loop keeps the header, and counts at most the octets behind it.\<close>

definition glue_fine :: "int \<Rightarrow> int \<Rightarrow> bytes \<Rightarrow> int \<Rightarrow> glue_result \<Rightarrow> bool" where
  "glue_fine ihlen len buf cnt r \<longleftrightarrow>
     (\<forall>b n. r = Glue_ok b n \<longrightarrow> length b = nat len \<and> take 20 b = take 20 buf \<and> cnt \<le> n \<and> n + ihlen \<le> len)"

lemma glue_loop_safe:
  assumes "frags_wf frs" and "\<forall>f \<in> set frs. cnt \<le> frag_offset f" and "length buf = nat len" and "20 \<le> ihlen" and "0 \<le> cnt" "cnt + ihlen \<le> len"
  shows "\<exists>r. glue_loop ihlen len frs buf cnt = Some r \<and> glue_fine ihlen len buf cnt r"
  using assms
proof (induction frs arbitrary: buf cnt)
  case (Cons f fs)
  show ?case
  proof (cases "frag_len f < 0 \<or> frag_offset f + ihlen + frag_len f > len")
    case False
    have w: "frag_wf f" "\<forall>g \<in> set fs. frag_end f \<le> frag_offset g" "frags_wf fs" using Cons.prems(1) by (simp_all add: frags_wf_simps)
    have c: "cnt \<le> frag_offset f" "frag_end f = frag_offset f + frag_len f" using Cons.prems(2) w(1) by (simp_all add: frag_wf_def)
    define b where "b = take (nat (ihlen + frag_offset f)) buf @ slice (frag_ptr f) (frag_len f) (skb_data (frag_skb f)) @
      drop (nat (ihlen + frag_offset f + frag_len f)) buf"
    have b: "copy_block buf (ihlen + frag_offset f) (skb_data (frag_skb f)) (frag_ptr f) (frag_len f) = Some b"
      unfolding b_def by (rule copy_block_slice) (use w(1) False Cons.prems(3-6) in \<open>auto simp: frag_wf_def\<close>)
    obtain b' where "copy_block buf (ihlen + frag_offset f) (skb_data (frag_skb f)) (frag_ptr f) (frag_len f) = Some b'" "length b' = length buf"
      using copy_block_length [of "frag_ptr f" "ihlen + frag_offset f" "frag_len f" "skb_data (frag_skb f)" buf] w(1) False Cons.prems(3-6)
      by (auto simp: frag_wf_def)
    then have lb: "length b = length buf" using b by simp
    have "20 \<le> nat (ihlen + frag_offset f)" "20 \<le> length buf" using Cons.prems(3-6) c(1) by linarith+
    then have b0: "take 20 b = take 20 buf" by (simp add: b_def min_def)
    have "\<forall>g \<in> set fs. cnt + frag_len f \<le> frag_offset g" using w(2) c by fastforce
    then obtain r where "glue_loop ihlen len fs b (cnt + frag_len f) = Some r" "glue_fine ihlen len b (cnt + frag_len f) r"
      using Cons.IH [OF w(3), of "cnt + frag_len f" b] Cons.prems(3-6) lb False c by auto
    then show ?thesis using False b b0 by (auto simp: glue_fine_def)
  qed (simp add: glue_fine_def)
qed (simp add: glue_fine_def)

lemma fix_header_packet:
  assumes "20 \<le> hlen b" and "0 \<le> n" and "int (hlen b) + n \<le> int (length b)" and "length b \<le> 65535"
  shows "\<exists>d. fix_header b n = Some d \<and> length d = length b \<and> packet_ok d \<and> src_octets d = src_octets b"
proof -
  have l: "20 \<le> length b" using assms by linarith
  define b1 where "b1 = take 6 b @ [0, 0] @ drop 8 b"
  have b1: "wr b 6 [0, 0] = Some b1" "length b1 = length b" using l by (simp_all add: wr_def b1_def)
  have z: "b1 ! 0 = b ! 0" using l by (simp add: b1_def nth_append)
  have "rd8 b1 0 = Some (b1 ! 0)" using l b1(2) by (intro rd8_in) linarith
  then have rd: "rd8 b1 0 = Some (b ! 0)" by (simp only: z)
  define w where "w = (word_of_int (int (hlen b) + n) :: u16)"
  have "w = of_nat (nat (int (hlen b) + n))" using assms(2) by (simp add: w_def)
  moreover have "nat (int (hlen b) + n) < 65536" using assms by linarith
  ultimately have uw: "unat w = nat (int (hlen b) + n)" by (simp add: unat_of_nat take_bit_nat_eq_self)
  define d where "d = take 2 b1 @ [ucast (drop_bit 8 w), ucast w] @ drop 4 b1"
  have ww: "word_of_int (int (unat (b ! 0 AND 0x0f)) * 4 + n) = w" by (simp add: w_def hlen_def mult.commute)
  have d: "fix_header b n = Some d" "length d = length b"
    using b1(2) l unfolding fix_header_def b1(1) bind.bind_lunit rd Let_def ww by (simp_all add: wr_def d_def)
  have nd: "d ! 0 = b ! 0" "d ! 2 = ucast (drop_bit 8 w)" "d ! 3 = ucast w" using l b1(2) z by (simp_all add: d_def nth_append)
  have "unat (be16 (d ! 2) (d ! 3)) = nat (int (hlen b) + n)" unfolding nd be16_split by (rule uw)
  moreover have "hlen d = hlen b" by (simp add: hlen_def nd(1))
  ultimately have "packet_ok d" using assms d(2) by (auto simp: packet_ok_def)
  moreover have "src_octets d = src_octets b" using l by (auto simp: src_octets_def d_def b1_def)
  ultimately show ?thesis using d by blast
qed

text \<open>What it makes of a header and a payload, octet by octet: the length is the sum, flags and offset are gone.\<close>

lemma fix_header_octets:
  assumes "20 \<le> length H" and "hlen H = length H" and "unat (n :: u16) = length H + length D"
  shows "fix_header (H @ D) (int (length D)) =
     Some (take 2 H @ [ucast (drop_bit 8 n), ucast n] @ take 2 (drop 4 H) @ [0, 0] @ drop 8 H @ D)"
proof -
  define b1 where "b1 = take 6 H @ [0, 0] @ drop 8 H @ D"
  have b1: "wr (H @ D) 6 [0, 0] = Some b1" "length b1 = length H + length D" using assms(1) by (simp_all add: wr_def b1_def)
  have z: "b1 ! 0 = H ! 0" using assms(1) by (simp add: b1_def nth_append)
  have "rd8 b1 0 = Some (b1 ! 0)" using assms(1) b1(2) by (intro rd8_in) linarith
  then have rd: "rd8 b1 0 = Some (H ! 0)" by (simp only: z)
  have "n = of_nat (unat n)" by simp
  then have "n = of_nat (length H + length D)" unfolding assms(3) .
  moreover have "int (unat (H ! 0 AND 0x0f)) * 4 = int (length H)"
    unfolding assms(2) [symmetric] hlen_def by simp
  ultimately have ww: "word_of_int (int (unat (H ! 0 AND 0x0f)) * 4 + int (length D)) = n"
    by simp
  have "take 2 (drop 4 (take 6 H)) = take 2 (drop 4 H)" by (simp add: drop_take)
  then show ?thesis
    using b1(2) assms(1) unfolding fix_header_def b1(1) bind.bind_lunit rd Let_def ww by (simp add: wr_def b1_def drop_take)
qed

lemma fix_header_ok: "20 \<le> length b \<Longrightarrow> \<exists>r. fix_header b n = Some r \<and> length r = length b"
proof -
  assume l: "20 \<le> length b"
  obtain b1 where b1: "wr b 6 [0, 0] = Some b1" "length b1 = length b" using l by (simp add: wr_def)
  have "rd8 b1 0 = Some (b1 ! 0)" using l b1(2) by (intro rd8_in) linarith
  then show ?thesis using l b1 by (simp add: fix_header_def wr_def Let_def)
qed

lemma has_queue_mid:
  assumes "has_queue P env a s"
  obtains q hf where "frag_mid P env s" "qm_of s a = Some q" "this_host s = Some (q_hf q)" "hm_of s (q_hf q) = Some hf"
    "a \<in> set (ipqueue hf)" "ipq_wf P q"
proof -
  obtain q where q: "qm_of s a = Some q" "this_host s = Some (q_hf q)" and inv: "frag_inv P env s"
    using assms by (auto simp: has_queue_def)
  have core: "frag_core P env s" using inv by (simp add: frag_inv_def)
  obtain hf where hf: "hm_of s (q_hf q) = Some hf" "a \<in> set (ipqueue hf)" using core_owner [OF core q(1)] by blast
  have "frag_mid P env s" by (rule inv_mid [OF inv]) (use q(2) hf(1) in auto)
  moreover have "ipq_wf P q" using frag_coreD(7) [OF core] q(1) by (auto simp: ran_def)
  ultimately show ?thesis using that q hf by blast
qed

lemma ip_free_has_queue:
  assumes "has_queue P env a s" and "same_store s s'" and "this_host s' = this_host s"
  shows "\<exists>t. ip_free env a s' = Some t \<and> frag_inv P env t"
proof -
  obtain q hf where f: "frag_mid P env s" "qm_of s a = Some q" "this_host s = Some (q_hf q)" "hm_of s (q_hf q) = Some hf" "a \<in> set (ipqueue hf)"
    using has_queue_mid [OF assms(1)] by blast
  have "frag_mid P env s'" using same_store_mid [OF assms(2,3)] f(1) by simp
  moreover have "hm_of s' (q_hf q) = Some hf" using same_store_maps [OF assms(2)] f(4) by simp
  ultimately show ?thesis using ip_free_ok [of P env s' "q_hf q" hf a] assms(3) f(3,5) by auto
qed

lemma ip_glue_ok:
  assumes "has_queue P env a s"
  shows "\<exists>r s'. ip_glue env a s = Some (r, s') \<and> frag_inv P env s' \<and> pred_option (handed P) r"
proof -
  obtain q where q: "qm_of s a = Some q" "ipq_wf P q" using has_queue_mid [OF assms] by blast
  let ?len = "q_ihlen q + q_len q"
  have w: "20 \<le> q_ihlen q" "q_ihlen q \<le> int (length (q_iph q))" "0 \<le> q_len q" "frags_wf (q_fragments q)" "int (hlen (q_iph q)) = q_ihlen q" "P (src_octets (q_iph q))"
    using q(2) by (simp_all add: ipq_wf_def)
  have o: "\<forall>f \<in> set (q_fragments q). 0 \<le> frag_offset f" using w(4) by (auto simp: frags_wf_def frag_wf_def)
  note fr = ip_free_has_queue [OF assms]
  have m: "map_of (queues s) a = Some q" using q(1) by (simp add: qm_of_def)
  show ?thesis
  proof (cases "?len > 65535")
    case True
    then show ?thesis using m fr [of "warn NIDS_WARN_IP_OVERSIZED s"] by (auto simp: ip_glue_def Let_def)
  next
    case False
    let ?b = "slice 0 (q_ihlen q) (q_iph q) @ drop (nat (q_ihlen q)) (replicate (nat ?len) (heap_fill env))"
    have b: "copy_block (replicate (nat ?len) (heap_fill env)) 0 (q_iph q) 0 (q_ihlen q) = Some ?b"
      using w by (subst copy_block_slice) auto
    have lb: "length ?b = nat ?len" "take 20 ?b = take 20 (q_iph q)" using w by (auto simp: slice_def min_def)
    obtain r where r: "glue_loop (q_ihlen q) ?len (q_fragments q) ?b 0 = Some r" "glue_fine (q_ihlen q) ?len ?b 0 r"
      using glue_loop_safe [OF w(4) o lb(1), of "q_ihlen q"] w(1,3) by auto
    show ?thesis
    proof (cases r)
      case Glue_invlist
      then show ?thesis using False m b r(1) w fr [of "warn NIDS_WARN_IP_INVLIST s"] by (auto simp: ip_glue_def Let_def)
    next
      case (Glue_ok c n)
      then have c: "length c = nat ?len" "take 20 c = take 20 (q_iph q)" "0 \<le> n" "n + q_ihlen q \<le> ?len" using r(2) lb(2) by (simp_all add: glue_fine_def)
      have "c ! 0 = q_iph q ! 0" using arg_cong [OF c(2), of "\<lambda>x. x ! 0"] by simp
      moreover have "src_octets c = src_octets (q_iph q)"
        unfolding src_octets_def using arg_cong [OF c(2), of "\<lambda>x. take 4 (drop 12 x)"] by (simp add: drop_take)
      ultimately have hc: "hlen c = hlen (q_iph q)" "P (src_octets c)" using w(6) by (simp_all add: hlen_def)
      then obtain d where "fix_header c n = Some d" "handed P d"
        using fix_header_packet [of c n] w(1,5) c False unfolding handed_def by (simp add: nat_le_iff) metis
      then show ?thesis using False m b r(1) w Glue_ok fr [of s] by (auto simp: ip_glue_def Let_def same_store_def)
    qed
  qed
qed

text \<open>The accounting of one queued fragment: what was freed is credited, the new one charged.\<close>

lemma recharge_ok:
  assumes "this_host s = Some h" and "hm_of s h = Some hf"
  shows "\<exists>s3. do { s1 \<leftarrow> free_fragments env freed (warns n NIDS_WARN_IP_OVERLAP s); s2 \<leftarrow> frag_charge (sizeof_ipfrag env) s1; frag_charge m s2 } = Some s3 \<and>
     only_hosts (warns n NIDS_WARN_IP_OVERLAP s) s3 \<and> hm_of s3 = (hm_of s)(h \<mapsto> add_mem (- frags_cost env freed + sizeof_ipfrag env + m) hf)"
proof -
  let ?s0 = "warns n NIDS_WARN_IP_OVERLAP s"
  have t0: "this_host ?s0 = Some h" "hm_of ?s0 h = Some hf" "hm_of ?s0 = hm_of s"
    using assms same_store_maps [OF warn_frame(3)] by simp_all
  obtain s1 where s1: "free_fragments env freed ?s0 = Some s1" "only_hosts ?s0 s1" "hm_of s1 = (hm_of ?s0)(h \<mapsto> add_mem (- frags_cost env freed) hf)"
    using free_fragments_ok [OF t0(1,2)] by blast
  have t1: "this_host s1 = Some h" "hm_of s1 h = Some (add_mem (- frags_cost env freed) hf)"
    using only_hosts_fields [OF s1(2)] t0 s1(3) by simp_all
  obtain s2 where s2: "frag_charge (sizeof_ipfrag env) s1 = Some s2" "only_hosts s1 s2"
      "hm_of s2 = (hm_of s1)(h \<mapsto> add_mem (sizeof_ipfrag env) (add_mem (- frags_cost env freed) hf))"
    using frag_charge_ok [OF t1] by blast
  have t2: "this_host s2 = Some h" "hm_of s2 h = Some (add_mem (sizeof_ipfrag env) (add_mem (- frags_cost env freed) hf))"
    using only_hosts_fields [OF s2(2)] t1 s2(3) by simp_all
  obtain s3 where s3: "frag_charge m s2 = Some s3" "only_hosts s2 s3"
      "hm_of s3 = (hm_of s2)(h \<mapsto> add_mem m (add_mem (sizeof_ipfrag env) (add_mem (- frags_cost env freed) hf)))"
    using frag_charge_ok [OF t2] by blast
  have "only_hosts ?s0 s3" using s1(2) s2(2) s3(2) only_hosts_trans by blast
  moreover have "hm_of s3 = (hm_of s)(h \<mapsto> add_mem (- frags_cost env freed + sizeof_ipfrag env + m) hf)"
    unfolding s3(3) s2(3) s1(3) t0(3) by simp
  ultimately show ?thesis using s1(1) s2(1) s3(1) by auto
qed

text \<open>Queueing one fragment up to the test of \<open>ip_done\<close>.\<close>

lemma defrag_queue_step:
  assumes "has_queue P env a s" and "qm_of s a = Some q" and "0 \<le> off" and "hdr_ok (skb_data skb)"
    and "rd_be16 (skb_data skb) 2 = Some tot" and "unat tot = length (skb_data skb)" and "int (length (skb_data skb)) + off \<le> 65535"
    and qf: "queue_fragment \<lparr>arr_more = mf, arr_offset = off, arr_end = off + int (length (skb_data skb)) - int (hlen (skb_data skb)),
        arr_skb = skb, arr_ptr = int (hlen (skb_data skb))\<rparr> (q_len q, q_fragments q) = ((ql, frs), freed, n)"
  shows "\<exists>s'. has_queue P env a s' \<and> qm_of s' a = Some (q\<lparr>q_len := ql, q_fragments := frs\<rparr>) \<and>
     defrag_queue env (skb_data skb) skb mf off (int (hlen (skb_data skb))) a s = (if ip_done ql frs then ip_glue env a s' else Some (None, s'))"
proof -
  obtain hf where f: "frag_mid P env s" "this_host s = Some (q_hf q)" "hm_of s (q_hf q) = Some hf" "ipq_wf P q"
    using has_queue_mid [OF assms(1)] assms(2) by (metis option.sel)
  have core: "frag_core P env s" using f(1) by (simp add: frag_mid_def)
  let ?d = "skb_data skb" and ?h = "q_hf q"
  let ?e = "off + int (length ?d) - int (hlen ?d)"
  have hl: "hlen ?d \<le> length ?d" using assms(4) by (simp add: hdr_ok_def)
  have ut: "uint tot = int (length ?d)" by (simp flip: assms(6))
  have ins: "insert_fragment off ?e skb (int (hlen ?d)) (q_fragments q) = (frs, freed, n)" and ql: "ql = (if mf then q_len q else ?e)"
    using qf by (auto simp: queue_fragment_def split: prod.splits)
  have wf: "frags_wf (q_fragments q)" using f(4) by (simp add: ipq_wf_def)
  have iw1: "frags_wf frs" by (rule insert_fragment_wf(1) [OF wf assms(3) _ _ ins]) (use hl in auto)
  have iw2: "frags_cost env frs + frags_cost env freed = frags_cost env (q_fragments q) + truesize skb + sizeof_ipfrag env"
    by (rule insert_fragment_wf(2) [OF wf assms(3) _ _ ins]) (use hl in auto)
  define q' where "q' = q\<lparr>q_len := ql, q_fragments := frs\<rparr>"
  obtain s3 where s3: "do { s1 \<leftarrow> free_fragments env freed (warns n NIDS_WARN_IP_OVERLAP s); s2 \<leftarrow> frag_charge (sizeof_ipfrag env) s1; frag_charge (truesize skb) s2 } = Some s3"
      "only_hosts (warns n NIDS_WARN_IP_OVERLAP s) s3" "hm_of s3 = (hm_of s)(?h \<mapsto> add_mem (- frags_cost env freed + sizeof_ipfrag env + truesize skb) hf)"
    using recharge_ok [OF f(2,3)] by blast
  define s4 where "s4 = put_queue a q' s3"
  have delta: "queue_cost env q' - queue_cost env q = - frags_cost env freed + sizeof_ipfrag env + truesize skb"
    using iw2 by (simp add: q'_def queue_cost_def)
  have hm4: "hm_of s4 = (hm_of s)(?h \<mapsto> add_mem (queue_cost env q' - queue_cost env q) hf)" unfolding delta using s3(3) by (simp add: s4_def)
  have qm4: "qm_of s4 = (qm_of s)(a \<mapsto> q')"
    using only_hosts_fields [OF s3(2)] by (simp add: s4_def qm_of_def put_queue_def update_conv' warns_def)
  have fl: "fragtable s4 = fragtable s" "hash_size s4 = hash_size s" "fresh_addr s4 = fresh_addr s" "timers s4 = timers s" "this_host s4 = Some ?h"
    using only_hosts_fields [OF s3(2)] f(2) by (simp_all add: s4_def put_queue_def warns_def)
  have wf': "ipq_wf P q'" using f(4) iw1 hl assms(3) by (simp add: ipq_wf_def q'_def ql)
  have tim: "tim_ok (timers s4) (qm_of s)" unfolding fl(4) by (rule frag_coreD(6) [OF core])
  have hq': "q_hf q' = ?h" by (simp add: q'_def)
  have "frag_core P env s4" by (rule put_queue_core [OF core assms(2) f(3) hq' wf' hm4 qm4 fl(1-3) tim])
  moreover have "ipqueue g \<noteq> []" if "hm_of s4 h' = Some g" for h' g
    using that assms(1) hm4 f(3) by (auto simp: has_queue_def frag_inv_def ran_def split: if_splits)
  ultimately have "has_queue P env a s4" using qm4 fl(5) hq' by (auto simp: frag_inv_def ran_def has_queue_def)
  moreover have "defrag_queue env ?d skb mf off (int (hlen ?d)) a s = (if ip_done ql frs then ip_glue env a s4 else Some (None, s4))"
    using assms(2,5,7) ut qf s3(1) by (auto simp: defrag_queue_def qm_of_def s4_def q'_def Let_def split: bind_splits)
  ultimately show ?thesis using qm4 by (auto simp: q'_def)
qed

lemma defrag_queue_ok:
  assumes "has_queue P env a s" and "0 \<le> off" and "hdr_ok (skb_data skb)"
    and "rd_be16 (skb_data skb) 2 = Some tot" and "unat tot = length (skb_data skb)"
  shows "\<exists>r s'. defrag_queue env (skb_data skb) skb mf off (int (hlen (skb_data skb))) a s = Some (r, s') \<and> frag_inv P env s' \<and> pred_option (handed P) r"
proof (cases "int (length (skb_data skb)) + off > 65535")
  case True
  have "frag_inv P env (warn NIDS_WARN_IP_OVERSIZED s)" using assms(1) same_store_inv [OF warn_frame(1)] by (simp add: has_queue_def)
  moreover have "uint tot = int (length (skb_data skb))" by (simp flip: assms(5))
  ultimately show ?thesis using True assms(4) by (simp add: defrag_queue_def)
next
  case False
  then have le: "int (length (skb_data skb)) + off \<le> 65535" by simp
  obtain q where q: "qm_of s a = Some q" using assms(1) by (auto simp: has_queue_def)
  obtain ql frs freed n where qf: "queue_fragment \<lparr>arr_more = mf, arr_offset = off, arr_end = off + int (length (skb_data skb)) - int (hlen (skb_data skb)),
        arr_skb = skb, arr_ptr = int (hlen (skb_data skb))\<rparr> (q_len q, q_fragments q) = ((ql, frs), freed, n)"
    by (metis prod.exhaust)
  obtain s' where "has_queue P env a s'"
      "defrag_queue env (skb_data skb) skb mf off (int (hlen (skb_data skb))) a s = (if ip_done ql frs then ip_glue env a s' else Some (None, s'))"
    using defrag_queue_step [OF assms(1) q assms(2-5) le qf] by blast
  then show ?thesis using ip_glue_ok [of P env a s'] by (cases "ip_done ql frs") (auto simp: has_queue_def)
qed

section \<open>The whole handler\<close>

lemma mid_none_inv: "frag_mid P env s \<Longrightarrow> this_host s = None \<Longrightarrow> frag_inv P env s"
  by (auto simp: frag_mid_def frag_inv_def ran_def)

lemma defrag_host_ok:
  assumes "frag_inv P env s" and "hdr_ok iph"
  shows "\<exists>s'. defrag_host env iph b s = Some s' \<and> frag_mid P env s' \<and> (b = False \<longrightarrow> frag_inv P env s')"
proof -
  obtain found s1 where f: "hostfrag_find iph s = Some (found, s1)" "frag_inv P env s1" "frag_mid P env s1" "found \<longleftrightarrow> this_host s1 \<noteq> None"
    using hostfrag_find_ok [OF assms(2,1)] by blast
  show ?thesis
  proof (cases "\<not> found \<and> b")
    case True
    obtain s2 h hf where c: "hostfrag_create iph s1 = Some s2" "frag_mid P env s2" "this_host s2 = Some h" "hm_of s2 h = Some hf" "ip_frag_mem hf = 0"
      using hostfrag_create_ok [OF assms(2) f(2)] by blast
    then show ?thesis using True f(1) by (simp add: defrag_host_def hm_of_def)
  next
    case False
    show ?thesis
    proof (cases "this_host s1")
      case None
      then show ?thesis using False f by (auto simp: defrag_host_def)
    next
      case (Some h)
      then obtain hf where hf: "hm_of s1 h = Some hf" using f(3) by (auto simp: frag_mid_def)
      have ne: "ipqueue hf' \<noteq> []" if "hm_of s1 h' = Some hf'" for h' hf' using f(2) that by (auto simp: frag_inv_def ran_def)
      obtain s2 where "ip_evictor env s1 = Some s2" "frag_mid P env s2" "frag_inv P env s2"
        using ip_evictor_ok [OF f(3)] ne f(2) by blast
      then show ?thesis using False Some hf f by (auto simp: defrag_host_def hm_of_def)
    qed
  qed
qed

text \<open>The queue found for a packet, and the state in which it was found.\<close>

lemma defrag_find_ok:
  assumes "frag_mid P env s" and "hdr_ok iph"
  shows "\<exists>qp s'. (case this_host s of None \<Rightarrow> Some (None, s) | Some _ \<Rightarrow> ip_find iph s) = Some (qp, s') \<and>
     (case qp of None \<Rightarrow> s' = s
      | Some a \<Rightarrow> s' = s\<lparr>timers := del_timer a (timers s)\<rparr> \<and>
          (\<exists>h hf. this_host s = Some h \<and> hm_of s h = Some hf \<and> a \<in> set (ipqueue hf)))"
proof (cases "this_host s")
  case (Some h)
  then obtain hf where hf: "hm_of s h = Some hf" using assms(1) by (auto simp: frag_mid_def)
  obtain r where "ip_find iph s = Some (r, case r of None \<Rightarrow> s | Some a \<Rightarrow> s\<lparr>timers := del_timer a (timers s)\<rparr>)"
      "\<forall>a. r = Some a \<longrightarrow> a \<in> set (ipqueue hf)"
    using ip_find_ok [OF assms Some hf] by blast
  then show ?thesis using Some hf by (cases r) auto
qed simp

lemma defrag_fragment_ok:
  assumes "frag_mid P env s" and "hdr_ok (skb_data skb)" and "has_room (skb_data skb)" and "0 \<le> off" and src: "P (src_octets (skb_data skb))"
    and "rd_be16 (skb_data skb) 2 = Some tot" and "unat tot = length (skb_data skb)"
    and "case qp of None \<Rightarrow> s' = s
      | Some a \<Rightarrow> s' = s\<lparr>timers := del_timer a (timers s)\<rparr> \<and>
          (\<exists>h hf. this_host s = Some h \<and> hm_of s h = Some hf \<and> a \<in> set (ipqueue hf))"
  shows "\<exists>r t. defrag_fragment env clk (skb_data skb) skb mf off qp s' = Some (r, t) \<and> frag_inv P env t \<and> pred_option (handed P) r"
proof -
  let ?d = "skb_data skb"
  have core: "frag_core P env s" using assms(1) by (simp add: frag_mid_def)
  have hl: "ip_hl4 ?d = Some (int (hlen ?d))" by (rule hdr_reads(5) [OF assms(2)])
  have "\<exists>a t. (do { s5 \<leftarrow> (case this_host s' of None \<Rightarrow> hostfrag_create ?d s' | Some _ \<Rightarrow> Some s');
        (case qp of Some a \<Rightarrow> do { t \<leftarrow> restart_queue clk ?d off (int (hlen ?d)) a s5; Some (a, t) }
         | None \<Rightarrow> ip_create env clk ?d s5) }) = Some (a, t) \<and> has_queue P env a t"
  proof (cases qp)
    case None
    then have s': "s' = s" using assms(8) by simp
    show ?thesis
    proof (cases "this_host s")
      case th: None
      obtain s5 h where "hostfrag_create ?d s = Some s5" "frag_mid P env s5" "this_host s5 = Some h"
        using hostfrag_create_ok [OF assms(2) mid_none_inv [OF assms(1) th]] by blast
      then show ?thesis using ip_create_ok [where P = P and env = env and s = s5 and h = h and iph = ?d and clk = clk] assms(2,3) src None s' th by simp
    next
      case (Some h)
      then show ?thesis using ip_create_ok [OF assms(1) Some assms(2,3) src, of clk] None s' by simp
    qed
  next
    case (Some a)
    then obtain h hf where h: "s' = s\<lparr>timers := del_timer a (timers s)\<rparr>" "this_host s = Some h" "hm_of s h = Some hf" "a \<in> set (ipqueue hf)"
      using assms(8) by auto
    obtain q where q: "qm_of s a = Some q" using mid_queue [OF assms(1) h(3,4)] by blast
    obtain t where "restart_queue clk ?d off (int (hlen ?d)) a s = Some t" "has_queue P env a t"
      using restart_queue_ok [OF assms(1) h(2-4) assms(2,3) src] by blast
    then show ?thesis
      using Some h(1,2) restart_after_find [OF del_timer_again [OF core q]] by simp
  qed
  then obtain a t where t: "(do { s5 \<leftarrow> (case this_host s' of None \<Rightarrow> hostfrag_create ?d s' | Some _ \<Rightarrow> Some s');
        (case qp of Some a \<Rightarrow> do { t \<leftarrow> restart_queue clk ?d off (int (hlen ?d)) a s5; Some (a, t) }
         | None \<Rightarrow> ip_create env clk ?d s5) }) = Some (a, t)" "has_queue P env a t" by blast
  have "defrag_fragment env clk ?d skb mf off qp s' = defrag_queue env ?d skb mf off (int (hlen ?d)) a t"
    using t(1) hl by (auto simp: defrag_fragment_def split: bind_splits)
  then show ?thesis using defrag_queue_ok [OF t(2) assms(4,2,6,7)] by simp
qed

lemma ip_defrag_ok:
  assumes "frag_inv P env s" and "hdr_ok iph" and "rd_be16 iph 6 = Some off" and src: "P (src_octets iph)"
    and "case skb of None \<Rightarrow> off AND IP_MF = 0 \<and> off AND IP_OFFSET = 0
      | Some b \<Rightarrow> skb_data b = iph \<and> \<not> (off AND IP_MF = 0 \<and> off AND IP_OFFSET = 0) \<and> (\<exists>tot. rd_be16 iph 2 = Some tot \<and> unat tot = length iph) \<and> has_room iph"
  shows "\<exists>r s'. ip_defrag env clk iph skb s = Some (r, s') \<and> frag_inv P env s' \<and> pred_option (handed P) r"
proof -
  obtain s3 where s3: "defrag_host env iph (skb \<noteq> None) s = Some s3" "frag_mid P env s3" "skb = None \<longrightarrow> frag_inv P env s3"
    using defrag_host_ok [OF assms(1,2), of "skb \<noteq> None"] by auto
  have core: "frag_core P env s3" using s3(2) by (simp add: frag_mid_def)
  obtain qp s4 where f: "(case this_host s3 of None \<Rightarrow> Some (None, s3) | Some _ \<Rightarrow> ip_find iph s3) = Some (qp, s4)"
      and qp: "case qp of None \<Rightarrow> s4 = s3
      | Some a \<Rightarrow> s4 = s3\<lparr>timers := del_timer a (timers s3)\<rparr> \<and>
          (\<exists>h hf. this_host s3 = Some h \<and> hm_of s3 h = Some hf \<and> a \<in> set (ipqueue hf))"
    using defrag_find_ok [OF s3(2) assms(2)] by blast
  show ?thesis
  proof (cases skb)
    case None
    then have z: "off AND IP_MF = 0" "off AND IP_OFFSET = 0" using assms(5) by simp_all
    have e: "ip_defrag env clk iph skb s = (case qp of None \<Rightarrow> Some (None, s4) | Some a \<Rightarrow> do { s5 \<leftarrow> ip_free env a s4; Some (None, s5) })"
      using s3(1) f assms(3) z by (simp add: ip_defrag_def)
    show ?thesis
    proof (cases qp)
      case n: None
      then show ?thesis using e qp s3(3) None by simp
    next
      case (Some a)
      then obtain h hf where h: "s4 = s3\<lparr>timers := del_timer a (timers s3)\<rparr>" "this_host s3 = Some h" "hm_of s3 h = Some hf" "a \<in> set (ipqueue hf)"
        using qp by auto
      obtain q where q: "qm_of s3 a = Some q" using mid_queue [OF s3(2) h(3,4)] by blast
      obtain t where "ip_free env a s3 = Some t" "frag_inv P env t" using ip_free_ok [OF s3(2) h(2-4)] by blast
      then show ?thesis using e Some h(1) ip_free_after_find [OF del_timer_again [OF core q]] by simp
    qed
  next
    case (Some b)
    let ?off = "int (unat (off AND IP_OFFSET))"
    have d: "skb_data b = iph" and nz: "\<not> (off AND IP_MF = 0 \<and> off AND IP_OFFSET = 0)"
      and room: "has_room iph" using assms(5) Some by simp_all
    obtain tot where tot: "rd_be16 iph 2 = Some tot" "unat tot = length iph" using assms(5) Some by auto
    have "?off = 0 \<longleftrightarrow> off AND IP_OFFSET = 0" by (simp add: unsigned_eq_0_iff)
    then have e: "ip_defrag env clk iph skb s = defrag_fragment env clk iph b (off AND IP_MF \<noteq> 0) (?off * 8) qp s4"
      using s3(1) f assms(3) nz Some by (auto simp: ip_defrag_def Let_def)
    show ?thesis unfolding e
      using defrag_fragment_ok [where P = P and env = env and s = s3 and skb = b and off = "?off * 8" and tot = tot and qp = qp and s' = s4]
        s3(2) assms(2) room src d tot qp by simp
  qed
qed


section \<open>Properties\<close>

text \<open>A packet that is not a fragment, or has eight octets of payload.\<close>

definition frag_room :: "bytes \<Rightarrow> bool" where
  "frag_room iph \<longleftrightarrow> (let off = be16 (iph ! 6) (iph ! 7) in off AND IP_MF = 0 \<and> off AND IP_OFFSET = 0) \<or>
     hlen iph + 8 \<le> unat (be16 (iph ! 2) (iph ! 3))"

lemma take_hlen: "0 < n \<Longrightarrow> hlen (take n iph) = hlen iph"
  by (simp add: hlen_def)

lemma ip_defrag_stub_inv:
  assumes "frag_inv P env s" and "packet_ok iph" and "frag_room iph" and "P (src_octets iph)"
  shows "\<exists>c r s'. ip_defrag_stub prm env clk iph s = Some (c, r, s') \<and> frag_inv P env s' \<and>
     pred_option (handed P) r \<and> (c = IPF_NEW \<longleftrightarrow> r \<noteq> None)"
proof -
  let ?tot = "be16 (iph ! 2) (iph ! 3)"
  let ?d = "take (unat ?tot) iph"
  have l: "20 \<le> length iph" "20 \<le> unat ?tot" using assms(2) by (auto simp: packet_ok_def)
  have h: "hdr_ok iph" "hdr_ok ?d" using assms(2) l take_hlen [of "unat ?tot" iph] by (auto simp: packet_ok_def hdr_ok_def)
  let ?s0 = "s\<lparr>numpack := i32 (numpack s + 1), frag_timenow := 0\<rparr>"
  have "frag_inv P env ?s0" using assms(1) same_store_inv [of s ?s0 P env] by (simp add: same_store_def)
  then obtain s1 where s1: "expire_timers env clk ?s0 = Some s1" "frag_inv P env s1" using expire_timers_ok by blast
  obtain off where off: "rd_be16 iph 6 = Some off" using hdr_reads(4) [OF h(1)] by blast
  have rd: "rd_be16 iph 2 = Some ?tot" "rd_be16 ?d 2 = Some ?tot" "rd_be16 ?d 6 = Some off"
    using l off assms(2) by (auto simp: rd_be16_in packet_ok_def)
  show ?thesis
  proof (cases "off AND IP_MF = 0 \<and> off AND IP_OFFSET = 0")
    case True
    obtain r s2 where "ip_defrag env clk iph None s1 = Some (r, s2)" "frag_inv P env s2"
      using ip_defrag_ok [OF s1(2) h(1) off assms(4), of None clk] True by auto
    then show ?thesis using s1(1) off True by (simp add: ip_defrag_stub_def)
  next
    case False
    let ?skb = "\<lparr>skb_data = ?d, truesize = skb_truesize prm (int (unat ?tot))\<rparr>"
    have ld: "unat ?tot = length ?d" using assms(2) by (simp add: packet_ok_def)
    have "off = be16 (iph ! 6) (iph ! 7)" using off l(1) by (simp add: rd_be16_in)
    then have room: "has_room ?d"
      using assms(3) False ld take_hlen [of "unat ?tot" iph] l(2) by (auto simp: frag_room_def Let_def)
    have "take 4 (drop 12 ?d) = take 4 (drop 12 iph)" using l(2) by (simp add: drop_take min_def)
    then have src: "P (src_octets ?d)" using assms(4) by (simp add: src_octets_def)
    have sk: "case Some ?skb of None \<Rightarrow> off AND IP_MF = 0 \<and> off AND IP_OFFSET = 0
      | Some b \<Rightarrow> skb_data b = ?d \<and> \<not> (off AND IP_MF = 0 \<and> off AND IP_OFFSET = 0) \<and>
          (\<exists>tot. rd_be16 ?d 2 = Some tot \<and> unat tot = length ?d) \<and> has_room ?d"
      unfolding option.case sk_buff.select_convs using False rd(2) ld room by blast
    obtain r s2 where r: "ip_defrag env clk ?d (Some ?skb) s1 = Some (r, s2)" "frag_inv P env s2" "pred_option (handed P) r"
      using ip_defrag_ok [OF s1(2) h(2) rd(3) src sk, of clk] by blast
    have "ip_defrag_stub prm env clk iph s = Some (if r \<noteq> None then IPF_NEW else IPF_ISF, r, s2)"
      using s1(1) off rd(1) r(1) False assms(2) by (auto simp: ip_defrag_stub_def packet_ok_def Let_def)
    then show ?thesis using r(2,3) by auto
  qed
qed

text \<open>The empty table is well formed.\<close>

definition frag_start :: frag_state where
  "frag_start = \<lparr>fragtable = [], hosts = [], queues = [], timers = no_timers, this_host = None, numpack = 0,
     hash_size = 0, frag_timenow = 0, frag_time0 = 0, frag_reads = 0, fresh_addr = 1, syslogs = []\<rparr>"

lemma frag_init_inv: "0 < n \<Longrightarrow> frag_inv P env (ip_frag_init clk n frag_start)"
  using no_timers_rep
  by (auto simp: frag_inv_def frag_core_def ip_frag_init_def frag_start_def hm_of_def qm_of_def tab_ok_def own_ok_def
      mem_ok_def tim_ok_def addr_ok_def)

text \<open>
  C31.  The fragment table is safe: on a table that satisfies the invariant (chains, ownership, exact
  memory accounts, one running timer per queue, fragments inside their buffers), the handler of
  a checked packet with eight octets of payload if it is a fragment (\<open>frag_room\<close>; with fewer \<open>ip_create\<close>
  copies from behind the buffer, see \<open>short_fragment_overread\<close>) ends, never touches a freed or missing host or queue, never reaches the
  \<open>panic\<close> of \<open>ip_evictor\<close>, and leaves a table that satisfies the invariant; a datagram it hands on is a
  checked packet again, from a source with whatever property \<open>P\<close> the sources of the packets have.
\<close>

theorem ip_defrag_stub_safe:
  assumes "frag_inv P env s" and "packet_ok iph" and "frag_room iph" and "P (src_octets iph)"
  shows "\<exists>c r s'. ip_defrag_stub prm env clk iph s = Some (c, r, s') \<and> frag_inv P env s' \<and>
     pred_option (handed P) r \<and> (c = IPF_NEW \<longleftrightarrow> r \<noteq> None)"
  by (rule ip_defrag_stub_inv [OF assms])

definition sample_env :: frag_env where
  "sample_env = \<lparr>sizeof_ipfrag = 28, sizeof_ipq = 52, heap_fill = 0xa5\<rparr>"

definition sample_packet :: bytes where
  "sample_packet = [0x45, 0, 0, 28, 0, 7, 0x20, 0, 64, 17, 0, 0, 10, 0, 0, 1, 10, 0, 0, 2, 1, 2, 3, 4, 5, 6, 7, 8]"

definition second_clock :: clock where "second_clock n = (1 + int n, 0)"

theorem ip_defrag_stub_safe_witness:
  "\<exists>c r s'. ip_defrag_stub nids_params0 sample_env second_clock sample_packet (ip_frag_init second_clock 16 frag_start) = Some (c, r, s') \<and>
     frag_inv any_src sample_env s' \<and> pred_option (handed any_src) r \<and> (c = IPF_NEW \<longleftrightarrow> r \<noteq> None)"
proof -
  have "packet_ok sample_packet" "frag_room sample_packet" by code_simp+
  then show ?thesis using ip_defrag_stub_safe frag_init_inv [of 16 any_src sample_env second_clock] by simp
qed

text \<open>
  The condition on fragments is needed: the first fragment of a datagram with fewer than eight octets
  of payload makes the copy of the header read behind the buffer.
\<close>

lemma ip_create_overread:
  assumes "hdr_ok iph" and "length iph < hlen iph + 8"
  shows "ip_create env clk iph s = None"
  using assms hdr_reads(5) [OF assms(1)] header_copy_overread [OF assms(2)]
  by (cases "frag_charge (sizeof_ipq env) s") (auto simp: ip_create_def split: bind_splits)

definition short_fragment :: bytes where
  "short_fragment = [0x45, 0, 0, 24, 0, 7, 0x20, 0, 64, 17, 0, 0, 10, 0, 0, 1, 10, 0, 0, 2, 1, 2, 3, 4]"

lemma short_fragment_overread:
  "packet_ok short_fragment \<and>
   ip_defrag_stub nids_params0 sample_env second_clock short_fragment (ip_frag_init second_clock 16 frag_start) = None"
proof -
  let ?s0 = "ip_frag_init second_clock 16 frag_start"
  let ?s1 = "?s0\<lparr>numpack := i32 (numpack ?s0 + 1), frag_timenow := 0\<rparr>"
  define hf where "hf = \<lparr>ipqueue = [], ip_frag_mem = 0, hf_ip = 0x0200000a, hash_index = 2\<rparr>"
  define s2 where "s2 = put_host 1 hf (?s1\<lparr>fragtable := (fragtable ?s1)[2 := [1]], fresh_addr := Suc 1, this_host := Some 1\<rparr>)"
  have t: "timer_head (timers ?s1) = None" by (simp add: ip_frag_init_def frag_start_def no_timers_def)
  have e: "expire_timers sample_env second_clock ?s1 = Some ?s1" by (subst expire_timers.simps) (simp only: t option.case)
  have dst: "rd_be32 short_fragment 16 = Some 0x0a000002" "ip_dst short_fragment = Some 0x0200000a" by code_simp+
  have fr: "fragtable ?s1 ! 2 = []" "hosts ?s1 = []" "hash_size ?s1 = 16"
    "queues ?s1 = []" "this_host ?s1 = None" "fresh_addr ?s1 = 1" "length (fragtable ?s1) = 16"
    by (simp_all add: ip_frag_init_def frag_start_def)
  have "frag_index short_fragment ?s1 = Some 2" using dst(1) fr(3) by (simp add: frag_index_def)
  note hd = this dst(2) fr
  have f: "hostfrag_find short_fragment ?s1 = Some (False, ?s1)" using hd by (simp add: hostfrag_find_def)
  have c: "hostfrag_create short_fragment ?s1 = Some s2" using hd by (simp add: hostfrag_create_def s2_def hf_def)
  have s2: "this_host s2 = Some 1" "map_of (hosts s2) 1 = Some hf" using hd by (simp_all add: s2_def put_host_def)
  have h: "defrag_host sample_env short_fragment True ?s1 = Some s2"
    using f c s2 by (simp add: defrag_host_def hf_def)
  have q: "ip_find short_fragment s2 = Some (None, s2)" using s2 by (simp add: ip_find_def hf_def)
  have r: "rd_be16 short_fragment 6 = Some 0x2000" "rd_be16 short_fragment 2 = Some 24" "length short_fragment = 24" "hdr_ok short_fragment"
    "hlen short_fragment = 20" "packet_ok short_fragment" by code_simp+
  have cr: "ip_create sample_env second_clock short_fragment s2 = None"
    using r(3-5) by (intro ip_create_overread) simp_all
  have hl: "ip_hl4 short_fragment = Some 20" using hdr_reads(5) [OF r(4)] r(5) by simp
  have tk: "take (unat (24 :: u16)) short_fragment = short_fragment" using r(3) by simp
  have "ip_defrag sample_env second_clock short_fragment (Some skb) ?s1 = None" for skb
    using h q r(1) s2 cr hl by (simp add: ip_defrag_def defrag_fragment_def)
  then show ?thesis using e r(1-3,6) tk by (simp add: ip_defrag_stub_def Let_def)
qed

text \<open>
  C33.  Eviction: when the fragments of a host cost more than the high threshold, \<open>ip_evictor\<close> ends with
  the host removed or its account at or below the low threshold, and the account is still the
  exact cost of the queues that are left.
\<close>

theorem ip_evictor_bounds:
  assumes "frag_inv P env s" and "this_host s = Some h" and "h \<in> dom (hm_of s)"
  shows "\<exists>s'. ip_evictor env s = Some s' \<and> frag_inv P env s' \<and>
     (\<forall>g gf. this_host s' = Some g \<and> hm_of s' g = Some gf \<longrightarrow>
        ip_frag_mem gf \<le> IPFRAG_LOW_THRESH \<and> ip_frag_mem gf = queues_cost env (qm_of s') (ipqueue gf))"
proof -
  have mid: "frag_mid P env s" by (rule inv_mid [OF assms(1)]) (use assms(2,3) in simp)
  have ne: "ipqueue hf \<noteq> []" if "hm_of s h' = Some hf" for h' hf using assms(1) that by (auto simp: frag_inv_def ran_def)
  obtain s' where s': "ip_evictor env s = Some s'" "frag_inv P env s'"
      "\<forall>h hf. this_host s' = Some h \<and> hm_of s' h = Some hf \<longrightarrow> ip_frag_mem hf \<le> IPFRAG_LOW_THRESH"
    using ip_evictor_ok [OF mid] ne assms(1) by blast
  moreover have "mem_ok env (hm_of s') (qm_of s')" using s'(2) by (simp add: frag_inv_def frag_core_def)
  ultimately show ?thesis by (auto simp: mem_ok_def)
qed


text \<open>A table with one host and one queue, fresh for the sample packet.\<close>

definition sample_host :: frag_state where
  "sample_host = the (hostfrag_create sample_packet (ip_frag_init second_clock 16 frag_start))"

definition sample_addr :: nat where
  "sample_addr = fst (the (ip_create sample_env second_clock sample_packet sample_host))"

definition sample_state :: frag_state where
  "sample_state = snd (the (ip_create sample_env second_clock sample_packet sample_host))"

lemma sample_has_queue:
  "has_queue any_src sample_env sample_addr sample_state \<and> (\<exists>q. qm_of sample_state sample_addr = Some q \<and> q_len q = 0 \<and> q_fragments q = [] \<and>
     q_ihlen q = int (hlen sample_packet) \<and> take (hlen sample_packet) (q_iph q) = take (hlen sample_packet) sample_packet)"
proof -
  have h: "hdr_ok sample_packet" and e: "has_room sample_packet" by code_simp+
  have i: "frag_inv any_src sample_env (ip_frag_init second_clock 16 frag_start)" by (rule frag_init_inv) simp
  obtain s1 h1 where s1: "hostfrag_create sample_packet (ip_frag_init second_clock 16 frag_start) = Some s1"
      "frag_mid any_src sample_env s1" "this_host s1 = Some h1"
    using hostfrag_create_ok [OF h i] by blast
  have "sample_host = s1" using s1(1) by (simp add: sample_host_def)
  then show ?thesis
    using ip_create_queue [OF s1(2,3) h e, of second_clock] by (auto simp: sample_state_def sample_addr_def)
qed

theorem ip_evictor_bounds_witness:
  "\<exists>s'. ip_evictor sample_env sample_state = Some s' \<and> frag_inv any_src sample_env s' \<and>
     (\<forall>g gf. this_host s' = Some g \<and> hm_of s' g = Some gf \<longrightarrow>
        ip_frag_mem gf \<le> IPFRAG_LOW_THRESH \<and> ip_frag_mem gf = queues_cost sample_env (qm_of s') (ipqueue gf))"
proof -
  have hq: "has_queue any_src sample_env sample_addr sample_state" using sample_has_queue by simp
  obtain q hf where "frag_mid any_src sample_env sample_state" "qm_of sample_state sample_addr = Some q"
      and q: "this_host sample_state = Some (q_hf q)" "hm_of sample_state (q_hf q) = Some hf"
      and "sample_addr \<in> set (ipqueue hf)" "ipq_wf any_src q"
    by (rule has_queue_mid [OF hq])
  have d: "q_hf q \<in> dom (hm_of sample_state)" using q(2) by auto
  have "frag_inv any_src sample_env sample_state" using hq by (simp add: has_queue_def)
  then show ?thesis by (rule ip_evictor_bounds [OF _ q(1) d])
qed

section \<open>Reassembly by the handler\<close>

lemma ip_glue_payload:
  assumes "has_queue P env a s" and "qm_of s a = Some q" and "fragmentation D as" and "D \<noteq> []"
    and "queue_fragments as = (q_len q, q_fragments q)" and "ip_done (q_len q) (q_fragments q)" and "q_ihlen q + int (length D) \<le> 65535"
  shows "\<exists>s'. ip_glue env a s = Some (fix_header (take (nat (q_ihlen q)) (q_iph q) @ D) (int (length D)), s') \<and> frag_inv P env s'"
proof -
  let ?hdr = "take (nat (q_ihlen q)) (q_iph q)" and ?len = "q_ihlen q + q_len q"
  have wf: "20 \<le> q_ihlen q" "q_ihlen q \<le> int (length (q_iph q))"
    using has_queue_mid [OF assms(1)] assms(2) by (metis ipq_wf_def option.sel)+
  have lh: "int (length ?hdr) = q_ihlen q" "length ?hdr = nat (q_ihlen q)" using wf by simp_all
  let ?b0 = "replicate (nat ?len) (heap_fill env)"
  let ?buf = "slice 0 (q_ihlen q) (q_iph q) @ drop (nat (q_ihlen q)) ?b0"
  have ql: "q_len q = int (length D)"
    using queue_fragments_ok [OF assms(3)] assms(5,6) by (auto simp: ip_done_def split: if_splits)
  have cp: "copy_block ?b0 0 (q_iph q) 0 (q_ihlen q) = Some ?buf"
    using wf ql by (subst copy_block_slice) auto
  have sl: "slice 0 (q_ihlen q) (q_iph q) = ?hdr" by (simp add: slice_def)
  have lb: "length ?buf = length ?hdr + length D" "take (length ?hdr) ?buf = ?hdr"
    using wf ql unfolding sl by (simp_all add: nat_add_distrib)
  have g: "glue_loop (q_ihlen q) ?len (q_fragments q) ?buf 0 = Some (Glue_ok (?hdr @ D) (int (length D)))"
    using glue_arrived(2) [OF assms(3-6) lb] unfolding lh(1) .
  have "20 \<le> length (?hdr @ D)" using lh(2) wf by simp
  then obtain d where d: "fix_header (?hdr @ D) (int (length D)) = Some d" using fix_header_ok by blast
  obtain s' where s': "ip_free env a s = Some s'" "frag_inv P env s'"
    using ip_free_has_queue [OF assms(1), of s] by (auto simp: same_store_def)
  have "ip_glue env a s = Some (Some d, s')"
    using assms(2,7) wf ql cp g s'(1) d by (simp add: ip_glue_def qm_of_def Let_def)
  then show ?thesis using s'(2) d by auto
qed

text \<open>
  C32.  Reassembly by the handler: let the queue of a datagram hold the fragments \<open>as\<close> of the payload \<open>D\<close>,
  and let one more fragment of \<open>D\<close> arrive (in any order, possibly a duplicate).  If every octet
  of \<open>D\<close> has now arrived, the handler returns the datagram, octet by octet: the stored header \<open>H\<close> with
  its length field (octets 2 and 3) set to the total length \<open>n\<close> and its flags and offset (octets 6
  and 7) cleared, followed by \<open>D\<close>.  Otherwise it returns nothing and the queue holds the
  fragments \<open>as\<close> and the new one.
\<close>

theorem defrag_queue_reassembles:
  assumes "has_queue P env a s" and "qm_of s a = Some q" and "queue_fragments as = (q_len q, q_fragments q)"
    and "hdr_ok (skb_data skb)" and "rd_be16 (skb_data skb) 2 = Some tot" and "unat tot = length (skb_data skb)"
    and "0 \<le> off" and "int (length (skb_data skb)) + off \<le> 65535" and "q_ihlen q + int (length D) \<le> 65535"
    and "arr = \<lparr>arr_more = mf, arr_offset = off, arr_end = off + int (length (skb_data skb)) - int (hlen (skb_data skb)),
        arr_skb = skb, arr_ptr = int (hlen (skb_data skb))\<rparr>"
    and "fragmentation D (as @ [arr])"
    and "H = take (nat (q_ihlen q)) (q_iph q)" and "unat (n :: u16) = length H + length D"
  shows "\<exists>s'. frag_inv P env s' \<and>
     (if arrived (as @ [arr]) = {0..<int (length D)}
      then defrag_queue env (skb_data skb) skb mf off (int (hlen (skb_data skb))) a s =
             Some (Some (take 2 H @ [ucast (drop_bit 8 n), ucast n] @ take 2 (drop 4 H) @ [0, 0] @ drop 8 H @ D), s')
      else defrag_queue env (skb_data skb) skb mf off (int (hlen (skb_data skb))) a s = Some (None, s') \<and> has_queue P env a s' \<and>
           (\<exists>q'. qm_of s' a = Some q' \<and> (q_len q', q_fragments q') = queue_fragments (as @ [arr]) \<and> q_iph q' = q_iph q \<and> q_ihlen q' = q_ihlen q))"
proof -
  obtain ql frs freed w where qf: "queue_fragment arr (q_len q, q_fragments q) = ((ql, frs), freed, w)" by (metis prod.exhaust)
  then have qs: "queue_fragments (as @ [arr]) = (ql, frs)" using assms(3) by (simp add: queue_fragments_def)
  have "fragment_of D arr" using assms(11) by (simp add: fragmentation_def)
  then have D: "D \<noteq> []" by (auto simp: fragment_of_def carries_def)
  obtain s' where s': "has_queue P env a s'" "qm_of s' a = Some (q\<lparr>q_len := ql, q_fragments := frs\<rparr>)"
      "defrag_queue env (skb_data skb) skb mf off (int (hlen (skb_data skb))) a s = (if ip_done ql frs then ip_glue env a s' else Some (None, s'))"
    using defrag_queue_step [OF assms(1,2,7,4,5,6,8) qf [unfolded assms(10)]] by blast
  note done_iff = ip_done_iff_arrived [OF assms(11) D qs]
  have "ipq_wf P q" using has_queue_mid [OF assms(1)] assms(2) by (metis option.sel)
  then have H: "20 \<le> length H" "hlen H = length H" using assms(12) by (auto simp: ipq_wf_def take_hlen)
  note fh = fix_header_octets [OF H assms(13), unfolded assms(12)]
  show ?thesis
  proof (cases "ip_done ql frs")
    case True
    then show ?thesis
      using ip_glue_payload [OF s'(1,2) assms(11) D] qs assms(9,12) s'(3) done_iff fh by auto
  next
    case False
    then show ?thesis using s' qs done_iff by (intro exI [of _ s']) (auto simp: has_queue_def)
  qed
qed


theorem defrag_queue_reassembles_witness:
  "\<exists>s'. frag_inv any_src sample_env s' \<and>
     defrag_queue sample_env sample_packet \<lparr>skb_data = sample_packet, truesize = 208\<rparr> False 0 20 sample_addr sample_state =
       Some (Some [0x45, 0, 0, 28, 0, 7, 0, 0, 64, 17, 0, 0, 10, 0, 0, 1, 10, 0, 0, 2, 1, 2, 3, 4, 5, 6, 7, 8], s')"
proof -
  let ?skb = "\<lparr>skb_data = sample_packet, truesize = 208\<rparr>"
  let ?arr = "\<lparr>arr_more = False, arr_offset = 0, arr_end = 0 + int (length (skb_data ?skb)) - int (hlen (skb_data ?skb)),
        arr_skb = ?skb, arr_ptr = int (hlen (skb_data ?skb))\<rparr>"
  have hl: "hlen sample_packet = 20" by code_simp
  have hq: "has_queue any_src sample_env sample_addr sample_state" using sample_has_queue by simp
  obtain q where q: "qm_of sample_state sample_addr = Some q" "q_len q = 0" "q_fragments q = []" "q_ihlen q = 20"
      "take 20 (q_iph q) = take 20 sample_packet" using sample_has_queue hl by auto
  have v: "queue_fragments [] = (q_len q, q_fragments q)" using q by (simp add: queue_fragments_def)
  have h: "hdr_ok (skb_data ?skb)" "rd_be16 (skb_data ?skb) 2 = Some 28" "unat (28 :: u16) = length (skb_data ?skb)"
    "int (length (skb_data ?skb)) + 0 \<le> 65535" by code_simp+
  have fr: "fragmentation [1, 2, 3, 4, 5, 6, 7, 8] ([] @ [?arr])" unfolding fragmentation_def fragment_of_def apart_def by code_simp
  have arr: "arrived ([] @ [?arr]) = {0..<int (length [1, 2, 3, 4, 5, 6, 7, 8 :: u8])}"
  proof -
    have "arr_end ?arr = 8" by code_simp
    then show ?thesis by (simp add: arrived_def)
  qed
  have oct: "take 20 sample_packet = [0x45, 0, 0, 28, 0, 7, 0x20, 0, 64, 17, 0, 0, 10, 0, 0, 1, 10, 0, 0, 2]" by code_simp
  show ?thesis
    using defrag_queue_reassembles [OF hq q(1) v h(1-3) _ h(4) _ refl fr refl, of 28] arr q(4,5) hl oct by simp
qed

text \<open>
  Restarting a timer: \<open>ip_find\<close> deletes the timer of the queue it returns, and \<open>ip_defrag\<close> deletes it
  again before it adds it at the end.  On the linked list the second deletion changes nothing,
  and the timer moves to the end; no other timer moves.
\<close>

theorem restart_timer_moves_to_end:
  assumes "timer_rep t xs" and "x \<in> set xs"
  shows "del_timer x (del_timer x t) = del_timer x t \<and> timer_rep (add_timer x (del_timer x (del_timer x t))) (remove1 x xs @ [x])"
  using dll.del_del [OF assms] dll.restart [OF assms] by blast

theorem restart_timer_moves_to_end_witness:
  "timer_rep (add_timer 1 (del_timer 1 (del_timer 1 (add_timer 2 (add_timer 1 no_timers))))) [2, 1]"
proof -
  have r: "timer_rep (add_timer 2 (add_timer 1 no_timers)) [1, 2]"
    using dll.add_holds [OF dll.add_holds [OF no_timers_rep, of 1], of 2] by simp
  have e: "remove1 1 [1, 2] @ [1] = [2, 1 :: nat]" and m: "(1 :: nat) \<in> set [1, 2]" by simp_all
  show ?thesis using restart_timer_moves_to_end [OF r m, unfolded e] by (rule conjunct2)
qed

end
