(* ===== verification/Utils.thy ===== *)
theory Utils
  imports Prelude
begin

text \<open>
  The helpers of \<open>include/utils.h\<close> and \<open>src/utils.cpp\<close> that \<open>tcp.c\<close> and \<open>libnids.c\<close> share:
  comparison of sequence numbers modulo \<open>2 ^ 32\<close>, and the lists of registered callbacks.  A
  callback is a function pointer; only its identity matters, so it is a natural number, and a
  \<open>proc_node\<close> list is the list of the pointers it holds.  Two contracts are proved here and used by
  the clients: on positions less than \<open>2 ^ 31\<close> apart the comparisons are those of the positions, whatever
  the initial sequence number, and registration keeps a list free of duplicates.
\<close>

section \<open>Sequence numbers\<close>

definition before :: "u32 \<Rightarrow> u32 \<Rightarrow> bool" where
  "before seq1 seq2 \<longleftrightarrow> sint (seq1 - seq2) < 0"

definition after :: "u32 \<Rightarrow> u32 \<Rightarrow> bool" where
  "after seq1 seq2 \<longleftrightarrow> sint (seq2 - seq1) < 0"

lemma sint_of_int_u32: "- 2147483648 \<le> x \<Longrightarrow> x < 2147483648 \<Longrightarrow> sint (of_int x :: u32) = x"
  by (simp add: signed_of_int signed_take_bit_int_eq_self)

text \<open>Positions in a stream, counted from the sequence number \<open>isn\<close>.\<close>

lemma after_pos:
  "\<bar>p - q\<bar> < 2147483648 \<Longrightarrow> after (isn + of_int p) (isn + of_int q) \<longleftrightarrow> q < p"
proof -
  assume d: "\<bar>p - q\<bar> < 2147483648"
  have "isn + of_int q - (isn + of_int p) = (of_int (q - p) :: u32)" by simp
  then show ?thesis using d sint_of_int_u32 [of "q - p"] by (simp only: after_def) auto
qed

lemma before_pos:
  "\<bar>p - q\<bar> < 2147483648 \<Longrightarrow> before (isn + of_int p) (isn + of_int q) \<longleftrightarrow> p < q"
  using after_pos [of q p isn] by (simp add: before_def after_def abs_minus_commute)

lemma before_after: "before a b \<longleftrightarrow> after b a"
  by (simp add: before_def after_def)

lemma after_irrefl [simp]: "\<not> after a a" "\<not> before a a"
  by (simp_all add: before_def after_def)

section \<open>Registered callbacks\<close>

definition register_callback :: "nat \<Rightarrow> nat list \<Rightarrow> nat list" where
  "register_callback x procs = (if x \<in> set procs then procs else x # procs)"

fun unregister_callback :: "nat \<Rightarrow> nat list \<Rightarrow> nat list" where
  "unregister_callback x [] = []"
| "unregister_callback x (ipp # r) = (if x = ipp then r else ipp # unregister_callback x r)"

locale callback_list =
  fixes register unregister :: "nat \<Rightarrow> nat list \<Rightarrow> nat list"
  assumes set_register: "set (register x ps) = insert x (set ps)"
    and distinct_register: "distinct ps \<Longrightarrow> distinct (register x ps)"
    and set_unregister: "distinct ps \<Longrightarrow> set (unregister x ps) = set ps - {x}"
    and distinct_unregister: "distinct ps \<Longrightarrow> distinct (unregister x ps)"
begin

text \<open>A registration history: \<open>True\<close> registers, \<open>False\<close> unregisters.\<close>

fun history :: "(bool \<times> nat) list \<Rightarrow> nat list \<Rightarrow> nat list" where
  "history [] ps = ps"
| "history ((r, x) # h) ps = history h (if r then register x ps else unregister x ps)"

lemma history_distinct: "distinct ps \<Longrightarrow> distinct (history h ps)"
  by (induction h ps rule: history.induct) (simp_all add: distinct_register distinct_unregister)

lemma history_member:
  "distinct ps \<Longrightarrow> x \<in> set (history h ps) \<longleftrightarrow>
     (case find (\<lambda>(r, y). y = x) (rev h) of None \<Rightarrow> x \<in> set ps | Some (r, _) \<Rightarrow> r)"
proof (induction h arbitrary: ps rule: list.induct)
  case (Cons e h)
  obtain r y where e: "e = (r, y)" by (cases e)
  let ?ps = "if r then register y ps else unregister y ps"
  have d: "distinct ?ps" using Cons.prems by (simp add: distinct_register distinct_unregister)
  have m: "x \<in> set ?ps \<longleftrightarrow> (if y = x then r else x \<in> set ps)"
    using Cons.prems by (auto simp: set_register set_unregister)
  have "find P (rs @ [z]) = (case find P rs of None \<Rightarrow> (if P z then Some z else None) | Some w \<Rightarrow> Some w)"
    for P :: "bool \<times> nat \<Rightarrow> bool" and rs z by (induction rs) auto
  then show ?case using Cons.IH [OF d] m by (auto simp: e split: option.splits)
qed simp

end

interpretation procs: callback_list register_callback unregister_callback
proof
  fix x :: nat and ps :: "nat list"
  show "set (register_callback x ps) = insert x (set ps)" by (auto simp: register_callback_def)
  show "distinct ps \<Longrightarrow> distinct (register_callback x ps)" by (simp add: register_callback_def)
  show u: "distinct ps \<Longrightarrow> set (unregister_callback x ps) = set ps - {x}" by (induction ps) auto
  show "distinct ps \<Longrightarrow> distinct (unregister_callback x ps)"
  proof (induction ps)
    case (Cons a ps)
    have "set (unregister_callback x qs) \<subseteq> set qs" for qs by (induction qs) auto
    then show ?case using Cons by auto
  qed simp
qed

end
