(* ===== verification/Tcp_Types.thy ===== *)
theory Tcp_Types
  imports Nids Utils
begin

text \<open>
  The data of \<open>src/libnids/tcp.c\<close>: the structures \<open>half_stream\<close>, \<open>tcp_stream\<close>, \<open>skbuff\<close>,
  \<open>lurker_node\<close> and \<open>tcp_timeout\<close> as records, the TCP header, and the option parsers \<open>get_ts\<close>
  and \<open>get_wscale\<close>.

  The counters \<open>count\<close>, \<open>offset\<close> and \<open>urg_count\<close> of a \<open>half_stream\<close> enter the arithmetic of
  sequence numbers, so they are 32-bit words, read with \<open>sint\<close> where the code compares them.  In the
  code they are \<open>int\<close>, whose overflow C leaves undefined; here it wraps, as it does on the machines the program is built for when
  the compiler does not exploit it.  It takes a stream of more than \<open>2^31\<close> octets.  The sizes are \<open>int\<close>.  The linked lists (queue of segments, listeners, timeouts) are HOL lists in the
  order of their \<open>next\<close> pointers.  The receive buffer is the block of \<open>bufsize\<close> bytes, or \<open>None\<close>
  while \<open>data\<close> is NULL.

  The callbacks of an application are a parameter: a function of everything that happened so far
  (the events), the stream, and its private \<open>data\<close> pointer.  What it may do is the interface that
  \<open>nids.h\<close> gives it: change the four \<open>collect\<close> counters, call \<open>nids_discard\<close>, and set its pointer.
\<close>

section \<open>Structures\<close>

datatype conn_state = TCP_ESTABLISHED | TCP_SYN_SENT | TCP_SYN_RECV | TCP_CLOSE | TCP_CLOSING | FIN_SENT | FIN_CONFIRMED

datatype nids_state = NIDS_NONE | NIDS_JUST_EST | NIDS_DATA | NIDS_CLOSE | NIDS_RESET | NIDS_TIMED_OUT | NIDS_EXITING

record skbuff =
  p_data :: bytes
  p_truesize :: int
  p_urg_ptr :: u32
  p_fin :: bool
  p_urg :: bool
  p_seq :: u32

record half_stream =
  h_state :: conn_state
  h_collect :: int
  h_collect_urg :: int
  h_data :: "bytes option"
  h_offset :: u32
  h_count :: u32
  h_count_new :: int
  h_bufsize :: int
  h_rmem_alloc :: int
  h_urg_count :: u32
  h_seq :: u32
  h_ack_seq :: u32
  h_first_data_seq :: u32
  h_urgdata :: u8
  h_count_new_urg :: bool
  h_urg_seen :: bool
  h_urg_ptr :: u32
  h_window :: u16
  h_ts_on :: bool
  h_wscale_on :: bool
  h_curr_ts :: u32
  h_wscale :: u32
  h_list :: "skbuff list"

text \<open>A listener (\<open>lurker_node\<close>): the callback, its private pointer, and what it wants to hear.\<close>

record lurker =
  l_item :: nat
  l_data :: nat
  l_whatto :: u8

record tcp_stream =
  s_addr :: tuple4
  s_nids_state :: nids_state
  s_listeners :: "lurker list"
  s_client :: half_stream
  s_server :: half_stream
  s_hash_index :: int
  s_read :: int

text \<open>The two halves; \<open>rcv\<close> is one of them and \<open>snd\<close> the other.\<close>

datatype side = Client | Server

fun other :: "side \<Rightarrow> side" where
  "other Client = Server"
| "other Server = Client"

fun half :: "side \<Rightarrow> tcp_stream \<Rightarrow> half_stream" where
  "half Client a = s_client a"
| "half Server a = s_server a"

fun set_half :: "side \<Rightarrow> half_stream \<Rightarrow> tcp_stream \<Rightarrow> tcp_stream" where
  "set_half Client h a = a\<lparr>s_client := h\<rparr>"
| "set_half Server h a = a\<lparr>s_server := h\<rparr>"

text \<open>A stream cleared by \<open>memset\<close>; the two states are assigned right after it.\<close>

definition zero_half :: "conn_state \<Rightarrow> half_stream" where
  "zero_half st = \<lparr>h_state = st, h_collect = 0, h_collect_urg = 0, h_data = None, h_offset = 0, h_count = 0,
     h_count_new = 0, h_bufsize = 0, h_rmem_alloc = 0, h_urg_count = 0, h_seq = 0, h_ack_seq = 0,
     h_first_data_seq = 0, h_urgdata = 0, h_count_new_urg = False, h_urg_seen = False, h_urg_ptr = 0,
     h_window = 0, h_ts_on = False, h_wscale_on = False, h_curr_ts = 0, h_wscale = 0, h_list = []\<rparr>"

section \<open>Events and callbacks\<close>

datatype tcp_event = Call nat nat tcp_stream | Syslog nids_warn_type nids_warn

record cb_result =
  r_client_collect :: int
  r_server_collect :: int
  r_client_collect_urg :: int
  r_server_collect_urg :: int
  r_discards :: "int list"
  r_data :: nat

type_synonym callback = "nat \<Rightarrow> tcp_event list \<Rightarrow> tcp_stream \<Rightarrow> nat \<Rightarrow> cb_result"

text \<open>
  What one packet is processed with: the parameters, the callbacks, the time stamp of the packet,
  the byte that \<open>malloc\<close> leaves in fresh memory, the initial value of an uninitialised pointer, and
  the constant \<open>NR_ICMP_UNREACH\<close> of the platform's headers.
\<close>

record tcp_env =
  te_prm :: nids_prm
  te_cb :: callback
  te_now :: int
  te_fill :: u8
  te_junk :: nat
  te_nr_icmp :: nat

definition nids_discard :: "int \<Rightarrow> tcp_stream \<Rightarrow> tcp_stream" where
  "nids_discard num a = (if num < s_read a then a\<lparr>s_read := num\<rparr> else a)"

text \<open>The stream, the timeouts and the log while one segment is processed; \<open>c_self\<close> is the stream's address.\<close>

record conn =
  c_self :: nat
  c_tcp :: tcp_stream
  c_timeouts :: "(nat \<times> int) list"
  c_log :: "tcp_event list"

definition set_collect :: "cb_result \<Rightarrow> tcp_stream \<Rightarrow> tcp_stream" where
  "set_collect r a = a
     \<lparr>s_client := (s_client a)\<lparr>h_collect := r_client_collect r, h_collect_urg := r_client_collect_urg r\<rparr>,
      s_server := (s_server a)\<lparr>h_collect := r_server_collect r, h_collect_urg := r_server_collect_urg r\<rparr>\<rparr>"

text \<open>\<open>(i->item)(a_tcp, &i->data)\<close>: the new value of the pointer, and the connection.\<close>

definition call_item :: "tcp_env \<Rightarrow> nat \<Rightarrow> nat \<Rightarrow> conn \<Rightarrow> nat \<times> conn" where
  "call_item env item dat c =
     (let r = te_cb env item (c_log c) (c_tcp c) dat in
      (r_data r, c\<lparr>c_tcp := fold nids_discard (r_discards r) (set_collect r (c_tcp c)),
                   c_log := c_log c @ [Call item dat (c_tcp c)]\<rparr>))"

text \<open>The loop that tells every listener: \<open>done\<close> are the listeners already told.\<close>

fun call_each :: "tcp_env \<Rightarrow> lurker list \<Rightarrow> lurker list \<Rightarrow> conn \<Rightarrow> conn" where
  "call_each env told [] c = c\<lparr>c_tcp := (c_tcp c)\<lparr>s_listeners := told\<rparr>\<rparr>"
| "call_each env told (l # r) c =
     (let (d, c') = call_item env (l_item l) (l_data l) (c\<lparr>c_tcp := (c_tcp c)\<lparr>s_listeners := told @ l # r\<rparr>\<rparr>)
      in call_each env (told @ [l\<lparr>l_data := d\<rparr>]) r c')"

definition call_listeners :: "tcp_env \<Rightarrow> nids_state \<Rightarrow> conn \<Rightarrow> conn" where
  "call_listeners env st c =
     call_each env [] (s_listeners (c_tcp c)) (c\<lparr>c_tcp := (c_tcp c)\<lparr>s_nids_state := st\<rparr>\<rparr>)"

section \<open>The TCP header\<close>

record tcphdr =
  th_source :: u16
  th_dest :: u16
  th_seq :: u32
  th_ack_seq :: u32
  th_doff :: nat
  th_flags :: u8
  th_window :: u16
  th_urg_ptr :: u16
  th_options :: bytes

definition th_fin :: "tcphdr \<Rightarrow> bool" where "th_fin th \<longleftrightarrow> bit (th_flags th) 0"
definition th_syn :: "tcphdr \<Rightarrow> bool" where "th_syn th \<longleftrightarrow> bit (th_flags th) 1"
definition th_rst :: "tcphdr \<Rightarrow> bool" where "th_rst th \<longleftrightarrow> bit (th_flags th) 2"
definition th_ack :: "tcphdr \<Rightarrow> bool" where "th_ack th \<longleftrightarrow> bit (th_flags th) 4"
definition th_urg :: "tcphdr \<Rightarrow> bool" where "th_urg th \<longleftrightarrow> bit (th_flags th) 5"

text \<open>The header at offset \<open>i\<close> of a packet, in host byte order; \<open>th_options\<close> is what follows its 20 bytes.\<close>

definition tcphdr_at :: "bytes \<Rightarrow> nat \<Rightarrow> tcphdr option" where
  "tcphdr_at b i = do {
     sp \<leftarrow> rd_be16 b i; dp \<leftarrow> rd_be16 b (i + 2);
     sq \<leftarrow> rd_be32 b (i + 4); ak \<leftarrow> rd_be32 b (i + 8);
     off \<leftarrow> rd8 b (i + 12); fl \<leftarrow> rd8 b (i + 13);
     win \<leftarrow> rd_be16 b (i + 14); up \<leftarrow> rd_be16 b (i + 18);
     Some \<lparr>th_source = sp, th_dest = dp, th_seq = sq, th_ack_seq = ak, th_doff = unat (drop_bit 4 off),
           th_flags = fl, th_window = win, th_urg_ptr = up, th_options = drop (i + 20) b\<rparr> }"

section \<open>Options\<close>

function get_ts_loop :: "bytes \<Rightarrow> int \<Rightarrow> nat \<Rightarrow> bool \<Rightarrow> u32 \<Rightarrow> (bool \<times> u32) option" where
  "get_ts_loop opts len ind ret ts =
     (if int ind \<le> len - 20 - 10 then
        (case rd8 opts ind of None \<Rightarrow> None
         | Some k \<Rightarrow>
             if k = 0 then Some (ret, ts)
             else if k = 1 then get_ts_loop opts len (ind + 1) ret ts
             else (case (if k = 8 then map_option (Pair True) (rd_be32 opts (ind + 2)) else Some (ret, ts)) of
                     None \<Rightarrow> None
                   | Some (ret', ts') \<Rightarrow>
                       (case rd8 opts (ind + 1) of None \<Rightarrow> None
                        | Some l \<Rightarrow> if l < 2 then Some (ret', ts') else get_ts_loop opts len (ind + unat l) ret' ts')))
      else Some (ret, ts))"
  by pat_completeness auto

lemma option_step: "\<not> (l :: u8) < 2 \<Longrightarrow> 0 < uint l"
  by (simp add: word_less_def)

termination get_ts_loop
  by (relation "measure (\<lambda>(opts, len, ind, ret, ts). nat (len - int ind))") (auto dest!: option_step)

declare get_ts_loop.simps [simp del]

text \<open>The result, and the value of \<open>*ts\<close> afterwards.\<close>

definition get_ts :: "tcphdr \<Rightarrow> u32 \<Rightarrow> (bool \<times> u32) option" where
  "get_ts th ts = get_ts_loop (th_options th) (4 * int (th_doff th)) 0 False ts"

function get_wscale_loop :: "bytes \<Rightarrow> int \<Rightarrow> nat \<Rightarrow> bool \<Rightarrow> u32 \<Rightarrow> (bool \<times> u32) option" where
  "get_wscale_loop opts len ind ret ws =
     (if int ind \<le> len - 20 - 3 then
        (case rd8 opts ind of None \<Rightarrow> None
         | Some k \<Rightarrow>
             if k = 0 then Some (ret, ws)
             else if k = 1 then get_wscale_loop opts len (ind + 1) ret ws
             else (case (if k = 3 then map_option (\<lambda>t. (True, push_bit (if 14 < t then 14 else unat t) 1)) (rd8 opts (ind + 2))
                         else Some (ret, ws)) of
                     None \<Rightarrow> None
                   | Some (ret', ws') \<Rightarrow>
                       (case rd8 opts (ind + 1) of None \<Rightarrow> None
                        | Some l \<Rightarrow> if l < 2 then Some (ret', ws') else get_wscale_loop opts len (ind + unat l) ret' ws')))
      else Some (ret, ws))"
  by pat_completeness auto

termination get_wscale_loop
  by (relation "measure (\<lambda>(opts, len, ind, ret, ws). nat (len - int ind))") (auto dest!: option_step)

declare get_wscale_loop.simps [simp del]

definition get_wscale :: "tcphdr \<Rightarrow> (bool \<times> u32) option" where
  "get_wscale th = get_wscale_loop (th_options th) (4 * int (th_doff th)) 0 False 1"

end
