(* ===== verification/Tcp_Queue.thy ===== *)
theory Tcp_Queue
  imports Tcp_Types
begin

text \<open>
  The stream reassembly of \<open>src/libnids/tcp.c\<close>: the receive buffer (\<open>add2buf\<close>), the notification of
  listeners (\<open>ride_lurkers\<close>, \<open>notify\<close>), the delivery of one segment (\<open>add_from_skb\<close>) and the
  queue of segments that arrived too early (\<open>tcp_queue\<close>, \<open>prune_queue\<close>, \<open>purge_queue\<close>), with the
  timeouts of half-closed connections.  \<open>None\<close> is an access outside a block or through NULL.
\<close>

section \<open>Timeouts\<close>

text \<open>The walk of \<open>add_tcp_closing_timeout\<close>; entries are the stream and \<open>timeout.tv_sec\<close>.\<close>

fun insert_timeout :: "nat \<Rightarrow> int \<Rightarrow> (nat \<times> int) list \<Rightarrow> (nat \<times> int) list" where
  "insert_timeout a t [] = [(a, t)]"
| "insert_timeout a t (e # r) =
     (if fst e = a then e # r else if snd e > t then (a, t) # e # r else e # insert_timeout a t r)"

text \<open>A walk that meets the stream frees the new entry and changes nothing.\<close>

fun meets_stream :: "nat \<Rightarrow> int \<Rightarrow> (nat \<times> int) list \<Rightarrow> bool" where
  "meets_stream a t [] = False"
| "meets_stream a t (e # r) = (if fst e = a then True else if snd e > t then False else meets_stream a t r)"

definition add_tcp_closing_timeout :: "tcp_env \<Rightarrow> nat \<Rightarrow> (nat \<times> int) list \<Rightarrow> (nat \<times> int) list" where
  "add_tcp_closing_timeout env a ts =
     (if tcp_workarounds (te_prm env) = 0 then ts
      else if meets_stream a (te_now env + 10) ts then ts
      else insert_timeout a (te_now env + 10) ts)"

fun remove_timeout :: "nat \<Rightarrow> (nat \<times> int) list \<Rightarrow> (nat \<times> int) list" where
  "remove_timeout a [] = []"
| "remove_timeout a (e # r) = (if fst e = a then r else e # remove_timeout a r)"

definition del_tcp_closing_timeout :: "tcp_env \<Rightarrow> nat \<Rightarrow> (nat \<times> int) list \<Rightarrow> (nat \<times> int) list" where
  "del_tcp_closing_timeout env a ts = (if tcp_workarounds (te_prm env) = 0 then ts else remove_timeout a ts)"

section \<open>The receive buffer\<close>

definition pend :: "half_stream \<Rightarrow> int" where
  "pend h = sint (h_count h - h_offset h)"

definition purge_queue :: "half_stream \<Rightarrow> half_stream" where
  "purge_queue h = h\<lparr>h_list := [], h_rmem_alloc := 0\<rparr>"

text \<open>\<open>malloc\<close> and \<open>realloc\<close>: a negative size is beyond any heap, and \<open>no_mem\<close> ends the process.\<close>

definition grow :: "u8 \<Rightarrow> bytes \<Rightarrow> int \<Rightarrow> bytes option" where
  "grow fill b n = (if n < 0 then None else Some (take (nat n) b @ replicate (nat n - length b) fill))"

definition make_room :: "u8 \<Rightarrow> int \<Rightarrow> half_stream \<Rightarrow> half_stream option" where
  "make_room fill datalen rcv =
     (if sint (of_int datalen + h_count rcv - h_offset rcv) > h_bufsize rcv then
        (case h_data rcv of
           None \<Rightarrow> let toalloc = (if datalen < 2048 then 4096 else i32 (datalen * 2)) in
             do { b \<leftarrow> grow fill [] toalloc; Some (rcv\<lparr>h_data := Some b, h_bufsize := toalloc\<rparr>) }
         | Some old \<Rightarrow> let toalloc = (if datalen < h_bufsize rcv then i32 (2 * h_bufsize rcv)
                                    else i32 (h_bufsize rcv + 2 * datalen)) in
             do { b \<leftarrow> grow fill old toalloc; Some (rcv\<lparr>h_data := Some b, h_bufsize := toalloc\<rparr>) })
      else Some rcv)"

definition add2buf :: "u8 \<Rightarrow> bytes \<Rightarrow> half_stream \<Rightarrow> half_stream option" where
  "add2buf fill xs rcv = do {
     let datalen = int (length xs);
     r \<leftarrow> make_room fill datalen rcv;
     b \<leftarrow> h_data r;
     b' \<leftarrow> (if pend r < 0 then None else wr b (nat (pend r)) xs);
     Some (r\<lparr>h_data := Some b', h_count_new := datalen, h_count := h_count r + of_int datalen\<rparr>) }"

section \<open>Listeners\<close>

definition COLLECT_cc :: u8 where "COLLECT_cc = 1"
definition COLLECT_sc :: u8 where "COLLECT_sc = 2"
definition COLLECT_ccu :: u8 where "COLLECT_ccu = 4"
definition COLLECT_scu :: u8 where "COLLECT_scu = 8"

text \<open>One of the four tests after a callback: the counter before, the counter after, its bit.\<close>

definition what_bit :: "int \<Rightarrow> int \<Rightarrow> u8 \<Rightarrow> u8 \<Rightarrow> u8" where
  "what_bit old new m w = (if old < new then w OR m else if old > new then w AND NOT m else w)"

definition new_whatto :: "tcp_stream \<Rightarrow> tcp_stream \<Rightarrow> u8 \<Rightarrow> u8" where
  "new_whatto a a' w =
     what_bit (h_collect_urg (s_server a)) (h_collect_urg (s_server a')) COLLECT_scu
       (what_bit (h_collect (s_server a)) (h_collect (s_server a')) COLLECT_sc
         (what_bit (h_collect_urg (s_client a)) (h_collect_urg (s_client a')) COLLECT_ccu
           (what_bit (h_collect (s_client a)) (h_collect (s_client a')) COLLECT_cc w)))"

fun ride_each :: "tcp_env \<Rightarrow> u8 \<Rightarrow> lurker list \<Rightarrow> lurker list \<Rightarrow> conn \<Rightarrow> conn" where
  "ride_each env msk told [] c = c\<lparr>c_tcp := (c_tcp c)\<lparr>s_listeners := told\<rparr>\<rparr>"
| "ride_each env msk told (l # r) c =
     (if l_whatto l AND msk \<noteq> 0 then
        let c1 = c\<lparr>c_tcp := (c_tcp c)\<lparr>s_listeners := told @ l # r\<rparr>\<rparr>;
            (d, c') = call_item env (l_item l) (l_data l) c1
        in ride_each env msk (told @ [l\<lparr>l_data := d, l_whatto := new_whatto (c_tcp c1) (c_tcp c') (l_whatto l)\<rparr>]) r c'
      else ride_each env msk (told @ [l]) r c)"

definition ride_lurkers :: "tcp_env \<Rightarrow> u8 \<Rightarrow> conn \<Rightarrow> conn" where
  "ride_lurkers env msk c = ride_each env msk [] (s_listeners (c_tcp c)) c"

definition prune_listeners :: "conn \<Rightarrow> conn" where
  "prune_listeners c = c\<lparr>c_tcp := (c_tcp c)\<lparr>s_listeners := filter (\<lambda>l. l_whatto l \<noteq> 0) (s_listeners (c_tcp c))\<rparr>\<rparr>"

abbreviation chalf :: "side \<Rightarrow> conn \<Rightarrow> half_stream" where
  "chalf d c \<equiv> half d (c_tcp c)"

definition set_chalf :: "side \<Rightarrow> half_stream \<Rightarrow> conn \<Rightarrow> conn" where
  "set_chalf d h c = c\<lparr>c_tcp := set_half d h (c_tcp c)\<rparr>"

fun data_mask :: "side \<Rightarrow> u8" where
  "data_mask Client = COLLECT_cc"
| "data_mask Server = COLLECT_sc"

fun urg_mask :: "side \<Rightarrow> u8" where
  "urg_mask Client = COLLECT_ccu"
| "urg_mask Server = COLLECT_scu"

text \<open>\<open>memmove(data, data + n, m)\<close>.\<close>

definition move_down :: "nat \<Rightarrow> nat \<Rightarrow> bytes \<Rightarrow> bytes option" where
  "move_down n m b = (if n + m \<le> length b then Some (take m (drop n b) @ drop m b) else None)"

definition consume :: "int \<Rightarrow> half_stream \<Rightarrow> half_stream option" where
  "consume n h =
     (if n > 0 then
        (if pend h - n < 0 then None
         else do { b \<leftarrow> h_data h; b' \<leftarrow> move_down (nat n) (nat (pend h - n)) b;
                   Some (h\<lparr>h_data := Some b', h_offset := h_offset h + of_int n\<rparr>) })
      else Some h)"

text \<open>One iteration of the \<open>do\<close> loop: the listeners are told, then what they read is removed.\<close>

definition tell_data :: "tcp_env \<Rightarrow> side \<Rightarrow> conn \<Rightarrow> conn" where
  "tell_data env d c = ride_lurkers env (data_mask d) (c\<lparr>c_tcp := (c_tcp c)\<lparr>s_read := pend (chalf d c)\<rparr>\<rparr>)"

definition notify_once :: "tcp_env \<Rightarrow> side \<Rightarrow> conn \<Rightarrow> conn option" where
  "notify_once env d c = do {
     let tot = pend (chalf d c);
     let c1 = tell_data env d c;
     let rd = s_read (c_tcp c1);
     let h = chalf d c1;
     h' \<leftarrow> consume rd (if rd > tot - h_count_new h then h\<lparr>h_count_new := tot - rd\<rparr> else h);
     Some (set_chalf d h' c1) }"

subsection \<open>What a callback leaves alone\<close>

text \<open>The part of a stream that no callback changes.\<close>

definition core_half :: "half_stream \<Rightarrow> half_stream" where
  "core_half h = h\<lparr>h_collect := 0, h_collect_urg := 0\<rparr>"

lemma half_set_half [simp]: "half d (set_half d h a) = h" "half (other d) (set_half d h a) = half (other d) a"
  "half d (set_half (other d) h a) = half d a"
  by (cases d; simp)+

lemma other_other [simp]: "other (other d) = d" "other d \<noteq> d" "d \<noteq> other d"
  by (cases d; simp)+

lemma nids_discard_fields:
  "half d (nids_discard n a) = half d a" "s_read (nids_discard n a) \<le> s_read a"
  "s_listeners (nids_discard n a) = s_listeners a" "s_addr (nids_discard n a) = s_addr a"
  "s_nids_state (nids_discard n a) = s_nids_state a" "s_hash_index (nids_discard n a) = s_hash_index a"
  by (cases d; simp add: nids_discard_def)+

lemma fold_discard:
  "half d (fold nids_discard ns a) = half d a \<and> s_read (fold nids_discard ns a) \<le> s_read a \<and>
   s_listeners (fold nids_discard ns a) = s_listeners a \<and> s_addr (fold nids_discard ns a) = s_addr a \<and>
   s_nids_state (fold nids_discard ns a) = s_nids_state a \<and> s_hash_index (fold nids_discard ns a) = s_hash_index a"
proof (induction ns arbitrary: a)
  case (Cons n ns)
  show ?case
    using Cons [of "nids_discard n a"] order_trans [OF _ nids_discard_fields(2) [of n a]]
    by (auto simp: nids_discard_fields(1,3-))
qed simp

lemma half_upd [simp]:
  "half d (a\<lparr>s_listeners := ls\<rparr>) = half d a" "half d (a\<lparr>s_read := n\<rparr>) = half d a" "half d (a\<lparr>s_nids_state := st\<rparr>) = half d a"
  by (cases d; simp)+

lemma core_half_set_collect [simp]: "core_half (half d (set_collect r a)) = core_half (half d a)"
  by (cases d) (simp_all add: set_collect_def core_half_def)

text \<open>Two connections that differ only in what callbacks may change, and in the log.\<close>

definition same_core :: "conn \<Rightarrow> conn \<Rightarrow> bool" where
  "same_core c c' \<longleftrightarrow> (\<forall>d. core_half (chalf d c') = core_half (chalf d c)) \<and>
     s_addr (c_tcp c') = s_addr (c_tcp c) \<and> s_nids_state (c_tcp c') = s_nids_state (c_tcp c) \<and>
     s_hash_index (c_tcp c') = s_hash_index (c_tcp c) \<and> c_self c' = c_self c \<and> c_timeouts c' = c_timeouts c"

lemma same_core_refl [simp]: "same_core c c"
  by (simp add: same_core_def)

lemma same_core_trans: "same_core a b \<Longrightarrow> same_core b c \<Longrightarrow> same_core a c"
  by (simp add: same_core_def)

lemma same_core_listeners [simp]: "same_core c (c\<lparr>c_tcp := (c_tcp c)\<lparr>s_listeners := ls\<rparr>\<rparr>)"
  "same_core c (c\<lparr>c_tcp := (c_tcp c)\<lparr>s_read := n\<rparr>\<rparr>)"
  by (simp_all add: same_core_def)

lemma same_core_inner [simp]: "same_core (c\<lparr>c_tcp := (c_tcp c)\<lparr>s_listeners := ls\<rparr>\<rparr>) c' \<longleftrightarrow> same_core c c'"
  "same_core (c\<lparr>c_tcp := (c_tcp c)\<lparr>s_read := n\<rparr>\<rparr>) c' \<longleftrightarrow> same_core c c'"
  by (simp_all add: same_core_def)

lemma call_item_core: "same_core c (snd (call_item env item dat c))" "s_read (c_tcp (snd (call_item env item dat c))) \<le> s_read (c_tcp c)"
proof -
  let ?r = "te_cb env item (c_log c) (c_tcp c) dat"
  show "same_core c (snd (call_item env item dat c))"
    by (simp add: same_core_def call_item_def Let_def fold_discard) (simp add: set_collect_def)
  have "s_read (set_collect ?r (c_tcp c)) = s_read (c_tcp c)" by (simp add: set_collect_def)
  then show "s_read (c_tcp (snd (call_item env item dat c))) \<le> s_read (c_tcp c)"
    using fold_discard [of Client "r_discards ?r" "set_collect ?r (c_tcp c)"] by (simp add: call_item_def Let_def)
qed

lemma ride_each_core:
  "same_core c (ride_each env msk told ls c) \<and> s_read (c_tcp (ride_each env msk told ls c)) \<le> s_read (c_tcp c)"
proof (induction ls arbitrary: told c)
  case (Cons l r)
  show ?case
  proof (cases "l_whatto l AND msk \<noteq> 0")
    case True
    let ?c1 = "c\<lparr>c_tcp := (c_tcp c)\<lparr>s_listeners := told @ l # r\<rparr>\<rparr>"
    obtain d c' where ci: "call_item env (l_item l) (l_data l) ?c1 = (d, c')" by fastforce
    have "same_core ?c1 c'" "s_read (c_tcp c') \<le> s_read (c_tcp ?c1)"
      using call_item_core [where c = ?c1 and env = env and item = "l_item l" and dat = "l_data l"] ci by simp_all
    then have "same_core c c'" "s_read (c_tcp c') \<le> s_read (c_tcp c)" by simp_all
    then show ?thesis
      using Cons [where c = c' and told = "told @ [l\<lparr>l_data := d, l_whatto := new_whatto (c_tcp ?c1) (c_tcp c') (l_whatto l)\<rparr>]"] True ci
      by (auto intro: same_core_trans)
  next
    case False
    then show ?thesis using Cons by simp
  qed
qed simp

lemma ride_lurkers_core:
  "same_core c (ride_lurkers env msk c)" "s_read (c_tcp (ride_lurkers env msk c)) \<le> s_read (c_tcp c)"
  using ride_each_core by (simp_all add: ride_lurkers_def)

lemma core_half_eqD:
  assumes "core_half h = core_half k"
  shows "h_state h = h_state k" "h_data h = h_data k" "h_offset h = h_offset k" "h_count h = h_count k"
    "h_count_new h = h_count_new k" "h_bufsize h = h_bufsize k" "h_rmem_alloc h = h_rmem_alloc k"
    "h_urg_count h = h_urg_count k" "h_first_data_seq h = h_first_data_seq k"
    "h_count_new_urg h = h_count_new_urg k" "h_urg_seen h = h_urg_seen k" "h_urg_ptr h = h_urg_ptr k"
    "h_list h = h_list k" "h_wscale h = h_wscale k" "pend h = pend k"
  using assms by (cases h; cases k; simp add: core_half_def pend_def)+

lemma same_coreD: "same_core c c' \<Longrightarrow> core_half (chalf d c') = core_half (chalf d c)"
  by (simp add: same_core_def)

lemmas same_core_half = core_half_eqD [OF same_coreD]

section \<open>Notification\<close>

lemma s_read_set_half [simp]: "s_read (set_half d h a) = s_read a" "s_listeners (set_half d h a) = s_listeners a"
  "s_addr (set_half d h a) = s_addr a" "s_nids_state (set_half d h a) = s_nids_state a"
  "s_hash_index (set_half d h a) = s_hash_index a"
  by (cases d; simp)+

lemma set_chalf_simps [simp]: "chalf d (set_chalf d h c) = h" "chalf (other d) (set_chalf d h c) = chalf (other d) c"
  "chalf d (set_chalf (other d) h c) = chalf d c" "c_log (set_chalf d h c) = c_log c" "c_self (set_chalf d h c) = c_self c"
  "c_timeouts (set_chalf d h c) = c_timeouts c" "s_read (c_tcp (set_chalf d h c)) = s_read (c_tcp c)"
  "s_listeners (c_tcp (set_chalf d h c)) = s_listeners (c_tcp c)" "s_addr (c_tcp (set_chalf d h c)) = s_addr (c_tcp c)"
  "s_nids_state (c_tcp (set_chalf d h c)) = s_nids_state (c_tcp c)" "s_hash_index (c_tcp (set_chalf d h c)) = s_hash_index (c_tcp c)"
  by (simp_all add: set_chalf_def)

lemma sint_minus_of_int:
  assumes "0 \<le> n" "n \<le> sint (w :: u32)"
  shows "sint (w - of_int n) = sint w - n"
proof -
  have "w - of_int n = of_int (sint w - n)" by simp
  moreover have "sint w < 2147483648" using sint_lt [of w] by simp
  ultimately show ?thesis using assms sint_of_int_u32 [of "sint w - n"] by simp
qed

lemma pend_count_new [simp]: "pend (h\<lparr>h_count_new := k\<rparr>) = pend h"
  by (simp add: pend_def)

lemma consume_pend:
  assumes "consume n h = Some h'" and "n \<le> pend h"
  shows "pend h' = (if n > 0 then pend h - n else pend h)"
proof (cases "n > 0")
  case True
  then obtain b' where h': "h' = h\<lparr>h_data := Some b', h_offset := h_offset h + of_int n\<rparr>"
    using assms(1) by (auto simp: consume_def split: if_splits bind_splits)
  have "h_count h - (h_offset h + of_int n) = h_count h - h_offset h - of_int n" by simp
  then show ?thesis using True assms(2) sint_minus_of_int [of n "h_count h - h_offset h"] by (simp add: h' pend_def diff_diff_eq)
next
  case False
  then show ?thesis using assms(1) by (simp add: consume_def)
qed

lemma tell_data_core: "same_core c (tell_data env d c)" "s_read (c_tcp (tell_data env d c)) \<le> pend (chalf d c)"
  using ride_lurkers_core [where c = "c\<lparr>c_tcp := (c_tcp c)\<lparr>s_read := pend (chalf d c)\<rparr>\<rparr>" and env = env and msk = "data_mask d"]
  by (simp_all add: tell_data_def)

lemma notify_once_cases:
  assumes "notify_once env d c = Some c'"
  obtains k h' where "consume (s_read (c_tcp (tell_data env d c))) ((chalf d (tell_data env d c))\<lparr>h_count_new := k\<rparr>) = Some h'"
    and "c' = set_chalf d h' (tell_data env d c)"
    and "k = (if s_read (c_tcp (tell_data env d c)) > pend (chalf d c) - h_count_new (chalf d c)
              then pend (chalf d c) - s_read (c_tcp (tell_data env d c)) else h_count_new (chalf d c))"
proof -
  let ?c1 = "tell_data env d c"
  let ?k = "if s_read (c_tcp ?c1) > pend (chalf d c) - h_count_new (chalf d c)
              then pend (chalf d c) - s_read (c_tcp ?c1) else h_count_new (chalf d c)"
  have cn: "h_count_new (chalf d ?c1) = h_count_new (chalf d c)" using same_core_half(5) [OF tell_data_core(1)] .
  have "(if s_read (c_tcp ?c1) > pend (chalf d c) - h_count_new (chalf d ?c1)
     then (chalf d ?c1)\<lparr>h_count_new := pend (chalf d c) - s_read (c_tcp ?c1)\<rparr> else chalf d ?c1)
     = (chalf d ?c1)\<lparr>h_count_new := ?k\<rparr>" using cn by simp
  then obtain h' where "consume (s_read (c_tcp ?c1)) ((chalf d ?c1)\<lparr>h_count_new := ?k\<rparr>) = Some h'" "c' = set_chalf d h' ?c1"
    using assms by (auto simp: notify_once_def Let_def bind_eq_Some_conv)
  then show thesis using that by blast
qed

lemma notify_once_pend:
  assumes "notify_once env d c = Some c'"
  shows "s_read (c_tcp c') \<le> pend (chalf d c)"
    "pend (chalf d c') = (if s_read (c_tcp c') > 0 then pend (chalf d c) - s_read (c_tcp c') else pend (chalf d c))"
proof -
  let ?c1 = "tell_data env d c"
  obtain k h' where h': "consume (s_read (c_tcp ?c1)) ((chalf d ?c1)\<lparr>h_count_new := k\<rparr>) = Some h'"
    and c': "c' = set_chalf d h' ?c1"
    using assms by (rule notify_once_cases)
  have p: "pend (chalf d ?c1) = pend (chalf d c)" using same_core_half(15) [OF tell_data_core(1)] .
  show "s_read (c_tcp c') \<le> pend (chalf d c)" using tell_data_core(2) by (simp add: c')
  show "pend (chalf d c') = (if s_read (c_tcp c') > 0 then pend (chalf d c) - s_read (c_tcp c') else pend (chalf d c))"
    using consume_pend [OF h'] tell_data_core(2) [of env d c] p by (simp add: c')
qed

function notify_loop :: "tcp_env \<Rightarrow> side \<Rightarrow> conn \<Rightarrow> conn option" where
  "notify_loop env d c =
     (case notify_once env d c of None \<Rightarrow> None
      | Some c' \<Rightarrow>
          if one_loop_less (te_prm env) \<noteq> 0 \<and> s_read (c_tcp c') > 0 \<and> h_count_new (chalf d c') \<noteq> 0
          then notify_loop env d c' else Some c')"
  by pat_completeness auto

text \<open>Every iteration that is followed by another removes at least one byte from the buffer.\<close>

termination notify_loop
proof (relation "measure (\<lambda>(env, d, c). nat (pend (chalf d c)))", goal_cases)
  case (2 env d c c')
  then show ?case using notify_once_pend [OF 2(1)] by simp
qed simp

declare notify_loop.simps [simp del]

definition notify :: "tcp_env \<Rightarrow> side \<Rightarrow> conn \<Rightarrow> conn option" where
  "notify env d c =
     (if h_count_new_urg (chalf d c) then
        (if h_collect_urg (chalf d c) = 0 then Some c
         else Some (prune_listeners (ride_lurkers env (urg_mask d) c)))
      else if h_collect (chalf d c) \<noteq> 0 then do {
        c' \<leftarrow> notify_loop env d c;
        Some (prune_listeners (set_chalf d ((chalf d c')\<lparr>h_count_new := 0\<rparr>) c')) }
      else Some (prune_listeners c))"

section \<open>Delivery of a segment\<close>

text \<open>\<open>d\<close> is the receiving half \<open>rcv\<close>; \<open>snd\<close> is the other one.\<close>

definition EXP_SEQ :: "side \<Rightarrow> tcp_stream \<Rightarrow> u32" where
  "EXP_SEQ d a = h_first_data_seq (half (other d) a) + h_count (half d a) + h_urg_count (half d a)"

text \<open>The bytes \<open>off .. off + n - 1\<close> of the segment.\<close>

definition slice :: "bytes \<Rightarrow> int \<Rightarrow> int \<Rightarrow> bytes option" where
  "slice b off n = (if 0 \<le> off \<and> 0 \<le> n \<and> off + n \<le> int (length b) then Some (take (nat n) (drop (nat off) b)) else None)"

text \<open>The block that collects \<open>n\<close> bytes at \<open>off\<close>, or skips them when nobody collects.\<close>

definition deliver :: "tcp_env \<Rightarrow> side \<Rightarrow> bytes \<Rightarrow> int \<Rightarrow> int \<Rightarrow> conn \<Rightarrow> conn option" where
  "deliver env d seg off n c =
     (let h = chalf d c in
      if h_collect h \<noteq> 0 then do {
        xs \<leftarrow> slice seg off n;
        h' \<leftarrow> add2buf (te_fill env) xs h;
        notify env d (set_chalf d h' c) }
      else Some (set_chalf d (h\<lparr>h_count := h_count h + of_int n, h_offset := h_count h + of_int n\<rparr>) c))"

definition note_urgent :: "side \<Rightarrow> bool \<Rightarrow> u32 \<Rightarrow> conn \<Rightarrow> conn" where
  "note_urgent d urg urg_ptr c =
     (let h = chalf d c in
      if urg \<and> after urg_ptr (EXP_SEQ d (c_tcp c) - 1) \<and> (\<not> h_urg_seen h \<or> after urg_ptr (h_urg_ptr h))
      then set_chalf d (h\<lparr>h_urg_ptr := urg_ptr, h_urg_seen := True\<rparr>) c else c)"

text \<open>The branch that meets the urgent byte: the bytes before it, the byte itself, the bytes after it.\<close>

definition deliver_urgent :: "tcp_env \<Rightarrow> side \<Rightarrow> bytes \<Rightarrow> u32 \<Rightarrow> u32 \<Rightarrow> conn \<Rightarrow> conn option" where
  "deliver_urgent env d seg this_seq lost c = do {
     let to_copy = sint (h_urg_ptr (chalf d c) - (this_seq + lost));
     c1 \<leftarrow> (if to_copy > 0 then deliver env d seg (uint lost) to_copy c else Some c);
     let h1 = chalf d c1;
     u \<leftarrow> rd8 seg (unat (h_urg_ptr h1 - this_seq));
     c2 \<leftarrow> notify env d (set_chalf d (h1\<lparr>h_urgdata := u, h_count_new_urg := True\<rparr>) c1);
     let h2 = chalf d c2;
     let c3 = set_chalf d (h2\<lparr>h_count_new_urg := False, h_urg_seen := False, h_urg_count := h_urg_count h2 + 1\<rparr>) c2;
     let to_copy2 = sint (this_seq + of_nat (length seg) - h_urg_ptr h2 - 1);
     if to_copy2 > 0 then deliver env d seg (uint lost + to_copy + 1) to_copy2 c3 else Some c3 }"

definition add_from_skb :: "tcp_env \<Rightarrow> side \<Rightarrow> bytes \<Rightarrow> u32 \<Rightarrow> bool \<Rightarrow> bool \<Rightarrow> u32 \<Rightarrow> conn \<Rightarrow> conn option" where
  "add_from_skb env d seg this_seq fin urg urg_ptr c = do {
     let lost = EXP_SEQ d (c_tcp c) - this_seq;
     let c1 = note_urgent d urg urg_ptr c;
     let h = chalf d c1;
     let datalen = of_nat (length seg);
     c2 \<leftarrow> (if h_urg_seen h \<and> after (h_urg_ptr h + 1) (this_seq + lost) \<and> before (h_urg_ptr h) (this_seq + datalen)
           then deliver_urgent env d seg this_seq lost c1
           else if datalen - lost \<noteq> 0 then deliver env d seg (uint lost) (sint (datalen - lost)) c1
           else Some c1);
     if fin then
       let c3 = set_chalf (other d) ((chalf (other d) c2)\<lparr>h_state := FIN_SENT\<rparr>) c2 in
       Some (if h_state (chalf d c3) = TCP_CLOSING
             then c3\<lparr>c_timeouts := add_tcp_closing_timeout env (c_self c3) (c_timeouts c3)\<rparr> else c3)
     else Some c2 }"

section \<open>The queue of early segments\<close>

definition seq_end :: "u32 \<Rightarrow> nat \<Rightarrow> bool \<Rightarrow> u32" where
  "seq_end sq n fin = sq + of_nat n + (if fin then 1 else 0)"

text \<open>The loop over \<open>rcv->list\<close>: its argument is the list, whose first element it removes.\<close>

fun drain :: "tcp_env \<Rightarrow> side \<Rightarrow> skbuff list \<Rightarrow> conn \<Rightarrow> conn option" where
  "drain env d [] c = Some c"
| "drain env d (pakiet # r) c =
     (if after (p_seq pakiet) (EXP_SEQ d (c_tcp c)) then Some c
      else (case (if after (seq_end (p_seq pakiet) (length (p_data pakiet)) (p_fin pakiet)) (EXP_SEQ d (c_tcp c))
                  then add_from_skb env d (p_data pakiet) (p_seq pakiet) (p_fin pakiet) (p_urg pakiet)
                         (p_urg_ptr pakiet + p_seq pakiet - 1) c
                  else Some c) of
              None \<Rightarrow> None
            | Some c1 \<Rightarrow>
                drain env d r (set_chalf d ((chalf d c1)\<lparr>h_rmem_alloc := h_rmem_alloc (chalf d c1) - p_truesize pakiet,
                                                        h_list := r\<rparr>) c1)))"

text \<open>The walk from \<open>listtail\<close> along \<open>prev\<close>, on the reversed list.\<close>

fun insert_back :: "skbuff \<Rightarrow> skbuff list \<Rightarrow> skbuff list" where
  "insert_back pakiet [] = [pakiet]"
| "insert_back pakiet (p # r) = (if after (p_seq p) (p_seq pakiet) then p # insert_back pakiet r else pakiet # p # r)"

definition insert_skb :: "skbuff \<Rightarrow> skbuff list \<Rightarrow> skbuff list" where
  "insert_skb pakiet l = rev (insert_back pakiet (rev l))"

definition enqueue :: "tcp_env \<Rightarrow> side \<Rightarrow> skbuff \<Rightarrow> conn \<Rightarrow> conn" where
  "enqueue env d pakiet c =
     (let h = chalf d c;
          c1 = set_chalf d (h\<lparr>h_rmem_alloc := h_rmem_alloc h + p_truesize pakiet\<rparr>) c;
          c2 = (if p_fin pakiet then
                  let c' = set_chalf (other d) ((chalf (other d) c1)\<lparr>h_state := TCP_CLOSING\<rparr>) c1 in
                  if h_state (chalf d c') = FIN_SENT \<or> h_state (chalf d c') = FIN_CONFIRMED
                  then c'\<lparr>c_timeouts := add_tcp_closing_timeout env (c_self c') (c_timeouts c')\<rparr> else c'
                else c1)
      in set_chalf d ((chalf d c2)\<lparr>h_list := insert_skb pakiet (h_list (chalf d c2))\<rparr>) c2)"

definition tcp_queue :: "tcp_env \<Rightarrow> side \<Rightarrow> tcphdr \<Rightarrow> bytes \<Rightarrow> int \<Rightarrow> conn \<Rightarrow> conn option" where
  "tcp_queue env d th seg skblen c =
     (let this_seq = th_seq th; es = EXP_SEQ d (c_tcp c) in
      if \<not> after this_seq es then
        (if after (seq_end this_seq (length seg) (th_fin th)) es then do {
           (_, ts) \<leftarrow> get_ts th (h_curr_ts (chalf (other d) c));
           let c1 = set_chalf (other d) ((chalf (other d) c)\<lparr>h_curr_ts := ts\<rparr>) c;
           c2 \<leftarrow> add_from_skb env d seg this_seq (th_fin th) (th_urg th) (ucast (th_urg_ptr th) + this_seq - 1) c1;
           drain env d (h_list (chalf d c2)) c2 }
         else Some c)
      else Some (enqueue env d \<lparr>p_data = seg, p_truesize = skblen, p_urg_ptr = ucast (th_urg_ptr th), p_fin = th_fin th,
                                p_urg = th_urg th, p_seq = this_seq\<rparr> c))"

definition prune_queue :: "side \<Rightarrow> conn \<Rightarrow> conn" where
  "prune_queue d c =
     set_chalf d ((chalf d c)\<lparr>h_list := [], h_rmem_alloc := 0\<rparr>)
       (c\<lparr>c_log := c_log c @ [Syslog NIDS_WARN_TCP NIDS_WARN_TCP_BIGQUEUE]\<rparr>)"

definition handle_ack :: "u32 \<Rightarrow> half_stream \<Rightarrow> half_stream" where
  "handle_ack acknum h = (if sint (acknum - h_ack_seq h) > 0 then h\<lparr>h_ack_seq := acknum\<rparr> else h)"

end
