(* ===== verification/Tcp_Buf.thy ===== *)
theory Tcp_Buf
  imports Tcp_Queue
begin

text \<open>
  The receive buffer of a half stream.  \<open>buf_wf\<close> is its invariant (the unread bytes lie inside the
  block of \<open>bufsize\<close> bytes) and \<open>buffered\<close> the unread bytes; \<open>add2buf\<close> appends to them, \<open>consume\<close>
  removes a prefix, and the notification loop keeps the invariant.  The interface is the locale
  \<open>byte_queue\<close>, interpreted on the code's two operations.
\<close>

definition buf_wf :: "half_stream \<Rightarrow> bool" where
  "buf_wf h \<longleftrightarrow> 0 \<le> pend h \<and> pend h \<le> h_bufsize h \<and> h_bufsize h < 2147483648 \<and>
     (case h_data h of None \<Rightarrow> h_bufsize h = 0 | Some b \<Rightarrow> int (length b) = h_bufsize h)"

definition buffered :: "half_stream \<Rightarrow> bytes" where
  "buffered h = (case h_data h of None \<Rightarrow> [] | Some b \<Rightarrow> take (nat (pend h)) b)"

lemma length_buffered: "buf_wf h \<Longrightarrow> int (length (buffered h)) = pend h"
  by (auto simp: buf_wf_def buffered_def split: option.splits)

section \<open>Appending\<close>

text \<open>The most that may wait in a buffer before a segment of at most 65535 bytes is appended.\<close>

definition keep_max :: int where "keep_max = 536870912"

lemma length_grow: "grow fill b n = Some b' \<Longrightarrow> int (length b') = n \<and> (int (length b) \<le> n \<longrightarrow> take (length b) b' = b)"
  by (auto simp: grow_def split: if_splits)

lemma make_room_new:
  assumes "h_data h = None" and "h_bufsize h = 0" and "pend h = 0" and "0 < n" and "n \<le> 65535"
  shows "\<exists>b. make_room fill n h = Some (h\<lparr>h_data := Some b, h_bufsize := int (length b)\<rparr>) \<and> n \<le> int (length b) \<and> int (length b) \<le> 131070"
proof -
  define m where "m = (if n < 2048 then 4096 else i32 (n * 2))"
  have m: "n \<le> m" "m \<le> 131070" using assms by (auto simp: m_def i32_id)
  have "h_count h - h_offset h = of_int (pend h)" by (simp add: pend_def)
  then have "of_int n + h_count h - h_offset h = of_int n" using assms(3) by (simp add: algebra_simps)
  then have "sint (of_int n + h_count h - h_offset h) > h_bufsize h"
    using assms sint_of_int_u32 [of n] by simp
  then have "make_room fill n h = do { b \<leftarrow> grow fill [] m; Some (h\<lparr>h_data := Some b, h_bufsize := m\<rparr>) }"
    using assms(1) by (simp add: make_room_def Let_def m_def)
  moreover have "grow fill [] m = Some (replicate (nat m) fill)" using m assms by (simp add: grow_def)
  ultimately show ?thesis using m assms by (intro exI [of _ "replicate (nat m) fill"]) simp
qed

lemma add_pend:
  assumes "0 \<le> n" and "n \<le> 65535" and "0 \<le> pend h" and "pend h \<le> keep_max + 65535"
  shows "sint (of_int n + h_count h - h_offset h) = n + pend h"
proof -
  have "of_int n + h_count h - h_offset h = of_int (n + pend h)" by (simp add: pend_def)
  then show ?thesis using assms sint_of_int_u32 [of "n + pend h"] by (simp only: keep_max_def)
qed

lemma make_room_ok:
  assumes "buf_wf h" and "pend h \<le> keep_max" and "0 < n" and "n \<le> 65535"
  shows "\<exists>b. make_room fill n h = Some (h\<lparr>h_data := Some b, h_bufsize := int (length b)\<rparr>) \<and>
    pend h + n \<le> int (length b) \<and> int (length b) < 2147483648 \<and> take (nat (pend h)) b = buffered h"
proof (cases "h_data h")
  case None
  then have "h_bufsize h = 0" "pend h = 0" using assms(1) by (auto simp: buf_wf_def)
  then show ?thesis using make_room_new [OF None, of n fill] assms None by (auto simp: buffered_def)
next
  case (Some old)
  have wf: "0 \<le> pend h" "pend h \<le> h_bufsize h" "h_bufsize h < 2147483648" "int (length old) = h_bufsize h"
    using assms(1) Some by (auto simp: buf_wf_def)
  have need: "sint (of_int n + h_count h - h_offset h) = n + pend h" using add_pend [of n h] assms wf by simp
  show ?thesis
  proof (cases "n + pend h > h_bufsize h")
    case True
    define m where "m = (if n < h_bufsize h then i32 (2 * h_bufsize h) else i32 (h_bufsize h + 2 * n))"
    have "h_bufsize h < keep_max + 65535" using True assms by linarith
    then have m: "m = (if n < h_bufsize h then 2 * h_bufsize h else h_bufsize h + 2 * n)" "m < 2147483648"
      using wf assms by (auto simp: m_def i32_id keep_max_def)
    then have ge: "n + pend h \<le> m" "h_bufsize h \<le> m" using wf assms by auto
    have g: "grow fill old m = Some (take (nat m) old @ replicate (nat m - length old) fill)" (is "_ = Some ?b")
      using ge wf by (simp add: grow_def)
    have "make_room fill n h = Some (h\<lparr>h_data := Some ?b, h_bufsize := m\<rparr>)"
      using True need Some g by (simp add: make_room_def Let_def m_def [symmetric])
    moreover have "int (length ?b) = m" "take (nat (pend h)) ?b = take (nat (pend h)) old"
      using ge wf by (auto simp: take_append)
    ultimately show ?thesis using ge m Some by (intro exI [of _ ?b]) (simp add: buffered_def)
  next
    case False
    then have "make_room fill n h = Some h" using need by (simp add: make_room_def)
    moreover have "h = h\<lparr>h_data := Some old, h_bufsize := int (length old)\<rparr>" using Some wf by (cases h) simp
    ultimately show ?thesis using False wf Some by (intro exI [of _ old]) (auto simp: buffered_def)
  qed
qed

lemma add2buf_ok:
  assumes "buf_wf h" and "pend h \<le> keep_max" and "xs \<noteq> []" and "length xs \<le> 65535"
  shows "\<exists>b. add2buf fill xs h = Some (h\<lparr>h_data := Some b, h_bufsize := int (length b), h_count_new := int (length xs),
                                       h_count := h_count h + of_nat (length xs)\<rparr>) \<and>
    pend h + int (length xs) \<le> int (length b) \<and> int (length b) < 2147483648 \<and>
    take (nat (pend h + int (length xs))) b = buffered h @ xs"
proof -
  have n: "0 < int (length xs)" "int (length xs) \<le> 65535" using assms by simp_all
  obtain b where r: "make_room fill (int (length xs)) h = Some (h\<lparr>h_data := Some b, h_bufsize := int (length b)\<rparr>)"
    and b: "pend h + int (length xs) \<le> int (length b)" "int (length b) < 2147483648" "take (nat (pend h)) b = buffered h"
    using make_room_ok [OF assms(1,2) n] by blast
  define q where "q = nat (pend h)"
  have q: "pend h = int q" using assms(1) by (simp add: buf_wf_def q_def)
  have p: "pend (h\<lparr>h_data := Some b, h_bufsize := int (length b)\<rparr>) = pend h" by (simp add: pend_def)
  have len: "q + length xs \<le> length b" using b(1) q by linarith
  define b' where "b' = take q b @ xs @ drop (q + length xs) b"
  have w: "wr b q xs = Some b'" using wr_in [OF len] by (simp add: b'_def)
  have lb: "length b' = length b" using w by (rule length_wr)
  have "take (q + length xs) b' = buffered h @ xs" using len b(3) [folded q_def] by (simp add: b'_def flip: b(3) [folded q_def])
  moreover have "nat (int q + int (length xs)) = q + length xs" by simp
  moreover have "add2buf fill xs h = Some (h\<lparr>h_data := Some b', h_bufsize := int (length b'), h_count_new := int (length xs),
                                       h_count := h_count h + of_nat (length xs)\<rparr>)"
    using r w p q lb by (simp add: add2buf_def Let_def)
  ultimately show ?thesis using b q lb by (intro exI [of _ b']) simp
qed

section \<open>Consuming\<close>

lemma consume_ok:
  assumes "buf_wf h" and "n \<le> pend h"
  shows "\<exists>h'. consume n h = Some h' \<and> buf_wf h' \<and> buffered h' = drop (nat n) (buffered h) \<and>
    (\<exists>b f. h' = h\<lparr>h_data := b, h_offset := f\<rparr>)"
proof (cases "n > 0")
  case True
  have wf: "0 \<le> pend h" "pend h \<le> h_bufsize h" "h_bufsize h < 2147483648" using assms(1) by (simp_all add: buf_wf_def)
  obtain b where b: "h_data h = Some b" using assms True by (cases "h_data h") (auto simp: buf_wf_def)
  then have lb: "int (length b) = h_bufsize h" using assms(1) by (simp add: buf_wf_def)
  define k m where "k = nat n" and "m = nat (pend h - n)"
  have km: "pend h = int k + int m" "n = int k" using True assms(2) by (simp_all add: k_def m_def)
  have le: "k + m \<le> length b" using km lb wf by linarith
  define h' where "h' = h\<lparr>h_data := Some (take m (drop k b) @ drop m b), h_offset := h_offset h + of_int n\<rparr>"
  have c: "consume n h = Some h'"
    using True assms(2) b le by (simp add: consume_def move_down_def k_def [symmetric] m_def [symmetric] h'_def)
  have p: "pend h' = int m" using consume_pend [OF c assms(2)] True km by simp
  have "buf_wf h'" using p km wf lb le by (simp add: buf_wf_def h'_def)
  moreover have "buffered h' = drop (nat n) (buffered h)"
    using p b le km by (simp add: buffered_def h'_def drop_take nat_add_distrib)
  ultimately show ?thesis using c by (auto simp: h'_def)
next
  case False
  moreover have "\<exists>b f. h = h\<lparr>h_data := b, h_offset := f\<rparr>" by (intro exI [of _ "h_data h"] exI [of _ "h_offset h"]) simp
  ultimately show ?thesis using assms(1) by (auto simp: consume_def)
qed

section \<open>The interface\<close>

text \<open>A history of a buffer: appended blocks and consumed lengths; the result is the buffer and the consumed bytes.\<close>

datatype buf_op = Append bytes | Consume nat

fun buf_run :: "(bytes \<Rightarrow> 'h \<Rightarrow> 'h option) \<Rightarrow> (nat \<Rightarrow> 'h \<Rightarrow> 'h option) \<Rightarrow> ('h \<Rightarrow> bytes) \<Rightarrow> buf_op list \<Rightarrow> 'h \<Rightarrow> ('h \<times> bytes) option" where
  "buf_run app del cont [] h = Some (h, [])"
| "buf_run app del cont (Append xs # r) h = do { h' \<leftarrow> app xs h; buf_run app del cont r h' }"
| "buf_run app del cont (Consume n # r) h = do {
     h' \<leftarrow> del n h; (h'', ys) \<leftarrow> buf_run app del cont r h'; Some (h'', take n (cont h) @ ys) }"

text \<open>The histories of the code: \<open>n\<close> bytes are unread, a segment has 1 to 65535 bytes, no more is consumed than is there.\<close>

fun buf_ops_ok :: "nat \<Rightarrow> buf_op list \<Rightarrow> bool" where
  "buf_ops_ok n [] \<longleftrightarrow> True"
| "buf_ops_ok n (Append xs # r) \<longleftrightarrow> xs \<noteq> [] \<and> length xs \<le> 65535 \<and> int n \<le> keep_max \<and> buf_ops_ok (n + length xs) r"
| "buf_ops_ok n (Consume k # r) \<longleftrightarrow> k \<le> n \<and> buf_ops_ok (n - k) r"

fun appended :: "buf_op list \<Rightarrow> bytes" where
  "appended [] = []"
| "appended (Append xs # r) = xs @ appended r"
| "appended (Consume n # r) = appended r"

locale byte_queue =
  fixes wf :: "'h \<Rightarrow> bool" and cont :: "'h \<Rightarrow> bytes"
    and app :: "bytes \<Rightarrow> 'h \<Rightarrow> 'h option" and del :: "nat \<Rightarrow> 'h \<Rightarrow> 'h option"
  assumes app_law: "wf h \<Longrightarrow> int (length (cont h)) \<le> keep_max \<Longrightarrow> xs \<noteq> [] \<Longrightarrow> length xs \<le> 65535 \<Longrightarrow>
      \<exists>h'. app xs h = Some h' \<and> wf h' \<and> cont h' = cont h @ xs"
    and del_law: "wf h \<Longrightarrow> n \<le> length (cont h) \<Longrightarrow> \<exists>h'. del n h = Some h' \<and> wf h' \<and> cont h' = drop n (cont h)"
begin

lemma fifo:
  "wf h \<Longrightarrow> buf_ops_ok (length (cont h)) ops \<Longrightarrow>
   \<exists>h' ys. buf_run app del cont ops h = Some (h', ys) \<and> wf h' \<and> ys @ cont h' = cont h @ appended ops"
proof (induction ops arbitrary: h)
  case (Cons e ops)
  show ?case
  proof (cases e)
    case (Append xs)
    then obtain h1 where h1: "app xs h = Some h1" "wf h1" "cont h1 = cont h @ xs"
      using app_law [of h xs] Cons.prems by auto
    then show ?thesis using Cons.IH [of h1] Cons.prems Append by auto
  next
    case (Consume n)
    then obtain h1 where h1: "del n h = Some h1" "wf h1" "cont h1 = drop n (cont h)"
      using del_law [of h n] Cons.prems by auto
    then obtain h' ys where r: "buf_run app del cont ops h1 = Some (h', ys)" "wf h'" "ys @ cont h' = drop n (cont h) @ appended ops"
      using Cons.IH [of h1] Cons.prems Consume by auto
    have "(take n (cont h) @ ys) @ cont h' = cont h @ appended ops"
      using r(3) append_take_drop_id [of n "cont h"] by (metis append_assoc)
    then show ?thesis using r h1 Consume by simp
  qed
qed simp

end

lemma buf_wf_add2buf:
  assumes "buf_wf h" and "pend h \<le> keep_max" and "xs \<noteq> []" and "length xs \<le> 65535"
  shows "\<exists>h'. add2buf fill xs h = Some h' \<and> buf_wf h' \<and> buffered h' = buffered h @ xs \<and> pend h' = pend h + int (length xs)"
proof -
  obtain b where a: "add2buf fill xs h = Some (h\<lparr>h_data := Some b, h_bufsize := int (length b), h_count_new := int (length xs),
                                       h_count := h_count h + of_nat (length xs)\<rparr>)" (is "_ = Some ?h'")
    and b: "pend h + int (length xs) \<le> int (length b)" "int (length b) < 2147483648"
      "take (nat (pend h + int (length xs))) b = buffered h @ xs"
    using add2buf_ok [OF assms] by blast
  have "pend ?h' = pend h + int (length xs)"
    using add_pend [of "int (length xs)" h] assms by (simp add: pend_def buf_wf_def algebra_simps keep_max_def)
  then show ?thesis using a b assms(1) by (auto simp: buf_wf_def buffered_def)
qed

interpretation rcvbuf: byte_queue buf_wf buffered "add2buf fill" "\<lambda>n. consume (int n)" for fill
proof
  fix h :: half_stream and xs :: bytes and n :: nat
  show "\<exists>h'. add2buf fill xs h = Some h' \<and> buf_wf h' \<and> buffered h' = buffered h @ xs"
    if "buf_wf h" "int (length (buffered h)) \<le> keep_max" "xs \<noteq> []" "length xs \<le> 65535"
    using buf_wf_add2buf [of h xs fill] that length_buffered [of h] by auto
  show "\<exists>h'. consume (int n) h = Some h' \<and> buf_wf h' \<and> buffered h' = drop n (buffered h)"
    if "buf_wf h" "n \<le> length (buffered h)"
    using consume_ok [of h "int n"] that length_buffered [of h] by auto
qed

text \<open>
  C9.  The receive buffer of a half stream is a queue of bytes: whatever segments are appended by
  \<open>add2buf\<close> (growing the block by \<open>malloc\<close> and \<open>realloc\<close> as needed) and whatever the listeners consume
  in between, no access leaves the block, and the bytes consumed followed by the bytes still
  unread are the bytes appended, in order.
\<close>

theorem receive_buffer_fifo:
  assumes "buf_wf h" and "buf_ops_ok (length (buffered h)) ops"
  shows "\<exists>h' ys. buf_run (add2buf fill) (\<lambda>n. consume (int n)) buffered ops h = Some (h', ys) \<and> buf_wf h' \<and>
    ys @ buffered h' = buffered h @ appended ops"
  using assms by (rule rcvbuf.fifo)

lemma buf_wf_zero: "buf_wf (zero_half st)" "buffered (zero_half st) = []"
  by (simp_all add: buf_wf_def zero_half_def pend_def buffered_def)

theorem receive_buffer_fifo_witness:
  "\<exists>h' ys. buf_run (add2buf 0) (\<lambda>n. consume (int n)) buffered [Append [1, 2, 3], Consume 2, Append [4]] (zero_half TCP_ESTABLISHED)
      = Some (h', ys) \<and> buf_wf h' \<and> ys @ buffered h' = [1, 2, 3, 4]"
  using receive_buffer_fifo [of "zero_half TCP_ESTABLISHED" "[Append [1, 2, 3], Consume 2, Append [4]]" 0]
  by (simp add: buf_wf_zero keep_max_def del: buf_run.simps)

section \<open>Notification\<close>

text \<open>Listeners that leave at most \<open>n\<close> bytes of a direction unread.\<close>

definition keeps_at_most :: "tcp_env \<Rightarrow> int \<Rightarrow> bool" where
  "keeps_at_most env n \<longleftrightarrow>
     (\<forall>item log a dat d. \<forall>k \<in> set (r_discards (te_cb env item log a dat)). pend (half d a) - n \<le> k)"

lemma fold_discard_ge: "(\<And>k. k \<in> set ns \<Longrightarrow> m \<le> k) \<Longrightarrow> m \<le> s_read a \<Longrightarrow> m \<le> s_read (fold nids_discard ns a)"
proof (induction ns arbitrary: a)
  case (Cons k ns)
  then have "m \<le> s_read (nids_discard k a)" by (simp add: nids_discard_def)
  then show ?case using Cons by simp
qed simp

lemma call_item_read:
  assumes "keeps_at_most env n" and "pend (chalf d c) - n \<le> s_read (c_tcp c)"
  shows "pend (chalf d c) - n \<le> s_read (c_tcp (snd (call_item env item dat c)))"
proof -
  let ?r = "te_cb env item (c_log c) (c_tcp c) dat"
  have "\<And>k. k \<in> set (r_discards ?r) \<Longrightarrow> pend (chalf d c) - n \<le> k" using assms(1) by (simp add: keeps_at_most_def)
  moreover have "s_read (set_collect ?r (c_tcp c)) = s_read (c_tcp c)" by (simp add: set_collect_def)
  ultimately show ?thesis using assms(2) fold_discard_ge [of "r_discards ?r" "pend (chalf d c) - n" "set_collect ?r (c_tcp c)"]
    by (simp add: call_item_def Let_def)
qed

lemma ride_each_read:
  assumes "keeps_at_most env n"
  shows "pend (chalf d c) - n \<le> s_read (c_tcp c) \<Longrightarrow> pend (chalf d c) - n \<le> s_read (c_tcp (ride_each env msk told ls c))"
proof (induction ls arbitrary: told c)
  case (Cons l r)
  show ?case
  proof (cases "l_whatto l AND msk \<noteq> 0")
    case True
    let ?c1 = "c\<lparr>c_tcp := (c_tcp c)\<lparr>s_listeners := told @ l # r\<rparr>\<rparr>"
    obtain dt c' where ci: "call_item env (l_item l) (l_data l) ?c1 = (dt, c')" by fastforce
    have core: "same_core c c'" using call_item_core(1) [where c = ?c1 and env = env and item = "l_item l" and dat = "l_data l"] ci by simp
    have "pend (chalf d c) - n \<le> s_read (c_tcp c')"
      using call_item_read [OF assms, where c = ?c1 and d = d and item = "l_item l" and dat = "l_data l"] ci Cons.prems by simp
    then show ?thesis
      using Cons.IH [where c = c' and told = "told @ [l\<lparr>l_data := dt, l_whatto := new_whatto (c_tcp ?c1) (c_tcp c') (l_whatto l)\<rparr>]"]
        True ci same_core_half(15) [OF core] by simp
  next
    case False
    then show ?thesis using Cons by simp
  qed
qed simp

lemma tell_data_read: "keeps_at_most env n \<Longrightarrow> 0 \<le> n \<Longrightarrow> pend (chalf d c) - n \<le> s_read (c_tcp (tell_data env d c))"
  using ride_each_read [where c = "c\<lparr>c_tcp := (c_tcp c)\<lparr>s_read := pend (chalf d c)\<rparr>\<rparr>" and env = env and msk = "data_mask d" and n = n and d = d]
  by (simp add: tell_data_def ride_lurkers_def)

text \<open>The fields of a half that delivery changes: its buffer and what callbacks may set.\<close>

definition rest_half :: "half_stream \<Rightarrow> half_stream" where
  "rest_half h = h\<lparr>h_collect := 0, h_collect_urg := 0, h_data := None, h_bufsize := 0, h_offset := 0, h_count_new := 0\<rparr>"

lemma rest_half_eqD:
  assumes "rest_half h = rest_half k"
  shows "h_state h = h_state k" "h_count h = h_count k" "h_rmem_alloc h = h_rmem_alloc k"
    "h_urg_count h = h_urg_count k" "h_first_data_seq h = h_first_data_seq k"
    "h_count_new_urg h = h_count_new_urg k" "h_urg_seen h = h_urg_seen k" "h_urg_ptr h = h_urg_ptr k"
    "h_list h = h_list k" "h_wscale h = h_wscale k"
  using assms by (cases h; cases k; simp add: rest_half_def)+

lemma rest_core: "core_half h = core_half k \<Longrightarrow> rest_half h = rest_half k"
  by (cases h; cases k; simp add: rest_half_def core_half_def)

lemma rest_half_upd [simp]: "rest_half (h\<lparr>h_count_new := n\<rparr>) = rest_half h" "rest_half (h\<lparr>h_data := b\<rparr>) = rest_half h"
  "rest_half (h\<lparr>h_offset := f\<rparr>) = rest_half h" "rest_half (h\<lparr>h_bufsize := m\<rparr>) = rest_half h"
  by (cases h; simp add: rest_half_def)+

text \<open>The connection after a notification of half \<open>d\<close>.\<close>

definition told :: "side \<Rightarrow> conn \<Rightarrow> conn \<Rightarrow> bool" where
  "told d c c' \<longleftrightarrow> rest_half (chalf d c') = rest_half (chalf d c) \<and>
     core_half (chalf (other d) c') = core_half (chalf (other d) c) \<and>
     s_addr (c_tcp c') = s_addr (c_tcp c) \<and> s_nids_state (c_tcp c') = s_nids_state (c_tcp c) \<and>
     s_hash_index (c_tcp c') = s_hash_index (c_tcp c) \<and> c_self c' = c_self c \<and> c_timeouts c' = c_timeouts c"

lemma told_trans: "told d a b \<Longrightarrow> told d b c \<Longrightarrow> told d a c"
  by (simp add: told_def)

lemma told_core: "same_core c c' \<Longrightarrow> told d c c'"
  using rest_core [OF same_coreD, of c c' d] by (simp add: told_def same_core_def)

lemma told_half:
  assumes "told d c c'"
  shows "rest_half (chalf d c') = rest_half (chalf d c)" "core_half (chalf (other d) c') = core_half (chalf (other d) c)"
  using assms by (simp_all add: told_def)

lemma told_set: "same_core c c1 \<Longrightarrow> rest_half h = rest_half (chalf d c) \<Longrightarrow> told d c (set_chalf d h c1)"
  using told_core [of c c1 d] by (simp add: told_def)

lemma buf_wf_core: "core_half h = core_half k \<Longrightarrow> buf_wf h = buf_wf k \<and> buffered h = buffered k"
  using core_half_eqD [of h k] by (simp add: buf_wf_def buffered_def cong: option.case_cong)

lemma buf_wf_count_new [simp]: "buf_wf (h\<lparr>h_count_new := n\<rparr>) = buf_wf h" "buffered (h\<lparr>h_count_new := n\<rparr>) = buffered h"
  by (simp_all add: buf_wf_def buffered_def cong: option.case_cong)

lemma notify_once_ok:
  assumes "buf_wf (chalf d c)"
  shows "\<exists>c'. notify_once env d c = Some c' \<and> told d c c' \<and> buf_wf (chalf d c') \<and>
    s_listeners (c_tcp c') = s_listeners (c_tcp (tell_data env d c)) \<and>
    s_read (c_tcp c') = s_read (c_tcp (tell_data env d c)) \<and> c_log c' = c_log (tell_data env d c) \<and>
    buffered (chalf d c') = drop (nat (s_read (c_tcp c'))) (buffered (chalf d c))"
proof -
  let ?c1 = "tell_data env d c"
  let ?h = "chalf d ?c1"
  let ?rd = "s_read (c_tcp ?c1)"
  define k where "k = (if ?rd > pend (chalf d c) - h_count_new ?h then pend (chalf d c) - ?rd else h_count_new ?h)"
  have core: "core_half ?h = core_half (chalf d c)" using tell_data_core(1) by (rule same_coreD)
  have "buf_wf (?h\<lparr>h_count_new := k\<rparr>)" "?rd \<le> pend (?h\<lparr>h_count_new := k\<rparr>)"
    using buf_wf_core [OF core] assms tell_data_core(2) [of env d c] core_half_eqD(15) [OF core] by simp_all
  then obtain h' b f where h': "consume ?rd (?h\<lparr>h_count_new := k\<rparr>) = Some h'" "buf_wf h'"
      "buffered h' = drop (nat ?rd) (buffered ?h)" "h' = ?h\<lparr>h_count_new := k, h_data := b, h_offset := f\<rparr>"
    using consume_ok [of "?h\<lparr>h_count_new := k\<rparr>" ?rd] by auto
  have "(if ?rd > pend (chalf d c) - h_count_new ?h then ?h\<lparr>h_count_new := pend (chalf d c) - ?rd\<rparr> else ?h) = ?h\<lparr>h_count_new := k\<rparr>"
    by (simp add: k_def)
  then have "notify_once env d c = Some (set_chalf d h' ?c1)" using h'(1) by (simp add: notify_once_def Let_def)
  moreover have "rest_half h' = rest_half (chalf d c)" using rest_core [OF core] by (simp add: h'(4))
  then have "told d c (set_chalf d h' ?c1)" using tell_data_core(1) by (intro told_set) simp_all
  ultimately show ?thesis using h' buf_wf_core [OF core] by simp
qed

lemma notify_once_keeps:
  assumes "keeps_at_most env n" and "0 \<le> n" and "notify_once env d c = Some c'"
  shows "pend (chalf d c') \<le> n"
proof -
  have "s_read (c_tcp c') = s_read (c_tcp (tell_data env d c))"
    using notify_once_cases [OF assms(3)] by (metis set_chalf_simps(7))
  then have "pend (chalf d c) - n \<le> s_read (c_tcp c')" using tell_data_read [OF assms(1,2)] by simp
  then show ?thesis using notify_once_pend(2) [OF assms(3)] by (simp split: if_splits)
qed

lemma notify_loop_ok:
  "keeps_at_most env n \<Longrightarrow> 0 \<le> n \<Longrightarrow> buf_wf (chalf d c) \<Longrightarrow>
   \<exists>c'. notify_loop env d c = Some c' \<and> told d c c' \<and> buf_wf (chalf d c') \<and> pend (chalf d c') \<le> n"
proof (induction env d c rule: notify_loop.induct)
  case (1 env d c)
  obtain c1 where c1: "notify_once env d c = Some c1" "told d c c1" "buf_wf (chalf d c1)"
    using notify_once_ok [OF "1.prems"(3)] by blast
  have p: "pend (chalf d c1) \<le> n" using notify_once_keeps [OF "1.prems"(1,2) c1(1)] .
  show ?case
  proof (cases "one_loop_less (te_prm env) \<noteq> 0 \<and> s_read (c_tcp c1) > 0 \<and> h_count_new (chalf d c1) \<noteq> 0")
    case True
    then obtain c' where "notify_loop env d c1 = Some c'" "told d c1 c'" "buf_wf (chalf d c')" "pend (chalf d c') \<le> n"
      using "1.IH" [OF c1(1) True "1.prems"(1,2) c1(3)] by blast
    then show ?thesis using True c1(1) told_trans [OF c1(2)] by (subst notify_loop.simps) auto
  next
    case False
    then show ?thesis using c1 p by (subst notify_loop.simps) auto
  qed
qed

lemma told_prune: "told d c c' \<Longrightarrow> told d c (prune_listeners c')"
  by (simp add: told_def prune_listeners_def)

lemma chalf_prune [simp]: "chalf d (prune_listeners c) = chalf d c" "c_log (prune_listeners c) = c_log c"
  by (simp_all add: prune_listeners_def)

lemma notify_data_ok:
  assumes "keeps_at_most env n" and "0 \<le> n" and "buf_wf (chalf d c)" and "\<not> h_count_new_urg (chalf d c)"
    and "h_collect (chalf d c) \<noteq> 0"
  shows "\<exists>c'. notify env d c = Some c' \<and> told d c c' \<and> buf_wf (chalf d c') \<and> pend (chalf d c') \<le> n \<and> h_count_new (chalf d c') = 0"
proof -
  obtain c1 where c1: "notify_loop env d c = Some c1" "told d c c1" "buf_wf (chalf d c1)" "pend (chalf d c1) \<le> n"
    using notify_loop_ok [OF assms(1-3)] by blast
  let ?c2 = "set_chalf d ((chalf d c1)\<lparr>h_count_new := 0\<rparr>) c1"
  have "told d c ?c2" using c1(2) by (simp add: told_def)
  then show ?thesis using assms c1 told_prune by (simp add: notify_def)
qed

lemma notify_urg_ok:
  assumes "h_count_new_urg (chalf d c)"
  shows "\<exists>c'. notify env d c = Some c' \<and> told d c c' \<and> core_half (chalf d c') = core_half (chalf d c)"
proof (cases "h_collect_urg (chalf d c) = 0")
  case True
  then show ?thesis using assms told_core [OF same_core_refl] by (simp add: notify_def)
next
  case False
  let ?c1 = "ride_lurkers env (urg_mask d) c"
  have "same_core c ?c1" by (rule ride_lurkers_core)
  then show ?thesis using assms False told_prune [OF told_core] same_coreD by (simp add: notify_def)
qed

end
