(* ===== verification/Tcp.thy ===== *)
theory Tcp
  imports Tcp_Queue Hash Scan Checksum
begin

text \<open>
  The connection tracker of \<open>src/libnids/tcp.c\<close>: the pool of streams with its hash table, the list by
  age, the free list and the timeouts, and the entry points \<open>process_tcp\<close>, \<open>process_icmp\<close>,
  \<open>tcp_check_timeouts\<close>, \<open>tcp_init\<close> and \<open>tcp_exit\<close>.

  A stream is its index in \<open>streams_pool\<close>.  A hash chain, the list by age (from \<open>tcp_latest\<close> along
  \<open>next_time\<close> to \<open>tcp_oldest\<close>) and the free list are the lists of the indices on them.  Messages to
  \<open>nids_params.syslog\<close> and calls of callbacks are appended to the log.
\<close>

section \<open>State\<close>

record tcp_state =
  tcp_stream_table :: "nat list list option"
  streams_pool :: "tcp_stream list"
  tcp_num :: int
  tcp_stream_table_size :: int
  max_stream :: int
  tcp_by_time :: "nat list"
  free_streams :: "nat list"
  nids_tcp_timeouts :: "(nat \<times> int) list"
  tcp_procs :: "nat list"
  tcp_hash :: hash_state
  tcp_log :: "tcp_event list"

definition tcp_syslog :: "nids_warn_type \<Rightarrow> nids_warn \<Rightarrow> tcp_state \<Rightarrow> tcp_state" where
  "tcp_syslog t w s = s\<lparr>tcp_log := tcp_log s @ [Syslog t w]\<rparr>"

text \<open>A stream taken out of the pool to work on it, and put back.\<close>

definition load :: "nat \<Rightarrow> tcp_state \<Rightarrow> conn option" where
  "load i s = (if i < length (streams_pool s)
     then Some \<lparr>c_self = i, c_tcp = streams_pool s ! i, c_timeouts = nids_tcp_timeouts s, c_log = tcp_log s\<rparr> else None)"

definition store :: "conn \<Rightarrow> tcp_state \<Rightarrow> tcp_state" where
  "store c s = s\<lparr>streams_pool := (streams_pool s)[c_self c := c_tcp c], nids_tcp_timeouts := c_timeouts c, tcp_log := c_log c\<rparr>"

definition nids_register_tcp :: "nat \<Rightarrow> tcp_state \<Rightarrow> tcp_state" where
  "nids_register_tcp x s = s\<lparr>tcp_procs := register_callback x (tcp_procs s)\<rparr>"

definition nids_unregister_tcp :: "nat \<Rightarrow> tcp_state \<Rightarrow> tcp_state" where
  "nids_unregister_tcp x s = s\<lparr>tcp_procs := unregister_callback x (tcp_procs s)\<rparr>"

section \<open>Releasing and finding streams\<close>

text \<open>A released stream keeps no block: its buffers, its queues and its listeners are freed.\<close>

definition released :: "tcp_stream \<Rightarrow> tcp_stream" where
  "released a = a\<lparr>s_server := (purge_queue (s_server a))\<lparr>h_data := None\<rparr>,
                  s_client := (purge_queue (s_client a))\<lparr>h_data := None\<rparr>, s_listeners := []\<rparr>"

definition nids_free_tcp_stream :: "tcp_env \<Rightarrow> nat \<Rightarrow> tcp_state \<Rightarrow> tcp_state option" where
  "nids_free_tcp_stream env i s = do {
     c \<leftarrow> load i s;
     table \<leftarrow> tcp_stream_table s;
     let h = s_hash_index (c_tcp c);
     if 0 \<le> h \<and> nat h < length table \<and> i \<in> set (table ! nat h) \<and> i \<in> set (tcp_by_time s)
     then Some (s\<lparr>nids_tcp_timeouts := del_tcp_closing_timeout env i (nids_tcp_timeouts s),
                  streams_pool := (streams_pool s)[i := released (c_tcp c)],
                  tcp_stream_table := Some (table[nat h := remove1 i (table ! nat h)]),
                  tcp_by_time := remove1 i (tcp_by_time s),
                  free_streams := i # free_streams s,
                  tcp_num := tcp_num s - 1\<rparr>)
     else None }"

definition mk_hash_index :: "tuple4 \<Rightarrow> tcp_state \<Rightarrow> int" where
  "mk_hash_index addr s =
     sint (mkhash (tcp_hash s) (t_saddr addr) (t_source addr) (t_daddr addr) (t_dest addr)) smod tcp_stream_table_size s"

text \<open>The chain of a tuple; \<open>None\<close> when the index is outside the table or the table is NULL.\<close>

definition chain_of :: "tuple4 \<Rightarrow> tcp_state \<Rightarrow> nat list option" where
  "chain_of addr s = do {
     table \<leftarrow> tcp_stream_table s;
     let h = mk_hash_index addr s;
     if 0 \<le> h \<and> nat h < length table then Some (table ! nat h) else None }"

definition nids_find_tcp_stream :: "tuple4 \<Rightarrow> tcp_state \<Rightarrow> nat option option" where
  "nids_find_tcp_stream addr s = do {
     chain \<leftarrow> chain_of addr s;
     Some (find (\<lambda>i. s_addr (streams_pool s ! i) = addr) chain) }"

text \<open>\<open>find_stream\<close> reads only the two ports of the TCP header.\<close>

definition find_ports :: "u16 \<Rightarrow> u16 \<Rightarrow> u32 \<Rightarrow> u32 \<Rightarrow> tcp_state \<Rightarrow> (nat \<times> bool) option option" where
  "find_ports sp dp src dst s = do {
     a \<leftarrow> nids_find_tcp_stream \<lparr>t_source = sp, t_dest = dp, t_saddr = src, t_daddr = dst\<rparr> s;
     case a of
       Some i \<Rightarrow> Some (Some (i, True))
     | None \<Rightarrow> do {
         b \<leftarrow> nids_find_tcp_stream \<lparr>t_source = dp, t_dest = sp, t_saddr = dst, t_daddr = src\<rparr> s;
         Some (map_option (\<lambda>i. (i, False)) b) } }"

definition find_stream :: "tcphdr \<Rightarrow> u32 \<Rightarrow> u32 \<Rightarrow> tcp_state \<Rightarrow> (nat \<times> bool) option option" where
  "find_stream th src dst s = find_ports (th_source th) (th_dest th) src dst s"

section \<open>New streams\<close>

definition evict_oldest :: "tcp_env \<Rightarrow> tcp_state \<Rightarrow> tcp_state option" where
  "evict_oldest env s =
     (if tcp_by_time s = [] then None
      else do {
        let oldest = last (tcp_by_time s);
        c \<leftarrow> load oldest s;
        s1 \<leftarrow> nids_free_tcp_stream env oldest (store (call_listeners env NIDS_TIMED_OUT c) s);
        Some (if h_state (s_client (c_tcp c)) \<noteq> TCP_SYN_SENT then tcp_syslog NIDS_WARN_TCP NIDS_WARN_TCP_TOOMUCH s1 else s1) })"

definition new_stream :: "tuple4 \<Rightarrow> int \<Rightarrow> tcphdr \<Rightarrow> tcp_stream option" where
  "new_stream addr hash_index th = do {
     (ts_on, ts) \<leftarrow> get_ts th 0;
     (wscale_on, ws) \<leftarrow> get_wscale th;
     Some \<lparr>s_addr = addr, s_nids_state = NIDS_NONE, s_listeners = [],
           s_client = (zero_half TCP_SYN_SENT)
             \<lparr>h_seq := th_seq th + 1, h_first_data_seq := th_seq th + 1, h_window := th_window th,
              h_ts_on := ts_on, h_curr_ts := ts, h_wscale_on := wscale_on, h_wscale := ws\<rparr>,
           s_server = zero_half TCP_CLOSE, s_hash_index = hash_index, s_read = 0\<rparr> }"

text \<open>\<open>None\<close> stands for the branch \<open>gdb me\<close> too: no free stream is left.\<close>

definition add_new_tcp :: "tcp_env \<Rightarrow> tcphdr \<Rightarrow> u32 \<Rightarrow> u32 \<Rightarrow> tcp_state \<Rightarrow> tcp_state option" where
  "add_new_tcp env th src dst s = do {
     let addr = \<lparr>t_source = th_source th, t_dest = th_dest th, t_saddr = src, t_daddr = dst\<rparr>;
     let h = mk_hash_index addr s;
     s1 \<leftarrow> (if tcp_num s > max_stream s then evict_oldest env s else Some s);
     (case free_streams s1 of [] \<Rightarrow> None
      | i # rest \<Rightarrow> do {
          table \<leftarrow> tcp_stream_table s1;
          a \<leftarrow> new_stream addr h th;
          if 0 \<le> h \<and> nat h < length table \<and> i < length (streams_pool s1)
          then Some (s1\<lparr>free_streams := rest, tcp_num := tcp_num s1 + 1, streams_pool := (streams_pool s1)[i := a],
                        tcp_stream_table := Some (table[nat h := i # table ! nat h]),
                        tcp_by_time := i # tcp_by_time s1\<rparr>)
          else None }) }"

section \<open>Segments of a known stream\<close>

text \<open>The answer to a SYN: the stream after it, when it is one.\<close>

definition syn_ack :: "bool \<Rightarrow> tcphdr \<Rightarrow> tcp_stream \<Rightarrow> tcp_stream option" where
  "syn_ack from_client th a =
     (if from_client \<or> h_state (s_client a) \<noteq> TCP_SYN_SENT \<or> h_state (s_server a) \<noteq> TCP_CLOSE \<or> \<not> th_ack th
         \<or> h_seq (s_client a) \<noteq> th_ack_seq th then Some a
      else do {
        let sv = (s_server a)\<lparr>h_state := TCP_SYN_RECV, h_seq := th_seq th + 1, h_first_data_seq := th_seq th + 1,
                              h_ack_seq := th_ack_seq th, h_window := th_window th\<rparr>;
        (sv1, cl1) \<leftarrow> (if h_ts_on (s_client a) then do {
                         (on, ts) \<leftarrow> get_ts th (h_curr_ts sv);
                         Some (sv\<lparr>h_ts_on := on, h_curr_ts := ts\<rparr>,
                               if on then s_client a else (s_client a)\<lparr>h_ts_on := False\<rparr>) }
                       else Some (sv\<lparr>h_ts_on := False\<rparr>, s_client a));
        (sv2, cl2) \<leftarrow> (if h_wscale_on cl1 then do {
                         (on, ws) \<leftarrow> get_wscale th;
                         Some (if on then (sv1\<lparr>h_wscale_on := True, h_wscale := ws\<rparr>, cl1)
                               else (sv1\<lparr>h_wscale_on := False, h_wscale := 1\<rparr>, cl1\<lparr>h_wscale_on := False, h_wscale := 1\<rparr>)) }
                       else Some (sv1\<lparr>h_wscale_on := False, h_wscale := 1\<rparr>, cl1));
        Some (a\<lparr>s_server := sv2, s_client := cl2\<rparr>) })"

text \<open>The segment lies in the window of its receiver; \<open>n\<close> is \<open>datalen\<close>.\<close>

definition in_window :: "tcphdr \<Rightarrow> int \<Rightarrow> half_stream \<Rightarrow> bool" where
  "in_window th n rcv \<longleftrightarrow>
     n = 0 \<and> th_seq th = h_ack_seq rcv \<or>
     before (th_seq th) (h_ack_seq rcv + ucast (h_window rcv) * h_wscale rcv) \<and>
     \<not> before (th_seq th + of_int n) (h_ack_seq rcv)"

definition up_bit :: "int \<Rightarrow> int \<Rightarrow> u8 \<Rightarrow> u8 \<Rightarrow> u8" where
  "up_bit old new m w = (if old < new then w OR m else w)"

definition first_whatto :: "tcp_stream \<Rightarrow> tcp_stream \<Rightarrow> u8" where
  "first_whatto a a' =
     up_bit (h_collect_urg (s_server a)) (h_collect_urg (s_server a')) COLLECT_scu
       (up_bit (h_collect (s_server a)) (h_collect (s_server a')) COLLECT_sc
         (up_bit (h_collect_urg (s_client a)) (h_collect_urg (s_client a')) COLLECT_ccu
           (up_bit (h_collect (s_client a)) (h_collect (s_client a')) COLLECT_cc 0)))"

text \<open>With \<open>one_loop_less\<close> only the first callback keeps a direction.\<close>

definition one_collector :: "tcp_env \<Rightarrow> tcp_stream \<Rightarrow> tcp_stream \<times> u8 \<Rightarrow> tcp_stream \<times> u8" where
  "one_collector env old aw =
     (if one_loop_less (te_prm env) = 0 then aw
      else let (a, w) = aw;
               (a, w) = (if h_collect (s_client a) \<ge> 2
                         then (a\<lparr>s_client := (s_client a)\<lparr>h_collect := h_collect (s_client old)\<rparr>\<rparr>, w AND NOT COLLECT_cc)
                         else (a, w))
           in (if h_collect (s_server a) \<ge> 2
               then (a\<lparr>s_server := (s_server a)\<lparr>h_collect := h_collect (s_server old)\<rparr>\<rparr>, w AND NOT COLLECT_sc)
               else (a, w)))"

text \<open>The loop over \<open>tcp_procs\<close>; \<open>dat\<close> is the pointer \<open>data\<close>, which lives across iterations.\<close>

fun call_procs :: "tcp_env \<Rightarrow> nat list \<Rightarrow> nat \<Rightarrow> conn \<Rightarrow> conn" where
  "call_procs env [] dat c = c"
| "call_procs env (i # r) dat c =
     (let (dat', c1) = call_item env i dat c;
          (a, w) = one_collector env (c_tcp c) (c_tcp c1, first_whatto (c_tcp c) (c_tcp c1));
          a' = (if w \<noteq> 0 then a\<lparr>s_listeners := \<lparr>l_item = i, l_data = dat', l_whatto = w\<rparr> # s_listeners a\<rparr> else a)
      in call_procs env r dat' (c1\<lparr>c_tcp := a'\<rparr>))"

text \<open>The last step of the handshake; the result is \<open>None\<close> when the segment is not that step.\<close>

definition establish :: "tcp_env \<Rightarrow> nat list \<Rightarrow> bool \<Rightarrow> tcphdr \<Rightarrow> conn \<Rightarrow> conn option" where
  "establish env procs from_client th c =
     (let a = c_tcp c in
      if th_ack th \<and> from_client \<and> h_state (s_client a) = TCP_SYN_SENT \<and> h_state (s_server a) = TCP_SYN_RECV
         \<and> th_ack_seq th = h_seq (s_server a)
      then Some (call_procs env procs (te_junk env)
             (c\<lparr>c_tcp := a\<lparr>s_client := (s_client a)\<lparr>h_state := TCP_ESTABLISHED, h_ack_seq := th_ack_seq th\<rparr>,
                            s_server := (s_server a)\<lparr>h_state := TCP_ESTABLISHED\<rparr>, s_nids_state := NIDS_JUST_EST\<rparr>\<rparr>))
      else None)"

definition both_closed :: "side \<Rightarrow> conn \<Rightarrow> bool" where
  "both_closed d c \<longleftrightarrow> h_state (chalf d c) = FIN_CONFIRMED \<and> h_state (chalf (other d) c) = FIN_CONFIRMED"

definition take_ack :: "side \<Rightarrow> tcphdr \<Rightarrow> conn \<Rightarrow> conn" where
  "take_ack d th c =
     (if th_ack th then
        let c1 = set_chalf (other d) (handle_ack (th_ack_seq th) (chalf (other d) c)) c in
        if h_state (chalf d c1) = FIN_SENT then set_chalf d ((chalf d c1)\<lparr>h_state := FIN_CONFIRMED\<rparr>) c1 else c1
      else c)"

text \<open>From the acknowledgement to the end of \<open>process_tcp\<close>; \<open>d\<close> is \<open>rcv\<close>.\<close>

definition segment_data :: "tcp_env \<Rightarrow> side \<Rightarrow> tcphdr \<Rightarrow> bytes \<Rightarrow> int \<Rightarrow> int \<Rightarrow> int \<Rightarrow> conn \<Rightarrow> tcp_state \<Rightarrow> tcp_state option" where
  "segment_data env d th pkt off datalen skblen c s = do {
     let c1 = take_ack d th c;
     if th_ack th \<and> both_closed d c1
     then nids_free_tcp_stream env (c_self c) (store (call_listeners env NIDS_CLOSE c1) s)
     else do {
       c2 \<leftarrow> (if datalen + (if th_fin th then 1 else 0) > 0
             then do { seg \<leftarrow> slice pkt off datalen; tcp_queue env d th seg skblen c1 } else Some c1);
       let c3 = set_chalf (other d) ((chalf (other d) c2)\<lparr>h_window := th_window th\<rparr>) c2;
       let c4 = (if h_rmem_alloc (chalf d c3) > 65535 then prune_queue d c3 else c3);
       if s_listeners (c_tcp c4) = [] then nids_free_tcp_stream env (c_self c) (store c4 s) else Some (store c4 s) } }"

definition paws_old :: "side \<Rightarrow> tcphdr \<Rightarrow> tcp_stream \<Rightarrow> bool option" where
  "paws_old d th a =
     (if h_ts_on (half d a) then do {
        (on, ts) \<leftarrow> get_ts th 0;
        Some (on \<and> before ts (h_curr_ts (half (other d) a))) }
      else Some False)"

definition known_stream :: "tcp_env \<Rightarrow> nat \<Rightarrow> bool \<Rightarrow> tcphdr \<Rightarrow> bytes \<Rightarrow> int \<Rightarrow> int \<Rightarrow> int \<Rightarrow> tcp_state \<Rightarrow> tcp_state option" where
  "known_stream env i from_client th pkt off datalen skblen s = do {
     c \<leftarrow> load i s;
     let d = (if from_client then Server else Client);
     if th_syn th then do { a \<leftarrow> syn_ack from_client th (c_tcp c); Some (store (c\<lparr>c_tcp := a\<rparr>) s) }
     else if \<not> in_window th datalen (chalf d c) then Some s
     else if th_rst th then
       nids_free_tcp_stream env i
         (store (if s_nids_state (c_tcp c) = NIDS_DATA then call_listeners env NIDS_RESET c else c) s)
     else do {
       old \<leftarrow> paws_old d th (c_tcp c);
       if old then Some s
       else (case establish env (tcp_procs s) from_client th c of
               None \<Rightarrow> segment_data env d th pkt off datalen skblen c s
             | Some c1 \<Rightarrow>
                 if s_listeners (c_tcp c1) = [] then nids_free_tcp_stream env i (store c1 s)
                 else segment_data env d th pkt off datalen skblen (c1\<lparr>c_tcp := (c_tcp c1)\<lparr>s_nids_state := NIDS_DATA\<rparr>\<rparr>) s) } }"

section \<open>Entry points\<close>

definition tcp_input :: "tcp_env \<Rightarrow> tcphdr \<Rightarrow> u32 \<Rightarrow> u32 \<Rightarrow> bytes \<Rightarrow> int \<Rightarrow> int \<Rightarrow> int \<Rightarrow> tcp_state \<Rightarrow> tcp_state option" where
  "tcp_input env th src dst pkt off datalen skblen s = do {
     r \<leftarrow> find_stream th src dst s;
     case r of
       None \<Rightarrow> if th_syn th \<and> \<not> th_ack th \<and> \<not> th_rst th then add_new_tcp env th src dst s else Some s
     | Some (i, from_client) \<Rightarrow> known_stream env i from_client th pkt off datalen skblen s }"

definition scan_alarm :: "host option \<Rightarrow> tcp_state \<Rightarrow> tcp_state" where
  "scan_alarm al s = (case al of None \<Rightarrow> s | Some _ \<Rightarrow> tcp_syslog NIDS_WARN_SCAN NIDS_WARN_UNDEFINED s)"

definition process_tcp ::
  "tcp_env \<Rightarrow> clock \<Rightarrow> chksum_table \<Rightarrow> bytes \<Rightarrow> int \<Rightarrow> scan_state \<times> tcp_state \<Rightarrow> (scan_state \<times> tcp_state) option" where
  "process_tcp env clk ctl pkt skblen st = do {
     let (sc, s) = st;
     b0 \<leftarrow> rd8 pkt 0;
     let off = 4 * unat (b0 AND 0x0f);
     iplen \<leftarrow> rd_be16 pkt 2;
     if unat iplen < off + 20 then Some (sc, tcp_syslog NIDS_WARN_TCP NIDS_WARN_TCP_HDR s)
     else do {
       th \<leftarrow> tcphdr_at pkt off;
       let datalen = int (unat iplen) - int off - 4 * int (th_doff th);
       src \<leftarrow> rd_le32 pkt 12;
       dst \<leftarrow> rd_le32 pkt 16;
       if datalen < 0 \<or> src OR dst = 0 then Some (sc, tcp_syslog NIDS_WARN_TCP NIDS_WARN_TCP_HDR s)
       else do {
         (sc1, al) \<leftarrow> (if th_ack th then Some (sc, None) else detect_scan (te_prm env) clk pkt sc);
         let s1 = scan_alarm al s;
         if n_tcp_streams (te_prm env) = 0 then Some (sc1, s1)
         else do {
           ck \<leftarrow> my_tcp_check ctl pkt off (int (unat iplen) - int off) src dst;
           s2 \<leftarrow> (if ck \<noteq> 0 then Some (tcp_syslog NIDS_WARN_TCP NIDS_WARN_TCP_HDR s1)
                 else tcp_input env th src dst pkt (int off + 4 * int (th_doff th)) datalen skblen s1);
           Some (sc1, s2) } } } }"

text \<open>The loop of \<open>tcp_check_timeouts\<close> over a snapshot of the list: releasing a stream removes only its own entry.\<close>

fun expire_timeouts :: "tcp_env \<Rightarrow> int \<Rightarrow> (nat \<times> int) list \<Rightarrow> tcp_state \<Rightarrow> tcp_state option" where
  "expire_timeouts env now [] s = Some s"
| "expire_timeouts env now (e # r) s =
     (if now < snd e then Some s
      else (case load (fst e) s of None \<Rightarrow> None
            | Some c \<Rightarrow>
                (case nids_free_tcp_stream env (fst e) (store (call_listeners env NIDS_TIMED_OUT c) s) of None \<Rightarrow> None
                 | Some s' \<Rightarrow> expire_timeouts env now r s')))"

definition tcp_check_timeouts :: "tcp_env \<Rightarrow> int \<Rightarrow> tcp_state \<Rightarrow> tcp_state option" where
  "tcp_check_timeouts env now s = expire_timeouts env now (nids_tcp_timeouts s) s"

text \<open>
  The result code and the state.  \<open>junk\<close> is what \<open>malloc\<close> leaves in the pool; an allocation of a
  negative size fails.
\<close>

definition tcp_init :: "tcp_stream \<Rightarrow> rnd_source \<Rightarrow> int \<Rightarrow> tcp_state \<Rightarrow> int \<times> tcp_state" where
  "tcp_init junk rnd sz s =
     (if sz = 0 then (0, s)
      else if sz < 0 then (-1, s\<lparr>tcp_stream_table_size := sz, tcp_stream_table := None\<rparr>)
      else let m = i32 (3 * sz) sdiv 4;
               s1 = s\<lparr>tcp_stream_table_size := sz, tcp_stream_table := Some (replicate (nat sz) []), max_stream := m\<rparr>
           in if m < 0 then (-1, s1\<lparr>streams_pool := []\<rparr>)
              else (0, s1\<lparr>streams_pool := replicate (nat (m + 1)) junk, free_streams := [0..<nat (m + 1)],
                           tcp_hash := init_hash rnd, nids_tcp_timeouts := []\<rparr>))"

text \<open>The loops of \<open>tcp_exit\<close> over the table and its chains.\<close>

fun exit_streams :: "tcp_env \<Rightarrow> nat list \<Rightarrow> tcp_state \<Rightarrow> tcp_state option" where
  "exit_streams env [] s = Some s"
| "exit_streams env (i # r) s =
     (case load i s of None \<Rightarrow> None
      | Some c \<Rightarrow>
          (case nids_free_tcp_stream env i
                  (store (if s_listeners (c_tcp c) = [] then c else call_listeners env NIDS_EXITING c) s) of
             None \<Rightarrow> None
           | Some s' \<Rightarrow> exit_streams env r s'))"

definition tcp_exit :: "tcp_env \<Rightarrow> tcp_state \<Rightarrow> tcp_state option" where
  "tcp_exit env s =
     (case tcp_stream_table s of None \<Rightarrow> Some s
      | Some table \<Rightarrow> if streams_pool s = [] then Some s
          else do {
            s1 \<leftarrow> exit_streams env (concat table) s;
            Some (s1\<lparr>tcp_stream_table := None, streams_pool := [], tcp_by_time := [], tcp_num := 0\<rparr>) })"

section \<open>ICMP\<close>

text \<open>\<open>sizeof(struct icmp)\<close>; \<open>config.h\<close> does not define \<open>HAVE_ICMPHDR\<close>.\<close>

definition sizeof_icmp :: nat where "sizeof_icmp = 28"

text \<open>
  The checks of \<open>process_icmp\<close> before the lookup, for a message of \<open>len\<close> bytes at offset \<open>hl\<close>:
  \<open>Some (Some (orig, th))\<close> are the offsets of the embedded IP header and of the TCP header behind it.
\<close>

definition icmp_checks :: "tcp_env \<Rightarrow> bytes \<Rightarrow> nat \<Rightarrow> u32 \<Rightarrow> (nat \<times> nat) option option" where
  "icmp_checks env pkt hl len =
     (if len < of_nat sizeof_icmp then Some None
      else do {
        ck \<leftarrow> ip_compute_csum pkt hl (sint len);
        typ \<leftarrow> rd8 pkt hl;
        code \<leftarrow> rd8 pkt (hl + 1);
        if ck \<noteq> 0 \<or> typ \<noteq> 3 then Some None
        else let len = len - of_nat sizeof_icmp in
        if len < 20 then Some None
        else do {
          let orig = hl + 8;
          o0 \<leftarrow> rd8 pkt orig;
          let ohl = 4 * unat (o0 AND 0x0f);
          if len < of_nat ohl + 8 then Some None
          else do {
            src \<leftarrow> rd_le32 pkt 12;
            odst \<leftarrow> rd_le32 pkt (orig + 16);
            proto \<leftarrow> rd8 pkt (orig + 9);
            let match_addr = (code AND 15 = 2 \<or> code AND 15 = 3);
            if unat code > te_nr_icmp env \<or> match_addr \<and> src \<noteq> odst \<or> proto \<noteq> 6 then Some None
            else Some (Some (orig, orig + ohl)) } } })"

definition icmp_target :: "tcp_env \<Rightarrow> bytes \<Rightarrow> (nat \<times> nat) option option" where
  "icmp_target env pkt = do {
     b0 \<leftarrow> rd8 pkt 0;
     iplen \<leftarrow> rd_be16 pkt 2;
     let hl = 4 * unat (b0 AND 0x0f);
     icmp_checks env pkt hl (of_nat (unat iplen) - of_nat hl) }"

definition process_icmp :: "tcp_env \<Rightarrow> bytes \<Rightarrow> tcp_state \<Rightarrow> tcp_state option" where
  "process_icmp env pkt s = do {
     t \<leftarrow> icmp_target env pkt;
     case t of None \<Rightarrow> Some s
     | Some (orig, tho) \<Rightarrow> do {
         sp \<leftarrow> rd_be16 pkt tho;
         dp \<leftarrow> rd_be16 pkt (tho + 2);
         osrc \<leftarrow> rd_le32 pkt (orig + 12);
         odst \<leftarrow> rd_le32 pkt (orig + 16);
         dst \<leftarrow> rd_le32 pkt 16;
         r \<leftarrow> find_ports sp dp osrc odst s;
         case r of None \<Rightarrow> Some s
         | Some (i, from_client) \<Rightarrow> do {
             c \<leftarrow> load i s;
             let hlf = (if ucast (t_dest (s_addr (c_tcp c))) = dst then s_server (c_tcp c) else s_client (c_tcp c));
             if h_state hlf \<noteq> TCP_SYN_SENT \<and> h_state hlf \<noteq> TCP_SYN_RECV then Some s
             else nids_free_tcp_stream env i (store (call_listeners env NIDS_RESET c) s) } } }"

end
