(* ===== verification/Tcp_Inv.thy ===== *)
theory Tcp_Inv
  imports Tcp_Buf Tcp
begin

text \<open>
  Safety of the segment path of \<open>tcp.c\<close>: the invariant \<open>conn_wf\<close> of a connection in work, and that
  \<open>deliver\<close>, \<open>add_from_skb\<close>, \<open>drain\<close> and \<open>tcp_queue\<close> keep it and never leave the segment, the
  buffer or the queue, for urgent data too.
\<close>

section \<open>Arithmetic of sequence numbers\<close>

lemma sint_range_u32: "- 2147483648 \<le> sint (w :: u32)" "sint (w :: u32) < 2147483648"
  using sint_ge [of w] sint_lt [of w] by simp_all

lemma sint_nonneg_uint: "0 \<le> sint (w :: u32) \<Longrightarrow> uint w = sint w"
  using uint_u32_less [of w] by (auto simp: sint_u32 split: if_splits)

lemma uint_of_int_u32: "0 \<le> x \<Longrightarrow> x < 4294967296 \<Longrightarrow> uint (of_int x :: u32) = x"
  by (simp add: unsigned_of_int take_bit_eq_mod)

lemma unat_of_nat_u32: "n < 4294967296 \<Longrightarrow> unat (of_nat n :: u32) = n"
  by (simp add: unat_of_nat take_bit_nat_eq_self)

text \<open>A segment that is not early and reaches past the expected byte overlaps it by at most its length.\<close>

lemma overlap_bound:
  assumes "\<not> after sq e" and "after (seq_end sq n fin) e" and "n \<le> 65535"
  shows "uint (e - sq) \<le> int n" "sint (e - sq) = uint (e - sq)"
proof -
  let ?m = "int n + (if fin then 1 else 0)"
  have nn: "0 \<le> sint (e - sq)" using assms(1) by (simp add: after_def)
  then show eq: "sint (e - sq) = uint (e - sq)" using sint_nonneg_uint by simp
  have "e - seq_end sq n fin = e - sq - of_int ?m" by (simp add: seq_end_def)
  then have neg: "sint (e - sq - of_int ?m) < 0" using assms(2) by (simp only: after_def)
  show "uint (e - sq) \<le> int n"
  proof (rule ccontr)
    assume "\<not> uint (e - sq) \<le> int n"
    then have "?m \<le> sint (e - sq)" using eq by auto
    then show False using sint_minus_of_int [of ?m "e - sq"] neg by auto
  qed
qed

lemma urgent_place:
  assumes "after (u + 1) e" and "before u (sq + of_nat n)" and "uint (e - sq) \<le> int n" and "n \<le> 65535"
  shows "0 \<le> sint (u - e)" "sint (u - e) + uint (e - sq) < int n"
    "uint (u - sq) = sint (u - e) + uint (e - sq)" "sint (sq + of_nat n - u - 1) = int n - uint (u - sq) - 1"
proof -
  let ?v = "sint (u - e)" and ?w = "uint (e - sq)"
  have "e - (u + 1) = of_int (- ?v - 1)" by simp
  then have "sint (e - (u + 1)) = - ?v - 1" using sint_of_int_u32 [of "- ?v - 1"] sint_range_u32 [of "u - e"] by (simp add: diff_diff_eq)
  then show v: "0 \<le> ?v" using assms(1) by (simp add: after_def)
  have w: "0 \<le> ?w" by simp
  then have "- 2147483648 \<le> ?v + ?w - int n" "?v + ?w - int n < 2147483648"
    using sint_range_u32 [of "u - e"] v assms(3,4) by linarith+
  then have "sint (u - (sq + of_nat n)) = ?v + ?w - int n"
    using sint_of_int_u32 [of "?v + ?w - int n"] by (simp add: diff_diff_eq)
  then show lt: "?v + ?w < int n" using assms(2) by (simp add: before_def)
  show uw: "uint (u - sq) = ?v + ?w"
    using uint_of_int_u32 [of "?v + ?w"] v lt assms(4) by simp
  have e: "sq + of_nat n - u - 1 = of_int (int n - uint (u - sq) - 1)" by simp
  have "- 2147483648 \<le> int n - uint (u - sq) - 1" "int n - uint (u - sq) - 1 < 2147483648" using uw v w lt assms(4) by linarith+
  then show "sint (sq + of_nat n - u - 1) = int n - uint (u - sq) - 1" by (simp only: e sint_of_int_u32)
qed

section \<open>The timeout list\<close>

definition timeouts_ok :: "tcp_env \<Rightarrow> nat set \<Rightarrow> (nat \<times> int) list \<Rightarrow> bool" where
  "timeouts_ok env L ts \<longleftrightarrow> distinct (map fst ts) \<and> fst ` set ts \<subseteq> L \<and> sorted (map snd ts) \<and>
     (tcp_workarounds (te_prm env) = 0 \<longrightarrow> ts = [])"

lemma set_insert_timeout: "\<not> meets_stream a t ts \<Longrightarrow> set (insert_timeout a t ts) = insert (a, t) (set ts)"
  by (induction ts) (auto split: if_splits)

lemma sorted_insert_timeout:
  "\<not> meets_stream a t ts \<Longrightarrow> sorted (map snd ts) \<Longrightarrow> sorted (map snd (insert_timeout a t ts))"
proof (induction ts)
  case (Cons e r)
  then show ?case using set_insert_timeout [of a t r] by (auto split: if_splits)
qed simp

lemma distinct_insert_timeout:
  "a \<notin> fst ` set ts \<Longrightarrow> distinct (map fst ts) \<Longrightarrow> distinct (map fst (insert_timeout a t ts))"
proof (induction ts)
  case (Cons e r)
  have "fst ` set (insert_timeout a t r) \<subseteq> insert a (fst ` set r)" by (induction r) auto
  then show ?case using Cons by auto
qed simp

text \<open>
  Time stamps that do not decrease: a stream that already waits is met by the walk, because its entry
  is not later than a new one.
\<close>

definition due_by :: "int \<Rightarrow> (nat \<times> int) list \<Rightarrow> bool" where
  "due_by t ts \<longleftrightarrow> (\<forall>e \<in> set ts. snd e \<le> t)"

lemma meets_stream_iff: "due_by t ts \<Longrightarrow> meets_stream a t ts \<longleftrightarrow> a \<in> fst ` set ts"
  by (induction ts) (auto simp: due_by_def)

lemma add_timeout_ok:
  assumes "timeouts_ok env L ts" and "due_by (te_now env + 10) ts" and "a \<in> L"
  shows "timeouts_ok env L (add_tcp_closing_timeout env a ts)" "due_by (te_now env + 10) (add_tcp_closing_timeout env a ts)"
proof -
  let ?t = "te_now env + 10"
  have "a \<notin> fst ` set ts" if "\<not> meets_stream a ?t ts" using meets_stream_iff [OF assms(2)] that by simp
  then show "timeouts_ok env L (add_tcp_closing_timeout env a ts)"
    using assms distinct_insert_timeout sorted_insert_timeout set_insert_timeout [of a ?t ts]
    by (auto simp: timeouts_ok_def add_tcp_closing_timeout_def)
  show "due_by ?t (add_tcp_closing_timeout env a ts)"
    using assms(2) set_insert_timeout [of a ?t ts] by (auto simp: due_by_def add_tcp_closing_timeout_def)
qed

section \<open>A connection in work\<close>

definition half_wf :: "half_stream \<Rightarrow> bool" where
  "half_wf h \<longleftrightarrow> buf_wf h \<and> pend h \<le> keep_max \<and> \<not> h_count_new_urg h \<and> h_count_new h = 0 \<and>
     list_all (\<lambda>p. length (p_data p) \<le> 65535) (h_list h)"

definition conn_wf :: "tcp_env \<Rightarrow> nat set \<Rightarrow> conn \<Rightarrow> bool" where
  "conn_wf env L c \<longleftrightarrow> (\<forall>d. half_wf (chalf d c)) \<and> timeouts_ok env L (c_timeouts c) \<and>
     due_by (te_now env + 10) (c_timeouts c) \<and> c_self c \<in> L"

text \<open>What identifies the connection stays.\<close>

definition same_id :: "conn \<Rightarrow> conn \<Rightarrow> bool" where
  "same_id c c' \<longleftrightarrow> s_addr (c_tcp c') = s_addr (c_tcp c) \<and> s_nids_state (c_tcp c') = s_nids_state (c_tcp c) \<and>
     s_hash_index (c_tcp c') = s_hash_index (c_tcp c) \<and> c_self c' = c_self c"

lemma same_id_refl [simp]: "same_id c c"
  by (simp add: same_id_def)

lemma same_id_trans: "same_id a b \<Longrightarrow> same_id b c \<Longrightarrow> same_id a c"
  by (simp add: same_id_def)

lemma same_id_set [simp]: "same_id c (set_chalf d h c') = same_id c c'" "same_id (set_chalf d h c) c' = same_id c c'"
  "same_id c (c'\<lparr>c_timeouts := ts\<rparr>) = same_id c c'"
  by (simp_all add: same_id_def)

lemma told_same_id: "told d c c' \<Longrightarrow> same_id c c'"
  by (simp add: told_def same_id_def)

lemma all_sides: "(\<forall>x. P x) \<longleftrightarrow> P d \<and> P (other d)"
  by (metis other.elims other_other(1) side.exhaust)

lemma half_wf_core: "core_half h = core_half k \<Longrightarrow> half_wf h = half_wf k"
  using core_half_eqD [of h k] buf_wf_core [of h k] by (simp add: half_wf_def)

lemma half_wf_rest:
  assumes "rest_half h = rest_half k" and "half_wf k" and "buf_wf h" and "pend h \<le> keep_max" and "h_count_new h = 0"
  shows "half_wf h"
  using assms rest_half_eqD [OF assms(1)] by (simp add: half_wf_def)

lemma half_wf_upd [simp]:
  "half_wf (h\<lparr>h_state := st\<rparr>) = half_wf h" "half_wf (h\<lparr>h_window := win\<rparr>) = half_wf h" "half_wf (h\<lparr>h_curr_ts := ts\<rparr>) = half_wf h"
  "half_wf (h\<lparr>h_ack_seq := ak\<rparr>) = half_wf h" "half_wf (h\<lparr>h_rmem_alloc := m\<rparr>) = half_wf h" "half_wf (h\<lparr>h_urg_ptr := u\<rparr>) = half_wf h"
  "half_wf (h\<lparr>h_urg_seen := us\<rparr>) = half_wf h" "half_wf (h\<lparr>h_urg_count := uc\<rparr>) = half_wf h"
  by (simp_all add: half_wf_def buf_wf_def pend_def cong: option.case_cong)

lemma conn_wf_half: "conn_wf env L c \<Longrightarrow> half_wf (chalf d c)"
  by (simp add: conn_wf_def)

lemma conn_wf_set: "conn_wf env L c \<Longrightarrow> half_wf h \<Longrightarrow> conn_wf env L (set_chalf d h c)"
  using all_sides [where d = d] by (simp add: conn_wf_def all_sides [where d = d])

section \<open>Delivery\<close>

lemma length_slice: "slice b off n = Some xs \<Longrightarrow> int (length xs) = n"
  by (auto simp: slice_def split: if_splits)

text \<open>Half \<open>d\<close> with its counter advanced by \<open>n\<close>: the stream after a delivery, up to the buffer.\<close>

definition advanced :: "side \<Rightarrow> int \<Rightarrow> conn \<Rightarrow> conn" where
  "advanced d n c = set_chalf d ((chalf d c)\<lparr>h_count := h_count (chalf d c) + of_int n\<rparr>) c"

lemma conn_wf_told:
  assumes "conn_wf env L c" and "told d (advanced d n c) c'" and "buf_wf (chalf d c')" and "pend (chalf d c') \<le> keep_max"
    and "h_count_new (chalf d c') = 0"
  shows "conn_wf env L c'"
proof -
  have r: "rest_half (chalf d c') = rest_half ((chalf d c)\<lparr>h_count := h_count (chalf d c) + of_int n\<rparr>)"
    and o: "core_half (chalf (other d) c') = core_half (chalf (other d) c)"
    using told_half [OF assms(2)] by (simp_all add: advanced_def)
  have "\<not> h_count_new_urg (chalf d c') \<and> h_list (chalf d c') = h_list (chalf d c)"
    using rest_half_eqD [OF r] conn_wf_half [OF assms(1), of d] by (simp add: half_wf_def)
  then have "half_wf (chalf d c')" using assms(3-5) conn_wf_half [OF assms(1), of d] by (simp add: half_wf_def)
  moreover have "half_wf (chalf (other d) c')" using half_wf_core [OF o] conn_wf_half [OF assms(1)] by simp
  ultimately show ?thesis using assms(1,2) by (simp add: conn_wf_def all_sides [where d = d] told_def advanced_def)
qed

lemma deliver_ok:
  assumes "keeps_at_most env keep_max" and "conn_wf env L c" and "0 \<le> off" and "0 < n" and "off + n \<le> int (length seg)"
    and "length seg \<le> 65535"
  shows "\<exists>c'. deliver env d seg off n c = Some c' \<and> conn_wf env L c' \<and> told d (advanced d n c) c'"
proof (cases "h_collect (chalf d c) \<noteq> 0")
  case True
  let ?h = "chalf d c"
  have wf: "buf_wf ?h" "pend ?h \<le> keep_max" "\<not> h_count_new_urg ?h" using conn_wf_half [OF assms(2), of d] by (simp_all add: half_wf_def)
  obtain xs where xs: "slice seg off n = Some xs" using assms by (auto simp: slice_def)
  have len: "int (length xs) = n" using length_slice [OF xs] .
  then have ne: "xs \<noteq> []" "length xs \<le> 65535" using assms by auto
  obtain b where b: "add2buf (te_fill env) xs ?h = Some (?h\<lparr>h_data := Some b, h_bufsize := int (length b), h_count_new := int (length xs),
      h_count := h_count ?h + of_nat (length xs)\<rparr>)" (is "_ = Some ?h1")
    using add2buf_ok [OF wf(1,2) ne] by blast
  then have wf1: "buf_wf ?h1" using buf_wf_add2buf [OF wf(1,2) ne, of "te_fill env"] by auto
  obtain c' where c': "notify env d (set_chalf d ?h1 c) = Some c'" "told d (set_chalf d ?h1 c) c'" "buf_wf (chalf d c')"
      "pend (chalf d c') \<le> keep_max" "h_count_new (chalf d c') = 0"
    using notify_data_ok [OF assms(1), where c = "set_chalf d ?h1 c" and d = d] wf wf1 True by (auto simp: keep_max_def)
  have "rest_half ?h1 = rest_half (?h\<lparr>h_count := h_count ?h + of_int n\<rparr>)" using len by (auto simp: rest_half_def)
  then have t: "told d (advanced d n c) c'" using c'(2) by (simp add: told_def advanced_def)
  then show ?thesis using xs b c' True conn_wf_told [OF assms(2) t] by (simp add: deliver_def Let_def)
next
  case False
  let ?h = "chalf d c"
  let ?h1 = "?h\<lparr>h_count := h_count ?h + of_int n, h_offset := h_count ?h + of_int n\<rparr>"
  have "buf_wf ?h" "h_count_new ?h = 0" using conn_wf_half [OF assms(2), of d] by (simp_all add: half_wf_def)
  then have w: "buf_wf ?h1" "pend ?h1 = 0" by (simp_all add: buf_wf_def pend_def cong: option.case_cong)
  have t: "told d (advanced d n c) (set_chalf d ?h1 c)" by (simp add: told_def advanced_def)
  have "conn_wf env L (set_chalf d ?h1 c)" using conn_wf_told [OF assms(2) t] w \<open>h_count_new ?h = 0\<close> by (simp add: keep_max_def)
  then show ?thesis using False t by (simp add: deliver_def Let_def)
qed

lemma told_advanced:
  assumes "told d (advanced d n c) c'"
  shows "EXP_SEQ d (c_tcp c') = EXP_SEQ d (c_tcp c) + of_int n" "h_urg_ptr (chalf d c') = h_urg_ptr (chalf d c)"
    "h_list (chalf d c') = h_list (chalf d c)" "same_id c c'"
proof -
  have r: "rest_half (chalf d c') = rest_half ((chalf d c)\<lparr>h_count := h_count (chalf d c) + of_int n\<rparr>)"
    and o: "core_half (chalf (other d) c') = core_half (chalf (other d) c)"
    using told_half [OF assms] by (simp_all add: advanced_def)
  show "EXP_SEQ d (c_tcp c') = EXP_SEQ d (c_tcp c) + of_int n"
    using rest_half_eqD [OF r] core_half_eqD(9) [OF o] by (simp add: EXP_SEQ_def)
  show "h_urg_ptr (chalf d c') = h_urg_ptr (chalf d c)" "h_list (chalf d c') = h_list (chalf d c)"
    using rest_half_eqD [OF r] by simp_all
  show "same_id c c'" using told_same_id [OF assms] by (simp add: advanced_def)
qed

lemma notify_urgent_ok:
  assumes "conn_wf env L c"
  shows "\<exists>c'. notify env d (set_chalf d ((chalf d c)\<lparr>h_urgdata := u, h_count_new_urg := True\<rparr>) c) = Some c' \<and>
    conn_wf env L (set_chalf d ((chalf d c')\<lparr>h_count_new_urg := False, h_urg_seen := False, h_urg_count := h_urg_count (chalf d c') + 1\<rparr>) c') \<and>
    same_id c c' \<and> h_list (chalf d c') = h_list (chalf d c) \<and> h_urg_ptr (chalf d c') = h_urg_ptr (chalf d c) \<and>
    EXP_SEQ d (c_tcp c') = EXP_SEQ d (c_tcp c)"
proof -
  let ?h = "(chalf d c)\<lparr>h_urgdata := u, h_count_new_urg := True\<rparr>"
  obtain c' where c': "notify env d (set_chalf d ?h c) = Some c'" "told d (set_chalf d ?h c) c'"
      "core_half (chalf d c') = core_half ?h"
    using notify_urg_ok [where c = "set_chalf d ?h c" and d = d and env = env] by auto
  have o: "core_half (chalf (other d) c') = core_half (chalf (other d) c)" using told_half [OF c'(2)] by simp
  note f = core_half_eqD [OF c'(3)]
  have hw: "half_wf ((chalf d c')\<lparr>h_count_new_urg := False\<rparr>)"
    using conn_wf_half [OF assms, of d] f by (simp add: half_wf_def buf_wf_def pend_def cong: option.case_cong)
  have "conn_wf env L (set_chalf d ((chalf d c')\<lparr>h_count_new_urg := False, h_urg_seen := False, h_urg_count := h_urg_count (chalf d c') + 1\<rparr>) c')"
    using assms c'(2) hw half_wf_core [OF o]
    by (simp add: conn_wf_def all_sides [where d = d] told_def)
  then show ?thesis using c' f core_half_eqD(9) [OF o] told_same_id [OF c'(2)] by (simp add: EXP_SEQ_def)
qed

lemma deliver_if_any:
  assumes "keeps_at_most env keep_max" and "conn_wf env L c" and "0 \<le> off" and "off + n \<le> int (length seg)"
    and "length seg \<le> 65535"
  shows "\<exists>c'. (if n > 0 then deliver env d seg off n c else Some c) = Some c' \<and> conn_wf env L c' \<and> same_id c c' \<and>
    h_urg_ptr (chalf d c') = h_urg_ptr (chalf d c) \<and> h_list (chalf d c') = h_list (chalf d c)"
proof (cases "n > 0")
  case True
  obtain c' where c': "deliver env d seg off n c = Some c'" "conn_wf env L c'" "told d (advanced d n c) c'"
    using deliver_ok [OF assms(1-3) True assms(4,5)] by blast
  then show ?thesis using True told_advanced(2-4) [OF c'(3)] by simp
qed (use assms(2) in simp)

lemma deliver_urgent_ok:
  assumes "keeps_at_most env keep_max" and "conn_wf env L c" and "length seg \<le> 65535"
    and "lost = EXP_SEQ d (c_tcp c) - sq" and "uint lost \<le> int (length seg)"
    and "after (h_urg_ptr (chalf d c) + 1) (sq + lost)" and "before (h_urg_ptr (chalf d c)) (sq + of_nat (length seg))"
  shows "\<exists>c'. deliver_urgent env d seg sq lost c = Some c' \<and> conn_wf env L c' \<and> same_id c c' \<and> h_list (chalf d c') = h_list (chalf d c)"
proof -
  let ?u = "h_urg_ptr (chalf d c)" and ?e = "EXP_SEQ d (c_tcp c)"
  have sl: "sq + lost = ?e" by (simp add: assms(4))
  define v w where "v = sint (?u - ?e)" and "w = uint lost"
  have lw: "lost = ?e - sq" by (simp add: assms(4))
  have place: "0 \<le> v" "v + w < int (length seg)" "uint (?u - sq) = v + w" "sint (sq + of_nat (length seg) - ?u - 1) = int (length seg) - (v + w) - 1"
    using urgent_place [of ?u ?e sq "length seg", folded lw] assms(3,5-7) sl by (simp_all add: v_def w_def)
  have w0: "0 \<le> w" by (simp add: w_def)
  obtain c1 where c1: "(if v > 0 then deliver env d seg w v c else Some c) = Some c1" "conn_wf env L c1" "same_id c c1"
      "h_urg_ptr (chalf d c1) = ?u" "h_list (chalf d c1) = h_list (chalf d c)"
    using deliver_if_any [OF assms(1,2) w0 _ assms(3), of v d] place(2) by (auto simp: add.commute)
  have idx: "unat (?u - sq) < length seg" using place(2,3) by (metis of_nat_less_iff uint_nat)
  obtain c2 where c2: "notify env d (set_chalf d ((chalf d c1)\<lparr>h_urgdata := seg ! unat (?u - sq), h_count_new_urg := True\<rparr>) c1) = Some c2"
      "conn_wf env L (set_chalf d ((chalf d c2)\<lparr>h_count_new_urg := False, h_urg_seen := False, h_urg_count := h_urg_count (chalf d c2) + 1\<rparr>) c2)"
      "same_id c1 c2" "h_list (chalf d c2) = h_list (chalf d c1)" "h_urg_ptr (chalf d c2) = ?u"
    using notify_urgent_ok [OF c1(2), of d "seg ! unat (?u - sq)"] c1(4) by auto
  define c3 where "c3 = set_chalf d ((chalf d c2)\<lparr>h_count_new_urg := False, h_urg_seen := False, h_urg_count := h_urg_count (chalf d c2) + 1\<rparr>) c2"
  define n2 where "n2 = int (length seg) - (v + w) - 1"
  have wf3: "conn_wf env L c3" using c2(2) by (simp add: c3_def)
  have id3: "same_id c c3" using same_id_trans [OF c1(3) c2(3)] by (simp add: c3_def)
  have l3: "h_list (chalf d c3) = h_list (chalf d c)" using c1(5) c2(4) by (simp add: c3_def)
  have du: "deliver_urgent env d seg sq lost c = (if n2 > 0 then deliver env d seg (w + v + 1) n2 c3 else Some c3)"
    unfolding deliver_urgent_def Let_def sl v_def [symmetric] w_def [symmetric] c1(1)
    using c1(4) c2(1,5) idx place(4) by (simp add: rd8_in c3_def [symmetric] n2_def [symmetric])
  have b: "0 \<le> w + v + 1" "w + v + 1 + n2 \<le> int (length seg)" using place w0 by (simp_all add: n2_def)
  show ?thesis
    using deliver_if_any [OF assms(1) wf3 b(1) b(2) assms(3), of d] same_id_trans [OF id3] by (auto simp: du l3)
qed

lemma note_urgent_ok:
  "conn_wf env L c \<Longrightarrow> conn_wf env L (note_urgent d urg up c)" "same_id c (note_urgent d urg up c)"
  "EXP_SEQ d (c_tcp (note_urgent d urg up c)) = EXP_SEQ d (c_tcp c)" "h_list (chalf d (note_urgent d urg up c)) = h_list (chalf d c)"
  "c_log (note_urgent d urg up c) = c_log c"
  using conn_wf_set conn_wf_half [of env L c d] by (simp_all add: note_urgent_def Let_def EXP_SEQ_def)

lemma conn_wf_timeout:
  "conn_wf env L c \<Longrightarrow> conn_wf env L (c\<lparr>c_timeouts := add_tcp_closing_timeout env (c_self c) (c_timeouts c)\<rparr>)"
  using add_timeout_ok [of env L "c_timeouts c" "c_self c"] by (simp add: conn_wf_def)

lemma add_from_skb_ok:
  assumes "keeps_at_most env keep_max" and "conn_wf env L c" and "length seg \<le> 65535"
    and "uint (EXP_SEQ d (c_tcp c) - sq) \<le> int (length seg)"
  shows "\<exists>c'. add_from_skb env d seg sq fin urg up c = Some c' \<and> conn_wf env L c' \<and> same_id c c' \<and>
    h_list (chalf d c') = h_list (chalf d c)"
proof -
  define lost where "lost = EXP_SEQ d (c_tcp c) - sq"
  define c1 where "c1 = note_urgent d urg up c"
  have c1: "conn_wf env L c1" "same_id c c1" "EXP_SEQ d (c_tcp c1) = EXP_SEQ d (c_tcp c)" "h_list (chalf d c1) = h_list (chalf d c)"
    using note_urgent_ok assms(2) by (simp_all add: c1_def)
  let ?n = "of_nat (length seg) :: u32"
  let ?U = "h_urg_seen (chalf d c1) \<and> after (h_urg_ptr (chalf d c1) + 1) (sq + lost) \<and> before (h_urg_ptr (chalf d c1)) (sq + ?n)"
  let ?step = "if ?U then deliver_urgent env d seg sq lost c1
     else if ?n - lost \<noteq> 0 then deliver env d seg (uint lost) (sint (?n - lost)) c1 else Some c1"
  have le: "uint lost \<le> int (length seg)" using assms(4) by (simp add: lost_def)
  have diff: "sint (?n - lost) = int (length seg) - uint lost"
  proof -
    have "?n - lost = of_int (int (length seg) - uint lost)" by simp
    moreover have "- 2147483648 \<le> int (length seg) - uint lost" "int (length seg) - uint lost < 2147483648"
      using le assms(3) uint_ge_0 [of lost] by linarith+
    ultimately show ?thesis by (simp only: sint_of_int_u32)
  qed
  obtain c2 where c2: "?step = Some c2" "conn_wf env L c2" "same_id c1 c2" "h_list (chalf d c2) = h_list (chalf d c1)"
  proof (cases ?U)
    case True
    then show thesis using that deliver_urgent_ok [OF assms(1) c1(1) assms(3), of lost d sq] le c1(3) by (auto simp: lost_def)
  next
    case False
    show thesis
    proof (cases "?n - lost = 0")
      case True
      have "?step = Some c1" by (simp only: if_not_P [OF False] True simp_thms if_False)
      then show thesis using that c1(1) by simp
    next
      case nz: False
      have "0 < int (length seg) - uint lost"
      proof (rule ccontr)
        assume "\<not> 0 < int (length seg) - uint lost"
        then have "int (length seg) = uint lost" using le by simp
        then have "?n = lost" by (metis of_int_of_nat_eq word_of_int_uint)
        then show False using nz by simp
      qed
      then obtain c' where "deliver env d seg (uint lost) (int (length seg) - uint lost) c1 = Some c'" "conn_wf env L c'"
          "told d (advanced d (int (length seg) - uint lost) c1) c'"
        using deliver_ok [OF assms(1) c1(1) _ _ _ assms(3), of "uint lost" "int (length seg) - uint lost" d] by auto
      then show thesis using that [of c'] False nz diff told_advanced(3,4) by simp
    qed
  qed
  define c3 where "c3 = set_chalf (other d) ((chalf (other d) c2)\<lparr>h_state := FIN_SENT\<rparr>) c2"
  have wf3: "conn_wf env L c3" using conn_wf_set [OF c2(2)] conn_wf_half [OF c2(2)] by (simp add: c3_def)
  define c4 where "c4 = (if h_state (chalf d c3) = TCP_CLOSING
     then c3\<lparr>c_timeouts := add_tcp_closing_timeout env (c_self c3) (c_timeouts c3)\<rparr> else c3)"
  have wf4: "conn_wf env L c4" using conn_wf_timeout [OF wf3] wf3 by (simp add: c4_def)
  have "add_from_skb env d seg sq fin urg up c = Some (if fin then c4 else c2)"
    using c2(1) by (simp add: add_from_skb_def Let_def lost_def [symmetric] c1_def [symmetric] c3_def [symmetric] c4_def)
  moreover have "same_id c c4" "h_list (chalf d c4) = h_list (chalf d c)"
    using same_id_trans [OF c1(2) c2(3)] c2(4) c1(4) by (simp_all add: c4_def c3_def)
  ultimately show ?thesis using wf4 c2 same_id_trans [OF c1(2) c2(3)] c1(4) by simp
qed

section \<open>The queue\<close>

lemma drain_ok:
  assumes "keeps_at_most env keep_max"
  shows "conn_wf env L c \<Longrightarrow> list_all (\<lambda>p. length (p_data p) \<le> 65535) ps \<Longrightarrow>
    \<exists>c'. drain env d ps c = Some c' \<and> conn_wf env L c' \<and> same_id c c'"
proof (induction ps arbitrary: c)
  case (Cons p ps)
  let ?e = "EXP_SEQ d (c_tcp c)"
  show ?case
  proof (cases "after (p_seq p) ?e")
    case True
    then show ?thesis using Cons.prems by simp
  next
    case False
    let ?step = "if after (seq_end (p_seq p) (length (p_data p)) (p_fin p)) ?e
       then add_from_skb env d (p_data p) (p_seq p) (p_fin p) (p_urg p) (p_urg_ptr p + p_seq p - 1) c else Some c"
    obtain c1 where c1: "?step = Some c1" "conn_wf env L c1" "same_id c c1"
    proof (cases "after (seq_end (p_seq p) (length (p_data p)) (p_fin p)) ?e")
      case True
      have len: "length (p_data p) \<le> 65535" using Cons.prems by simp
      then show thesis using that overlap_bound(1) [OF False True len] True
          add_from_skb_ok [OF assms Cons.prems(1) len, of d "p_seq p"] by fastforce
    qed (use that Cons.prems in simp)
    let ?c2 = "set_chalf d ((chalf d c1)\<lparr>h_rmem_alloc := h_rmem_alloc (chalf d c1) - p_truesize p, h_list := ps\<rparr>) c1"
    have "half_wf ((chalf d c1)\<lparr>h_rmem_alloc := h_rmem_alloc (chalf d c1) - p_truesize p, h_list := ps\<rparr>)"
      using conn_wf_half [OF c1(2), of d] Cons.prems(2) by (simp add: half_wf_def buf_wf_def pend_def cong: option.case_cong)
    then have wf2: "conn_wf env L ?c2" using conn_wf_set [OF c1(2)] by simp
    obtain c' where "drain env d ps ?c2 = Some c'" "conn_wf env L c'" "same_id ?c2 c'"
      using Cons.IH [OF wf2] Cons.prems(2) by auto
    then show ?thesis using False c1 same_id_trans [OF c1(3)] by simp
  qed
qed simp

lemma set_insert_back: "set (insert_back p l) = insert p (set l)"
  by (induction l) auto

lemma set_insert_skb [simp]: "set (insert_skb p l) = insert p (set l)"
  by (simp add: insert_skb_def set_insert_back)

lemma enqueue_ok:
  assumes "conn_wf env L c" and "length (p_data p) \<le> 65535"
  shows "conn_wf env L (enqueue env d p c)" "same_id c (enqueue env d p c)"
proof -
  define c1 where "c1 = set_chalf d ((chalf d c)\<lparr>h_rmem_alloc := h_rmem_alloc (chalf d c) + p_truesize p\<rparr>) c"
  define c2 where "c2 = (if p_fin p then
      let c' = set_chalf (other d) ((chalf (other d) c1)\<lparr>h_state := TCP_CLOSING\<rparr>) c1 in
        if h_state (chalf d c') = FIN_SENT \<or> h_state (chalf d c') = FIN_CONFIRMED
        then c'\<lparr>c_timeouts := add_tcp_closing_timeout env (c_self c') (c_timeouts c')\<rparr> else c'
      else c1)"
  have e: "enqueue env d p c = set_chalf d ((chalf d c2)\<lparr>h_list := insert_skb p (h_list (chalf d c2))\<rparr>) c2"
    by (simp add: enqueue_def Let_def c1_def c2_def)
  have wf1: "conn_wf env L c1" using conn_wf_set [OF assms(1)] conn_wf_half [OF assms(1)] by (simp add: c1_def)
  have wf1': "conn_wf env L (set_chalf (other d) ((chalf (other d) c1)\<lparr>h_state := TCP_CLOSING\<rparr>) c1)"
    using conn_wf_set [OF wf1] conn_wf_half [OF wf1] by simp
  have wf2: "conn_wf env L c2" using wf1 wf1' conn_wf_timeout [OF wf1'] by (simp add: c2_def Let_def)
  have "half_wf ((chalf d c2)\<lparr>h_list := insert_skb p (h_list (chalf d c2))\<rparr>)"
    using conn_wf_half [OF wf2, of d] assms(2) by (simp add: half_wf_def buf_wf_def pend_def list_all_iff cong: option.case_cong)
  then show "conn_wf env L (enqueue env d p c)" using conn_wf_set [OF wf2] e by simp
  show "same_id c (enqueue env d p c)" by (simp add: e c2_def c1_def Let_def)
qed

section \<open>Options\<close>

definition options_readable :: "tcphdr \<Rightarrow> bool" where
  "options_readable th \<longleftrightarrow> 4 * int (th_doff th) \<le> 20 + int (length (th_options th))"

lemma get_ts_loop_ok:
  "len \<le> 20 + int (length opts) \<Longrightarrow> \<exists>r. get_ts_loop opts len ind ret ts = Some r"
proof (induction opts len ind ret ts rule: get_ts_loop.induct)
  case (1 opts len ind ret ts)
  show ?case
  proof (cases "int ind \<le> len - 20 - 10")
    case True
    then have in1: "ind + 5 < length opts" using "1.prems" by linarith
    obtain k l where k: "rd8 opts ind = Some k" and l: "rd8 opts (ind + 1) = Some l" using in1 by (simp add: rd8_in)
    obtain x where x: "rd_be32 opts (ind + 2) = Some x" using in1 by (simp add: rd_be32_in)
    consider "k = 0" | "k = 1" | "k = 8" | "k \<noteq> 0" "k \<noteq> 1" "k \<noteq> 8" by blast
    then show ?thesis
    proof cases
      case 2
      then show ?thesis using "1.IH"(1) [OF True k] "1.prems" True k by (subst get_ts_loop.simps) simp
    next
      case 3
      then show ?thesis using "1.IH"(2) [OF True k _ _ _ _ l, of "(True, x)" True x] "1.prems" True k l x
        by (subst get_ts_loop.simps) auto
    next
      case 4
      then show ?thesis using "1.IH"(2) [OF True k _ _ _ _ l, of "(ret, ts)" ret ts] "1.prems" True k l x
        by (subst get_ts_loop.simps) auto
    qed (use True k in \<open>subst get_ts_loop.simps, simp\<close>)
  qed (subst get_ts_loop.simps, simp)
qed

lemma get_ts_ok: "options_readable th \<Longrightarrow> \<exists>on ts'. get_ts th ts = Some (on, ts')"
  using get_ts_loop_ok [of "4 * int (th_doff th)" "th_options th" 0 False ts]
  by (auto simp: options_readable_def get_ts_def)

lemma tcp_queue_ok:
  assumes "keeps_at_most env keep_max" and "conn_wf env L c" and "length seg \<le> 65535" and "options_readable th"
  shows "\<exists>c'. tcp_queue env d th seg skblen c = Some c' \<and> conn_wf env L c' \<and> same_id c c'"
proof (cases "after (th_seq th) (EXP_SEQ d (c_tcp c))")
  case True
  then show ?thesis using enqueue_ok [OF assms(2)] assms(3) by (simp add: tcp_queue_def Let_def)
next
  case early: False
  show ?thesis
  proof (cases "after (seq_end (th_seq th) (length seg) (th_fin th)) (EXP_SEQ d (c_tcp c))")
    case True
    obtain on ts where ts: "get_ts th (h_curr_ts (chalf (other d) c)) = Some (on, ts)" using get_ts_ok [OF assms(4)] by blast
    define c1 where "c1 = set_chalf (other d) ((chalf (other d) c)\<lparr>h_curr_ts := ts\<rparr>) c"
    have wf1: "conn_wf env L c1" using conn_wf_set [OF assms(2)] conn_wf_half [OF assms(2)] by (simp add: c1_def)
    have e1: "EXP_SEQ d (c_tcp c1) = EXP_SEQ d (c_tcp c)" by (simp add: c1_def EXP_SEQ_def)
    obtain c2 where c2: "add_from_skb env d seg (th_seq th) (th_fin th) (th_urg th) (ucast (th_urg_ptr th) + th_seq th - 1) c1 = Some c2"
        "conn_wf env L c2" "same_id c1 c2"
      using add_from_skb_ok [OF assms(1) wf1 assms(3), of d "th_seq th"] overlap_bound(1) [OF early True assms(3)] e1 by fastforce
    have "list_all (\<lambda>p. length (p_data p) \<le> 65535) (h_list (chalf d c2))"
      using conn_wf_half [OF c2(2), of d] by (simp add: half_wf_def)
    then obtain c' where "drain env d (h_list (chalf d c2)) c2 = Some c'" "conn_wf env L c'" "same_id c2 c'"
      using drain_ok [OF assms(1) c2(2)] by blast
    then show ?thesis using early True ts c2(1) same_id_trans [OF c2(3)]
      by (simp add: tcp_queue_def Let_def c1_def [symmetric]) (simp add: c1_def)
  next
    case False
    then show ?thesis using early assms(2) by (simp add: tcp_queue_def Let_def)
  qed
qed

end
