(* ===== verification/Tcp_Wf.thy ===== *)
theory Tcp_Wf
  imports Tcp_Inv
begin

text \<open>
  The invariant \<open>tcp_wf\<close> of the connection tracker (hash chains, list by age, free list, timeouts and
  streams agree) and that every entry point of \<open>tcp.c\<close> keeps it and never runs into undefined
  behaviour.  In particular the branch \<open>gdb me\<close> of \<open>add_new_tcp\<close> is unreachable.
\<close>

section \<open>The lists of streams\<close>

text \<open>
  Chains \<open>t\<close>, list by age \<open>bt\<close> and free list \<open>fr\<close> over a pool of \<open>n\<close> streams; \<open>hx i\<close> is the chain
  that stream \<open>i\<close> names as its own.
\<close>

definition links_wf :: "nat list list \<Rightarrow> nat list \<Rightarrow> nat list \<Rightarrow> (nat \<Rightarrow> int) \<Rightarrow> nat \<Rightarrow> bool" where
  "links_wf t bt fr hx n \<longleftrightarrow>
     distinct bt \<and> distinct fr \<and> set bt \<inter> set fr = {} \<and> set bt \<union> set fr = {..<n} \<and>
     (\<forall>h < length t. distinct (t ! h) \<and> (\<forall>i. i \<in> set (t ! h) \<longleftrightarrow> i \<in> set bt \<and> hx i = int h)) \<and>
     (\<forall>i \<in> set bt. 0 \<le> hx i \<and> hx i < int (length t))"

lemma links_wf_count: "links_wf t bt fr hx n \<Longrightarrow> length bt + length fr = n"
proof -
  assume l: "links_wf t bt fr hx n"
  then have "card (set bt \<union> set fr) = n" by (simp add: links_wf_def)
  moreover have "card (set bt \<union> set fr) = card (set bt) + card (set fr)"
    using l by (intro card_Un_disjoint) (simp_all add: links_wf_def)
  ultimately show ?thesis using l by (simp add: links_wf_def distinct_card)
qed

lemma links_wf_cong: "links_wf t bt fr hx n \<Longrightarrow> (\<And>i. i \<in> set bt \<Longrightarrow> hx' i = hx i) \<Longrightarrow> links_wf t bt fr hx' n"
  unfolding links_wf_def by (metis (no_types, lifting))

lemma links_wf_member:
  assumes "links_wf t bt fr hx n" and "i \<in> set bt"
  shows "0 \<le> hx i" "nat (hx i) < length t" "i \<in> set (t ! nat (hx i))" "i < n"
proof -
  show h: "0 \<le> hx i" "nat (hx i) < length t" using assms by (auto simp: links_wf_def)
  then show "i \<in> set (t ! nat (hx i))" using assms by (simp add: links_wf_def)
  have "set bt \<union> set fr = {..<n}" using assms(1) by (simp add: links_wf_def)
  then show "i < n" using assms(2) by blast
qed

lemma links_wf_free:
  assumes l: "links_wf t bt fr hx n" and i: "i \<in> set bt"
  shows "links_wf (t[nat (hx i) := remove1 i (t ! nat (hx i))]) (remove1 i bt) (i # fr) hx n"
proof -
  note m = links_wf_member [OF l i]
  have d: "distinct bt" using l by (simp add: links_wf_def)
  have sb: "set (remove1 i bt) = set bt - {i}" using d by (simp add: set_remove1_eq)
  have ch: "distinct (t' ! h) \<and> (\<forall>j. j \<in> set (t' ! h) \<longleftrightarrow> j \<in> set bt - {i} \<and> hx j = int h)"
    if t': "t' = t[nat (hx i) := remove1 i (t ! nat (hx i))]" and h: "h < length t" for t' h
  proof -
    have c: "distinct (t ! h) \<and> (\<forall>j. j \<in> set (t ! h) \<longleftrightarrow> j \<in> set bt \<and> hx j = int h)"
      using l h by (simp add: links_wf_def)
    show ?thesis
    proof (cases "h = nat (hx i)")
      case True
      then show ?thesis using c h by (auto simp: t' set_remove1_eq)
    next
      case False
      then have "hx i \<noteq> int h" by auto
      then show ?thesis using c False by (auto simp: t')
    qed
  qed
  have "set (remove1 i bt) \<inter> set (i # fr) = {}" "set (remove1 i bt) \<union> set (i # fr) = {..<n}" "distinct (i # fr)"
    using l i unfolding sb by (auto simp: links_wf_def)
  then show ?thesis using l d ch [OF refl] unfolding links_wf_def sb by (simp add: distinct_remove1)
qed

lemma links_wf_add:
  assumes l: "links_wf t bt (i # fr) hx n" and h: "h < length t"
  shows "links_wf (t[h := i # t ! h]) (i # bt) fr (hx(i := int h)) n"
proof -
  have ni: "i \<notin> set bt" "i \<notin> set fr" using l by (auto simp: links_wf_def)
  have ch: "distinct (t[h := i # t ! h] ! k) \<and>
      (\<forall>j. j \<in> set (t[h := i # t ! h] ! k) \<longleftrightarrow> j \<in> insert i (set bt) \<and> (hx(i := int h)) j = int k)" if "k < length t" for k
  proof -
    have c: "distinct (t ! k) \<and> (\<forall>j. j \<in> set (t ! k) \<longleftrightarrow> j \<in> set bt \<and> hx j = int k)"
      using l that by (simp add: links_wf_def)
    show ?thesis using c ni h by (cases "k = h") auto
  qed
  have "set (i # bt) \<inter> set fr = {}" "set (i # bt) \<union> set fr = {..<n}"
    using l ni by (auto simp: links_wf_def)
  then show ?thesis using l ni ch h unfolding links_wf_def by simp
qed

section \<open>The invariant\<close>

definition live :: "tcp_state \<Rightarrow> nat set" where
  "live s = set (tcp_by_time s)"

definition stream_wf :: "tcp_state \<Rightarrow> nat \<Rightarrow> bool" where
  "stream_wf s i \<longleftrightarrow> (\<forall>d. half_wf (half d (streams_pool s ! i))) \<and>
     s_hash_index (streams_pool s ! i) = mk_hash_index (s_addr (streams_pool s ! i)) s"

definition tcp_wf :: "tcp_env \<Rightarrow> tcp_state \<Rightarrow> bool" where
  "tcp_wf env s \<longleftrightarrow>
     (\<exists>t. tcp_stream_table s = Some t \<and> int (length t) = tcp_stream_table_size s \<and>
          links_wf t (tcp_by_time s) (free_streams s) (\<lambda>i. s_hash_index (streams_pool s ! i)) (length (streams_pool s))) \<and>
     0 < tcp_stream_table_size s \<and> 0 \<le> max_stream s \<and> length (streams_pool s) = nat (max_stream s + 1) \<and>
     tcp_num s = int (length (tcp_by_time s)) \<and>
     (\<forall>i \<in> live s. stream_wf s i) \<and> inj_on (\<lambda>i. s_addr (streams_pool s ! i)) (live s) \<and>
     timeouts_ok env (live s) (nids_tcp_timeouts s) \<and> due_by (te_now env + 10) (nids_tcp_timeouts s)"

lemma mk_hash_index_cong:
  "tcp_hash s' = tcp_hash s \<Longrightarrow> tcp_stream_table_size s' = tcp_stream_table_size s \<Longrightarrow> mk_hash_index a s' = mk_hash_index a s"
  by (simp add: mk_hash_index_def)

lemma tcp_syslog_fields [simp]:
  "tcp_stream_table (tcp_syslog ty w s) = tcp_stream_table s" "tcp_by_time (tcp_syslog ty w s) = tcp_by_time s"
  "free_streams (tcp_syslog ty w s) = free_streams s" "tcp_num (tcp_syslog ty w s) = tcp_num s"
  "max_stream (tcp_syslog ty w s) = max_stream s" "tcp_stream_table_size (tcp_syslog ty w s) = tcp_stream_table_size s"
  "tcp_hash (tcp_syslog ty w s) = tcp_hash s" "streams_pool (tcp_syslog ty w s) = streams_pool s"
  "live (tcp_syslog ty w s) = live s" "tcp_procs (tcp_syslog ty w s) = tcp_procs s"
  "nids_tcp_timeouts (tcp_syslog ty w s) = nids_tcp_timeouts s" "mk_hash_index a (tcp_syslog ty w s) = mk_hash_index a s"
  by (simp_all add: tcp_syslog_def live_def mk_hash_index_def)

lemma tcp_wf_syslog [simp]: "tcp_wf env (tcp_syslog ty w s) = tcp_wf env s"
  unfolding tcp_wf_def stream_wf_def by simp

lemma tcp_wf_table:
  assumes "tcp_wf env s"
  obtains t where "tcp_stream_table s = Some t" "int (length t) = tcp_stream_table_size s"
    "links_wf t (tcp_by_time s) (free_streams s) (\<lambda>i. s_hash_index (streams_pool s ! i)) (length (streams_pool s))"
  using assms by (auto simp: tcp_wf_def)

lemma tcp_wf_live:
  assumes "tcp_wf env s" and "i \<in> live s"
  shows "i < length (streams_pool s)" "half_wf (half d (streams_pool s ! i))"
    "s_hash_index (streams_pool s ! i) = mk_hash_index (s_addr (streams_pool s ! i)) s"
proof -
  show "i < length (streams_pool s)"
    using tcp_wf_table [OF assms(1)] links_wf_member(4) assms(2) by (metis live_def)
  show "half_wf (half d (streams_pool s ! i))" "s_hash_index (streams_pool s ! i) = mk_hash_index (s_addr (streams_pool s ! i)) s"
    using assms by (simp_all add: tcp_wf_def stream_wf_def)
qed

text \<open>A stream in work, as it was taken from the pool.\<close>

definition of_pool :: "tcp_state \<Rightarrow> conn \<Rightarrow> bool" where
  "of_pool s c \<longleftrightarrow> c_self c \<in> live s \<and> s_addr (c_tcp c) = s_addr (streams_pool s ! c_self c) \<and>
     s_hash_index (c_tcp c) = s_hash_index (streams_pool s ! c_self c)"

lemma load_ok:
  assumes "tcp_wf env s" and "i \<in> live s"
  obtains c where "load i s = Some c" "conn_wf env (live s) c" "of_pool s c" "c_self c = i" "c_tcp c = streams_pool s ! i"
    "c_log c = tcp_log s"
proof -
  have i: "i < length (streams_pool s)" using tcp_wf_live(1) [OF assms] .
  let ?c = "\<lparr>c_self = i, c_tcp = streams_pool s ! i, c_timeouts = nids_tcp_timeouts s, c_log = tcp_log s\<rparr>"
  have "load i s = Some ?c" using i by (simp add: load_def)
  moreover have "conn_wf env (live s) ?c" using assms tcp_wf_live(2) [OF assms] by (simp add: conn_wf_def tcp_wf_def)
  ultimately show thesis using that [of ?c] assms(2) by (simp add: of_pool_def)
qed

lemma same_id_of_pool: "same_id c c' \<Longrightarrow> of_pool s c \<Longrightarrow> of_pool s c'"
  by (simp add: same_id_def of_pool_def)

lemma store_fields [simp]:
  "tcp_stream_table (store c s) = tcp_stream_table s" "tcp_by_time (store c s) = tcp_by_time s" "free_streams (store c s) = free_streams s"
  "tcp_num (store c s) = tcp_num s" "max_stream (store c s) = max_stream s" "tcp_stream_table_size (store c s) = tcp_stream_table_size s"
  "tcp_hash (store c s) = tcp_hash s" "length (streams_pool (store c s)) = length (streams_pool s)" "live (store c s) = live s"
  "tcp_procs (store c s) = tcp_procs s" "nids_tcp_timeouts (store c s) = c_timeouts c" "tcp_log (store c s) = c_log c"
  by (simp_all add: store_def live_def)

lemma store_nth: "j < length (streams_pool s) \<Longrightarrow> streams_pool (store c s) ! j = (if j = c_self c then c_tcp c else streams_pool s ! j)"
  by (simp add: store_def)

lemma tcp_wf_store:
  assumes wf: "tcp_wf env s" and c: "conn_wf env (live s) c" and p: "of_pool s c"
  shows "tcp_wf env (store c s)"
proof -
  have nth: "streams_pool (store c s) ! j = (if j = c_self c then c_tcp c else streams_pool s ! j)" if "j \<in> live s" for j
    using store_nth tcp_wf_live(1) [OF wf that] by blast
  have hx: "s_hash_index (streams_pool (store c s) ! j) = s_hash_index (streams_pool s ! j)"
    and ad: "s_addr (streams_pool (store c s) ! j) = s_addr (streams_pool s ! j)" if "j \<in> live s" for j
    using nth [OF that] p by (auto simp: of_pool_def)
  obtain t where t: "tcp_stream_table s = Some t" "int (length t) = tcp_stream_table_size s"
    "links_wf t (tcp_by_time s) (free_streams s) (\<lambda>i. s_hash_index (streams_pool s ! i)) (length (streams_pool s))"
    using tcp_wf_table [OF wf] .
  have l: "links_wf t (tcp_by_time s) (free_streams s) (\<lambda>i. s_hash_index (streams_pool (store c s) ! i)) (length (streams_pool s))"
    using links_wf_cong [OF t(3)] hx by (simp add: live_def)
  have sw: "stream_wf (store c s) j" if j: "j \<in> live s" for j
  proof -
    have "half_wf (half d (streams_pool (store c s) ! j))" for d
      using nth [OF j] conn_wf_half [OF c] tcp_wf_live(2) [OF wf j] by simp
    moreover have "mk_hash_index a (store c s) = mk_hash_index a s" for a by (rule mk_hash_index_cong) simp_all
    ultimately show ?thesis using hx [OF j] ad [OF j] tcp_wf_live(3) [OF wf j] by (simp add: stream_wf_def)
  qed
  have "inj_on (\<lambda>i. s_addr (streams_pool (store c s) ! i)) (live s) = inj_on (\<lambda>i. s_addr (streams_pool s ! i)) (live s)"
    using ad by (rule inj_on_cong)
  then show ?thesis using wf t(1,2) l sw c by (simp add: tcp_wf_def conn_wf_def)
qed

lemma call_each_core: "same_core c (call_each env pre ls c)"
proof (induction ls arbitrary: pre c)
  case (Cons l r)
  let ?c1 = "c\<lparr>c_tcp := (c_tcp c)\<lparr>s_listeners := pre @ l # r\<rparr>\<rparr>"
  obtain d c' where ci: "call_item env (l_item l) (l_data l) ?c1 = (d, c')" by fastforce
  have "same_core c c'" using call_item_core(1) [where c = ?c1 and env = env and item = "l_item l" and dat = "l_data l"] ci by simp
  then show ?case using Cons [where c = c' and pre = "pre @ [l\<lparr>l_data := d\<rparr>]"] ci by (auto intro: same_core_trans)
qed simp

lemma conn_wf_core:
  assumes "same_core c c'" and "conn_wf env L c"
  shows "conn_wf env L c'"
proof -
  have "half_wf (chalf d c')" for d using half_wf_core [OF same_coreD [OF assms(1)]] conn_wf_half [OF assms(2)] by simp
  then show ?thesis using assms by (simp add: conn_wf_def same_core_def)
qed

lemma call_listeners_ok:
  assumes "conn_wf env L c" and "of_pool s c"
  shows "conn_wf env L (call_listeners env st c)" "of_pool s (call_listeners env st c)" "c_self (call_listeners env st c) = c_self c"
proof -
  let ?c = "c\<lparr>c_tcp := (c_tcp c)\<lparr>s_nids_state := st\<rparr>\<rparr>"
  have core: "same_core ?c (call_listeners env st c)" unfolding call_listeners_def by (rule call_each_core)
  have "conn_wf env L ?c" using assms(1) by (simp add: conn_wf_def)
  then show "conn_wf env L (call_listeners env st c)" by (rule conn_wf_core [OF core])
  show "of_pool s (call_listeners env st c)" "c_self (call_listeners env st c) = c_self c"
    using core assms(2) by (simp_all add: same_core_def of_pool_def)
qed

section \<open>Releasing a stream\<close>

lemma remove_timeout_filter: "distinct (map fst ts) \<Longrightarrow> remove_timeout a ts = filter (\<lambda>e. fst e \<noteq> a) ts"
proof (induction ts)
  case (Cons e ts)
  have "fst e \<notin> fst ` set ts" using Cons.prems by simp
  then have "filter (\<lambda>x. fst x \<noteq> fst e) ts = ts" by (intro filter_True) (metis image_eqI)
  then show ?case using Cons by auto
qed simp

lemma set_remove_timeout: "distinct (map fst ts) \<Longrightarrow> set (remove_timeout a ts) = {e \<in> set ts. fst e \<noteq> a}"
  by (simp add: remove_timeout_filter)

lemma timeouts_ok_del:
  assumes "timeouts_ok env L ts"
  shows "timeouts_ok env (L - {a}) (del_tcp_closing_timeout env a ts)"
    "due_by m ts \<Longrightarrow> due_by m (del_tcp_closing_timeout env a ts)"
proof -
  have d: "distinct (map fst ts)" using assms by (simp add: timeouts_ok_def)
  have "distinct (map fst (remove_timeout a ts))" "sorted (map snd (remove_timeout a ts))"
    using assms unfolding remove_timeout_filter [OF d]
    by (simp_all add: timeouts_ok_def distinct_map_filter sorted_filter)
  then show "timeouts_ok env (L - {a}) (del_tcp_closing_timeout env a ts)"
    using assms set_remove_timeout [OF d] by (auto simp: timeouts_ok_def del_tcp_closing_timeout_def)
  show "due_by m ts \<Longrightarrow> due_by m (del_tcp_closing_timeout env a ts)"
    using set_remove_timeout [OF d] by (auto simp: due_by_def del_tcp_closing_timeout_def)
qed

definition freed :: "tcp_env \<Rightarrow> nat \<Rightarrow> tcp_state \<Rightarrow> tcp_state \<Rightarrow> bool" where
  "freed env i s s' \<longleftrightarrow> tcp_by_time s' = remove1 i (tcp_by_time s) \<and> free_streams s' = i # free_streams s \<and>
     live s' = live s - {i} \<and> (\<forall>j. j \<noteq> i \<longrightarrow> streams_pool s' ! j = streams_pool s ! j) \<and>
     nids_tcp_timeouts s' = del_tcp_closing_timeout env i (nids_tcp_timeouts s) \<and> tcp_log s' = tcp_log s \<and>
     tcp_hash s' = tcp_hash s \<and> tcp_stream_table_size s' = tcp_stream_table_size s \<and> max_stream s' = max_stream s \<and>
     tcp_num s' = tcp_num s - 1 \<and> tcp_procs s' = tcp_procs s"

lemma free_ok:
  assumes wf: "tcp_wf env s" and i: "i \<in> live s"
  shows "\<exists>s'. nids_free_tcp_stream env i s = Some s' \<and> tcp_wf env s' \<and> freed env i s s'"
proof -
  obtain t where t: "tcp_stream_table s = Some t" "int (length t) = tcp_stream_table_size s"
    "links_wf t (tcp_by_time s) (free_streams s) (\<lambda>i. s_hash_index (streams_pool s ! i)) (length (streams_pool s))"
    using tcp_wf_table [OF wf] .
  have ib: "i \<in> set (tcp_by_time s)" using i by (simp add: live_def)
  note m = links_wf_member [OF t(3) ib]
  let ?h = "s_hash_index (streams_pool s ! i)"
  let ?t = "t[nat ?h := remove1 i (t ! nat ?h)]"
  define s' where "s' = s\<lparr>nids_tcp_timeouts := del_tcp_closing_timeout env i (nids_tcp_timeouts s),
     streams_pool := (streams_pool s)[i := released (streams_pool s ! i)], tcp_stream_table := Some ?t,
     tcp_by_time := remove1 i (tcp_by_time s), free_streams := i # free_streams s, tcp_num := tcp_num s - 1\<rparr>"
  have eq: "nids_free_tcp_stream env i s = Some s'"
    using m ib t(1) by (simp add: nids_free_tcp_stream_def load_def Let_def s'_def)
  have db: "distinct (tcp_by_time s)" using t(3) by (simp add: links_wf_def)
  have lv: "live s' = live s - {i}" using db by (simp add: s'_def live_def set_remove1_eq)
  have nth: "streams_pool s' ! j = streams_pool s ! j" if "j \<noteq> i" for j using that by (simp add: s'_def)
  have fr: "freed env i s s'" using lv nth by (simp add: freed_def) (simp add: s'_def)
  have l: "links_wf ?t (tcp_by_time s') (free_streams s') (\<lambda>j. s_hash_index (streams_pool s' ! j)) (length (streams_pool s'))"
  proof -
    have "s_hash_index (streams_pool s' ! j) = s_hash_index (streams_pool s ! j)" if "j \<in> set (remove1 i (tcp_by_time s))" for j
      using nth [of j] that db by (cases "j = i") simp_all
    then show ?thesis using links_wf_cong [OF links_wf_free [OF t(3) ib]] by (simp add: s'_def)
  qed
  have sw: "stream_wf s' j" if "j \<in> live s'" for j
  proof -
    have j: "j \<in> live s" "j \<noteq> i" using that lv by auto
    have "mk_hash_index a s' = mk_hash_index a s" for a by (rule mk_hash_index_cong) (simp_all add: s'_def)
    then show ?thesis using nth [OF j(2)] tcp_wf_live(2,3) [OF wf j(1)] by (simp add: stream_wf_def)
  qed
  have inj: "inj_on (\<lambda>j. s_addr (streams_pool s' ! j)) (live s')"
  proof -
    have "inj_on (\<lambda>j. s_addr (streams_pool s ! j)) (live s - {i})" using wf by (auto simp: tcp_wf_def intro: inj_on_subset)
    then show ?thesis using nth inj_on_cong [of "live s - {i}"] lv by (metis (no_types, lifting) DiffD2 insertI1)
  qed
  have to: "timeouts_ok env (live s') (nids_tcp_timeouts s')" "due_by (te_now env + 10) (nids_tcp_timeouts s')"
    using timeouts_ok_del [where env = env and L = "live s" and ts = "nids_tcp_timeouts s" and a = i] wf fr lv by (simp_all add: tcp_wf_def freed_def)
  have tab: "tcp_stream_table s' = Some ?t" "int (length ?t) = tcp_stream_table_size s'" using t(2) by (simp_all add: s'_def)
  have num: "tcp_num s' = int (length (tcp_by_time s'))" "0 < tcp_stream_table_size s'" "0 \<le> max_stream s'" "length (streams_pool s') = nat (max_stream s' + 1)"
    using wf ib length_pos_if_in_set [OF ib] by (auto simp: s'_def tcp_wf_def length_remove1 of_nat_diff Suc_leI)
  have "tcp_wf env s'" unfolding tcp_wf_def using tab l num sw inj to by blast
  then show ?thesis using eq fr by blast
qed

lemma free_stored:
  assumes "tcp_wf env s" and "conn_wf env (live s) c" and "of_pool s c"
  shows "\<exists>s'. nids_free_tcp_stream env (c_self c) (store c s) = Some s' \<and> tcp_wf env s' \<and> freed env (c_self c) (store c s) s'"
  using free_ok [OF tcp_wf_store [OF assms]] assms(3) by (simp add: of_pool_def)

section \<open>Lookup\<close>

lemma mk_hash_index_range:
  assumes "0 < tcp_stream_table_size s"
  shows "0 \<le> mk_hash_index a s \<and> mk_hash_index a s < tcp_stream_table_size s"
proof -
  let ?m = "mkhash (tcp_hash s) (t_saddr a) (t_source a) (t_daddr a) (t_dest a)"
  have "unat ?m < 2147483648"
    using mkhash_less [of "tcp_hash s" "t_saddr a" "t_source a" "t_daddr a" "t_dest a"] by linarith
  then have "sint ?m = int (unat ?m)" by (rule sint_u32_nonneg)
  then have "0 \<le> sint ?m" by (simp only: of_nat_0_le_iff)
  then show ?thesis unfolding mk_hash_index_def using assms by (rule smod_int_nonneg)
qed

lemma find_ok:
  assumes wf: "tcp_wf env s"
  shows "\<exists>r. nids_find_tcp_stream a s = Some r \<and>
    (case r of None \<Rightarrow> a \<notin> (\<lambda>i. s_addr (streams_pool s ! i)) ` live s
     | Some i \<Rightarrow> i \<in> live s \<and> s_addr (streams_pool s ! i) = a)"
proof -
  obtain t where t: "tcp_stream_table s = Some t" "int (length t) = tcp_stream_table_size s"
    "links_wf t (tcp_by_time s) (free_streams s) (\<lambda>i. s_hash_index (streams_pool s ! i)) (length (streams_pool s))"
    using tcp_wf_table [OF wf] .
  define h where "h = nat (mk_hash_index a s)"
  have h: "0 \<le> mk_hash_index a s" "h < length t" "mk_hash_index a s = int h"
    using mk_hash_index_range [of s a] wf t(2) by (auto simp: tcp_wf_def h_def)
  have mem: "i \<in> set (t ! h) \<longleftrightarrow> i \<in> live s \<and> s_hash_index (streams_pool s ! i) = int h" for i
    using t(3) h(2) by (simp add: links_wf_def live_def)
  have f: "nids_find_tcp_stream a s = Some (find (\<lambda>i. s_addr (streams_pool s ! i) = a) (t ! h))"
    using t(1) h by (simp add: nids_find_tcp_stream_def chain_of_def Let_def h_def [symmetric])
  have all: "i \<in> set (t ! h)" if "i \<in> live s" "s_addr (streams_pool s ! i) = a" for i
    using that mem tcp_wf_live(3) [OF wf that(1)] h(3) by simp
  show ?thesis
  proof (cases "find (\<lambda>i. s_addr (streams_pool s ! i) = a) (t ! h)")
    case None
    then have "a \<notin> (\<lambda>i. s_addr (streams_pool s ! i)) ` live s" using all by (auto simp: find_None_iff)
    then show ?thesis using f None by simp
  next
    case (Some i)
    then have "i \<in> set (t ! h)" "s_addr (streams_pool s ! i) = a" by (auto simp: find_Some_iff)
    then show ?thesis using f Some mem by simp
  qed
qed

lemma find_ports_ok:
  assumes wf: "tcp_wf env s"
  shows "\<exists>r. find_ports sp dp src dst s = Some r \<and>
    (case r of
       None \<Rightarrow> \<lparr>t_source = sp, t_dest = dp, t_saddr = src, t_daddr = dst\<rparr> \<notin> (\<lambda>i. s_addr (streams_pool s ! i)) ` live s
     | Some (i, fc) \<Rightarrow> i \<in> live s \<and> s_addr (streams_pool s ! i) =
         (if fc then \<lparr>t_source = sp, t_dest = dp, t_saddr = src, t_daddr = dst\<rparr>
          else \<lparr>t_source = dp, t_dest = sp, t_saddr = dst, t_daddr = src\<rparr>))"
  using find_ok [OF wf, of "\<lparr>t_source = sp, t_dest = dp, t_saddr = src, t_daddr = dst\<rparr>"]
    find_ok [OF wf, of "\<lparr>t_source = dp, t_dest = sp, t_saddr = dst, t_daddr = src\<rparr>"]
  by (fastforce simp: find_ports_def split: option.splits)

section \<open>New streams\<close>

lemma get_wscale_loop_ok:
  "len \<le> 20 + int (length opts) \<Longrightarrow> ws = push_bit k 1 \<and> k \<le> 14 \<Longrightarrow>
   \<exists>on k'. get_wscale_loop opts len ind ret ws = Some (on, push_bit k' 1) \<and> k' \<le> 14"
proof (induction opts len ind ret ws arbitrary: k rule: get_wscale_loop.induct)
  case (1 opts len ind ret ws)
  show ?case
  proof (cases "int ind \<le> len - 20 - 3")
    case True
    then have in1: "ind + 2 < length opts" using "1.prems" by linarith
    obtain o1 l x where o1: "rd8 opts ind = Some o1" and l: "rd8 opts (ind + 1) = Some l" and x: "rd8 opts (ind + 2) = Some x"
      using in1 by (simp add: rd8_in)
    define e where "e = (if 14 < x then 14 else unat x)"
    have e: "e \<le> 14" by (simp add: e_def word_less_nat_alt not_less)
    consider "o1 = 0" | "o1 = 1" | "o1 = 3" | "o1 \<noteq> 0" "o1 \<noteq> 1" "o1 \<noteq> 3" by blast
    then show ?thesis
    proof cases
      case 1
      then show ?thesis using "1.prems" True o1 by (subst get_wscale_loop.simps) auto
    next
      case 2
      then show ?thesis using "1.IH"(1) [OF True o1 _ _ "1.prems"] True o1 by (subst get_wscale_loop.simps) simp
    next
      case 3
      have m: "(if o1 = 3 then map_option (\<lambda>t. (True, push_bit (if 14 < t then 14 else unat t) 1)) (rd8 opts (ind + 2)) else Some (ret, ws))
          = Some (True, push_bit e 1)" using 3 x by (simp add: e_def)
      show ?thesis using "1.IH"(2) [OF True o1 _ _ m _ l, of True "push_bit e 1" e] "1.prems"(1) e 3 True o1 l m
        by (subst get_wscale_loop.simps) auto
    next
      case 4
      then show ?thesis using "1.IH"(2) [OF True o1 _ _ _ _ l, of "(ret, ws)" ret ws k] "1.prems" True o1 l
        by (subst get_wscale_loop.simps) auto
    qed
  next
    case False
    then show ?thesis using "1.prems" by (subst get_wscale_loop.simps) auto
  qed
qed

lemma get_wscale_ok:
  assumes "options_readable th"
  shows "\<exists>on k. get_wscale th = Some (on, push_bit k 1) \<and> k \<le> 14"
  using get_wscale_loop_ok [of "4 * int (th_doff th)" "th_options th" 1 0 0 False] assms
  by (simp add: options_readable_def get_wscale_def)

lemma half_wf_zero: "half_wf (zero_half st)"
  using buf_wf_zero(1) by (simp add: half_wf_def keep_max_def pend_def zero_half_def)

lemma half_wf_upd2 [simp]:
  "half_wf (h\<lparr>h_seq := sq\<rparr>) = half_wf h" "half_wf (h\<lparr>h_first_data_seq := sq\<rparr>) = half_wf h" "half_wf (h\<lparr>h_ts_on := b\<rparr>) = half_wf h"
  "half_wf (h\<lparr>h_wscale_on := b\<rparr>) = half_wf h" "half_wf (h\<lparr>h_wscale := w\<rparr>) = half_wf h"
  by (simp_all add: half_wf_def buf_wf_def pend_def cong: option.case_cong)

lemma new_stream_ok:
  assumes "options_readable th"
  shows "\<exists>a. new_stream addr h th = Some a \<and> s_addr a = addr \<and> s_hash_index a = h \<and> (\<forall>d. half_wf (half d a)) \<and>
    h_state (s_client a) = TCP_SYN_SENT \<and> h_state (s_server a) = TCP_CLOSE \<and> s_listeners a = []"
proof -
  obtain on ts on' k where "get_ts th 0 = Some (on, ts)" "get_wscale th = Some (on', push_bit k 1)"
    using get_ts_ok [OF assms] get_wscale_ok [OF assms] by blast
  then show ?thesis using half_wf_zero
    by (simp add: new_stream_def all_sides [where d = Client]) (simp add: zero_half_def)
qed

lemma evict_ok:
  assumes wf: "tcp_wf env s" and ne: "tcp_by_time s \<noteq> []"
  shows "\<exists>s'. evict_oldest env s = Some s' \<and> tcp_wf env s' \<and> tcp_by_time s' = butlast (tcp_by_time s) \<and>
    tcp_hash s' = tcp_hash s \<and> tcp_stream_table_size s' = tcp_stream_table_size s \<and> tcp_procs s' = tcp_procs s \<and> live s' \<subseteq> live s \<and>
    (\<forall>j \<in> live s'. s_addr (streams_pool s' ! j) = s_addr (streams_pool s ! j))"
proof -
  let ?i = "last (tcp_by_time s)"
  have i: "?i \<in> live s" using ne by (simp add: live_def)
  obtain c where c: "load ?i s = Some c" "conn_wf env (live s) c" "of_pool s c" "c_self c = ?i" using load_ok [OF wf i] .
  let ?c = "call_listeners env NIDS_TIMED_OUT c"
  note co = call_listeners_ok [OF c(2,3), of NIDS_TIMED_OUT]
  obtain s1 where s1: "nids_free_tcp_stream env ?i (store ?c s) = Some s1" "tcp_wf env s1" "freed env ?i (store ?c s) s1"
    using free_stored [OF wf co(1,2)] co(3) c(4) by auto
  define s' where "s' = (if h_state (s_client (c_tcp c)) \<noteq> TCP_SYN_SENT then tcp_syslog NIDS_WARN_TCP NIDS_WARN_TCP_TOOMUCH s1 else s1)"
  have e: "evict_oldest env s = Some s'" using ne c(1) s1(1) by (simp add: evict_oldest_def Let_def s'_def)
  have same: "tcp_by_time s' = tcp_by_time s1" "tcp_hash s' = tcp_hash s1" "tcp_stream_table_size s' = tcp_stream_table_size s1"
    "live s' = live s1" "streams_pool s' = streams_pool s1" "tcp_procs s' = tcp_procs s1" by (simp_all add: s'_def tcp_syslog_def live_def)
  have "tcp_wf env s'" using s1(2) by (simp add: s'_def)
  moreover have "distinct (tcp_by_time s)" using wf by (auto simp: tcp_wf_def links_wf_def)
  then have "remove1 ?i (tcp_by_time s) = butlast (tcp_by_time s)"
    using ne by (metis append_butlast_last_id distinct_butlast remove1_append remove1.simps not_distinct_conv_prefix append_Nil2)
  moreover have "s_addr (streams_pool s1 ! j) = s_addr (streams_pool s ! j)" if "j \<in> live s1" for j
  proof -
    have j: "j \<noteq> ?i" "j \<in> live s" using s1(3) that by (auto simp: freed_def)
    then show ?thesis using s1(3) store_nth [OF tcp_wf_live(1) [OF wf j(2)], of ?c] co(3) c(4) by (simp add: freed_def)
  qed
  ultimately show ?thesis using e s1(3) same by (auto simp: freed_def)
qed

end
