(* ===== verification/Sniffer_Cb.thy ===== *)
theory Sniffer_Cb
  imports Tcp_Buf
begin

text \<open>
  What \<open>tcp_callback\<close> of \<open>src/sniffer/Sniffer.cpp\<close> does to the stream it is called with: on a new
  connection it asks for both directions and for urgent data to the server; it never discards and
  never touches its private pointer.  (What it reports to the application is a matter of the
  packet channel, not of the stream.)
\<close>

definition sniffer_cb :: callback where
  "sniffer_cb item log a dat =
     (let n = (if s_nids_state a = NIDS_JUST_EST then 1 else 0) in
      \<lparr>r_client_collect = h_collect (s_client a) + n, r_server_collect = h_collect (s_server a) + n,
       r_client_collect_urg = h_collect_urg (s_client a), r_server_collect_urg = h_collect_urg (s_server a) + n,
       r_discards = [], r_data = dat\<rparr>)"

lemma sniffer_keeps: "te_cb env = sniffer_cb \<Longrightarrow> keeps_at_most env n"
  by (simp add: keeps_at_most_def sniffer_cb_def Let_def)

end
