(* ===== verification/Tcp_Safe.thy ===== *)
theory Tcp_Safe
  imports Tcp_Wf Sniffer_Cb
begin

text \<open>
  The entry points of \<open>tcp.c\<close> keep the invariant \<open>tcp_wf\<close> and never reach undefined behaviour.
\<close>

section \<open>A new connection\<close>

lemma tcp_wf_counts:
  assumes "tcp_wf env s"
  shows "tcp_num s + int (length (free_streams s)) = max_stream s + 1" "tcp_num s = int (length (tcp_by_time s))" "0 \<le> max_stream s"
proof -
  obtain t where "links_wf t (tcp_by_time s) (free_streams s) (\<lambda>i. s_hash_index (streams_pool s ! i)) (length (streams_pool s))"
    using tcp_wf_table [OF assms] .
  then have "length (tcp_by_time s) + length (free_streams s) = nat (max_stream s + 1)"
    using links_wf_count assms by (simp add: tcp_wf_def)
  moreover show "tcp_num s = int (length (tcp_by_time s))" "0 \<le> max_stream s" using assms by (simp_all add: tcp_wf_def)
  ultimately show "tcp_num s + int (length (free_streams s)) = max_stream s + 1" by linarith
qed

lemma free_left: "tcp_wf env s \<Longrightarrow> tcp_num s \<le> max_stream s \<Longrightarrow> free_streams s \<noteq> []"
  using tcp_wf_counts(1) by fastforce

lemma by_time_bound: "tcp_wf env s \<Longrightarrow> tcp_num s \<le> max_stream s + 1"
  using tcp_wf_counts(1) by fastforce

text \<open>Linking a free stream.\<close>

lemma link_ok:
  assumes wf: "tcp_wf env s" and fr: "free_streams s = i # rest" and tab: "tcp_stream_table s = Some t"
    and a: "s_addr a = addr" "s_hash_index a = mk_hash_index addr s" "\<And>d. half_wf (half d a)"
    and new: "addr \<notin> (\<lambda>j. s_addr (streams_pool s ! j)) ` live s"
    and s': "s' = s\<lparr>free_streams := rest, tcp_num := tcp_num s + 1, streams_pool := (streams_pool s)[i := a],
                   tcp_stream_table := Some (t[nat (mk_hash_index addr s) := i # t ! nat (mk_hash_index addr s)]),
                   tcp_by_time := i # tcp_by_time s\<rparr>"
  shows "tcp_wf env s'" "nat (mk_hash_index addr s) < length t" "i < length (streams_pool s)" "streams_pool s' ! i = a" "live s' = insert i (live s)"
proof -
  have t: "int (length t) = tcp_stream_table_size s"
    "links_wf t (tcp_by_time s) (i # rest) (\<lambda>i. s_hash_index (streams_pool s ! i)) (length (streams_pool s))"
    using tcp_wf_table [OF wf] tab fr by auto
  define h where "h = nat (mk_hash_index addr s)"
  have h: "mk_hash_index addr s = int h" and hl: "h < length t"
    using mk_hash_index_range [of s addr] wf t(1) by (auto simp: tcp_wf_def h_def)
  then show "nat (mk_hash_index addr s) < length t" by simp
  have "set (tcp_by_time s) \<union> set (i # rest) = {..<length (streams_pool s)}" using t(2) by (simp add: links_wf_def)
  then show il: "i < length (streams_pool s)" by auto
  have ni: "i \<notin> live s" using t(2) by (auto simp: links_wf_def live_def)
  show nth: "streams_pool s' ! i = a" using il by (simp add: s')
  show lv: "live s' = insert i (live s)" by (simp add: s' live_def)
  have oth: "streams_pool s' ! j = streams_pool s ! j" if "j \<noteq> i" for j using that by (simp add: s')
  have "links_wf (t[h := i # t ! h]) (i # tcp_by_time s) rest ((\<lambda>i. s_hash_index (streams_pool s ! i))(i := int h)) (length (streams_pool s))"
    using links_wf_add [OF t(2) hl] .
  then have l: "links_wf (t[h := i # t ! h]) (tcp_by_time s') (free_streams s') (\<lambda>j. s_hash_index (streams_pool s' ! j)) (length (streams_pool s'))"
    using links_wf_cong nth oth a(2) h by (simp add: s' links_wf_cong fun_upd_def nth_list_update)
  have mh: "mk_hash_index x s' = mk_hash_index x s" for x by (rule mk_hash_index_cong) (simp_all add: s')
  have sw: "stream_wf s' j" if "j \<in> live s'" for j
  proof (cases "j = i")
    case True
    then show ?thesis using nth a mh by (simp add: stream_wf_def)
  next
    case False
    then show ?thesis using that lv oth [OF False] tcp_wf_live(2,3) [OF wf] mh by (simp add: stream_wf_def)
  qed
  have inj: "inj_on (\<lambda>j. s_addr (streams_pool s' ! j)) (live s')"
  proof -
    have "inj_on (\<lambda>j. s_addr (streams_pool s' ! j)) (live s)"
      using wf oth ni inj_on_cong [of "live s" "\<lambda>j. s_addr (streams_pool s' ! j)" "\<lambda>j. s_addr (streams_pool s ! j)"]
      by (metis (no_types, lifting) tcp_wf_def)
    moreover have "s_addr (streams_pool s' ! i) \<notin> (\<lambda>j. s_addr (streams_pool s' ! j)) ` live s"
    proof -
      have "(\<lambda>j. s_addr (streams_pool s' ! j)) ` live s = (\<lambda>j. s_addr (streams_pool s ! j)) ` live s"
        using oth ni by (intro image_cong refl) metis
      then show ?thesis using new nth a(1) by simp
    qed
    ultimately show ?thesis using lv ni by (simp add: inj_on_insert)
  qed
  have "fst ` set (nids_tcp_timeouts s) \<subseteq> live s'" using wf lv by (auto simp: tcp_wf_def timeouts_ok_def)
  then have to: "timeouts_ok env (live s') (nids_tcp_timeouts s')" "due_by (te_now env + 10) (nids_tcp_timeouts s')"
    using wf by (simp_all add: s' tcp_wf_def timeouts_ok_def)
  have "tcp_stream_table s' = Some (t[h := i # t ! h])" "int (length (t[h := i # t ! h])) = tcp_stream_table_size s'"
    "tcp_num s' = int (length (tcp_by_time s'))" "0 < tcp_stream_table_size s'" "0 \<le> max_stream s'" "length (streams_pool s') = nat (max_stream s' + 1)"
    using wf t(1) by (simp_all add: s' h_def tcp_wf_def)
  then show "tcp_wf env s'" unfolding tcp_wf_def using l sw inj to by blast
qed

lemma add_new_tcp_ok:
  assumes wf: "tcp_wf env s" and th: "options_readable th"
    and addr: "addr = \<lparr>t_source = th_source th, t_dest = th_dest th, t_saddr = src, t_daddr = dst\<rparr>"
    and new: "addr \<notin> (\<lambda>j. s_addr (streams_pool s ! j)) ` live s"
  shows "\<exists>s' i. add_new_tcp env th src dst s = Some s' \<and> tcp_wf env s' \<and> i \<in> live s' \<and> s_addr (streams_pool s' ! i) = addr \<and>
    new_stream addr (mk_hash_index addr s) th = Some (streams_pool s' ! i) \<and> tcp_procs s' = tcp_procs s \<and>
    (\<lambda>j. s_addr (streams_pool s' ! j)) ` live s' \<subseteq> insert addr ((\<lambda>j. s_addr (streams_pool s ! j)) ` live s)"
proof -
  obtain s1 where s1: "(if tcp_num s > max_stream s then evict_oldest env s else Some s) = Some s1" "tcp_wf env s1"
      "tcp_hash s1 = tcp_hash s" "tcp_stream_table_size s1 = tcp_stream_table_size s" "free_streams s1 \<noteq> []"
      "addr \<notin> (\<lambda>j. s_addr (streams_pool s1 ! j)) ` live s1" "tcp_procs s1 = tcp_procs s"
      "(\<lambda>j. s_addr (streams_pool s1 ! j)) ` live s1 \<subseteq> (\<lambda>j. s_addr (streams_pool s ! j)) ` live s"
  proof (cases "tcp_num s > max_stream s")
    case True
    have ne: "tcp_by_time s \<noteq> []" using True wf by (auto simp: tcp_wf_def)
    obtain s1 where e: "evict_oldest env s = Some s1" "tcp_wf env s1" "tcp_by_time s1 = butlast (tcp_by_time s)"
        "tcp_hash s1 = tcp_hash s" "tcp_stream_table_size s1 = tcp_stream_table_size s" "live s1 \<subseteq> live s" "tcp_procs s1 = tcp_procs s"
        "\<forall>j \<in> live s1. s_addr (streams_pool s1 ! j) = s_addr (streams_pool s ! j)"
      using evict_ok [OF wf ne] by blast
    have "max_stream s1 = max_stream s"
      using e(1) ne by (auto simp: evict_oldest_def nids_free_tcp_stream_def Let_def bind_eq_Some_conv split: if_splits)
    moreover have "tcp_num s1 = tcp_num s - 1" using e(2,3) wf ne by (simp add: tcp_wf_def of_nat_diff Suc_leI)
    ultimately have "free_streams s1 \<noteq> []" using free_left [OF e(2)] by_time_bound [OF wf] by simp
    moreover have sub: "(\<lambda>j. s_addr (streams_pool s1 ! j)) ` live s1 \<subseteq> (\<lambda>j. s_addr (streams_pool s ! j)) ` live s" using e(6,8) by auto
    moreover have "addr \<notin> (\<lambda>j. s_addr (streams_pool s1 ! j)) ` live s1" using new sub by blast
    ultimately show thesis using that [of s1] e True by simp
  next
    case False
    then show thesis using that [of s] wf new free_left [OF wf] by simp
  qed
  obtain i rest where fr: "free_streams s1 = i # rest" using s1(5) by (cases "free_streams s1") auto
  obtain t where t: "tcp_stream_table s1 = Some t" using tcp_wf_table [OF s1(2)] .
  have mh: "mk_hash_index addr s1 = mk_hash_index addr s" by (rule mk_hash_index_cong [OF s1(3,4)])
  obtain a where a: "new_stream addr (mk_hash_index addr s) th = Some a" "s_addr a = addr" "s_hash_index a = mk_hash_index addr s"
      "\<And>d. half_wf (half d a)" "h_state (s_client a) = TCP_SYN_SENT" "h_state (s_server a) = TCP_CLOSE"
    using new_stream_ok [OF th, of addr "mk_hash_index addr s"] by auto
  note lk = link_ok [OF s1(2) fr t a(2) a(3) [folded mh] a(4) s1(6) refl, unfolded mh]
  have "0 \<le> mk_hash_index addr s" using mk_hash_index_range [of s addr] wf by (simp add: tcp_wf_def)
  define s2 where "s2 = s1\<lparr>free_streams := rest, tcp_num := tcp_num s1 + 1, streams_pool := (streams_pool s1)[i := a],
        tcp_stream_table := Some (t[nat (mk_hash_index addr s) := i # t ! nat (mk_hash_index addr s)]), tcp_by_time := i # tcp_by_time s1\<rparr>"
  have "add_new_tcp env th src dst s = Some s2"
    unfolding add_new_tcp_def Let_def addr [symmetric] s1(1) using fr t a(1) lk(2,3) \<open>0 \<le> mk_hash_index addr s\<close> by (simp add: s2_def)
  moreover have "tcp_wf env s2" "streams_pool s2 ! i = a" "live s2 = insert i (live s1)" "tcp_procs s2 = tcp_procs s" "streams_pool s2 = (streams_pool s1)[i := a]"
    using lk(1,4,5) s1(7) by (simp_all add: s2_def)
  moreover have "(\<lambda>j. s_addr ((streams_pool s1)[i := a] ! j)) ` insert i (live s1) \<subseteq> insert addr ((\<lambda>j. s_addr (streams_pool s ! j)) ` live s)"
  proof (rule image_subsetI)
    fix j
    assume j: "j \<in> insert i (live s1)"
    show "s_addr ((streams_pool s1)[i := a] ! j) \<in> insert addr ((\<lambda>j. s_addr (streams_pool s ! j)) ` live s)"
    proof (cases "j = i")
      case True
      then show ?thesis using a(2) lk(3) by simp
    next
      case False
      then show ?thesis using j s1(8) by (simp add: image_subset_iff)
    qed
  qed
  ultimately show ?thesis using a(1,2) by (intro exI [of _ s2] exI [of _ i]) simp
qed

section \<open>Segments of a known connection\<close>

lemma one_collector_core:
  assumes "one_collector env old (a, w) = (a', w')"
  shows "core_half (half d a') = core_half (half d a)" "s_addr a' = s_addr a" "s_nids_state a' = s_nids_state a" "s_hash_index a' = s_hash_index a"
  using assms by (cases d; auto simp: one_collector_def core_half_def Let_def split: if_splits)+

lemma call_procs_core: "same_core c (call_procs env ps dat c)"
proof (induction ps arbitrary: dat c)
  case (Cons i r)
  obtain dat' c1 where ci: "call_item env i dat c = (dat', c1)" by fastforce
  have core: "same_core c c1" using call_item_core(1) [where c = c and env = env and item = i and dat = dat] ci by simp
  obtain a w where aw: "one_collector env (c_tcp c) (c_tcp c1, first_whatto (c_tcp c) (c_tcp c1)) = (a, w)" by fastforce
  let ?c = "c1\<lparr>c_tcp := if w \<noteq> 0 then a\<lparr>s_listeners := \<lparr>l_item = i, l_data = dat', l_whatto = w\<rparr> # s_listeners a\<rparr> else a\<rparr>"
  have "same_core c1 ?c" using one_collector_core [OF aw] by (simp add: same_core_def)
  then show ?case using Cons [of ?c dat'] ci aw core by (auto intro: same_core_trans)
qed simp

lemma establish_ok:
  assumes "establish env procs fc th c = Some c'" and "conn_wf env L c" and "of_pool s c"
  shows "conn_wf env L c'" "of_pool s c'" "c_self c' = c_self c"
proof -
  define c0 where "c0 = c\<lparr>c_tcp := (c_tcp c)\<lparr>s_client := (s_client (c_tcp c))\<lparr>h_state := TCP_ESTABLISHED, h_ack_seq := th_ack_seq th\<rparr>,
      s_server := (s_server (c_tcp c))\<lparr>h_state := TCP_ESTABLISHED\<rparr>, s_nids_state := NIDS_JUST_EST\<rparr>\<rparr>"
  have core: "same_core c0 c'"
    using assms(1) call_procs_core [of c0] by (auto simp: establish_def Let_def c0_def split: if_splits)
  have "half_wf (chalf d c0)" for d using conn_wf_half [OF assms(2), of d] by (cases d) (simp_all add: c0_def)
  then have "conn_wf env L c0" using assms(2) by (simp add: conn_wf_def) (simp add: c0_def)
  then show "conn_wf env L c'" by (rule conn_wf_core [OF core])
  show "of_pool s c'" "c_self c' = c_self c" using core assms(3) by (simp_all add: same_core_def of_pool_def c0_def)
qed

lemma take_ack_ok:
  assumes "conn_wf env L c"
  shows "conn_wf env L (take_ack d th c)" "same_id c (take_ack d th c)"
proof -
  define c1 where "c1 = set_chalf (other d) (handle_ack (th_ack_seq th) (chalf (other d) c)) c"
  have "half_wf (handle_ack (th_ack_seq th) (chalf (other d) c))" using conn_wf_half [OF assms] by (simp add: handle_ack_def)
  then have wf1: "conn_wf env L c1" using conn_wf_set [OF assms] by (simp add: c1_def)
  then show "conn_wf env L (take_ack d th c)"
    using conn_wf_set [OF wf1] conn_wf_half [OF wf1] assms by (simp add: take_ack_def Let_def c1_def [symmetric])
  show "same_id c (take_ack d th c)" by (simp add: take_ack_def Let_def)
qed

lemma segment_data_ok:
  assumes keep: "keeps_at_most env keep_max" and wf: "tcp_wf env s" and c: "conn_wf env (live s) c" and p: "of_pool s c"
    and th: "options_readable th" and off: "0 \<le> off" "0 \<le> n" "off + n \<le> int (length pkt)" "n \<le> 65535"
  shows "\<exists>s'. segment_data env d th pkt off n skblen c s = Some s' \<and> tcp_wf env s'"
proof -
  define c1 where "c1 = take_ack d th c"
  have c1: "conn_wf env (live s) c1" "of_pool s c1" "c_self c1 = c_self c"
    using take_ack_ok [OF c, of d th] same_id_of_pool p by (auto simp: c1_def same_id_def)
  show ?thesis
  proof (cases "th_ack th \<and> both_closed d c1")
    case True
    note cl = call_listeners_ok [OF c1(1,2), of NIDS_CLOSE]
    then show ?thesis using free_stored [OF wf cl(1,2)] True c1(3) by (auto simp: segment_data_def Let_def c1_def [symmetric])
  next
    case False
    define seg where "seg = take (nat n) (drop (nat off) pkt)"
    have seg: "slice pkt off n = Some seg" "length seg \<le> 65535" using off by (auto simp: slice_def seg_def)
    obtain c2 where c2: "(if n + (if th_fin th then 1 else 0) > 0
         then do { seg \<leftarrow> slice pkt off n; tcp_queue env d th seg skblen c1 } else Some c1) = Some c2"
        "conn_wf env (live s) c2" "of_pool s c2" "c_self c2 = c_self c"
    proof (cases "n + (if th_fin th then 1 else 0) > 0")
      case True
      obtain c2 where "tcp_queue env d th seg skblen c1 = Some c2" "conn_wf env (live s) c2" "same_id c1 c2"
        using tcp_queue_ok [OF keep c1(1) seg(2) th] by blast
      then show thesis using that [of c2] True seg(1) same_id_of_pool [OF _ c1(2)] c1(3) by (simp add: same_id_def)
    qed (use that [of c1] c1 in simp)
    define c3 where "c3 = set_chalf (other d) ((chalf (other d) c2)\<lparr>h_window := th_window th\<rparr>) c2"
    have c3: "conn_wf env (live s) c3" "of_pool s c3" "c_self c3 = c_self c"
      using conn_wf_set [OF c2(2)] conn_wf_half [OF c2(2)] c2(3,4) by (simp_all add: c3_def of_pool_def)
    define c4 where "c4 = (if h_rmem_alloc (chalf d c3) > 65535 then prune_queue d c3 else c3)"
    have "half_wf ((chalf d c3)\<lparr>h_list := [], h_rmem_alloc := 0\<rparr>)"
      using conn_wf_half [OF c3(1), of d] by (simp add: half_wf_def buf_wf_def pend_def cong: option.case_cong)
    moreover have "conn_wf env (live s) (c3\<lparr>c_log := l\<rparr>)" for l using c3(1) by (simp add: conn_wf_def)
    ultimately have "conn_wf env (live s) (prune_queue d c3)" unfolding prune_queue_def by (intro conn_wf_set)
    then have c4: "conn_wf env (live s) c4" "of_pool s c4" "c_self c4 = c_self c"
      using c3 by (simp_all add: c4_def prune_queue_def of_pool_def)
    have "segment_data env d th pkt off n skblen c s =
        (if s_listeners (c_tcp c4) = [] then nids_free_tcp_stream env (c_self c) (store c4 s) else Some (store c4 s))"
      unfolding segment_data_def Let_def c1_def [symmetric] c2(1) if_not_P [OF False] by (simp add: c3_def c4_def)
    then show ?thesis using free_stored [OF wf c4(1,2)] c4(3) tcp_wf_store [OF wf c4(1,2)] by auto
  qed
qed

lemma syn_ack_ok:
  assumes "options_readable th" and "\<And>d. half_wf (half d a)"
  shows "\<exists>a'. syn_ack fc th a = Some a' \<and> (\<forall>d. half_wf (half d a')) \<and> s_addr a' = s_addr a \<and> s_hash_index a' = s_hash_index a"
proof -
  obtain on ts where ts: "get_ts th (h_curr_ts (s_server a)) = Some (on, ts)" using get_ts_ok [OF assms(1)] by blast
  obtain on' k where ws: "get_wscale th = Some (on', push_bit k 1)" using get_wscale_ok [OF assms(1)] by blast
  have "half_wf (s_client a)" "half_wf (s_server a)" using assms(2) [of Client] assms(2) [of Server] by simp_all
  then show ?thesis using ts ws by (auto simp: syn_ack_def Let_def all_sides [where d = Client])
qed

lemma known_stream_ok:
  assumes keep: "keeps_at_most env keep_max" and wf: "tcp_wf env s" and i: "i \<in> live s"
    and th: "options_readable th" and off: "0 \<le> off" "0 \<le> n" "off + n \<le> int (length pkt)" "n \<le> 65535"
  shows "\<exists>s'. known_stream env i fc th pkt off n skblen s = Some s' \<and> tcp_wf env s'"
proof -
  obtain c where c: "load i s = Some c" "conn_wf env (live s) c" "of_pool s c" "c_self c = i" using load_ok [OF wf i] .
  define d where "d = (if fc then Server else Client)"
  consider "th_syn th" | "\<not> th_syn th" "\<not> in_window th n (chalf d c)" | "\<not> th_syn th" "in_window th n (chalf d c)" "th_rst th"
    | "\<not> th_syn th" "in_window th n (chalf d c)" "\<not> th_rst th" by blast
  then show ?thesis
  proof cases
    case 1
    obtain a where a: "syn_ack fc th (c_tcp c) = Some a" "\<And>d. half_wf (half d a)" "s_addr a = s_addr (c_tcp c)" "s_hash_index a = s_hash_index (c_tcp c)"
      using syn_ack_ok [OF th conn_wf_half [OF c(2)], of fc] by auto
    have "conn_wf env (live s) (c\<lparr>c_tcp := a\<rparr>)" "of_pool s (c\<lparr>c_tcp := a\<rparr>)"
      using c(2,3) a(2-4) by (simp_all add: conn_wf_def of_pool_def)
    then show ?thesis using tcp_wf_store [OF wf] 1 c(1) a(1) by (simp add: known_stream_def Let_def)
  next
    case 2
    then show ?thesis using c(1) wf by (simp add: known_stream_def Let_def d_def)
  next
    case 3
    define c' where "c' = (if s_nids_state (c_tcp c) = NIDS_DATA then call_listeners env NIDS_RESET c else c)"
    have "conn_wf env (live s) c'" "of_pool s c'" "c_self c' = i"
      using call_listeners_ok [OF c(2,3)] c(2-4) by (simp_all add: c'_def)
    then show ?thesis using free_stored [OF wf, of c'] 3 c(1) by (auto simp: known_stream_def Let_def d_def c'_def)
  next
    case 4
    obtain on ts where ts: "get_ts th 0 = Some (on, ts)" using get_ts_ok [OF th] by blast
    obtain old where old: "paws_old d th (c_tcp c) = Some old" using ts by (cases "h_ts_on (chalf d c)") (simp_all add: paws_old_def)
    have k: "known_stream env i fc th pkt off n skblen s =
        (if old then Some s
         else (case establish env (tcp_procs s) fc th c of
                 None \<Rightarrow> segment_data env d th pkt off n skblen c s
               | Some c1 \<Rightarrow> if s_listeners (c_tcp c1) = [] then nids_free_tcp_stream env i (store c1 s)
                   else segment_data env d th pkt off n skblen (c1\<lparr>c_tcp := (c_tcp c1)\<lparr>s_nids_state := NIDS_DATA\<rparr>\<rparr>) s))"
      unfolding known_stream_def Let_def d_def [symmetric] c(1) using 4 old by simp
    show ?thesis
    proof (cases "establish env (tcp_procs s) fc th c")
      case None
      then show ?thesis using k wf segment_data_ok [OF keep wf c(2,3) th off] by auto
    next
      case (Some c1)
      note e = establish_ok [OF Some c(2,3)]
      have "conn_wf env (live s) (c1\<lparr>c_tcp := (c_tcp c1)\<lparr>s_nids_state := NIDS_DATA\<rparr>\<rparr>)" "of_pool s (c1\<lparr>c_tcp := (c_tcp c1)\<lparr>s_nids_state := NIDS_DATA\<rparr>\<rparr>)"
        using e by (simp_all add: conn_wf_def of_pool_def)
      then show ?thesis using k wf Some free_stored [OF wf e(1,2)] e(3) c(4) segment_data_ok [OF keep wf _ _ th off] by auto
    qed
  qed
qed

lemma tcp_input_ok:
  assumes keep: "keeps_at_most env keep_max" and wf: "tcp_wf env s"
    and th: "options_readable th" and off: "0 \<le> off" "0 \<le> n" "off + n \<le> int (length pkt)" "n \<le> 65535"
  shows "\<exists>s'. tcp_input env th src dst pkt off n skblen s = Some s' \<and> tcp_wf env s'"
proof -
  obtain r where r: "find_stream th src dst s = Some r"
    "case r of None \<Rightarrow> \<lparr>t_source = th_source th, t_dest = th_dest th, t_saddr = src, t_daddr = dst\<rparr> \<notin> (\<lambda>i. s_addr (streams_pool s ! i)) ` live s
     | Some (i, fc) \<Rightarrow> i \<in> live s"
    using find_ports_ok [OF wf, of "th_source th" "th_dest th" src dst] by (auto simp: find_stream_def split: option.splits)
  show ?thesis
  proof (cases r)
    case None
    then show ?thesis using r wf add_new_tcp_ok [OF wf th refl, of src dst] by (auto simp: tcp_input_def)
  next
    case (Some p)
    then show ?thesis using r known_stream_ok [OF keep wf _ th off] by (cases p) (simp add: tcp_input_def)
  qed
qed

section \<open>\<open>process_tcp\<close>\<close>

text \<open>A packet as \<open>gen_ip_frag_proc\<close> passes it on: the IP header is there and \<open>ip_len\<close> does not exceed the packet.\<close>

definition ip_packet :: "bytes \<Rightarrow> bool" where
  "ip_packet pkt \<longleftrightarrow> 20 \<le> length pkt \<and> unat (be16 (pkt ! 2) (pkt ! 3)) \<le> length pkt \<and>
     4 * unat (pkt ! 0 AND 0x0f) \<le> unat (be16 (pkt ! 2) (pkt ! 3))"

lemma tcphdr_at_ok:
  assumes "i + 20 \<le> length b"
  shows "\<exists>th. tcphdr_at b i = Some th \<and> th_options th = drop (i + 20) b \<and> th_doff th = unat (drop_bit 4 (b ! (i + 12)))"
proof -
  have "i + 18 + 1 < length b" using assms by simp
  then show ?thesis by (simp add: tcphdr_at_def rd_be16_in rd_be32_in rd8_in)
qed

lemma my_tcp_check_ok:
  assumes "int off + n \<le> int (length b)" and "0 \<le> n"
  shows "\<exists>ck. my_tcp_check ctl b off n src dst = Some ck"
  using csum_words_sum [of off n b] assms by (simp add: my_tcp_check_def l4_check_def ip_check_ext_def nat_add_distrib)

lemma scan_alarm_wf [simp]: "tcp_wf env (scan_alarm al s) = tcp_wf env s"
  by (simp add: scan_alarm_def split: option.split)

text \<open>
  The checks of a segment, on the octets: the TCP header fits in the IP packet, its data offset stays
  inside it, and the addresses are not both zero.
\<close>

definition ip_total :: "bytes \<Rightarrow> nat" where "ip_total pkt = unat (be16 (pkt ! 2) (pkt ! 3))"
definition ip_hlen :: "bytes \<Rightarrow> nat" where "ip_hlen pkt = 4 * unat (pkt ! 0 AND 0x0f)"

definition tcp_sane :: "bytes \<Rightarrow> bool" where
  "tcp_sane pkt \<longleftrightarrow> ip_hlen pkt + 20 \<le> ip_total pkt \<and>
     ip_hlen pkt + 4 * unat (drop_bit 4 (pkt ! (ip_hlen pkt + 12))) \<le> ip_total pkt \<and>
     (rd_le32 pkt 12 \<noteq> Some 0 \<or> rd_le32 pkt 16 \<noteq> Some 0)"

lemma process_tcp_insane:
  assumes pkt: "ip_packet pkt" "\<not> tcp_sane pkt"
  shows "process_tcp env clk ctl pkt skblen (sc, s) = Some (sc, tcp_syslog NIDS_WARN_TCP NIDS_WARN_TCP_HDR s)"
proof -
  have len: "20 \<le> length pkt" and m: "ip_total pkt \<le> length pkt" using pkt(1) by (simp_all add: ip_packet_def ip_total_def)
  have rd: "rd8 pkt 0 = Some (pkt ! 0)" "rd_be16 pkt 2 = Some (be16 (pkt ! 2) (pkt ! 3))"
    using len rd_be16_in [of 2 pkt] by (auto simp: rd8_def)
  obtain src dst where sd: "rd_le32 pkt 12 = Some src" "rd_le32 pkt 16 = Some dst" using len by (simp add: rd_le32_in)
  show ?thesis
  proof (cases "ip_total pkt < ip_hlen pkt + 20")
    case True
    then show ?thesis using rd by (simp add: process_tcp_def Let_def ip_hlen_def ip_total_def)
  next
    case False
    then have fits: "ip_hlen pkt + 20 \<le> length pkt" using m by simp
    then obtain th where th: "tcphdr_at pkt (ip_hlen pkt) = Some th" "th_doff th = unat (drop_bit 4 (pkt ! (ip_hlen pkt + 12)))"
      using tcphdr_at_ok [OF fits] by blast
    have "int (ip_total pkt) - int (ip_hlen pkt) - 4 * int (th_doff th) < 0 \<or> src OR dst = 0"
      using pkt(2) False unfolding tcp_sane_def th(2) [symmetric] sd by (auto simp: or_eq_0_iff)
    then show ?thesis using rd sd th(1) False by (auto simp: process_tcp_def Let_def ip_hlen_def ip_total_def)
  qed
qed

text \<open>A segment that passes them reaches the port scan detector and, with the right checksum, the lookup.\<close>

lemma process_tcp_sane:
  assumes scan: "prm_ok (te_prm env)" "clock_ok clk (time0 sc)" "scan_wf (te_prm env) clk sc"
    and pkt: "ip_packet pkt" "hash_safe (src_of pkt)" "tcp_sane pkt"
  shows "\<exists>th src dst sc1 al ck. options_readable th \<and> scan_wf (te_prm env) clk sc1 \<and> time0 sc1 = time0 sc \<and>
    rd_le32 pkt 12 = Some src \<and> rd_le32 pkt 16 = Some dst \<and> tcphdr_at pkt (ip_hlen pkt) = Some th \<and>
    4 * th_doff th + ip_hlen pkt \<le> ip_total pkt \<and>
    my_tcp_check ctl pkt (ip_hlen pkt) (int (ip_total pkt) - int (ip_hlen pkt)) src dst = Some ck \<and>
    process_tcp env clk ctl pkt skblen (sc, s) =
      (if n_tcp_streams (te_prm env) = 0 then Some (sc1, scan_alarm al s)
       else if ck \<noteq> 0 then Some (sc1, tcp_syslog NIDS_WARN_TCP NIDS_WARN_TCP_HDR (scan_alarm al s))
       else map_option (Pair sc1) (tcp_input env th src dst pkt (int (ip_hlen pkt) + 4 * int (th_doff th))
         (int (ip_total pkt) - int (ip_hlen pkt) - 4 * int (th_doff th)) skblen (scan_alarm al s)))"
proof -
  define off where "off = ip_hlen pkt"
  define m where "m = ip_total pkt"
  have offd: "4 * unat (pkt ! 0 AND 0x0f) = off" and md: "unat (be16 (pkt ! 2) (pkt ! 3)) = m"
    by (simp_all add: off_def m_def ip_hlen_def ip_total_def)
  have len: "20 \<le> length pkt" and m: "m \<le> length pkt" using pkt(1) md by (auto simp: ip_packet_def)
  have rd: "rd8 pkt 0 = Some (pkt ! 0)" "rd_be16 pkt 2 = Some (be16 (pkt ! 2) (pkt ! 3))"
    using len rd_be16_in [of 2 pkt] by (auto simp: rd8_def)
  obtain src dst where sd: "rd_le32 pkt 12 = Some src" "rd_le32 pkt 16 = Some dst" using len by (simp add: rd_le32_in)
  have fits: "\<not> m < off + 20" "off + 20 \<le> length pkt" using pkt(3) m by (simp_all add: tcp_sane_def off_def m_def)
  obtain th where th: "tcphdr_at pkt off = Some th" "th_options th = drop (off + 20) pkt" "th_doff th = unat (drop_bit 4 (pkt ! (off + 12)))"
    using tcphdr_at_ok [OF fits(2)] by blast
  have doff: "4 * th_doff th + off \<le> m" using pkt(3) th(3) by (simp add: tcp_sane_def off_def m_def)
  have ok: "\<not> (int m - int off - 4 * int (th_doff th) < 0 \<or> src OR dst = 0)"
    using pkt(3) sd doff by (auto simp: tcp_sane_def or_eq_0_iff)
  have opt: "options_readable th" using doff m fits by (simp add: options_readable_def th(2))
  have readable: "tcp_readable pkt" using len fits offd by (simp add: tcp_readable_def)
  obtain sc1 al where sc1: "(if th_ack th then Some (sc, None) else detect_scan (te_prm env) clk pkt sc) = Some (sc1, al)"
      "scan_wf (te_prm env) clk sc1" "time0 sc1 = time0 sc"
  proof (cases "th_ack th")
    case nack: False
    obtain t chain j h3 s3 al where d: "detected (te_prm env) clk pkt sc t chain j h3 s3 al"
        and e: "detect_scan (te_prm env) clk pkt sc = Some (s3\<lparr>hashhost := Some (t[nat (scan_hash (te_prm env) (sint (src_of pkt))) := chain[j := h3]])\<rparr>, al)"
      using detect_scan_detected [OF scan readable pkt(2)] by blast
    have "time0 s3 = time0 sc" using d by (simp add: detected_def Let_def)
    then show thesis using that e nack detected_wf [OF d scan(3)] by simp
  qed (use that scan in simp)
  obtain ck where ck: "my_tcp_check ctl pkt off (int m - int off) src dst = Some ck"
    using my_tcp_check_ok [of off "int m - int off" pkt ctl src dst] m fits(1) by auto
  have "process_tcp env clk ctl pkt skblen (sc, s) =
      (if n_tcp_streams (te_prm env) = 0 then Some (sc1, scan_alarm al s)
       else if ck \<noteq> 0 then Some (sc1, tcp_syslog NIDS_WARN_TCP NIDS_WARN_TCP_HDR (scan_alarm al s))
       else map_option (Pair sc1) (tcp_input env th src dst pkt (int off + 4 * int (th_doff th))
         (int m - int off - 4 * int (th_doff th)) skblen (scan_alarm al s)))"
    using rd sd th(1) fits(1) ok sc1(1) ck unfolding process_tcp_def Let_def
    by (auto simp: offd md map_option_case split: option.splits)
  then show ?thesis using opt sc1(2,3) sd th(1) doff ck unfolding off_def [symmetric] m_def [symmetric] by blast
qed

lemma process_tcp_step:
  assumes keep: "keeps_at_most env keep_max" and wf: "tcp_wf env s"
    and scan: "prm_ok (te_prm env)" "clock_ok clk (time0 sc)" "scan_wf (te_prm env) clk sc"
    and pkt: "ip_packet pkt" "hash_safe (src_of pkt)"
  shows "\<exists>sc' s'. process_tcp env clk ctl pkt skblen (sc, s) = Some (sc', s') \<and> scan_wf (te_prm env) clk sc' \<and>
    time0 sc' = time0 sc \<and> tcp_wf env s'"
proof (cases "tcp_sane pkt")
  case False
  then show ?thesis using process_tcp_insane [OF pkt(1)] wf scan(3) by simp
next
  case True
  obtain th src dst sc1 al and ck :: u16 where p: "options_readable th" "scan_wf (te_prm env) clk sc1" "time0 sc1 = time0 sc"
      "4 * th_doff th + ip_hlen pkt \<le> ip_total pkt"
      "process_tcp env clk ctl pkt skblen (sc, s) =
      (if n_tcp_streams (te_prm env) = 0 then Some (sc1, scan_alarm al s)
       else if ck \<noteq> 0 then Some (sc1, tcp_syslog NIDS_WARN_TCP NIDS_WARN_TCP_HDR (scan_alarm al s))
       else map_option (Pair sc1) (tcp_input env th src dst pkt (int (ip_hlen pkt) + 4 * int (th_doff th))
         (int (ip_total pkt) - int (ip_hlen pkt) - 4 * int (th_doff th)) skblen (scan_alarm al s)))"
    using process_tcp_sane [OF scan pkt True, of ctl skblen s] by blast
  have m: "ip_total pkt \<le> length pkt" "ip_total pkt \<le> 65535"
    using pkt(1) unat_u16_less [of "be16 (pkt ! 2) (pkt ! 3)"] by (simp_all add: ip_packet_def ip_total_def)
  obtain s2 where s2: "tcp_input env th src dst pkt (int (ip_hlen pkt) + 4 * int (th_doff th))
         (int (ip_total pkt) - int (ip_hlen pkt) - 4 * int (th_doff th)) skblen (scan_alarm al s) = Some s2" "tcp_wf env s2"
    using tcp_input_ok [OF keep _ p(1), of "scan_alarm al s" "int (ip_hlen pkt) + 4 * int (th_doff th)"
        "int (ip_total pkt) - int (ip_hlen pkt) - 4 * int (th_doff th)" pkt src dst skblen] p(4) wf m by auto
  show ?thesis unfolding p(5) s2(1) using p(2,3) s2(2) wf by auto
qed

section \<open>The other entry points\<close>

lemma tcp_wf_later: "tcp_wf env s \<Longrightarrow> te_now env \<le> now \<Longrightarrow> tcp_wf (env\<lparr>te_now := now\<rparr>) s"
  by (auto simp: tcp_wf_def timeouts_ok_def due_by_def)

lemma expire_ok:
  "tcp_wf env s \<Longrightarrow> tcp_workarounds (te_prm env) \<noteq> 0 \<or> ts = [] \<Longrightarrow> nids_tcp_timeouts s = ts \<Longrightarrow>
   \<exists>s'. expire_timeouts env now ts s = Some s' \<and> tcp_wf env s' \<and> nids_tcp_timeouts s' = dropWhile (\<lambda>e. snd e \<le> now) ts \<and>
     live s' = live s - fst ` set (takeWhile (\<lambda>e. snd e \<le> now) ts)"
proof (induction ts arbitrary: s)
  case (Cons e ts)
  show ?case
  proof (cases "now < snd e")
    case True
    then show ?thesis using Cons.prems by simp
  next
    case False
    have to: "timeouts_ok env (live s) (e # ts)" using Cons.prems(1,3) by (simp add: tcp_wf_def)
    then have i: "fst e \<in> live s" by (simp add: timeouts_ok_def)
    obtain c where c: "load (fst e) s = Some c" "conn_wf env (live s) c" "of_pool s c" "c_self c = fst e"
      using load_ok [OF Cons.prems(1) i] .
    let ?c = "call_listeners env NIDS_TIMED_OUT c"
    note co = call_listeners_ok [OF c(2,3), of NIDS_TIMED_OUT]
    have ct: "c_timeouts ?c = e # ts"
    proof -
      have "same_core (c\<lparr>c_tcp := (c_tcp c)\<lparr>s_nids_state := NIDS_TIMED_OUT\<rparr>\<rparr>) ?c" unfolding call_listeners_def by (rule call_each_core)
      moreover have "c_timeouts c = nids_tcp_timeouts s" using c(1) by (auto simp: load_def split: if_splits)
      ultimately show ?thesis using Cons.prems(3) by (simp add: same_core_def)
    qed
    obtain s1 where s1: "nids_free_tcp_stream env (fst e) (store ?c s) = Some s1" "tcp_wf env s1" "freed env (fst e) (store ?c s) s1"
      using free_stored [OF Cons.prems(1) co(1,2)] co(3) c(4) by auto
    have "nids_tcp_timeouts s1 = ts" using s1(3) Cons.prems(2) ct by (simp add: freed_def del_tcp_closing_timeout_def)
    then obtain s' where s': "expire_timeouts env now ts s1 = Some s'" "tcp_wf env s'"
        "nids_tcp_timeouts s' = dropWhile (\<lambda>e. snd e \<le> now) ts" "live s' = live s1 - fst ` set (takeWhile (\<lambda>e. snd e \<le> now) ts)"
      using Cons.IH [OF s1(2)] Cons.prems(2) by auto
    have "live s1 = live s - {fst e}" using s1(3) by (simp add: freed_def)
    then show ?thesis using s' False c(1) s1(1) by auto
  qed
qed simp

lemma tcp_check_timeouts_ok:
  assumes "tcp_wf env s"
  shows "\<exists>s'. tcp_check_timeouts env now s = Some s' \<and> tcp_wf env s' \<and>
    nids_tcp_timeouts s' = dropWhile (\<lambda>e. snd e \<le> now) (nids_tcp_timeouts s) \<and>
    live s' = live s - fst ` set (takeWhile (\<lambda>e. snd e \<le> now) (nids_tcp_timeouts s))"
proof -
  have "tcp_workarounds (te_prm env) \<noteq> 0 \<or> nids_tcp_timeouts s = []" using assms by (auto simp: tcp_wf_def timeouts_ok_def)
  then show ?thesis using expire_ok [OF assms _ refl] by (simp add: tcp_check_timeouts_def)
qed

lemma exit_streams_ok:
  "tcp_wf env s \<Longrightarrow> distinct is \<Longrightarrow> set is \<subseteq> live s \<Longrightarrow>
   \<exists>s'. exit_streams env is s = Some s' \<and> tcp_wf env s' \<and> live s' = live s - set is"
proof (induction "is" arbitrary: s)
  case (Cons i r)
  have i: "i \<in> live s" using Cons.prems by simp
  obtain c where c: "load i s = Some c" "conn_wf env (live s) c" "of_pool s c" "c_self c = i" using load_ok [OF Cons.prems(1) i] .
  define c' where "c' = (if s_listeners (c_tcp c) = [] then c else call_listeners env NIDS_EXITING c)"
  have c': "conn_wf env (live s) c'" "of_pool s c'" "c_self c' = i"
    using call_listeners_ok [OF c(2,3)] c(2-4) by (simp_all add: c'_def)
  obtain s1 where s1: "nids_free_tcp_stream env i (store c' s) = Some s1" "tcp_wf env s1" "freed env i (store c' s) s1"
    using free_stored [OF Cons.prems(1) c'(1,2)] c'(3) by auto
  have l: "live s1 = live s - {i}" using s1(3) by (simp add: freed_def)
  then obtain s' where "exit_streams env r s1 = Some s'" "tcp_wf env s'" "live s' = live s1 - set r"
    using Cons.IH [OF s1(2)] Cons.prems by auto
  then show ?case using c(1) s1(1) l by (auto simp: c'_def)
qed simp

lemma links_wf_concat: "links_wf t bt fr hx n \<Longrightarrow> distinct (concat t) \<and> set (concat t) = set bt"
proof -
  assume l: "links_wf t bt fr hx n"
  have ch: "i \<in> set (t ! h) \<longleftrightarrow> i \<in> set bt \<and> hx i = int h" "distinct (t ! h)" if "h < length t" for i h
    using l that by (simp_all add: links_wf_def)
  have "set (concat t) = set bt"
  proof (intro set_eqI iffI)
    fix i
    assume "i \<in> set (concat t)"
    then obtain xs where "xs \<in> set t" "i \<in> set xs" by auto
    then obtain h where "h < length t" "i \<in> set (t ! h)" by (metis in_set_conv_nth)
    then show "i \<in> set bt" using ch by blast
  next
    fix i
    assume i: "i \<in> set bt"
    show "i \<in> set (concat t)" using links_wf_member(2,3) [OF l i] by (auto intro: nth_mem)
  qed
  moreover have "distinct (concat us)" if "\<And>h. h < length us \<Longrightarrow> distinct (us ! h)"
    "\<And>g h. g < h \<Longrightarrow> h < length us \<Longrightarrow> set (us ! g) \<inter> set (us ! h) = {}" for us :: "nat list list"
    using that
  proof (induction us)
    case (Cons u us)
    have "distinct (concat us)" using Cons.IH Cons.prems(1) [of "Suc h" for h] Cons.prems(2) [of "Suc g" "Suc h" for g h] by simp
    moreover have "distinct u" using Cons.prems(1) [of 0] by simp
    moreover have "set u \<inter> set (us ! h) = {}" if "h < length us" for h using Cons.prems(2) [of 0 "Suc h"] that by simp
    then have "set u \<inter> set (concat us) = {}" by (fastforce simp: in_set_conv_nth)
    ultimately show ?case by simp
  qed simp
  moreover have "set (t ! g) \<inter> set (t ! h) = {}" if "g < h" "h < length t" for g h using ch that by fastforce
  ultimately show ?thesis using ch(2) by metis
qed

lemma tcp_exit_ok:
  assumes "tcp_wf env s"
  shows "\<exists>s'. tcp_exit env s = Some s' \<and> tcp_stream_table s' = None \<and> streams_pool s' = [] \<and> tcp_num s' = 0 \<and> tcp_by_time s' = [] \<and>
    nids_tcp_timeouts s' = []"
proof -
  obtain t where t: "tcp_stream_table s = Some t"
    "links_wf t (tcp_by_time s) (free_streams s) (\<lambda>i. s_hash_index (streams_pool s ! i)) (length (streams_pool s))"
    using tcp_wf_table [OF assms] .
  have "streams_pool s \<noteq> []" using assms by (auto simp: tcp_wf_def)
  moreover obtain s1 where s1: "exit_streams env (concat t) s = Some s1" "tcp_wf env s1" "live s1 = {}"
    using exit_streams_ok [OF assms, of "concat t"] links_wf_concat [OF t(2)] by (auto simp: live_def)
  have "nids_tcp_timeouts s1 = []" using s1(2,3) by (auto simp: tcp_wf_def timeouts_ok_def)
  ultimately show ?thesis using t(1) s1(1) by (simp add: tcp_exit_def)
qed

lemma icmp_target_ok:
  assumes "ip_packet pkt"
  shows "\<exists>r. icmp_target env pkt = Some r \<and> (case r of None \<Rightarrow> True | Some (orig, tho) \<Rightarrow> orig + 20 \<le> length pkt \<and> tho + 4 \<le> length pkt \<and> ip_hlen pkt + 48 \<le> ip_total pkt)"
proof -
  define hl where "hl = 4 * unat (pkt ! 0 AND 0x0f)"
  define m where "m = unat (be16 (pkt ! 2) (pkt ! 3))"
  have len: "20 \<le> length pkt" and m: "m \<le> length pkt" "hl \<le> m" using assms by (simp_all add: ip_packet_def m_def hl_def)
  have m2: "m < 65536" using unat_u16_less by (simp add: m_def)
  have rd: "rd8 pkt 0 = Some (pkt ! 0)" "rd_be16 pkt 2 = Some (be16 (pkt ! 2) (pkt ! 3))"
    using len rd_be16_in [of 2 pkt] by (auto simp: rd8_def)
  define l where "l = m - hl"
  have w: "of_nat m - of_nat hl = (of_nat l :: u32)" using m(2) by (simp add: l_def of_nat_diff)
  have ul: "unat (of_nat l :: u32) = l" using m2 by (simp add: l_def unat_of_nat take_bit_nat_eq_self)
  have tgt: "icmp_target env pkt = icmp_checks env pkt hl (of_nat l)"
    unfolding w [symmetric] using rd by (simp add: icmp_target_def Let_def hl_def m_def)
  show ?thesis
  proof (cases "l < 28")
    case True
    then have "(of_nat l :: u32) < 28" using ul by (simp add: word_less_nat_alt)
    then show ?thesis by (simp add: tgt icmp_checks_def sizeof_icmp_def)
  next
    case False
    then have ge: "\<not> (of_nat l :: u32) < 28" using ul by (simp add: word_less_nat_alt)
    have sl: "sint (of_nat l :: u32) = int l" using sint_u32_nonneg [of "of_nat l"] ul m2 l_def by linarith
    have end_le: "hl + l \<le> length pkt" using m by (simp add: l_def)
    obtain ck where ck: "ip_compute_csum pkt hl (int l) = Some ck"
      using csum_words_sum [of hl "int l" pkt] end_le by (simp add: ip_compute_csum_def ip_check_ext_def)
    have hl1: "hl + 1 < length pkt" using False end_le by simp
    have rd2: "rd8 pkt hl = Some (pkt ! hl)" "rd8 pkt (hl + 1) = Some (pkt ! (hl + 1))" using hl1 by (simp_all add: rd8_def)
    have w2: "of_nat l - 28 = (of_nat (l - 28) :: u32)" using False by (simp add: of_nat_diff)
    have ul2: "unat (of_nat (l - 28) :: u32) = l - 28" using m2 l_def by (simp add: unat_of_nat take_bit_nat_eq_self)
    define ohl where "ohl = 4 * unat (pkt ! (hl + 8) AND 0x0f)"
    show ?thesis
    proof (cases "ck \<noteq> 0 \<or> pkt ! hl \<noteq> 3 \<or> l - 28 < 20")
      case True
      moreover have "(of_nat (l - 28) :: u32) < 20 \<longleftrightarrow> l - 28 < 20" using ul2 by (simp add: word_less_nat_alt)
      ultimately show ?thesis using rd2 w2 ge sl ck by (auto simp: tgt icmp_checks_def Let_def sizeof_icmp_def)
    next
      case ok: False
      then have n20: "\<not> (of_nat (l - 28) :: u32) < 20" using ul2 by (simp add: word_less_nat_alt)
      have "\<not> l - 28 < 20" using ok by simp
      then have big: "hl + 48 \<le> length pkt" using False end_le by linarith
      have "pkt ! (hl + 8) AND 0x0f \<le> 0x0f" by (rule word_and_le1)
      then have "unat (pkt ! (hl + 8) AND 0x0f) \<le> 15" by (simp add: word_le_nat_alt)
      then have oh: "ohl \<le> 60" by (simp add: ohl_def)
      have cmp: "(of_nat (l - 28) :: u32) < of_nat ohl + 8 \<longleftrightarrow> l - 28 < ohl + 8"
      proof -
        have "unat (of_nat ohl + 8 :: u32) = ohl + 8" using oh by (simp add: unat_word_ariths unat_of_nat take_bit_nat_eq_self)
        then show ?thesis using ul2 by (simp add: word_less_nat_alt)
      qed
      have rd3: "rd8 pkt (hl + 8) = Some (pkt ! (hl + 8))" "rd_le32 pkt 12 \<noteq> None" "rd_le32 pkt (hl + 8 + 16) \<noteq> None" "rd8 pkt (hl + 8 + 9) \<noteq> None"
        using big len by (simp_all add: rd8_def rd_le32_in)
      then obtain src odst proto where rd4: "rd_le32 pkt 12 = Some src" "rd_le32 pkt (hl + 8 + 16) = Some odst" "rd8 pkt (hl + 8 + 9) = Some proto" by auto
      have oe: "4 * ucast (pkt ! (hl + 8) AND 15) = (of_nat ohl :: u32)" by (simp add: ohl_def)
      have t: "icmp_checks env pkt hl (of_nat l) =
          (if l - 28 < ohl + 8 \<or> unat (pkt ! (hl + 1)) > te_nr_icmp env \<or>
              (pkt ! (hl + 1) AND 15 = 2 \<or> pkt ! (hl + 1) AND 15 = 3) \<and> src \<noteq> odst \<or> proto \<noteq> 6 then Some None
           else Some (Some (hl + 8, hl + 8 + ohl)))"
        using rd2 rd3(1) rd4 w2 ge sl ck ok n20 cmp oe by (simp add: icmp_checks_def Let_def sizeof_icmp_def ohl_def [symmetric]) blast
      have fits: "hl + 8 + ohl + 4 \<le> length pkt" if "\<not> l - 28 < ohl + 8" using that end_le False by linarith
      have "ip_hlen pkt + 48 \<le> ip_total pkt" using \<open>\<not> l - 28 < 20\<close> m(2) by (simp add: ip_hlen_def ip_total_def l_def m_def hl_def)
      then show ?thesis unfolding tgt t using big fits by simp
    qed
  qed
qed

lemma process_icmp_ok:
  assumes wf: "tcp_wf env s" and pkt: "ip_packet pkt"
  shows "\<exists>s'. process_icmp env pkt s = Some s' \<and> tcp_wf env s'"
proof -
  obtain r where r: "icmp_target env pkt = Some r" "case r of None \<Rightarrow> True | Some (orig, tho) \<Rightarrow> orig + 20 \<le> length pkt \<and> tho + 4 \<le> length pkt"
    using icmp_target_ok [OF pkt, of env] by (auto split: option.splits)
  show ?thesis
  proof (cases r)
    case None
    then show ?thesis using r(1) wf by (simp add: process_icmp_def)
  next
    case (Some p)
    obtain orig tho where p: "p = (orig, tho)" by (cases p)
    have b: "orig + 20 \<le> length pkt" "tho + 4 \<le> length pkt" "20 \<le> length pkt" using r(2) pkt by (simp_all add: Some p ip_packet_def)
    obtain sp dp osrc odst dst where rd: "rd_be16 pkt tho = Some sp" "rd_be16 pkt (tho + 2) = Some dp" "rd_le32 pkt (orig + 12) = Some osrc"
        "rd_le32 pkt (orig + 16) = Some odst" "rd_le32 pkt 16 = Some dst" using b by (simp add: rd_be16_in rd_le32_in)
    obtain q where q: "find_ports sp dp osrc odst s = Some q" "case q of None \<Rightarrow> True | Some (i, fc) \<Rightarrow> i \<in> live s"
      using find_ports_ok [OF wf, of sp dp osrc odst] by (auto split: option.splits)
    show ?thesis
    proof (cases q)
      case None
      then show ?thesis using r(1) Some p rd q(1) wf by (simp add: process_icmp_def)
    next
      case (Some x)
      obtain i fc where x: "x = (i, fc)" by (cases x)
      have i: "i \<in> live s" using q(2) by (simp add: Some x)
      obtain c where c: "load i s = Some c" "conn_wf env (live s) c" "of_pool s c" "c_self c = i" using load_ok [OF wf i] .
      note cl = call_listeners_ok [OF c(2,3), of NIDS_RESET]
      obtain s' where s': "nids_free_tcp_stream env i (store (call_listeners env NIDS_RESET c) s) = Some s'" "tcp_wf env s'"
        using free_stored [OF wf cl(1,2)] cl(3) c(4) by auto
      then show ?thesis using r(1) \<open>r = Some p\<close> p rd q(1) Some x c(1) wf by (simp add: process_icmp_def Let_def)
    qed
  qed
qed

lemma tcp_init_ok:
  assumes "0 < sz" and "sz < 500000000" and "tcp_by_time s = []" and "tcp_num s = 0"
  shows "fst (tcp_init junk rnd sz s) = 0 \<and> tcp_wf env (snd (tcp_init junk rnd sz s)) \<and> live (snd (tcp_init junk rnd sz s)) = {}"
proof -
  define m where "m = i32 (3 * sz) sdiv 4"
  have m: "m = 3 * sz div 4" "0 \<le> m" using assms by (simp_all add: m_def i32_id signed_divide_int_def)
  define s' where "s' = s\<lparr>tcp_stream_table_size := sz, tcp_stream_table := Some (replicate (nat sz) []), max_stream := m,
     streams_pool := replicate (nat (m + 1)) junk, free_streams := [0..<nat (m + 1)], tcp_hash := init_hash rnd, nids_tcp_timeouts := []\<rparr>"
  have e: "tcp_init junk rnd sz s = (0, s')" using assms m(2) by (simp add: tcp_init_def Let_def m_def [symmetric] s'_def)
  have "links_wf (replicate (nat sz) []) [] [0..<nat (m + 1)] hx (nat (m + 1))" for hx by (auto simp: links_wf_def)
  then have "tcp_wf env s'" using assms m(2) by (simp add: tcp_wf_def s'_def live_def timeouts_ok_def due_by_def)
  then show ?thesis using e assms(3) by (simp add: live_def s'_def)
qed

section \<open>Runs\<close>

text \<open>What happens to the tracker: TCP packets, ICMP packets and checks of the timeouts, each at a time.\<close>

datatype tcp_in = Tcp_Pkt int bytes int | Icmp_Pkt int bytes | Tick int

fun in_time :: "tcp_in \<Rightarrow> int" where
  "in_time (Tcp_Pkt now pkt skblen) = now"
| "in_time (Icmp_Pkt now pkt) = now"
| "in_time (Tick now) = now"

fun in_ok :: "tcp_in \<Rightarrow> bool" where
  "in_ok (Tcp_Pkt now pkt skblen) \<longleftrightarrow> ip_packet pkt \<and> hash_safe (src_of pkt)"
| "in_ok (Icmp_Pkt now pkt) \<longleftrightarrow> ip_packet pkt"
| "in_ok (Tick now) \<longleftrightarrow> True"

fun tcp_step :: "tcp_env \<Rightarrow> clock \<Rightarrow> chksum_table \<Rightarrow> tcp_in \<Rightarrow> scan_state \<times> tcp_state \<Rightarrow> (scan_state \<times> tcp_state) option" where
  "tcp_step env clk ctl (Tcp_Pkt now pkt skblen) st = process_tcp (env\<lparr>te_now := now\<rparr>) clk ctl pkt skblen st"
| "tcp_step env clk ctl (Icmp_Pkt now pkt) st = map_option (Pair (fst st)) (process_icmp (env\<lparr>te_now := now\<rparr>) pkt (snd st))"
| "tcp_step env clk ctl (Tick now) st = map_option (Pair (fst st)) (tcp_check_timeouts (env\<lparr>te_now := now\<rparr>) now (snd st))"

fun tcp_run :: "tcp_env \<Rightarrow> clock \<Rightarrow> chksum_table \<Rightarrow> tcp_in list \<Rightarrow> scan_state \<times> tcp_state \<Rightarrow> (scan_state \<times> tcp_state) option" where
  "tcp_run env clk ctl [] st = Some st"
| "tcp_run env clk ctl (i # r) st = do { st' \<leftarrow> tcp_step env clk ctl i st; tcp_run env clk ctl r st' }"

lemma tcp_step_ok:
  assumes "keeps_at_most env keep_max" and "tcp_wf env s" and "prm_ok (te_prm env)" "clock_ok clk (time0 sc)" "scan_wf (te_prm env) clk sc"
    and "in_ok i" and "te_now env \<le> in_time i"
  shows "\<exists>sc' s'. tcp_step env clk ctl i (sc, s) = Some (sc', s') \<and> scan_wf (te_prm env) clk sc' \<and> time0 sc' = time0 sc \<and>
    tcp_wf (env\<lparr>te_now := in_time i\<rparr>) s'"
proof -
  let ?e = "env\<lparr>te_now := in_time i\<rparr>"
  have k: "keeps_at_most ?e keep_max" using assms(1) by (simp add: keeps_at_most_def)
  have w: "tcp_wf ?e s" using tcp_wf_later [OF assms(2,7)] .
  show ?thesis
  proof (cases i)
    case (Tcp_Pkt now pkt skblen)
    then show ?thesis using process_tcp_step [OF k w, of clk sc pkt ctl skblen] assms(3-6) by auto
  next
    case (Icmp_Pkt now pkt)
    then show ?thesis using process_icmp_ok [OF w, of pkt] assms(5,6) by auto
  next
    case (Tick now)
    then show ?thesis using tcp_check_timeouts_ok [OF w, of now] assms(5) by auto
  qed
qed

lemma tcp_run_ok:
  "keeps_at_most env keep_max \<Longrightarrow> tcp_wf env s \<Longrightarrow> prm_ok (te_prm env) \<Longrightarrow> clock_ok clk (time0 sc) \<Longrightarrow> scan_wf (te_prm env) clk sc \<Longrightarrow>
   list_all in_ok ins \<Longrightarrow> sorted (te_now env # map in_time ins) \<Longrightarrow>
   \<exists>sc' s' env'. tcp_run env clk ctl ins (sc, s) = Some (sc', s') \<and> scan_wf (te_prm env) clk sc' \<and>
     env' = env\<lparr>te_now := last (te_now env # map in_time ins)\<rparr> \<and> tcp_wf env' s'"
proof (induction ins arbitrary: env s sc)
  case (Cons i r)
  obtain sc1 s1 where 1: "tcp_step env clk ctl i (sc, s) = Some (sc1, s1)" "scan_wf (te_prm env) clk sc1" "time0 sc1 = time0 sc"
      "tcp_wf (env\<lparr>te_now := in_time i\<rparr>) s1"
    using tcp_step_ok [OF Cons.prems(1-5), of i ctl] Cons.prems(6,7) by auto
  let ?e = "env\<lparr>te_now := in_time i\<rparr>"
  have same: "tcp_run ?e clk ctl r st = tcp_run env clk ctl r st" for st
  proof (induction r arbitrary: st)
    case (Cons j r)
    have "tcp_step ?e clk ctl j st = tcp_step env clk ctl j st" by (cases j) simp_all
    then show ?case using Cons by (simp cong: Option.bind_cong)
  qed simp
  have "keeps_at_most ?e keep_max" using Cons.prems(1) by (simp add: keeps_at_most_def)
  then obtain sc' s' where "tcp_run ?e clk ctl r (sc1, s1) = Some (sc', s')" "scan_wf (te_prm env) clk sc'"
      "tcp_wf (?e\<lparr>te_now := last (te_now ?e # map in_time r)\<rparr>) s'"
    using Cons.IH [of ?e s1 sc1] 1 Cons.prems(3-7) by auto
  then show ?case using 1(1) same by (cases r) auto
qed simp

text \<open>
  C2.  The connection tracker stays inside its memory.  From the state that \<open>tcp_init\<close>
  leaves, for every sequence of TCP packets, ICMP packets and checks of the timeouts, at times that do
  not decrease, each packet with the IP header that \<open>gen_ip_frag_proc\<close> accepts, each TCP packet from a
  source that is not 0.0.x.y with \<open>y \<ge> 128\<close> (\<open>hash_safe\<close>; for such a source the port scan detector, which the
  tracker calls first, indexes in front of its table, see \<open>detect_scan_negative_index\<close>), with contents that
  are otherwise arbitrary (any flags, options, urgent pointers, lengths, sequence numbers), for
  listeners that leave at most half a gigabyte unread, and a scan clock that does not run backwards and stays
  within \<open>2^31\<close> milliseconds of its start: every access stays inside the packet, the
  receive buffer, the hash table and the pool, the branch that finds no free stream is not taken, and
  afterwards hash chains, list by age, free list, timeouts and streams agree (\<open>tcp_wf\<close>).  The counters
  \<open>count\<close>, \<open>offset\<close> and \<open>urg_count\<close> wrap in the model (see \<open>Tcp_Types\<close>): on a stream of more than \<open>2^31\<close> octets,
  where C leaves their overflow undefined, the theorem is about a compiler that lets them wrap.
\<close>

theorem tcp_tracker_safe:
  assumes "0 < sz" and "sz < 500000000" and "tcp_by_time s = []" and "tcp_num s = 0"
    and "keeps_at_most env keep_max" and "prm_ok (te_prm env)" and "clock_ok clk (time0 sc)" and "scan_wf (te_prm env) clk sc"
    and "list_all in_ok ins" and "sorted (te_now env # map in_time ins)"
  shows "\<exists>sc' s'. tcp_run env clk ctl ins (sc, snd (tcp_init junk rnd sz s)) = Some (sc', s') \<and>
    scan_wf (te_prm env) clk sc' \<and> tcp_wf (env\<lparr>te_now := last (te_now env # map in_time ins)\<rparr>) s'"
  using tcp_run_ok [of env "snd (tcp_init junk rnd sz s)" clk sc ins ctl] tcp_init_ok [OF assms(1-4), of junk rnd env] assms(5-) by blast

definition sample_env :: tcp_env where
  "sample_env = \<lparr>te_prm = nids_params0, te_cb = sniffer_cb, te_now = 0, te_fill = 0, te_junk = 0, te_nr_icmp = 15\<rparr>"

definition no_streams :: tcp_state where
  "no_streams = \<lparr>tcp_stream_table = None, streams_pool = [], tcp_num = 0, tcp_stream_table_size = 0, max_stream = 0, tcp_by_time = [],
     free_streams = [], nids_tcp_timeouts = [], tcp_procs = [], tcp_hash = \<lparr>xor_key = [], perm = []\<rparr>, tcp_log = []\<rparr>"

definition junk_stream :: tcp_stream where
  "junk_stream = \<lparr>s_addr = \<lparr>t_source = 0, t_dest = 0, t_saddr = 0, t_daddr = 0\<rparr>, s_nids_state = NIDS_NONE, s_listeners = [],
     s_client = zero_half TCP_CLOSE, s_server = zero_half TCP_CLOSE, s_hash_index = 0, s_read = 0\<rparr>"

theorem tcp_tracker_safe_witness:
  "\<exists>sc' s'. tcp_run sample_env tick [] [Tcp_Pkt 1 syn_packet 100, Tick 2]
       (scan_init nids_params0 tick scan_start,
        snd (tcp_init junk_stream \<lparr>urandom_fd = 0, urandom_xor = [], urandom_perm = [], rand_vals = [1, 2, 3, 4, 5, 6]\<rparr> 1040 no_streams)) = Some (sc', s') \<and>
     scan_wf nids_params0 tick sc' \<and> tcp_wf (sample_env\<lparr>te_now := 2\<rparr>) s'"
proof -
  have "in_ok (Tcp_Pkt 1 syn_packet 100)" by code_simp
  moreover have "time0 (scan_init nids_params0 tick scan_start) = 0"
    by (simp add: scan_init_def scan_start_def tick_def nids_params0_def)
  moreover have "scan_wf nids_params0 tick (scan_init nids_params0 tick scan_start)" by (rule scan_wf_init(1) [OF nids_params0_scan])
  moreover have "keeps_at_most sample_env keep_max" by (rule sniffer_keeps) (simp add: sample_env_def)
  ultimately show ?thesis
    using tcp_tracker_safe [where sz = 1040 and s = no_streams and env = sample_env and clk = tick and sc = "scan_init nids_params0 tick scan_start"
        and ins = "[Tcp_Pkt 1 syn_packet 100, Tick 2]" and ctl = "[]" and junk = junk_stream
        and rnd = "\<lparr>urandom_fd = 0, urandom_xor = [], urandom_perm = [], rand_vals = [1, 2, 3, 4, 5, 6]\<rparr>"] tick_ok nids_params0_scan
    by (simp add: no_streams_def sample_env_def del: tcp_run.simps)
qed

end
