(* ===== verification/Tcp_Delivery.thy ===== *)
theory Tcp_Delivery
  imports Tcp_Inv Sniffer_Cb
begin

text \<open>
  Correctness of stream reassembly in \<open>tcp.c\<close>: what a listener hears of one direction is the longest
  prefix of the sender's byte stream that the arrived segments cover, whatever their order,
  overlap and repetition, and whatever the initial sequence number.
\<close>

section \<open>Listeners that only listen\<close>

text \<open>
  The interface that the reassembly relies on: on data, a callback does not change what is collected and
  does not call \<open>nids_discard\<close>.  The locale states it of an environment; \<open>tcp_callback\<close> of the
  sniffer provides it.
\<close>

locale steady_listener =
  fixes env :: tcp_env
  assumes collect_law: "s_nids_state a = NIDS_DATA \<Longrightarrow> set_collect (te_cb env item log a dat) a = a"
    and discard_law: "s_nids_state a = NIDS_DATA \<Longrightarrow> r_discards (te_cb env item log a dat) = []"

text \<open>The new bytes of direction \<open>d\<close> that a callback finds in the stream it is called with.\<close>

definition new_data :: "side \<Rightarrow> tcp_stream \<Rightarrow> bytes" where
  "new_data d a = (if h_count_new (half d a) > 0
     then drop (nat (pend (half d a) - h_count_new (half d a))) (buffered (half d a)) else [])"

fun heard :: "nat \<Rightarrow> side \<Rightarrow> tcp_event \<Rightarrow> bytes" where
  "heard it d (Call item dat a) = (if item = it then new_data d a else [])"
| "heard it d (Syslog ty w) = []"

text \<open>Everything that callback \<open>it\<close> was given of direction \<open>d\<close>.\<close>

definition received :: "nat \<Rightarrow> side \<Rightarrow> tcp_event list \<Rightarrow> bytes" where
  "received it d log = concat (map (heard it d) log)"

lemma received_append [simp]: "received it d (l @ k) = received it d l @ received it d k"
  by (simp add: received_def)

lemma received_Nil [simp]: "received it d [] = []"
  by (simp add: received_def)

lemma new_data_listeners [simp]: "new_data d (a\<lparr>s_listeners := ls\<rparr>) = new_data d a"
  by (simp add: new_data_def)

definition hears :: "nat \<Rightarrow> u8 \<Rightarrow> lurker list \<Rightarrow> bool" where
  "hears it m ls \<longleftrightarrow> length (filter (\<lambda>l. l_item l = it \<and> l_whatto l AND m \<noteq> 0) ls) = 1"

lemma hears_prune: "hears it m (filter (\<lambda>l. l_whatto l \<noteq> 0) ls) = hears it m ls"
proof -
  have "filter (\<lambda>l. l_item l = it \<and> l_whatto l AND m \<noteq> 0) (filter (\<lambda>l. l_whatto l \<noteq> 0) ls)
      = filter (\<lambda>l. l_item l = it \<and> l_whatto l AND m \<noteq> 0) ls"
    by (induction ls) auto
  then show ?thesis by (simp add: hears_def)
qed

lemma new_whatto_same [simp]: "new_whatto a a w = w"
  by (simp add: new_whatto_def what_bit_def)

text \<open>A connection whose direction \<open>d\<close> is followed by callback \<open>it\<close>, with nothing left over and no urgent data.\<close>

definition ready :: "nat \<Rightarrow> side \<Rightarrow> conn \<Rightarrow> bool" where
  "ready it d c \<longleftrightarrow> s_nids_state (c_tcp c) = NIDS_DATA \<and> hears it (data_mask d) (s_listeners (c_tcp c)) \<and>
     h_collect (chalf d c) \<noteq> 0 \<and> buf_wf (chalf d c) \<and> pend (chalf d c) = 0 \<and> h_count_new (chalf d c) = 0 \<and>
     \<not> h_count_new_urg (chalf d c) \<and> \<not> h_urg_seen (chalf d c) \<and> h_urg_count (chalf d c) = 0"

lemma ready_frame [simp]:
  "ready it d (set_chalf (other d) h c) = ready it d c" "ready it d (c\<lparr>c_timeouts := ts\<rparr>) = ready it d c"
  "ready it d (set_chalf d ((chalf d c)\<lparr>h_rmem_alloc := m, h_list := l\<rparr>) c) = ready it d c"
  "ready it d (set_chalf d ((chalf d c)\<lparr>h_rmem_alloc := m\<rparr>) c) = ready it d c"
  "ready it d (set_chalf d ((chalf d c)\<lparr>h_list := l\<rparr>) c) = ready it d c"
  by (simp_all add: ready_def buf_wf_def pend_def cong: option.case_cong)

section \<open>Positions in the stream\<close>

definition pos :: "u32 \<Rightarrow> u32 \<Rightarrow> nat" where
  "pos isn sq = unat (sq - isn)"

lemma pos_seq: "sq = isn + of_nat (pos isn sq)"
  by (simp add: pos_def)

lemma after_nat: "p < 2147483648 \<Longrightarrow> q < 2147483648 \<Longrightarrow> after (isn + of_nat p) (isn + of_nat q) \<longleftrightarrow> q < p"
  using after_pos [of "int p" "int q" isn] by simp

text \<open>A segment at sequence number \<open>sq\<close> of a sender whose stream is \<open>S\<close> and starts at \<open>isn\<close>.\<close>

definition seg_of :: "bytes \<Rightarrow> u32 \<Rightarrow> u32 \<Rightarrow> bytes \<Rightarrow> bool" where
  "seg_of S isn sq xs \<longleftrightarrow> pos isn sq + length xs \<le> length S \<and> xs = take (length xs) (drop (pos isn sq) S) \<and> length xs \<le> 65535"

text \<open>The octets that segments at \<open>(position, length)\<close> cover, and the first one they do not.\<close>

definition octets :: "(nat \<times> nat) list \<Rightarrow> nat set" where
  "octets arr = (\<Union>(q, n) \<in> set arr. {q..<q + n})"

definition first_gap :: "(nat \<times> nat) list \<Rightarrow> nat" where
  "first_gap arr = (LEAST i. i \<notin> octets arr)"

lemma octets_Cons [simp]: "octets ((q, n) # arr) = {q..<q + n} \<union> octets arr"
  by (simp add: octets_def)

lemma first_gapI: "{..<e} \<subseteq> octets arr \<Longrightarrow> e \<notin> octets arr \<Longrightarrow> first_gap arr = e"
  unfolding first_gap_def by (rule Least_equality) (auto simp: not_less [symmetric])

abbreviation isn_of :: "side \<Rightarrow> conn \<Rightarrow> u32" where
  "isn_of d c \<equiv> h_first_data_seq (chalf (other d) c)"

abbreviation done_of :: "side \<Rightarrow> conn \<Rightarrow> nat" where
  "done_of d c \<equiv> unat (h_count (chalf d c))"

definition queue_ok :: "bytes \<Rightarrow> u32 \<Rightarrow> (nat \<times> nat) list \<Rightarrow> skbuff list \<Rightarrow> bool" where
  "queue_ok S isn arr l \<longleftrightarrow> sorted (map (\<lambda>p. pos isn (p_seq p)) l) \<and>
     (\<forall>p \<in> set l. \<not> p_urg p \<and> seg_of S isn (p_seq p) (p_data p) \<and> (pos isn (p_seq p), length (p_data p)) \<in> set arr)"

text \<open>Every arrived segment was delivered or waits in the queue.\<close>

definition accounted :: "u32 \<Rightarrow> nat \<Rightarrow> (nat \<times> nat) list \<Rightarrow> skbuff list \<Rightarrow> bool" where
  "accounted isn e arr l \<longleftrightarrow>
     (\<forall>(q, n) \<in> set arr. q + n \<le> e \<or> (\<exists>p \<in> set l. pos isn (p_seq p) = q \<and> length (p_data p) = n))"

definition draining :: "bytes \<Rightarrow> nat \<Rightarrow> side \<Rightarrow> (nat \<times> nat) list \<Rightarrow> conn \<Rightarrow> bool" where
  "draining S it d arr c \<longleftrightarrow> ready it d c \<and> done_of d c \<le> length S \<and> received it d (c_log c) = take (done_of d c) S \<and>
     queue_ok S (isn_of d c) arr (h_list (chalf d c)) \<and> accounted (isn_of d c) (done_of d c) arr (h_list (chalf d c)) \<and>
     {..<done_of d c} \<subseteq> octets arr"

definition following :: "bytes \<Rightarrow> nat \<Rightarrow> side \<Rightarrow> (nat \<times> nat) list \<Rightarrow> conn \<Rightarrow> bool" where
  "following S it d arr c \<longleftrightarrow> draining S it d arr c \<and> (\<forall>p \<in> set (h_list (chalf d c)). done_of d c < pos (isn_of d c) (p_seq p))"

lemma following_first_gap:
  assumes "following S it d arr c"
  shows "received it d (c_log c) = take (first_gap arr) S"
proof -
  let ?e = "done_of d c"
  note D = assms [unfolded following_def draining_def]
  have "?e \<notin> octets arr"
  proof
    assume "?e \<in> octets arr"
    then obtain q n where qn: "(q, n) \<in> set arr" "q \<le> ?e" "?e < q + n" by (auto simp: octets_def)
    then obtain p where "p \<in> set (h_list (chalf d c))" "pos (isn_of d c) (p_seq p) = q"
      using D by (fastforce simp: accounted_def)
    then show False using D qn(2) by fastforce
  qed
  then show ?thesis using first_gapI [of ?e arr] D by simp
qed

lemma sorted_insert_back:
  "sorted (rev (map f l)) \<Longrightarrow> (\<And>x. x \<in> set l \<Longrightarrow> after (p_seq x) (p_seq p) = (f p < f x)) \<Longrightarrow> sorted (rev (map f (insert_back p l)))"
proof (induction l)
  case (Cons x l)
  have s: "sorted (rev (map f l))" "\<And>y. y \<in> set l \<Longrightarrow> f y \<le> f x" using Cons.prems(1) by (auto simp: sorted_append)
  show ?case
  proof (cases "after (p_seq x) (p_seq p)")
    case True
    then have "f p < f x" using Cons.prems(2) by simp
    then show ?thesis using True Cons.IH [OF s(1)] Cons.prems(2) s(2) by (auto simp: sorted_append set_insert_back)
  next
    case False
    then have "f x \<le> f p" using Cons.prems(2) [of x] by simp
    then show ?thesis using False s by (fastforce simp: sorted_append)
  qed
qed simp

lemma sorted_insert_skb:
  "sorted (map f l) \<Longrightarrow> (\<And>x. x \<in> set l \<Longrightarrow> after (p_seq x) (p_seq p) = (f p < f x)) \<Longrightarrow> sorted (map f (insert_skb p l))"
  using sorted_insert_back [of f "rev l" p] by (simp add: insert_skb_def rev_map)

context steady_listener
begin

lemma call_item_data:
  "s_nids_state (c_tcp c) = NIDS_DATA \<Longrightarrow>
   \<exists>dt. call_item env item dat c = (dt, c\<lparr>c_log := c_log c @ [Call item dat (c_tcp c)]\<rparr>)"
  by (simp add: call_item_def Let_def collect_law discard_law)

lemma ride_each_data:
  "s_nids_state (c_tcp c) = NIDS_DATA \<Longrightarrow> new_data d (c_tcp c) = x \<Longrightarrow>
   \<exists>ls' evs. ride_each env m pre ls c = c\<lparr>c_tcp := (c_tcp c)\<lparr>s_listeners := pre @ ls'\<rparr>, c_log := c_log c @ evs\<rparr> \<and>
     map (\<lambda>l. (l_item l, l_whatto l)) ls' = map (\<lambda>l. (l_item l, l_whatto l)) ls \<and>
     received it d evs = concat (map (\<lambda>l. if l_item l = it \<and> l_whatto l AND m \<noteq> 0 then x else []) ls)"
proof (induction ls arbitrary: pre c)
  case Nil
  show ?case by (intro exI [of _ "[]"]) simp
next
  case (Cons l r)
  show ?case
  proof (cases "l_whatto l AND m \<noteq> 0")
    case True
    define c1 where "c1 = c\<lparr>c_tcp := (c_tcp c)\<lparr>s_listeners := pre @ l # r\<rparr>\<rparr>"
    have c1: "s_nids_state (c_tcp c1) = NIDS_DATA" "new_data d (c_tcp c1) = x" using Cons.prems by (simp_all add: c1_def)
    obtain dt where ci: "call_item env (l_item l) (l_data l) c1 = (dt, c1\<lparr>c_log := c_log c1 @ [Call (l_item l) (l_data l) (c_tcp c1)]\<rparr>)"
      using call_item_data [OF c1(1)] by blast
    define e where "e = Call (l_item l) (l_data l) (c_tcp c1)"
    define c2 where "c2 = c1\<lparr>c_log := c_log c1 @ [e]\<rparr>"
    let ?l = "l\<lparr>l_data := dt\<rparr>"
    obtain ls' evs where r: "ride_each env m (pre @ [?l]) r c2 = c2\<lparr>c_tcp := (c_tcp c2)\<lparr>s_listeners := (pre @ [?l]) @ ls'\<rparr>, c_log := c_log c2 @ evs\<rparr>"
        "map (\<lambda>l. (l_item l, l_whatto l)) ls' = map (\<lambda>l. (l_item l, l_whatto l)) r"
        "received it d evs = concat (map (\<lambda>l. if l_item l = it \<and> l_whatto l AND m \<noteq> 0 then x else []) r)"
      using Cons.IH [of c2 "pre @ [?l]"] c1 by (auto simp: c2_def)
    have "ride_each env m pre (l # r) c = ride_each env m (pre @ [?l]) r c2"
      using True ci by (simp add: c1_def [symmetric] e_def [symmetric] c2_def [symmetric] Let_def) (simp add: c2_def)
    also have "\<dots> = c\<lparr>c_tcp := (c_tcp c)\<lparr>s_listeners := pre @ ?l # ls'\<rparr>, c_log := c_log c @ e # evs\<rparr>"
      using r(1) by (simp add: c2_def c1_def)
    finally have eq: "ride_each env m pre (l # r) c = c\<lparr>c_tcp := (c_tcp c)\<lparr>s_listeners := pre @ ?l # ls'\<rparr>, c_log := c_log c @ e # evs\<rparr>" .
    have "received it d (e # evs) = concat (map (\<lambda>l. if l_item l = it \<and> l_whatto l AND m \<noteq> 0 then x else []) (l # r))"
      using True r(3) c1(2) by (simp add: received_def e_def)
    then show ?thesis using eq r(2) by (intro exI [of _ "?l # ls'"] exI [of _ "e # evs"]) simp
  next
    case False
    obtain ls' evs where "ride_each env m (pre @ [l]) r c = c\<lparr>c_tcp := (c_tcp c)\<lparr>s_listeners := (pre @ [l]) @ ls'\<rparr>, c_log := c_log c @ evs\<rparr>"
        "map (\<lambda>l. (l_item l, l_whatto l)) ls' = map (\<lambda>l. (l_item l, l_whatto l)) r"
        "received it d evs = concat (map (\<lambda>l. if l_item l = it \<and> l_whatto l AND m \<noteq> 0 then x else []) r)"
      using Cons.IH [OF Cons.prems, of "pre @ [l]"] by blast
    then show ?thesis using False by (intro exI [of _ "l # ls'"] exI [of _ evs]) simp
  qed
qed

lemma concat_if: "concat (map (\<lambda>l. if P l then x else []) ls) = concat (replicate (length (filter P ls)) x)"
  by (induction ls) auto

lemma hears_cong:
  "map (\<lambda>l. (l_item l, l_whatto l)) ls' = map (\<lambda>l. (l_item l, l_whatto l)) ls \<Longrightarrow> hears it m ls' = hears it m ls"
proof -
  assume e: "map (\<lambda>l. (l_item l, l_whatto l)) ls' = map (\<lambda>l. (l_item l, l_whatto l)) ls"
  let ?P = "\<lambda>(i, w). i = it \<and> w AND m \<noteq> 0"
  have k: "length (filter (\<lambda>l. l_item l = it \<and> l_whatto l AND m \<noteq> 0) k) = length (filter ?P (map (\<lambda>l. (l_item l, l_whatto l)) k))" for k
    by (simp add: filter_map comp_def)
  show ?thesis by (simp only: hears_def k e)
qed

lemma tell_data_data:
  assumes "s_nids_state (c_tcp c) = NIDS_DATA" and "hears it (data_mask d) (s_listeners (c_tcp c))"
  shows "\<exists>ls log. tell_data env d c = c\<lparr>c_tcp := (c_tcp c)\<lparr>s_read := pend (chalf d c), s_listeners := ls\<rparr>, c_log := log\<rparr> \<and>
    hears it (data_mask d) ls \<and> received it d log = received it d (c_log c) @ new_data d (c_tcp c)"
proof -
  define c0 where "c0 = c\<lparr>c_tcp := (c_tcp c)\<lparr>s_read := pend (chalf d c)\<rparr>\<rparr>"
  have c0: "s_nids_state (c_tcp c0) = NIDS_DATA" "new_data d (c_tcp c0) = new_data d (c_tcp c)" "s_listeners (c_tcp c0) = s_listeners (c_tcp c)"
    using assms(1) by (simp_all add: c0_def new_data_def)
  obtain ls' evs where r: "ride_each env (data_mask d) [] (s_listeners (c_tcp c)) c0 = c0\<lparr>c_tcp := (c_tcp c0)\<lparr>s_listeners := [] @ ls'\<rparr>, c_log := c_log c0 @ evs\<rparr>"
      "map (\<lambda>l. (l_item l, l_whatto l)) ls' = map (\<lambda>l. (l_item l, l_whatto l)) (s_listeners (c_tcp c))"
      "received it d evs = concat (map (\<lambda>l. if l_item l = it \<and> l_whatto l AND data_mask d \<noteq> 0 then new_data d (c_tcp c) else []) (s_listeners (c_tcp c)))"
    using ride_each_data [OF c0(1,2), where m = "data_mask d" and pre = "[]" and ls = "s_listeners (c_tcp c)" and it = it] by blast
  have "received it d evs = new_data d (c_tcp c)" using r(3) assms(2) unfolding concat_if hears_def by simp
  moreover have "hears it (data_mask d) ls'" using hears_cong [OF r(2)] assms(2) by simp
  moreover have "tell_data env d c = c\<lparr>c_tcp := (c_tcp c)\<lparr>s_read := pend (chalf d c), s_listeners := ls'\<rparr>, c_log := c_log c @ evs\<rparr>"
    using r(1) unfolding tell_data_def ride_lurkers_def c0_def [symmetric] c0(3) by (simp add: c0_def)
  ultimately show ?thesis by (intro exI [of _ ls'] exI [of _ "c_log c @ evs"]) simp
qed

lemma notify_once_data:
  assumes "s_nids_state (c_tcp c) = NIDS_DATA" and "hears it (data_mask d) (s_listeners (c_tcp c))"
    and "buf_wf (chalf d c)" and "h_count_new (chalf d c) = pend (chalf d c)" and "0 < pend (chalf d c)"
  shows "\<exists>c' b f. notify_once env d c = Some c' \<and> chalf d c' = (chalf d c)\<lparr>h_count_new := 0, h_data := b, h_offset := f\<rparr> \<and>
    buf_wf (chalf d c') \<and> pend (chalf d c') = 0 \<and> chalf (other d) c' = chalf (other d) c \<and> s_nids_state (c_tcp c') = NIDS_DATA \<and>
    hears it (data_mask d) (s_listeners (c_tcp c')) \<and> received it d (c_log c') = received it d (c_log c) @ buffered (chalf d c) \<and> told d c c'"
proof -
  let ?h = "chalf d c" and ?n = "pend (chalf d c)"
  obtain ls log where t: "tell_data env d c = c\<lparr>c_tcp := (c_tcp c)\<lparr>s_read := ?n, s_listeners := ls\<rparr>, c_log := log\<rparr>" (is "_ = ?c1")
      "hears it (data_mask d) ls" "received it d log = received it d (c_log c) @ new_data d (c_tcp c)"
    using tell_data_data [OF assms(1,2)] by blast
  have nd: "new_data d (c_tcp c) = buffered ?h" using assms(4,5) by (simp add: new_data_def)
  have h1: "chalf d ?c1 = ?h" "chalf (other d) ?c1 = chalf (other d) c" by simp_all
  obtain h' b f where h': "consume ?n (?h\<lparr>h_count_new := 0\<rparr>) = Some h'" "buf_wf h'" "h' = ?h\<lparr>h_count_new := 0, h_data := b, h_offset := f\<rparr>"
    using consume_ok [of "?h\<lparr>h_count_new := 0\<rparr>" ?n] assms(3) by auto
  have p: "pend h' = 0" using consume_pend [OF h'(1)] assms(5) by simp
  have e: "notify_once env d c = Some (set_chalf d h' ?c1)"
    using h'(1) assms(4,5) by (simp add: notify_once_def Let_def t(1))
  have o: "notify_once env d c = Some x \<Longrightarrow> told d c x" for x using notify_once_ok [OF assms(3), of env] by auto
  show ?thesis using e h' p t(2,3) nd assms(1) o [OF e]
    by (intro exI [of _ "set_chalf d h' ?c1"] exI [of _ b] exI [of _ f]) simp
qed

lemma deliver_data:
  assumes "ready it d c" and "0 \<le> off" and "0 < n" and "off + n \<le> int (length seg)" and "length seg \<le> 65535"
  shows "\<exists>c'. deliver env d seg off n c = Some c' \<and> ready it d c' \<and> told d (advanced d n c) c' \<and>
    received it d (c_log c') = received it d (c_log c) @ take (nat n) (drop (nat off) seg)"
proof -
  let ?h = "chalf d c"
  note r = assms(1) [unfolded ready_def]
  define xs where "xs = take (nat n) (drop (nat off) seg)"
  have sl: "slice seg off n = Some xs" using assms by (simp add: slice_def xs_def)
  have len: "int (length xs) = n" using length_slice [OF sl] .
  then have ne: "xs \<noteq> []" "length xs \<le> 65535" using assms by auto
  have km: "pend ?h \<le> keep_max" using r by (simp add: keep_max_def)
  have nil: "buffered ?h = []" using length_buffered [of ?h] r by simp
  have wf: "buf_wf ?h" using r by simp
  obtain b where b: "add2buf (te_fill env) xs ?h = Some (?h\<lparr>h_data := Some b, h_bufsize := int (length b), h_count_new := int (length xs),
      h_count := h_count ?h + of_nat (length xs)\<rparr>)" (is "_ = Some ?h1")
    using add2buf_ok [OF wf km ne, of "te_fill env"] by blast
  then have h1: "buf_wf ?h1" "buffered ?h1 = xs" "pend ?h1 = n"
    using buf_wf_add2buf [OF wf km ne, of "te_fill env"] nil r len by auto
  define c1 where "c1 = set_chalf d ?h1 c"
  have pre: "s_nids_state (c_tcp c1) = NIDS_DATA" "hears it (data_mask d) (s_listeners (c_tcp c1))" "buf_wf (chalf d c1)"
      "h_count_new (chalf d c1) = pend (chalf d c1)" "0 < pend (chalf d c1)"
    using r h1 len assms(3) by (simp_all add: c1_def)
  obtain c2 b' f' where c2: "notify_once env d c1 = Some c2" "chalf d c2 = (chalf d c1)\<lparr>h_count_new := 0, h_data := b', h_offset := f'\<rparr>"
      "buf_wf (chalf d c2)" "pend (chalf d c2) = 0" "s_nids_state (c_tcp c2) = NIDS_DATA" "hears it (data_mask d) (s_listeners (c_tcp c2))"
      "received it d (c_log c2) = received it d (c_log c1) @ buffered (chalf d c1)" "told d c1 c2"
    using notify_once_data [OF pre] by blast
  have lp: "notify_loop env d c1 = Some c2" using c2(1,2) by (subst notify_loop.simps) simp
  define c' where "c' = prune_listeners (set_chalf d ((chalf d c2)\<lparr>h_count_new := 0\<rparr>) c2)"
  have n: "notify env d c1 = Some c'" using lp r by (simp add: notify_def c'_def) (simp add: c1_def)
  have ch: "chalf d c' = ?h1\<lparr>h_count_new := 0, h_data := b', h_offset := f'\<rparr>" using c2(2) by (simp add: c'_def c1_def)
  have "ready it d c'" using c2(3-6) r ch
    by (simp add: ready_def c'_def hears_prune) (simp add: prune_listeners_def hears_prune c2(2) c1_def)
  moreover have "rest_half ?h1 = rest_half (?h\<lparr>h_count := h_count ?h + of_int n\<rparr>)" using len by (auto simp: rest_half_def)
  then have "told d (advanced d n c) c'" using c2(8) by (simp add: told_def advanced_def c'_def c1_def) (simp add: prune_listeners_def)
  moreover have "received it d (c_log c') = received it d (c_log c) @ xs" using c2(7) h1(2) by (simp add: c'_def c1_def)
  moreover have "deliver env d seg off n c = Some c'" using sl b n r by (simp add: deliver_def Let_def c1_def [symmetric])
  ultimately show ?thesis by (auto simp: xs_def)
qed

lemma add_from_skb_data:
  assumes r: "ready it d c" and len: "length seg \<le> 65535" and lost: "uint (EXP_SEQ d (c_tcp c) - sq) \<le> int (length seg)"
  shows "\<exists>c'. add_from_skb env d seg sq fin False up c = Some c' \<and> ready it d c' \<and>
    received it d (c_log c') = received it d (c_log c) @ drop (unat (EXP_SEQ d (c_tcp c) - sq)) seg \<and>
    h_count (chalf d c') = h_count (chalf d c) + (of_nat (length seg) - (EXP_SEQ d (c_tcp c) - sq)) \<and>
    h_first_data_seq (chalf (other d) c') = h_first_data_seq (chalf (other d) c) \<and> h_list (chalf d c') = h_list (chalf d c)"
proof -
  define k where "k = unat (EXP_SEQ d (c_tcp c) - sq)"
  define n where "n = length seg - k"
  have k: "EXP_SEQ d (c_tcp c) - sq = of_nat k" "uint (EXP_SEQ d (c_tcp c) - sq) = int k" by (simp_all add: k_def)
  have kl: "k \<le> length seg" using lost k(2) by simp
  have nw: "of_nat (length seg) - of_nat k = (of_nat n :: u32)" using kl by (simp add: n_def of_nat_diff)
  have un: "unat (of_nat n :: u32) = n" using len by (simp add: n_def unat_of_nat take_bit_nat_eq_self)
  have sn: "sint (of_nat n :: u32) = int n" using sint_u32_nonneg [of "of_nat n"] un len n_def by linarith
  have z: "(of_nat n :: u32) = 0 \<longleftrightarrow> n = 0" using un by (auto simp flip: unat_eq_0)
  have uk: "uint (of_nat k :: u32) = int k" using k by simp
  have us: "\<not> h_urg_seen (chalf d c)" using r by (simp add: ready_def)
  have nu: "note_urgent d False up c = c" by (simp add: note_urgent_def Let_def)
  let ?fin = "\<lambda>c2. if fin then let c3 = set_chalf (other d) ((chalf (other d) c2)\<lparr>h_state := FIN_SENT\<rparr>) c2 in
       Some (if h_state (chalf d c3) = TCP_CLOSING then c3\<lparr>c_timeouts := add_tcp_closing_timeout env (c_self c3) (c_timeouts c3)\<rparr> else c3)
     else Some c2"
  have af: "add_from_skb env d seg sq fin False up c = (if n \<noteq> 0 then deliver env d seg (int k) (int n) c else Some c) \<bind> ?fin"
    unfolding add_from_skb_def Let_def nu k(1) nw sn uk z using us by simp
  have f: "\<exists>c'. ?fin c2 = Some c' \<and> ready it d c' = ready it d c2 \<and> c_log c' = c_log c2 \<and> chalf d c' = chalf d c2 \<and>
      h_first_data_seq (chalf (other d) c') = h_first_data_seq (chalf (other d) c2)" for c2
    by (cases fin) (simp_all add: Let_def)
  obtain c2 where c2: "(if n \<noteq> 0 then deliver env d seg (int k) (int n) c else Some c) = Some c2" "ready it d c2"
      "received it d (c_log c2) = received it d (c_log c) @ drop k seg" "h_count (chalf d c2) = h_count (chalf d c) + of_nat n"
      "h_first_data_seq (chalf (other d) c2) = h_first_data_seq (chalf (other d) c)" "h_list (chalf d c2) = h_list (chalf d c)"
  proof (cases "n = 0")
    case True
    then show thesis using that [of c] r kl by (simp add: n_def)
  next
    case False
    obtain c2 where d: "deliver env d seg (int k) (int n) c = Some c2" "ready it d c2" "told d (advanced d (int n) c) c2"
        "received it d (c_log c2) = received it d (c_log c) @ take n (drop k seg)"
      using deliver_data [OF r, of "int k" "int n" seg] False kl len by (auto simp: n_def)
    note t = told_half [OF d(3)]
    show thesis using that [of c2] False d rest_half_eqD(2,9) [OF t(1)] core_half_eqD(9) [OF t(2)] by (simp add: n_def advanced_def)
  qed
  have "unat (of_nat k :: u32) = k" using uk by (simp add: unat_eq_nat_uint)
  then show ?thesis unfolding af c2(1) using f [of c2] c2(2-6) by (auto simp: k nw)
qed

text \<open>One segment that is not early: the stream advances to its end.\<close>

lemma absorb:
  assumes r: "ready it d c" and S: "length S \<le> 1073741824" and e: "done_of d c \<le> length S" "received it d (c_log c) = take (done_of d c) S"
    and sg: "seg_of S (isn_of d c) sq xs" and q: "pos (isn_of d c) sq \<le> done_of d c" "done_of d c \<le> pos (isn_of d c) sq + length xs"
  shows "\<exists>c'. add_from_skb env d xs sq fin False up c = Some c' \<and> ready it d c' \<and> isn_of d c' = isn_of d c \<and>
    h_list (chalf d c') = h_list (chalf d c) \<and> done_of d c' = pos (isn_of d c) sq + length xs \<and>
    received it d (c_log c') = take (done_of d c') S"
proof -
  define n where "n = done_of d c"
  define k where "k = pos (isn_of d c) sq"
  have cn: "h_count (chalf d c) = of_nat n" by (simp add: n_def)
  have ex: "EXP_SEQ d (c_tcp c) = isn_of d c + of_nat n" using r by (simp add: EXP_SEQ_def ready_def n_def)
  have sq: "sq = isn_of d c + of_nat k" using pos_seq by (simp add: k_def)
  have nk: "k \<le> n" "n \<le> k + length xs" "k + length xs \<le> length S" "length xs \<le> 65535" and xs: "xs = take (length xs) (drop k S)"
    using q sg by (simp_all add: n_def k_def seg_of_def)
  have lost: "EXP_SEQ d (c_tcp c) - sq = of_nat (n - k)" using nk(1) by (simp add: ex sq of_nat_diff)
  have ul: "unat (of_nat (n - k) :: u32) = n - k" by (rule unat_of_nat_u32) (use nk S in linarith)
  have "int (unat (of_nat (n - k) :: u32)) \<le> int (length xs)" unfolding ul using nk(2) by simp
  then have le: "uint (EXP_SEQ d (c_tcp c) - sq) \<le> int (length xs)" unfolding lost by (simp only: uint_nat)
  obtain c' where c': "add_from_skb env d xs sq fin False up c = Some c'" "ready it d c'"
      "received it d (c_log c') = received it d (c_log c) @ drop (n - k) xs"
      "h_count (chalf d c') = h_count (chalf d c) + (of_nat (length xs) - of_nat (n - k))"
      "isn_of d c' = isn_of d c" "h_list (chalf d c') = h_list (chalf d c)"
    using add_from_skb_data [OF r nk(4) le, of fin up] unfolding lost ul by blast
  have "h_count (chalf d c') = of_nat (k + length xs)" using nk(1,2) by (simp add: c'(4) cn of_nat_diff)
  then have dn: "done_of d c' = k + length xs" using unat_of_nat_u32 [of "k + length xs"] nk(3) S by simp
  have "take n S @ drop (n - k) xs = take (k + length xs) S"
  proof -
    have "drop (n - k) xs = take (k + length xs - n) (drop n S)" using nk(1,2) by (subst xs) (simp add: drop_take add.commute)
    then show ?thesis using nk(2) take_add [of n "k + length xs - n" S] by simp
  qed
  then show ?thesis using c' dn e(2) by (auto simp: n_def k_def)
qed

lemma drain_data:
  assumes S: "length S \<le> 1073741824"
  shows "draining S it d arr c \<Longrightarrow> h_list (chalf d c) = ps \<Longrightarrow>
    \<exists>c'. drain env d ps c = Some c' \<and> following S it d arr c' \<and> isn_of d c' = isn_of d c"
proof (induction ps arbitrary: c)
  case Nil
  then show ?case by (simp add: following_def)
next
  case (Cons p ps)
  let ?e = "done_of d c" and ?isn = "isn_of d c"
  let ?q = "pos ?isn (p_seq p)" and ?n = "length (p_data p)"
  note D = Cons.prems(1) [unfolded draining_def Cons.prems(2)]
  have sg: "seg_of S ?isn (p_seq p) (p_data p)" "\<not> p_urg p" "(?q, ?n) \<in> set arr" using D by (simp_all add: queue_ok_def)
  have b: "?q + ?n \<le> length S" "?n \<le> 65535" using sg(1) by (simp_all add: seg_of_def)
  have ex: "EXP_SEQ d (c_tcp c) = ?isn + of_nat ?e" using D by (simp add: EXP_SEQ_def ready_def)
  have aft: "after (p_seq p) (EXP_SEQ d (c_tcp c)) \<longleftrightarrow> ?e < ?q"
    unfolding ex by (subst pos_seq [of "p_seq p" ?isn], rule after_nat) (use b S D in linarith)+
  show ?case
  proof (cases "?e < ?q")
    case True
    then have "following S it d arr c" using Cons.prems D by (auto simp: following_def queue_ok_def)
    then show ?thesis using aft True by simp
  next
    case False
    let ?stop = "seq_end (p_seq p) ?n (p_fin p)"
    let ?step = "if after ?stop (EXP_SEQ d (c_tcp c)) then add_from_skb env d (p_data p) (p_seq p) (p_fin p) (p_urg p) (p_urg_ptr p + p_seq p - 1) c else Some c"
    have en: "?stop = ?isn + of_nat (?q + ?n + (if p_fin p then 1 else 0))"
      unfolding seq_end_def by (subst pos_seq [of "p_seq p" ?isn]) (simp add: algebra_simps)
    have aend: "after ?stop (EXP_SEQ d (c_tcp c)) \<longleftrightarrow> ?e < ?q + ?n + (if p_fin p then 1 else 0)"
      unfolding ex en by (rule after_nat) (use b S D in auto)
    obtain c1 where c1: "?step = Some c1" "ready it d c1" "isn_of d c1 = ?isn" "done_of d c1 = max ?e (?q + ?n)"
        "done_of d c1 \<le> length S" "received it d (c_log c1) = take (done_of d c1) S"
    proof (cases "after ?stop (EXP_SEQ d (c_tcp c))")
      case True
      then have le: "?e \<le> ?q + ?n" using aend by (simp split: if_splits)
      then obtain c1 where "add_from_skb env d (p_data p) (p_seq p) (p_fin p) False (p_urg_ptr p + p_seq p - 1) c = Some c1" "ready it d c1"
          "isn_of d c1 = ?isn" "done_of d c1 = ?q + ?n" "received it d (c_log c1) = take (done_of d c1) S"
        using absorb [OF _ S _ _ sg(1), of it "p_fin p" "p_urg_ptr p + p_seq p - 1"] D False by auto
      then show thesis using that [of c1] True sg(2) le b(1) by (simp add: max_absorb2)
    next
      case nend: False
      then have "?q + ?n \<le> ?e" using aend by (simp split: if_splits)
      then show thesis using that [of c] nend D by (simp add: max_absorb1)
    qed
    define c2 where "c2 = set_chalf d ((chalf d c1)\<lparr>h_rmem_alloc := h_rmem_alloc (chalf d c1) - p_truesize p, h_list := ps\<rparr>) c1"
    have c2: "ready it d c2" "isn_of d c2 = ?isn" "done_of d c2 = max ?e (?q + ?n)" "c_log c2 = c_log c1" "h_list (chalf d c2) = ps"
      using c1 by (simp_all add: c2_def)
    have oct: "{..<done_of d c2} \<subseteq> octets arr"
    proof -
      have "{?q..<?q + ?n} \<subseteq> octets arr" using sg(3) by (auto simp: octets_def)
      moreover have "{..<?e} \<subseteq> octets arr" using D by simp
      moreover have "{..<max ?e (?q + ?n)} \<subseteq> {..<?e} \<union> {?q..<?q + ?n}" using False by auto
      ultimately show ?thesis unfolding c2(3) by blast
    qed
    have acc: "accounted ?isn (done_of d c2) arr ps"
      using D unfolding c2(3) accounted_def by fastforce
    have "draining S it d arr c2"
      using c2 c1(4-6) D oct acc by (auto simp: draining_def queue_ok_def)
    then obtain c' where "drain env d ps c2 = Some c'" "following S it d arr c'" "isn_of d c' = ?isn"
      using Cons.IH [of c2] c2 by auto
    then show ?thesis using aft False c1(1) by (auto simp: c2_def)
  qed
qed

lemma octets_mono: "octets arr \<subseteq> octets (x # arr)"
  by (auto simp: octets_def)

lemma tcp_queue_data:
  assumes S: "length S \<le> 1073741824" and f: "following S it d arr c" and th: "options_readable th" "\<not> th_urg th"
    and sg: "seg_of S (isn_of d c) (th_seq th) seg"
  shows "\<exists>c'. tcp_queue env d th seg skblen c = Some c' \<and> following S it d ((pos (isn_of d c) (th_seq th), length seg) # arr) c' \<and>
    isn_of d c' = isn_of d c"
proof -
  let ?e = "done_of d c" and ?isn = "isn_of d c" and ?l = "h_list (chalf d c)"
  let ?q = "pos ?isn (th_seq th)" and ?n = "length seg"
  let ?arr = "(?q, ?n) # arr"
  note D = f [unfolded following_def draining_def]
  have b: "?q + ?n \<le> length S" "?n \<le> 65535" using sg by (simp_all add: seg_of_def)
  have ex: "EXP_SEQ d (c_tcp c) = ?isn + of_nat ?e" using D by (simp add: EXP_SEQ_def ready_def)
  have aft: "after (th_seq th) (EXP_SEQ d (c_tcp c)) \<longleftrightarrow> ?e < ?q"
    unfolding ex by (subst pos_seq [of "th_seq th" ?isn], rule after_nat) (use b S D in linarith)+
  let ?stop = "seq_end (th_seq th) ?n (th_fin th)"
  have en: "?stop = ?isn + of_nat (?q + ?n + (if th_fin th then 1 else 0))"
    unfolding seq_end_def by (subst pos_seq [of "th_seq th" ?isn]) (simp add: algebra_simps)
  have aend: "after ?stop (EXP_SEQ d (c_tcp c)) \<longleftrightarrow> ?e < ?q + ?n + (if th_fin th then 1 else 0)"
    unfolding ex en by (rule after_nat) (use b S D in auto)
  have qok: "queue_ok S ?isn ?arr ?l" using D by (auto simp: queue_ok_def)
  consider (early) "?e < ?q" | (old) "?q \<le> ?e" "\<not> after ?stop (EXP_SEQ d (c_tcp c))" | (now) "?q \<le> ?e" "after ?stop (EXP_SEQ d (c_tcp c))"
    by linarith
  then show ?thesis
  proof cases
    case early
    let ?p = "\<lparr>p_data = seg, p_truesize = skblen, p_urg_ptr = ucast (th_urg_ptr th), p_fin = th_fin th, p_urg = th_urg th, p_seq = th_seq th\<rparr>"
    define c' where "c' = enqueue env d ?p c"
    have c': "ready it d c'" "isn_of d c' = ?isn" "done_of d c' = ?e" "c_log c' = c_log c" "h_list (chalf d c') = insert_skb ?p ?l"
      using D by (simp_all add: c'_def enqueue_def Let_def)
    have "after (p_seq x) (p_seq ?p) \<longleftrightarrow> ?q < pos ?isn (p_seq x)" if "x \<in> set ?l" for x
    proof -
      have "pos ?isn (p_seq x) \<le> length S" using D that by (auto simp: queue_ok_def seg_of_def)
      then show ?thesis using after_nat [of "pos ?isn (p_seq x)" ?q ?isn] b S pos_seq [of "p_seq x" ?isn] pos_seq [of "th_seq th" ?isn] by simp
    qed
    then have "sorted (map (\<lambda>p. pos ?isn (p_seq p)) (insert_skb ?p ?l))"
      using D by (intro sorted_insert_skb) (simp_all add: queue_ok_def)
    then have "queue_ok S ?isn ?arr (insert_skb ?p ?l)" using qok sg th(2) by (auto simp: queue_ok_def)
    moreover have "accounted ?isn ?e ?arr (insert_skb ?p ?l)" using D by (fastforce simp: accounted_def)
    moreover have "{..<?e} \<subseteq> octets ?arr" using D octets_mono [of arr "(?q, ?n)"] by blast
    ultimately have "following S it d ?arr c'" using c' D early by (simp add: following_def draining_def)
    then show ?thesis using early aft c'(2) by (simp add: tcp_queue_def Let_def c'_def)
  next
    case old
    have "?q + ?n \<le> ?e" using old aend by (simp split: if_splits)
    then have "accounted ?isn ?e ?arr ?l" using D by (auto simp: accounted_def)
    moreover have "{..<?e} \<subseteq> octets ?arr" using D octets_mono [of arr "(?q, ?n)"] by blast
    ultimately have "following S it d ?arr c" using D qok by (simp add: following_def draining_def)
    then show ?thesis using old aft by (simp add: tcp_queue_def Let_def)
  next
    case now
    obtain on ts where ts: "get_ts th (h_curr_ts (chalf (other d) c)) = Some (on, ts)" using get_ts_ok [OF th(1)] by blast
    define c1 where "c1 = set_chalf (other d) ((chalf (other d) c)\<lparr>h_curr_ts := ts\<rparr>) c"
    have c1: "ready it d c1" "isn_of d c1 = ?isn" "chalf d c1 = chalf d c" "c_log c1 = c_log c" using D by (simp_all add: c1_def)
    have le: "?e \<le> ?q + ?n" using now aend by (simp split: if_splits)
    obtain c2 where c2: "add_from_skb env d seg (th_seq th) (th_fin th) False (ucast (th_urg_ptr th) + th_seq th - 1) c1 = Some c2" "ready it d c2"
        "isn_of d c2 = ?isn" "h_list (chalf d c2) = ?l" "done_of d c2 = ?q + ?n" "received it d (c_log c2) = take (done_of d c2) S"
      using absorb [OF c1(1) S, of "th_seq th" seg "th_fin th" "ucast (th_urg_ptr th) + th_seq th - 1"] D sg now(1) le
      unfolding c1(2-4) by auto
    have "accounted ?isn (done_of d c2) ?arr ?l" using D le unfolding c2(5) by (fastforce simp: accounted_def)
    moreover have "{..<?q + ?n} \<subseteq> octets ?arr"
    proof
      fix i
      assume "i \<in> {..<?q + ?n}"
      then have "i \<in> {?q..<?q + ?n} \<or> i \<in> {..<?e}" using now(1) by auto
      then show "i \<in> octets ?arr" using D by auto
    qed
    ultimately have "draining S it d ?arr c2" using c2 qok b(1) by (simp add: draining_def)
    then obtain c' where "drain env d ?l c2 = Some c'" "following S it d ?arr c'" "isn_of d c' = ?isn"
      using drain_data [OF S _ c2(4)] c2(3) by auto
    then show ?thesis using now aft ts c2(1,4) th(2) by (simp add: tcp_queue_def Let_def c1_def)
  qed
qed

end

section \<open>The sniffer hears the stream\<close>

interpretation sniffer: steady_listener "env\<lparr>te_cb := sniffer_cb\<rparr>" for env
proof
  fix a :: tcp_stream and item dat :: nat and log
  assume "s_nids_state a = NIDS_DATA"
  then show "set_collect (te_cb (env\<lparr>te_cb := sniffer_cb\<rparr>) item log a dat) a = a" "r_discards (te_cb (env\<lparr>te_cb := sniffer_cb\<rparr>) item log a dat) = []"
    by (simp_all add: sniffer_cb_def set_collect_def Let_def)
qed

text \<open>Segments in the order of their arrival: header, payload, size of the captured packet.\<close>

fun feed :: "tcp_env \<Rightarrow> side \<Rightarrow> (tcphdr \<times> bytes \<times> int) list \<Rightarrow> conn \<Rightarrow> conn option" where
  "feed env d [] c = Some c"
| "feed env d ((th, seg, skblen) # r) c = do { c' \<leftarrow> tcp_queue env d th seg skblen c; feed env d r c' }"

text \<open>The place of a segment in the stream that starts at \<open>isn\<close>.\<close>

definition place :: "u32 \<Rightarrow> tcphdr \<times> bytes \<times> int \<Rightarrow> nat \<times> nat" where
  "place isn a = (case a of (th, seg, skblen) \<Rightarrow> (pos isn (th_seq th), length seg))"

text \<open>An arrival that repeats, without urgent data, what the sender's stream \<open>S\<close> has at its place.\<close>

definition arrival_of :: "bytes \<Rightarrow> u32 \<Rightarrow> tcphdr \<times> bytes \<times> int \<Rightarrow> bool" where
  "arrival_of S isn a \<longleftrightarrow> (case a of (th, seg, skblen) \<Rightarrow> options_readable th \<and> \<not> th_urg th \<and> seg_of S isn (th_seq th) seg)"

text \<open>A direction at its beginning: nothing delivered, nothing queued.\<close>

definition fresh_direction :: "nat \<Rightarrow> side \<Rightarrow> conn \<Rightarrow> bool" where
  "fresh_direction it d c \<longleftrightarrow> ready it d c \<and> h_count (chalf d c) = 0 \<and> h_list (chalf d c) = [] \<and> received it d (c_log c) = []"

lemma feed_following:
  assumes "te_cb env = sniffer_cb" and "length S \<le> 1073741824"
  shows "following S it d arr c \<Longrightarrow> isn_of d c = isn \<Longrightarrow> list_all (arrival_of S isn) segs \<Longrightarrow>
    \<exists>c'. feed env d segs c = Some c' \<and> following S it d (rev (map (place isn) segs) @ arr) c'"
proof (induction segs arbitrary: arr c)
  case (Cons a segs)
  obtain th seg skblen where a: "a = (th, seg, skblen)" by (cases a)
  have e: "env\<lparr>te_cb := sniffer_cb\<rparr> = env" using assms(1) by simp
  have ar: "options_readable th" "\<not> th_urg th" "seg_of S (isn_of d c) (th_seq th) seg" using Cons.prems by (simp_all add: a arrival_of_def)
  obtain c1 where c1: "tcp_queue env d th seg skblen c = Some c1" "following S it d (place isn a # arr) c1" "isn_of d c1 = isn"
    using sniffer.tcp_queue_data [of S it d arr c th seg env skblen, unfolded e, OF assms(2) Cons.prems(1) ar] Cons.prems(2)
    by (auto simp: a place_def)
  then show ?case using Cons.IH [OF c1(2,3)] Cons.prems(3) by (simp add: a)
qed simp

lemma first_gap_cong: "set xs = set ys \<Longrightarrow> first_gap xs = first_gap ys"
  by (simp add: first_gap_def octets_def)

text \<open>
  C1.  Reassembly is exact.  Let a connection be followed by the sniffer's callback in direction \<open>d\<close>,
  and let segments of the sender's stream \<open>S\<close> (at most a gigabyte, starting at any initial sequence number,
  so that the numbers may wrap) arrive in any order, with any overlaps, repetitions and FIN flags, and any
  options.  Then \<open>tcp_queue\<close> returns for each of them, and the bytes handed to the callback are exactly the
  prefix of \<open>S\<close> up to the first byte that no arrived segment covers: nothing is lost, repeated, reordered or
  altered, and nothing that could be delivered is held back.
\<close>

theorem tcp_reassembly_exact:
  assumes "te_cb env = sniffer_cb" and "length S \<le> 1073741824" and "fresh_direction it d c"
    and "list_all (arrival_of S (h_first_data_seq (chalf (other d) c))) segs"
  shows "\<exists>c'. feed env d segs c = Some c' \<and>
    received it d (c_log c') = take (first_gap (map (place (h_first_data_seq (chalf (other d) c))) segs)) S"
proof -
  let ?isn = "h_first_data_seq (chalf (other d) c)"
  have "following S it d [] c" using assms(3)
    by (simp add: following_def draining_def fresh_direction_def queue_ok_def accounted_def octets_def)
  then obtain c' where c': "feed env d segs c = Some c'" "following S it d (rev (map (place ?isn) segs) @ []) c'"
    using feed_following [OF assms(1,2) _ refl assms(4)] by blast
  then show ?thesis using following_first_gap [OF c'(2)] first_gap_cong [of "rev (map (place ?isn) segs)" "map (place ?isn) segs"] by auto
qed

text \<open>A stream that starts two bytes before the sequence numbers wrap; its second segment arrives first.\<close>

definition sample_th :: "u32 \<Rightarrow> tcphdr" where
  "sample_th sq = \<lparr>th_source = 1000, th_dest = 80, th_seq = sq, th_ack_seq = 0, th_doff = 5, th_flags = 0x10, th_window = 100,
     th_urg_ptr = 0, th_options = []\<rparr>"

definition sample_conn :: conn where
  "sample_conn = \<lparr>c_self = 0,
     c_tcp = \<lparr>s_addr = \<lparr>t_source = 1000, t_dest = 80, t_saddr = 1, t_daddr = 2\<rparr>, s_nids_state = NIDS_DATA,
              s_listeners = [\<lparr>l_item = 7, l_data = 0, l_whatto = 11\<rparr>],
              s_client = (zero_half TCP_ESTABLISHED)\<lparr>h_first_data_seq := 0xfffffffe, h_collect := 1\<rparr>,
              s_server = (zero_half TCP_ESTABLISHED)\<lparr>h_collect := 1\<rparr>, s_hash_index = 0, s_read = 0\<rparr>,
     c_timeouts = [], c_log = []\<rparr>"

theorem tcp_reassembly_exact_witness:
  "\<exists>c'. feed \<lparr>te_prm = nids_params0, te_cb = sniffer_cb, te_now = 0, te_fill = 0, te_junk = 0, te_nr_icmp = 15\<rparr> Server
      [(sample_th 0, [3, 4, 5], 60), (sample_th 0xfffffffe, [1, 2], 60)] sample_conn = Some c' \<and>
    received 7 Server (c_log c') = [1, 2, 3, 4, 5]"
proof -
  let ?isn = "h_first_data_seq (chalf (other Server) sample_conn)"
  let ?segs = "[(sample_th 0, [3, 4, 5], 60), (sample_th 0xfffffffe, [1, 2], 60)] :: (tcphdr \<times> bytes \<times> int) list"
  have isn: "?isn = 0xfffffffe" by (simp add: sample_conn_def)
  have "fresh_direction 7 Server sample_conn"
    by (simp add: fresh_direction_def ready_def sample_conn_def buf_wf_def pend_def zero_half_def hears_def COLLECT_sc_def)
  moreover have "pos 0xfffffffe 0 = 2" "pos 0xfffffffe 0xfffffffe = 0" by (simp_all add: pos_def)
  then have "list_all (arrival_of [1, 2, 3, 4, 5] ?isn) ?segs" "map (place ?isn) ?segs = [(2, 3), (0, 2)]"
    unfolding isn by (simp_all add: arrival_of_def place_def seg_of_def options_readable_def sample_th_def th_urg_def bit_word_iff_drop_bit_and)
  moreover have "first_gap [(2, 3), (0, 2)] = 5" by (rule first_gapI) (auto simp: octets_def)
  ultimately show ?thesis
    using tcp_reassembly_exact [where S = "[1, 2, 3, 4, 5]" and it = 7 and d = Server and c = sample_conn and segs = ?segs
        and env = "\<lparr>te_prm = nids_params0, te_cb = sniffer_cb, te_now = 0, te_fill = 0, te_junk = 0, te_nr_icmp = 15\<rparr>"]
    by (simp del: feed.simps)
qed

end
