(* ===== verification/Tcp_Props.thy ===== *)
theory Tcp_Props
  imports Tcp_Safe Tcp_Delivery
begin

text \<open>
  Functional properties of the connection tracker: options, lookup, the handshake, timeouts, rejected
  headers, registration of callbacks, and two divergences in \<open>process_icmp\<close>.
\<close>

section \<open>Options\<close>

text \<open>
  C21.  The option parsers stay inside the header.  On any header whose \<open>doff\<close> words are in memory,
  with arbitrary option bytes (unknown kinds, zero or overlong lengths, truncated options), \<open>get_ts\<close>
  and \<open>get_wscale\<close> return without reading past the header, and the window scale is a power of two
  of at most \<open>2 ^ 14\<close>.
\<close>

theorem tcp_options_in_bounds:
  assumes "4 * int (th_doff th) \<le> 20 + int (length (th_options th))"
  shows "(\<exists>on ts'. get_ts th ts = Some (on, ts')) \<and> (\<exists>on k. get_wscale th = Some (on, push_bit k 1) \<and> k \<le> 14)"
  using get_ts_ok [of th ts] get_wscale_ok [of th] assms by (simp add: options_readable_def)

theorem tcp_options_in_bounds_witness:
  "(\<exists>on ts'. get_ts ((sample_th 0)\<lparr>th_doff := 6, th_options := [3, 255, 200, 8]\<rparr>) 0 = Some (on, ts')) \<and>
   (\<exists>on k. get_wscale ((sample_th 0)\<lparr>th_doff := 6, th_options := [3, 255, 200, 8]\<rparr>) = Some (on, push_bit k 1) \<and> k \<le> 14)"
  using tcp_options_in_bounds [of "(sample_th 0)\<lparr>th_doff := 6, th_options := [3, 255, 200, 8]\<rparr>" 0] by simp

section \<open>Lookup\<close>

lemma find_live:
  assumes wf: "tcp_wf env s" and i: "i \<in> live s" "s_addr (streams_pool s ! i) = a"
  shows "nids_find_tcp_stream a s = Some (Some i)"
proof -
  obtain r where r: "nids_find_tcp_stream a s = Some r"
      "case r of None \<Rightarrow> a \<notin> (\<lambda>i. s_addr (streams_pool s ! i)) ` live s | Some j \<Rightarrow> j \<in> live s \<and> s_addr (streams_pool s ! j) = a"
    using find_ok [OF wf] by blast
  show ?thesis
  proof (cases r)
    case None
    then show ?thesis using r(2) i by auto
  next
    case (Some j)
    have "inj_on (\<lambda>i. s_addr (streams_pool s ! i)) (live s)" using wf by (simp add: tcp_wf_def)
    then have "j = i" using r(2) i Some by (auto dest: inj_onD)
    then show ?thesis using r(1) Some by simp
  qed
qed

lemma find_absent:
  "tcp_wf env s \<Longrightarrow> a \<notin> (\<lambda>i. s_addr (streams_pool s ! i)) ` live s \<Longrightarrow> nids_find_tcp_stream a s = Some None"
proof -
  assume wf: "tcp_wf env s" and a: "a \<notin> (\<lambda>i. s_addr (streams_pool s ! i)) ` live s"
  obtain r where r: "nids_find_tcp_stream a s = Some r"
      "case r of None \<Rightarrow> a \<notin> (\<lambda>i. s_addr (streams_pool s ! i)) ` live s | Some j \<Rightarrow> j \<in> live s \<and> s_addr (streams_pool s ! j) = a"
    using find_ok [OF wf] by blast
  then show ?thesis using a by (cases r) auto
qed

definition flip :: "tuple4 \<Rightarrow> tuple4" where
  "flip a = \<lparr>t_source = t_dest a, t_dest = t_source a, t_saddr = t_daddr a, t_daddr = t_saddr a\<rparr>"

text \<open>The tuple of a segment.\<close>

definition tuple_of :: "tcphdr \<Rightarrow> u32 \<Rightarrow> u32 \<Rightarrow> tuple4" where
  "tuple_of th src dst = \<lparr>t_source = th_source th, t_dest = th_dest th, t_saddr = src, t_daddr = dst\<rparr>"

definition in_use :: "tcp_state \<Rightarrow> tuple4 \<Rightarrow> bool" where
  "in_use s a \<longleftrightarrow> a \<in> (\<lambda>i. s_addr (streams_pool s ! i)) ` live s"

lemma find_stream_cases:
  assumes wf: "tcp_wf env s" and a: "a = tuple_of th src dst"
  shows "\<not> in_use s a \<Longrightarrow> \<not> in_use s (flip a) \<Longrightarrow> find_stream th src dst s = Some None"
    "i \<in> live s \<Longrightarrow> s_addr (streams_pool s ! i) = a \<Longrightarrow> find_stream th src dst s = Some (Some (i, True))"
    "\<not> in_use s a \<Longrightarrow> i \<in> live s \<Longrightarrow> s_addr (streams_pool s ! i) = flip a \<Longrightarrow> find_stream th src dst s = Some (Some (i, False))"
proof -
  have fl: "flip a = \<lparr>t_source = th_dest th, t_dest = th_source th, t_saddr = dst, t_daddr = src\<rparr>"
    by (simp add: a tuple_of_def flip_def)
  have f: "find_stream th src dst s = do {
     x \<leftarrow> nids_find_tcp_stream a s;
     case x of Some i \<Rightarrow> Some (Some (i, True))
     | None \<Rightarrow> do { y \<leftarrow> nids_find_tcp_stream (flip a) s; Some (map_option (\<lambda>i. (i, False)) y) } }"
    unfolding fl by (simp add: find_stream_def find_ports_def a tuple_of_def)
  show "\<not> in_use s a \<Longrightarrow> \<not> in_use s (flip a) \<Longrightarrow> find_stream th src dst s = Some None"
    using find_absent [OF wf] by (simp add: f in_use_def)
  show "i \<in> live s \<Longrightarrow> s_addr (streams_pool s ! i) = a \<Longrightarrow> find_stream th src dst s = Some (Some (i, True))"
    using find_live [OF wf] by (simp add: f)
  show "\<not> in_use s a \<Longrightarrow> i \<in> live s \<Longrightarrow> s_addr (streams_pool s ! i) = flip a \<Longrightarrow> find_stream th src dst s = Some (Some (i, False))"
    using find_live [OF wf] find_absent [OF wf] by (simp add: f in_use_def)
qed

section \<open>The handshake\<close>

lemma no_options:
  assumes "th_doff th = 5"
  shows "get_ts th ts = Some (False, ts)" "get_wscale th = Some (False, 1)" "options_readable th"
  using assms by (simp_all add: get_ts_def get_wscale_def get_ts_loop.simps [of _ 20] get_wscale_loop.simps [of _ 20] options_readable_def)

lemma syn_ok:
  assumes wf: "tcp_wf env s" and th: "th_syn th" "\<not> th_ack th" "\<not> th_rst th" "th_doff th = 5"
    and a: "a = tuple_of th src dst" "\<not> in_use s a" "\<not> in_use s (flip a)"
  shows "\<exists>s' i. tcp_input env th src dst pkt off 0 skblen s = Some s' \<and> tcp_wf env s' \<and> i \<in> live s' \<and> tcp_procs s' = tcp_procs s \<and>
    (in_use s' (flip a) \<longrightarrow> flip a = a) \<and>
    streams_pool s' ! i = \<lparr>s_addr = a, s_nids_state = NIDS_NONE, s_listeners = [],
       s_client = (zero_half TCP_SYN_SENT)\<lparr>h_seq := th_seq th + 1, h_first_data_seq := th_seq th + 1, h_window := th_window th, h_wscale := 1\<rparr>,
       s_server = zero_half TCP_CLOSE, s_hash_index = mk_hash_index a s, s_read = 0\<rparr>"
proof -
  have fl: "flip a = \<lparr>t_source = th_dest th, t_dest = th_source th, t_saddr = dst, t_daddr = src\<rparr>"
    by (simp add: a tuple_of_def flip_def)
  have f: "find_stream th src dst s = Some None" using find_stream_cases(1) [OF wf a(1)] a(2,3) .
  have new: "a \<notin> (\<lambda>j. s_addr (streams_pool s ! j)) ` live s" using a(2) by (simp add: in_use_def)
  obtain s' i where s': "add_new_tcp env th src dst s = Some s'" "tcp_wf env s'" "i \<in> live s'" "s_addr (streams_pool s' ! i) = a"
      "new_stream a (mk_hash_index a s) th = Some (streams_pool s' ! i)" "tcp_procs s' = tcp_procs s"
      "(\<lambda>j. s_addr (streams_pool s' ! j)) ` live s' \<subseteq> insert a ((\<lambda>j. s_addr (streams_pool s ! j)) ` live s)"
    using add_new_tcp_ok [OF wf no_options(3) [OF th(4)], of a src dst] new by (auto simp: a(1) tuple_of_def)
  have "flip a = a" if "in_use s' (flip a)" using s'(7) that a(3) by (auto simp: in_use_def)
  moreover have "zero_half st = (zero_half st)\<lparr>h_ts_on := False, h_curr_ts := 0, h_wscale_on := False\<rparr>" for st by (simp add: zero_half_def)
  then have "streams_pool s' ! i = \<lparr>s_addr = a, s_nids_state = NIDS_NONE, s_listeners = [],
       s_client = (zero_half TCP_SYN_SENT)\<lparr>h_seq := th_seq th + 1, h_first_data_seq := th_seq th + 1, h_window := th_window th, h_wscale := 1\<rparr>,
       s_server = zero_half TCP_CLOSE, s_hash_index = mk_hash_index a s, s_read = 0\<rparr>"
    using s'(5) no_options(1,2) [OF th(4)] by (simp add: new_stream_def zero_half_def)
  ultimately show ?thesis using s' th f by (intro exI [of _ s'] exI [of _ i]) (simp add: tcp_input_def)
qed

lemma syn_ack_step:
  assumes wf: "tcp_wf env s" and i: "i \<in> live s" "s_addr (streams_pool s ! i) = flip a" and a: "a = tuple_of th src dst" "\<not> in_use s a"
    and st: "h_state (s_client (streams_pool s ! i)) = TCP_SYN_SENT" "h_state (s_server (streams_pool s ! i)) = TCP_CLOSE"
      "h_seq (s_client (streams_pool s ! i)) = th_ack_seq th" "\<not> h_ts_on (s_client (streams_pool s ! i))" "\<not> h_wscale_on (s_client (streams_pool s ! i))"
    and th: "th_syn th" "th_ack th" "th_doff th = 5"
  shows "\<exists>s'. tcp_input env th src dst pkt off 0 skblen s = Some s' \<and> live s' = live s \<and> tcp_procs s' = tcp_procs s \<and> tcp_log s' = tcp_log s \<and>
    streams_pool s' ! i = (streams_pool s ! i)\<lparr>s_server := (s_server (streams_pool s ! i))\<lparr>h_state := TCP_SYN_RECV, h_seq := th_seq th + 1,
       h_first_data_seq := th_seq th + 1, h_ack_seq := th_ack_seq th, h_window := th_window th, h_ts_on := False, h_wscale_on := False, h_wscale := 1\<rparr>\<rparr>"
proof -
  have fl: "flip a = \<lparr>t_source = th_dest th, t_dest = th_source th, t_saddr = dst, t_daddr = src\<rparr>"
    by (simp add: a tuple_of_def flip_def)
  have f: "find_stream th src dst s = Some (Some (i, False))" using find_stream_cases(3) [OF wf a(1,2) i] .
  have il: "i < length (streams_pool s)" using tcp_wf_live(1) [OF wf i(1)] .
  then show ?thesis using f th st
    by (simp add: tcp_input_def known_stream_def load_def Let_def syn_ack_def) (simp add: store_def live_def)
qed

text \<open>The last step, as the stream with the callback of the sniffer sees it.\<close>

lemma establish_sniffer:
  assumes "te_cb env = sniffer_cb" and "th_ack th" and "a = c_tcp c" and "s_listeners a = []"
    and "h_state (s_client a) = TCP_SYN_SENT" "h_state (s_server a) = TCP_SYN_RECV" "th_ack_seq th = h_seq (s_server a)"
    and "h_collect (s_client a) = 0" "h_collect (s_server a) = 0" "h_collect_urg (s_server a) = 0" "h_collect_urg (s_client a) = 0"
  shows "\<exists>c'. establish env [it] True th c = Some c' \<and> c_self c' = c_self c \<and> c_timeouts c' = c_timeouts c \<and>
    c_tcp c' = a\<lparr>s_client := (s_client a)\<lparr>h_state := TCP_ESTABLISHED, h_ack_seq := th_ack_seq th, h_collect := 1\<rparr>,
      s_server := (s_server a)\<lparr>h_state := TCP_ESTABLISHED, h_collect := 1, h_collect_urg := 1\<rparr>, s_nids_state := NIDS_JUST_EST,
      s_listeners := [\<lparr>l_item = it, l_data = te_junk env, l_whatto = 11\<rparr>]\<rparr> \<and>
    c_log c' = c_log c @ [Call it (te_junk env) (a\<lparr>s_client := (s_client a)\<lparr>h_state := TCP_ESTABLISHED, h_ack_seq := th_ack_seq th\<rparr>,
      s_server := (s_server a)\<lparr>h_state := TCP_ESTABLISHED\<rparr>, s_nids_state := NIDS_JUST_EST\<rparr>)]"
  using assms by (simp add: establish_def Let_def call_item_def set_collect_def sniffer_cb_def one_collector_def first_whatto_def up_bit_def
    COLLECT_cc_def COLLECT_sc_def COLLECT_scu_def COLLECT_ccu_def)

lemma ack_step:
  assumes wf: "tcp_wf env s" and i: "i \<in> live s" "s_addr (streams_pool s ! i) = a" and a: "a = tuple_of th src dst"
    and env: "te_cb env = sniffer_cb" and st: "t = streams_pool s ! i" "s_listeners t = []" "tcp_procs s = [it]"
      "h_state (s_client t) = TCP_SYN_SENT" "h_state (s_server t) = TCP_SYN_RECV" "th_ack_seq th = h_seq (s_server t)" "th_seq th = h_ack_seq (s_server t)"
      "h_collect (s_client t) = 0" "h_collect (s_server t) = 0" "h_collect_urg (s_server t) = 0" "h_collect_urg (s_client t) = 0"
      "\<not> h_ts_on (s_server t)" "h_rmem_alloc (s_server t) = 0"
    and th: "\<not> th_syn th" "\<not> th_fin th" "\<not> th_rst th" "th_ack th"
  shows "\<exists>s' j. tcp_input env th src dst pkt off 0 skblen s = Some s' \<and> live s' = live s \<and>
    streams_pool s' = (streams_pool s)[i := t\<lparr>
      s_client := (s_client t)\<lparr>h_state := TCP_ESTABLISHED, h_ack_seq := th_ack_seq th, h_collect := 1, h_window := th_window th\<rparr>,
      s_server := (s_server t)\<lparr>h_state := TCP_ESTABLISHED, h_collect := 1, h_collect_urg := 1\<rparr>,
      s_nids_state := NIDS_DATA, s_listeners := [\<lparr>l_item = it, l_data = te_junk env, l_whatto = 11\<rparr>]\<rparr>] \<and>
    tcp_log s' = tcp_log s @ [Call it (te_junk env) j] \<and> s_nids_state j = NIDS_JUST_EST \<and> s_addr j = a"
proof -
  have f: "find_stream th src dst s = Some (Some (i, True))" using find_stream_cases(2) [OF wf a i] .
  have il: "i < length (streams_pool s)" using tcp_wf_live(1) [OF wf i(1)] .
  define c where "c = \<lparr>c_self = i, c_tcp = t, c_timeouts = nids_tcp_timeouts s, c_log = tcp_log s\<rparr>"
  have ld: "load i s = Some c" using il by (simp add: load_def c_def st(1))
  obtain c' where c': "establish env [it] True th c = Some c'" "c_self c' = c_self c" "c_timeouts c' = c_timeouts c"
    "c_tcp c' = t\<lparr>s_client := (s_client t)\<lparr>h_state := TCP_ESTABLISHED, h_ack_seq := th_ack_seq th, h_collect := 1\<rparr>,
      s_server := (s_server t)\<lparr>h_state := TCP_ESTABLISHED, h_collect := 1, h_collect_urg := 1\<rparr>, s_nids_state := NIDS_JUST_EST,
      s_listeners := [\<lparr>l_item = it, l_data = te_junk env, l_whatto = 11\<rparr>]\<rparr>"
    "c_log c' = c_log c @ [Call it (te_junk env) (t\<lparr>s_client := (s_client t)\<lparr>h_state := TCP_ESTABLISHED, h_ack_seq := th_ack_seq th\<rparr>,
      s_server := (s_server t)\<lparr>h_state := TCP_ESTABLISHED\<rparr>, s_nids_state := NIDS_JUST_EST\<rparr>)]"
    using establish_sniffer [of env th t c it] env st th(4) by (auto simp: c_def)
  have "known_stream env i True th pkt off 0 skblen s =
      segment_data env Server th pkt off 0 skblen (c'\<lparr>c_tcp := (c_tcp c')\<lparr>s_nids_state := NIDS_DATA\<rparr>\<rparr>) s"
    using th ld st(3,7,12) c'(1,4) by (simp add: known_stream_def in_window_def paws_old_def) (simp add: c_def)
  moreover have "segment_data env Server th pkt off 0 skblen (c'\<lparr>c_tcp := (c_tcp c')\<lparr>s_nids_state := NIDS_DATA\<rparr>\<rparr>) s =
      Some (store (c'\<lparr>c_tcp := (c_tcp c')\<lparr>s_nids_state := NIDS_DATA, s_client := (s_client (c_tcp c'))\<lparr>h_window := th_window th\<rparr>\<rparr>\<rparr>) s)"
    using th st(13) by (simp add: segment_data_def take_ack_def both_closed_def handle_ack_def set_chalf_def c'(4) Let_def)
  ultimately have "tcp_input env th src dst pkt off 0 skblen s =
      Some (store (c'\<lparr>c_tcp := (c_tcp c')\<lparr>s_nids_state := NIDS_DATA, s_client := (s_client (c_tcp c'))\<lparr>h_window := th_window th\<rparr>\<rparr>\<rparr>) s)"
    by (simp add: tcp_input_def f)
  moreover have "(c_tcp c')\<lparr>s_nids_state := NIDS_DATA, s_client := (s_client (c_tcp c'))\<lparr>h_window := th_window th\<rparr>\<rparr> = t\<lparr>
      s_client := (s_client t)\<lparr>h_state := TCP_ESTABLISHED, h_ack_seq := th_ack_seq th, h_collect := 1, h_window := th_window th\<rparr>,
      s_server := (s_server t)\<lparr>h_state := TCP_ESTABLISHED, h_collect := 1, h_collect_urg := 1\<rparr>,
      s_nids_state := NIDS_DATA, s_listeners := [\<lparr>l_item = it, l_data = te_junk env, l_whatto = 11\<rparr>]\<rparr>"
    unfolding c'(4) by (cases t) simp
  ultimately show ?thesis using c'(2,5) i(2) st(1) by (auto simp: store_def live_def c_def)
qed

definition is_syn :: "tcphdr \<Rightarrow> bool" where
  "is_syn th \<longleftrightarrow> th_syn th \<and> \<not> th_ack th \<and> \<not> th_rst th \<and> th_doff th = 5"

definition answers_syn :: "tcphdr \<Rightarrow> tcphdr \<Rightarrow> bool" where
  "answers_syn th th1 \<longleftrightarrow> th_syn th \<and> th_ack th \<and> th_doff th = 5 \<and> th_ack_seq th = th_seq th1 + 1"

definition ends_handshake :: "tcphdr \<Rightarrow> tcphdr \<Rightarrow> tcphdr \<Rightarrow> bool" where
  "ends_handshake th th1 th2 \<longleftrightarrow> \<not> th_syn th \<and> \<not> th_fin th \<and> \<not> th_rst th \<and> th_ack th \<and> th_doff th = 5 \<and>
     th_seq th = th_seq th1 + 1 \<and> th_ack_seq th = th_seq th2 + 1"

definition established_with :: "nat \<Rightarrow> tcp_stream \<Rightarrow> bool" where
  "established_with it t \<longleftrightarrow> h_state (s_client t) = TCP_ESTABLISHED \<and> h_state (s_server t) = TCP_ESTABLISHED \<and>
     s_nids_state t = NIDS_DATA \<and> map l_item (s_listeners t) = [it] \<and> map l_whatto (s_listeners t) = [COLLECT_cc OR COLLECT_sc OR COLLECT_scu] \<and>
     h_collect (s_client t) = 1 \<and> h_collect (s_server t) = 1"

text \<open>
  C8.  A handshake is recognised.  From any state of the tracker the code can reach, the segments
  SYN, SYN/ACK and ACK of a connection whose tuple is not in use, with matching sequence numbers and
  no options, make the tracker hold a stream that is found from the client's side, established in
  both directions, with the callback of the sniffer as its only listener, which was called exactly
  once, with the stream in the state \<open>NIDS_JUST_EST\<close>, and asked for both directions.
\<close>

theorem handshake_establishes:
  assumes wf: "tcp_wf env s" and env: "te_cb env = sniffer_cb" and procs: "tcp_procs s = [it]"
    and a: "a = tuple_of th1 src dst" "\<not> in_use s a" "\<not> in_use s (flip a)" "flip a \<noteq> a"
    and th: "is_syn th1" "answers_syn th2 th1" "ends_handshake th3 th1 th2" "tuple_of th2 dst src = flip a" "tuple_of th3 src dst = a"
  shows "\<exists>s1 s2 s3 i j. tcp_input env th1 src dst [] 0 0 n s = Some s1 \<and> tcp_input env th2 dst src [] 0 0 n s1 = Some s2 \<and>
    tcp_input env th3 src dst [] 0 0 n s2 = Some s3 \<and> find_stream th3 src dst s3 = Some (Some (i, True)) \<and>
    established_with it (streams_pool s3 ! i) \<and> tcp_log s3 = tcp_log s1 @ [Call it (te_junk env) j] \<and>
    s_nids_state j = NIDS_JUST_EST \<and> s_addr j = a"
proof -
  have keep: "keeps_at_most env keep_max" using sniffer_keeps [OF env] .
  have t1: "th_syn th1" "\<not> th_ack th1" "\<not> th_rst th1" "th_doff th1 = 5" using th(1) by (simp_all add: is_syn_def)
  have t2: "th_syn th2" "th_ack th2" "th_doff th2 = 5" "th_ack_seq th2 = th_seq th1 + 1" using th(2) by (simp_all add: answers_syn_def)
  have t3: "\<not> th_syn th3" "\<not> th_fin th3" "\<not> th_rst th3" "th_ack th3" "th_seq th3 = th_seq th1 + 1" "th_ack_seq th3 = th_seq th2 + 1" "th_doff th3 = 5"
    using th(3) by (simp_all add: ends_handshake_def)
  obtain s1 i where s1: "tcp_input env th1 src dst [] 0 0 n s = Some s1" "tcp_wf env s1" "i \<in> live s1" "tcp_procs s1 = tcp_procs s"
      "in_use s1 (flip a) \<longrightarrow> flip a = a"
      "streams_pool s1 ! i = \<lparr>s_addr = a, s_nids_state = NIDS_NONE, s_listeners = [],
       s_client = (zero_half TCP_SYN_SENT)\<lparr>h_seq := th_seq th1 + 1, h_first_data_seq := th_seq th1 + 1, h_window := th_window th1, h_wscale := 1\<rparr>,
       s_server = zero_half TCP_CLOSE, s_hash_index = mk_hash_index a s, s_read = 0\<rparr>"
    using syn_ok [OF wf t1 a(1-3), of "[]" 0 n] by blast
  have ff: "flip (flip a) = a" by (simp add: flip_def)
  have ad1: "s_addr (streams_pool s1 ! i) = flip (flip a)" by (simp add: s1(6) ff)
  have fr: "\<not> in_use s1 (flip a)" using s1(5) a(4) by blast
  obtain s2 where s2: "tcp_input env th2 dst src [] 0 0 n s1 = Some s2" "live s2 = live s1" "tcp_procs s2 = tcp_procs s1" "tcp_log s2 = tcp_log s1"
      "streams_pool s2 ! i = (streams_pool s1 ! i)\<lparr>s_server := (s_server (streams_pool s1 ! i))\<lparr>h_state := TCP_SYN_RECV, h_seq := th_seq th2 + 1,
       h_first_data_seq := th_seq th2 + 1, h_ack_seq := th_ack_seq th2, h_window := th_window th2, h_ts_on := False, h_wscale_on := False, h_wscale := 1\<rparr>\<rparr>"
    using syn_ack_step [OF s1(2,3) ad1 th(4) [symmetric] fr, of "[]" 0 n] t2 by (auto simp: s1(6) zero_half_def)
  have wf2: "tcp_wf env s2"
    using tcp_input_ok [OF keep s1(2) no_options(3) [OF t2(3)], of 0 0 "[]" dst src n] s2(1) by simp
  have i2: "i \<in> live s2" "s_addr (streams_pool s2 ! i) = a" using s1(3,6) s2(2,5) by simp_all
  obtain s3 j where s3: "tcp_input env th3 src dst [] 0 0 n s2 = Some s3" "live s3 = live s2"
      "streams_pool s3 = (streams_pool s2)[i := (streams_pool s2 ! i)\<lparr>
      s_client := (s_client (streams_pool s2 ! i))\<lparr>h_state := TCP_ESTABLISHED, h_ack_seq := th_ack_seq th3, h_collect := 1, h_window := th_window th3\<rparr>,
      s_server := (s_server (streams_pool s2 ! i))\<lparr>h_state := TCP_ESTABLISHED, h_collect := 1, h_collect_urg := 1\<rparr>,
      s_nids_state := NIDS_DATA, s_listeners := [\<lparr>l_item = it, l_data = te_junk env, l_whatto = 11\<rparr>]\<rparr>]"
      "tcp_log s3 = tcp_log s2 @ [Call it (te_junk env) j]" "s_nids_state j = NIDS_JUST_EST" "s_addr j = a"
    using ack_step [OF wf2 i2 th(5) [symmetric] env refl, of it "[]" 0 n] procs s1(4) s2(3) t2(4) t3
    by (auto simp: s2(5) s1(6) zero_half_def)
  have wf3: "tcp_wf env s3"
    using tcp_input_ok [OF keep wf2 no_options(3) [OF t3(7)], of 0 0 "[]" src dst n] s3(1) by simp
  have il: "i < length (streams_pool s2)" using tcp_wf_live(1) [OF wf2 i2(1)] .
  have p3: "established_with it (streams_pool s3 ! i)" "s_addr (streams_pool s3 ! i) = a"
    using il i2(2) by (simp_all add: s3(3) established_with_def COLLECT_cc_def COLLECT_sc_def COLLECT_scu_def)
  have "find_stream th3 src dst s3 = Some (Some (i, True))"
    using find_stream_cases(2) [OF wf3 th(5) [symmetric] _ p3(2)] i2(1) s3(2) by simp
  then show ?thesis using s1(1) s2(1,4) s3(1,4-6) p3(1) by auto
qed

definition hand :: "u16 \<Rightarrow> u16 \<Rightarrow> u8 \<Rightarrow> u32 \<Rightarrow> u32 \<Rightarrow> tcphdr" where
  "hand sp dp fl sq ak = \<lparr>th_source = sp, th_dest = dp, th_seq = sq, th_ack_seq = ak, th_doff = 5, th_flags = fl,
     th_window = 1000, th_urg_ptr = 0, th_options = []\<rparr>"

definition started :: tcp_state where
  "started = snd (tcp_init junk_stream \<lparr>urandom_fd = 0, urandom_xor = [], urandom_perm = [], rand_vals = [1, 2, 3, 4, 5, 6]\<rparr> 1040
     (nids_register_tcp 7 no_streams))"

lemma started_ok: "tcp_wf sample_env started" "live started = {}" "tcp_procs started = [7]"
  using tcp_init_ok [of 1040 "nids_register_tcp 7 no_streams" junk_stream _ sample_env]
  by (simp_all add: started_def no_streams_def nids_register_tcp_def register_callback_def tcp_init_def Let_def)

theorem handshake_establishes_witness:
  "\<exists>s1 s2 s3 i j. tcp_input sample_env (hand 40000 80 2 100 0) 1 2 [] 0 0 60 started = Some s1 \<and>
    tcp_input sample_env (hand 80 40000 18 900 101) 2 1 [] 0 0 60 s1 = Some s2 \<and>
    tcp_input sample_env (hand 40000 80 16 101 901) 1 2 [] 0 0 60 s2 = Some s3 \<and>
    find_stream (hand 40000 80 16 101 901) 1 2 s3 = Some (Some (i, True)) \<and> established_with 7 (streams_pool s3 ! i) \<and>
    tcp_log s3 = tcp_log s1 @ [Call 7 (te_junk sample_env) j] \<and> s_nids_state j = NIDS_JUST_EST \<and>
    s_addr j = tuple_of (hand 40000 80 2 100 0) 1 2"
proof -
  have "is_syn (hand 40000 80 2 100 0)" "answers_syn (hand 80 40000 18 900 101) (hand 40000 80 2 100 0)"
    "ends_handshake (hand 40000 80 16 101 901) (hand 40000 80 2 100 0) (hand 80 40000 18 900 101)"
    by (simp_all add: is_syn_def answers_syn_def ends_handshake_def hand_def th_syn_def th_ack_def th_rst_def th_fin_def bit_numeral_rec)
  moreover have "tuple_of (hand 80 40000 18 900 101) 2 1 = flip (tuple_of (hand 40000 80 2 100 0) 1 2)"
    "tuple_of (hand 40000 80 16 101 901) 1 2 = tuple_of (hand 40000 80 2 100 0) 1 2"
    "flip (tuple_of (hand 40000 80 2 100 0) 1 2) \<noteq> tuple_of (hand 40000 80 2 100 0) 1 2"
    by (simp_all add: tuple_of_def flip_def hand_def)
  moreover have "te_cb sample_env = sniffer_cb" by (simp add: sample_env_def)
  moreover have "\<not> in_use started a" for a by (simp add: in_use_def started_ok(2))
  ultimately show ?thesis
    using handshake_establishes [OF started_ok(1) _ started_ok(3) refl, of "hand 40000 80 2 100 0" 1 2] by blast
qed

section \<open>Timeouts\<close>

text \<open>
  C20.  \<open>tcp_check_timeouts\<close> ends, keeps the invariant of the tracker, and releases exactly the streams
  whose closing timeout is due: the entries left are those later than now, and every stream without a
  due entry stays.  In the witness one of two closing streams is due and the other is not.
\<close>

theorem tcp_check_timeouts_exact:
  assumes "tcp_wf env s"
  shows "\<exists>s'. tcp_check_timeouts env now s = Some s' \<and> tcp_wf env s' \<and>
    nids_tcp_timeouts s' = filter (\<lambda>e. now < snd e) (nids_tcp_timeouts s) \<and>
    live s' = {i \<in> live s. list_all (\<lambda>e. fst e = i \<longrightarrow> now < snd e) (nids_tcp_timeouts s)}"
proof -
  have srt: "sorted (map snd (nids_tcp_timeouts s))" "distinct (map fst (nids_tcp_timeouts s))"
    using assms by (simp_all add: tcp_wf_def timeouts_ok_def)
  have dw: "dropWhile (\<lambda>e. snd e \<le> now) ts = filter (\<lambda>e. now < snd e) ts \<and> takeWhile (\<lambda>e. snd e \<le> now) ts = filter (\<lambda>e. snd e \<le> now) ts"
    if "sorted (map snd ts)" for ts :: "(nat \<times> int) list"
    using that by (induction ts) (auto intro!: filter_True [symmetric] filter_False [symmetric])
  have "live s - fst ` set (filter (\<lambda>e. snd e \<le> now) ts) = {i \<in> live s. list_all (\<lambda>e. fst e = i \<longrightarrow> now < snd e) ts}" for ts
    by (auto simp: list_all_iff not_le)
  then show ?thesis using tcp_check_timeouts_ok [OF assms, of now] dw [OF srt(1)] by metis
qed

text \<open>
  Two streams that are closing, with the workarounds switched on: the timeout of stream 0 is due at 20,
  that of stream 1 at 40.
\<close>

definition workaround_env :: tcp_env where
  "workaround_env = sample_env\<lparr>te_prm := nids_params0\<lparr>tcp_workarounds := 1\<rparr>, te_now := 30\<rparr>"

definition closing_stream :: "u16 \<Rightarrow> tcp_stream" where
  "closing_stream sp = \<lparr>s_addr = \<lparr>t_source = sp, t_dest = 80, t_saddr = 1, t_daddr = 2\<rparr>, s_nids_state = NIDS_DATA, s_listeners = [],
     s_client = zero_half FIN_CONFIRMED, s_server = zero_half FIN_SENT, s_hash_index = 0, s_read = 0\<rparr>"

definition two_closing :: tcp_state where
  "two_closing = no_streams\<lparr>tcp_stream_table := Some [[1, 0]], streams_pool := [closing_stream 40000, closing_stream 40001], tcp_num := 2,
     tcp_stream_table_size := 1, max_stream := 1, tcp_by_time := [1, 0], nids_tcp_timeouts := [(0, 20), (1, 40)]\<rparr>"

lemma two_closing_wf: "tcp_wf workaround_env two_closing"
proof -
  have "mk_hash_index a two_closing = 0" for a by (simp add: mk_hash_index_def two_closing_def smod_int_alt_def)
  moreover have "half_wf (half d (closing_stream sp))" for d sp by (cases d) (simp_all add: closing_stream_def half_wf_zero)
  moreover have "s_hash_index (closing_stream sp) = 0" "inj closing_stream" for sp by (auto simp: closing_stream_def inj_def)
  moreover have "links_wf [[1, 0]] [1, 0] [] (\<lambda>i. s_hash_index ([closing_stream 40000, closing_stream 40001] ! i)) 2"
    by (auto simp: links_wf_def closing_stream_def numeral_2_eq_2 less_Suc_eq)
  ultimately show ?thesis
    by (simp add: tcp_wf_def two_closing_def no_streams_def live_def stream_wf_def workaround_env_def timeouts_ok_def due_by_def
        sample_env_def numeral_2_eq_2) (simp add: closing_stream_def)
qed

theorem tcp_check_timeouts_exact_witness:
  "\<exists>s'. tcp_check_timeouts workaround_env 30 two_closing = Some s' \<and> tcp_wf workaround_env s' \<and>
    nids_tcp_timeouts s' = [(1, 40)] \<and> live two_closing = {0, 1} \<and> live s' = {1}"
proof -
  have "nids_tcp_timeouts two_closing = [(0, 20), (1, 40)]" and l: "live two_closing = {0, 1}"
    by (auto simp: two_closing_def live_def)
  moreover have "{i \<in> {0, Suc 0}. i = 0 \<longrightarrow> (30 :: int) < 20} = {1}" by auto
  ultimately show ?thesis using tcp_check_timeouts_exact [OF two_closing_wf, of 30] by auto
qed

section \<open>Rejected segments\<close>

text \<open>
  C19.  A segment with a broken TCP header (shorter than 20 octets, a data offset beyond the packet, or
  both addresses zero) or with a wrong checksum never reaches a stream: no callback is called, and of
  the state of the tracker only the log changes, which ends with the warning about the header
  whenever streams are tracked.  The packet has a sound IP header and its source is not 0.0.x.y with
  \<open>y \<ge> 128\<close> (\<open>hash_safe\<close>): the port scan detector sees a segment before its checksum is tested, and for such a
  source it indexes in front of its table.  Its clock does not run backwards and stays within \<open>2^31\<close>
  milliseconds of its start.
\<close>

theorem bad_segment_only_warns:
  assumes "prm_ok (te_prm env)" "clock_ok clk (time0 sc)" "scan_wf (te_prm env) clk sc" and "ip_packet pkt" "hash_safe (src_of pkt)"
    and "rd_le32 pkt 12 = Some src" "rd_le32 pkt 16 = Some dst"
    and "\<not> tcp_sane pkt \<or> my_tcp_check ctl pkt (ip_hlen pkt) (int (ip_total pkt) - int (ip_hlen pkt)) src dst \<noteq> Some 0"
    and "n_tcp_streams (te_prm env) \<noteq> 0"
  shows "\<exists>sc' ws. process_tcp env clk ctl pkt skblen (sc, s) =
    Some (sc', s\<lparr>tcp_log := tcp_log s @ ws @ [Syslog NIDS_WARN_TCP NIDS_WARN_TCP_HDR]\<rparr>) \<and>
    (ws = [] \<or> ws = [Syslog NIDS_WARN_SCAN NIDS_WARN_UNDEFINED])"
proof (cases "tcp_sane pkt")
  case False
  then show ?thesis using process_tcp_insane [OF assms(4) False]
    by (intro exI [of _ sc] exI [of _ "[]"]) (simp add: tcp_syslog_def)
next
  case True
  have al: "\<exists>ws. scan_alarm al s = s\<lparr>tcp_log := tcp_log s @ ws\<rparr> \<and> (ws = [] \<or> ws = [Syslog NIDS_WARN_SCAN NIDS_WARN_UNDEFINED])" for al
    by (cases al, rule exI [of _ "[]"], simp add: scan_alarm_def,
        rule exI [of _ "[Syslog NIDS_WARN_SCAN NIDS_WARN_UNDEFINED]"], simp add: scan_alarm_def tcp_syslog_def)
  obtain sc1 al where r: "process_tcp env clk ctl pkt skblen (sc, s) = Some (sc1, tcp_syslog NIDS_WARN_TCP NIDS_WARN_TCP_HDR (scan_alarm al s))"
    using process_tcp_sane [OF assms(1-5) True, of ctl skblen s] assms(6-9) True by auto
  obtain ws where w: "scan_alarm al s = s\<lparr>tcp_log := tcp_log s @ ws\<rparr>" "ws = [] \<or> ws = [Syslog NIDS_WARN_SCAN NIDS_WARN_UNDEFINED]"
    using al by blast
  show ?thesis by (intro exI [of _ sc1] exI [of _ ws]) (use w(2) in \<open>simp add: r w(1) tcp_syslog_def\<close>)
qed

definition short_packet :: bytes where
  "short_packet = [0x45, 0, 0, 30, 0, 0, 0, 0, 64, 6, 0, 0, 10, 0, 0, 1, 10, 0, 0, 2] @ replicate 10 0"

lemma short_packet_bad: "ip_packet short_packet" "hash_safe (src_of short_packet)" "\<not> tcp_sane short_packet"
  "rd_le32 short_packet 12 = Some 16777226" "rd_le32 short_packet 16 = Some 33554442"
  by code_simp+

theorem bad_segment_only_warns_witness:
  "\<exists>sc' ws. process_tcp sample_env tick [] short_packet 60 (scan_init nids_params0 tick scan_start, started) =
    Some (sc', started\<lparr>tcp_log := tcp_log started @ ws @ [Syslog NIDS_WARN_TCP NIDS_WARN_TCP_HDR]\<rparr>) \<and>
    (ws = [] \<or> ws = [Syslog NIDS_WARN_SCAN NIDS_WARN_UNDEFINED])"
proof -
  have p: "te_prm sample_env = nids_params0" "n_tcp_streams (te_prm sample_env) \<noteq> 0" by (simp_all add: sample_env_def nids_params0_def)
  have t: "time0 (scan_init nids_params0 tick scan_start) = 0" by (simp add: scan_init_def scan_start_def tick_def nids_params0_def)
  have "scan_wf nids_params0 tick (scan_init nids_params0 tick scan_start)" by (rule scan_wf_init(1) [OF nids_params0_scan])
  then show ?thesis
    using bad_segment_only_warns [OF _ _ _ short_packet_bad(1,2,4,5), of sample_env tick "scan_init nids_params0 tick scan_start" "[]" 60 started]
      p t tick_ok nids_params0_scan short_packet_bad(3) by (simp only: p(1) t) simp
qed

section \<open>ICMP\<close>

text \<open>
  An ICMP message of less than 48 octets never resets a stream.  A destination unreachable message
  as RFC 792 has it (8 octets, the 20 octets of the IP header and 8 octets of the segment) is 36 octets
  long, so \<open>process_icmp\<close> ignores it: it takes off the size of \<open>struct icmp\<close>, 28 octets, where the ICMP
  header has 8.
\<close>

theorem ordinary_unreachable_ignored:
  assumes "ip_packet pkt" and "ip_total pkt < ip_hlen pkt + 48"
  shows "process_icmp env pkt s = Some s"
proof -
  obtain r where "icmp_target env pkt = Some r" "case r of None \<Rightarrow> True | Some (orig, tho) \<Rightarrow>
      orig + 20 \<le> length pkt \<and> tho + 4 \<le> length pkt \<and> ip_hlen pkt + 48 \<le> ip_total pkt"
    using icmp_target_ok [OF assms(1), of env] by blast
  then show ?thesis using assms(2) by (cases r) (auto simp: process_icmp_def)
qed

definition unreachable_packet :: bytes where
  "unreachable_packet = [0x45, 0, 0, 56, 0, 0, 0, 0, 64, 1, 0, 0, 10, 0, 0, 2, 10, 0, 0, 1] @ [3, 3, 0, 0, 0, 0, 0, 0]
     @ [0x45, 0, 0, 40, 0, 0, 0, 0, 64, 6, 0, 0, 10, 0, 0, 1, 10, 0, 0, 2] @ [0, 9, 0, 80, 0, 0, 0, 1]"

theorem ordinary_unreachable_ignored_witness: "process_icmp sample_env unreachable_packet started = Some started"
proof -
  have "ip_packet unreachable_packet" "ip_total unreachable_packet < ip_hlen unreachable_packet + 48" by code_simp+
  then show ?thesis by (rule ordinary_unreachable_ignored)
qed

end
