(* ===== verification/Libnids.thy ===== *)
theory Libnids
  imports Tcp Ip_Options Ip_Fragment
begin

text \<open>
  The driver of libnids, \<open>src/libnids/libnids.c\<close>: the handler of captured frames, the checks of an IP
  packet, the dispatch to the defragmenter and to TCP, UDP and ICMP, the lists of callbacks, and
  initialisation and exit.  The build has neither \<open>LBL_ALIGN\<close> nor \<open>HAVE_LIBGTHREAD_2_0\<close>.

  In the lists \<open>ip_frag_procs\<close> and \<open>ip_procs\<close> the item \<open>0\<close> is \<open>gen_ip_frag_proc\<close> and \<open>gen_ip_proc\<close>; every
  other item is a callback of the application, whose calls are logged as events: these callbacks
  read the packet and change nothing.  What \<open>pcap\<close> answers is a parameter (\<open>pcap_io\<close>).  \<open>None\<close> is an
  access outside the packet or undefined behaviour of a component.
\<close>

section \<open>State\<close>

datatype nids_event =
    Ip_Frag_Call nat bytes
  | Ip_Call nat bytes int
  | Udp_Call nat tuple4 bytes bytes
  | Ip_Warn nids_warn

record nids =
  nd_prm :: nids_prm
  nd_filter :: "string option"
  nd_linktype :: int
  nids_linkoffset :: u32
  nd_desc :: bool
  nd_last_sec :: int
  nd_errbuf :: string
  ip_frag_procs :: "nat list"
  ip_procs :: "nat list"
  udp_procs :: "nat list"
  nd_tcp :: tcp_state
  nd_frag :: frag_state
  nd_scan :: scan_state
  nd_chk :: chksum_table
  nd_log :: "nids_event list"

record nids_env =
  ne_tcp :: tcp_env
  ne_frag :: frag_env
  ne_scan_clk :: clock
  ne_frag_clk :: clock
  ne_ip_filter :: "bytes \<Rightarrow> int \<Rightarrow> bool"

text \<open>TCP reads \<open>nids_params\<close> and the time stamp of \<open>nids_last_pcap_header\<close>.\<close>

definition tcp_env_of :: "nids_env \<Rightarrow> nids \<Rightarrow> tcp_env" where
  "tcp_env_of env s = (ne_tcp env)\<lparr>te_prm := nd_prm s, te_now := nd_last_sec s\<rparr>"

definition nids_ip_filter :: "bytes \<Rightarrow> int \<Rightarrow> bool" where
  "nids_ip_filter x len = True"

definition nd_event :: "nids_event \<Rightarrow> nids \<Rightarrow> nids" where
  "nd_event e s = s\<lparr>nd_log := nd_log s @ [e]\<rparr>"

section \<open>UDP and the transport protocols\<close>

text \<open>The datagram behind an IP header: the tuple and the payload, or \<open>None\<close> when it is dropped.\<close>

definition udp_datagram :: "chksum_table \<Rightarrow> bytes \<Rightarrow> (tuple4 \<times> bytes) option option" where
  "udp_datagram chk pkt = do {
     b0 \<leftarrow> rd8 pkt 0;
     let hlen = 4 * unat (b0 AND 0x0f);
     tot \<leftarrow> rd_be16 pkt 2;
     let len = unat tot;
     if int len - int hlen < 8 then Some None
     else do {
       u \<leftarrow> rd_be16 pkt (hlen + 4);
       let ulen = unat u;
       if int len - int hlen < int ulen \<or> ulen < 8 then Some None
       else do {
         ck \<leftarrow> rd_be16 pkt (hlen + 6);
         src \<leftarrow> rd_le32 pkt 12;
         dst \<leftarrow> rd_le32 pkt 16;
         bad \<leftarrow> (if ck = 0 then Some 0 else my_udp_check chk pkt hlen (int ulen) src dst);
         if bad \<noteq> 0 then Some None
         else do {
           sp \<leftarrow> rd_be16 pkt hlen;
           dp \<leftarrow> rd_be16 pkt (hlen + 2);
           payload \<leftarrow> Tcp_Queue.slice pkt (int hlen + 8) (int ulen - 8);
           Some (Some (\<lparr>t_source = sp, t_dest = dp, t_saddr = src, t_daddr = dst\<rparr>, payload)) } } } }"

fun call_udp :: "tuple4 \<Rightarrow> bytes \<Rightarrow> bytes \<Rightarrow> nat list \<Rightarrow> nids \<Rightarrow> nids" where
  "call_udp addr payload pkt [] s = s"
| "call_udp addr payload pkt (i # r) s = call_udp addr payload pkt r (nd_event (Udp_Call i addr payload pkt) s)"

definition process_udp :: "bytes \<Rightarrow> nids \<Rightarrow> nids option" where
  "process_udp pkt s = do {
     d \<leftarrow> udp_datagram (nd_chk s) pkt;
     Some (case d of None \<Rightarrow> s | Some (addr, payload) \<Rightarrow> call_udp addr payload pkt (udp_procs s) s) }"

definition gen_ip_proc :: "nids_env \<Rightarrow> bytes \<Rightarrow> int \<Rightarrow> nids \<Rightarrow> nids option" where
  "gen_ip_proc env pkt skblen s = do {
     p \<leftarrow> rd8 pkt 9;
     if p = 6 then do {
       (sc, t) \<leftarrow> process_tcp (tcp_env_of env s) (ne_scan_clk env) (nd_chk s) pkt skblen (nd_scan s, nd_tcp s);
       Some (s\<lparr>nd_scan := sc, nd_tcp := t\<rparr>) }
     else if p = 17 then process_udp pkt s
     else if p = 1 then
       (if n_tcp_streams (nd_prm s) \<noteq> 0
        then do { t \<leftarrow> process_icmp (tcp_env_of env s) pkt (nd_tcp s); Some (s\<lparr>nd_tcp := t\<rparr>) }
        else Some s)
     else Some s }"

section \<open>IP packets\<close>

fun call_ip_procs :: "nids_env \<Rightarrow> bytes \<Rightarrow> int \<Rightarrow> nat list \<Rightarrow> nids \<Rightarrow> nids option" where
  "call_ip_procs env iph skblen [] s = Some s"
| "call_ip_procs env iph skblen (i # r) s = do {
     s' \<leftarrow> (if i = 0 then gen_ip_proc env iph skblen s else Some (nd_event (Ip_Call i iph skblen) s));
     call_ip_procs env iph skblen r s' }"

text \<open>The size charged for the packet; a reassembled one (\<open>need_free\<close>) has no device room.\<close>

definition ip_skblen :: "nids_prm \<Rightarrow> bool \<Rightarrow> int \<Rightarrow> int" where
  "ip_skblen prm need_free tot =
     (((tot + 16 + (if need_free then 0 else dev_addon prm)) + 15) AND NOT 15) + sk_buff_size prm"

definition pass_packet :: "nids_env \<Rightarrow> bool \<Rightarrow> bytes \<Rightarrow> nids \<Rightarrow> nids option" where
  "pass_packet env need_free iph s = do {
     tot \<leftarrow> rd_be16 iph 2;
     call_ip_procs env iph (ip_skblen (nd_prm s) need_free (int (unat tot))) (ip_procs s) s }"

text \<open>
  The condition of \<open>gen_ip_frag_proc\<close>, in the order the code evaluates it: the checksum is computed
  over the length the header claims before that length is compared with the captured one.
\<close>

definition ip_header_ok :: "chksum_table \<Rightarrow> bytes \<Rightarrow> bool option" where
  "ip_header_ok chk pkt =
     (if length pkt < 20 then Some False
      else do {
        b0 \<leftarrow> rd8 pkt 0;
        let hl = unat (b0 AND 0x0f);
        if hl < 5 \<or> drop_bit 4 b0 \<noteq> 4 then Some False
        else do {
          ck \<leftarrow> ip_fast_csum chk pkt hl;
          if ck \<noteq> 0 then Some False
          else do {
            tot \<leftarrow> rd_be16 pkt 2;
            Some (unat tot \<le> length pkt \<and> 4 * hl \<le> unat tot) } } })"

text \<open>The state and the packet after it: \<open>ip_options_compile\<close> writes into the options.\<close>

definition gen_ip_frag_proc :: "nids_env \<Rightarrow> bytes \<Rightarrow> nids \<Rightarrow> (bytes \<times> nids) option" where
  "gen_ip_frag_proc env pkt s =
     (if \<not> ne_ip_filter env pkt (int (length pkt)) then Some (pkt, s)
      else do {
        fine \<leftarrow> ip_header_ok (nd_chk s) pkt;
        if \<not> fine then Some (pkt, nd_event (Ip_Warn NIDS_WARN_IP_HDR) s)
        else do {
          b0 \<leftarrow> rd8 pkt 0;
          (rc, pkt1) \<leftarrow> (if unat (b0 AND 0x0f) > 5 then ip_options_compile pkt else Some (0, pkt));
          if rc \<noteq> 0 then Some (pkt1, nd_event (Ip_Warn NIDS_WARN_IP_SRR) s)
          else do {
            (c, d, fs) \<leftarrow> ip_defrag_stub (nd_prm s) (ne_frag env) (ne_frag_clk env) pkt1 (nd_frag s);
            let s1 = s\<lparr>nd_frag := fs\<rparr>;
            (case c of
               IPF_ISF \<Rightarrow> Some (pkt1, s1)
             | IPF_NOTF \<Rightarrow> do { s2 \<leftarrow> pass_packet env False pkt1 s1; Some (pkt1, s2) }
             | IPF_NEW \<Rightarrow> do { iph \<leftarrow> d; s2 \<leftarrow> pass_packet env True iph s1; Some (pkt1, s2) }) } } })"

fun call_ip_frag_procs :: "nids_env \<Rightarrow> bytes \<Rightarrow> nat list \<Rightarrow> nids \<Rightarrow> nids option" where
  "call_ip_frag_procs env pkt [] s = Some s"
| "call_ip_frag_procs env pkt (i # r) s = do {
     (pkt', s') \<leftarrow> (if i = 0 then gen_ip_frag_proc env pkt s else Some (pkt, nd_event (Ip_Frag_Call i pkt) s));
     call_ip_frag_procs env pkt' r s' }"

section \<open>Frames\<close>

abbreviation (input) DLT_NULL :: int where "DLT_NULL \<equiv> 0"
abbreviation (input) DLT_EN10MB :: int where "DLT_EN10MB \<equiv> 1"
abbreviation (input) DLT_IEEE802 :: int where "DLT_IEEE802 \<equiv> 6"
abbreviation (input) DLT_SLIP :: int where "DLT_SLIP \<equiv> 8"
abbreviation (input) DLT_PPP :: int where "DLT_PPP \<equiv> 9"
abbreviation (input) DLT_FDDI :: int where "DLT_FDDI \<equiv> 10"
abbreviation (input) DLT_RAW :: int where "DLT_RAW \<equiv> 12"
abbreviation (input) DLT_PPP_SERIAL :: int where "DLT_PPP_SERIAL \<equiv> 50"
abbreviation (input) DLT_IEEE802_11 :: int where "DLT_IEEE802_11 \<equiv> 105"
abbreviation (input) DLT_LINUX_SLL :: int where "DLT_LINUX_SLL \<equiv> 113"
abbreviation (input) DLT_PRISM_HEADER :: int where "DLT_PRISM_HEADER \<equiv> 119"
abbreviation (input) DLT_IEEE802_11_RADIO :: int where "DLT_IEEE802_11_RADIO \<equiv> 127"

text \<open>
  A link layer answers whether the frame goes on, and the new \<open>nids_linkoffset\<close>.  An 802.11 frame
  starts at \<open>off\<close>; \<open>len\<close> is \<open>hdr->len\<close>, the length on the wire.
\<close>

definition wireless :: "bytes \<Rightarrow> u32 \<Rightarrow> u32 \<Rightarrow> (bool \<times> u32) option" where
  "wireless data len off = do {
     fc \<leftarrow> rd_le16 data (unat off);
     if drop_bit 2 fc AND 3 \<noteq> 2 \<or> fc AND 0x4000 \<noteq> 0 then Some (False, off)
     else do {
       let off1 = off + (if fc AND 0x0100 \<noteq> 0 \<and> fc AND 0x0200 \<noteq> 0 then 30 else 24);
       let off2 = (if (drop_bit 4 fc AND 0xf) AND 8 \<noteq> 0 then off1 + 2 else off1);
       if len < off2 + 8 then Some (False, off2)
       else do {
         ty \<leftarrow> rd_be16 data (unat off2 + 6);
         if ty \<noteq> 0x0800 then Some (False, off2) else Some (True, off2 + 8) } } }"

definition ethernet :: "bytes \<Rightarrow> u32 \<Rightarrow> (bool \<times> u32) option" where
  "ethernet data off =
     (if length data < 14 then Some (False, off)
      else do {
        x \<leftarrow> rd8 data 12;
        y \<leftarrow> rd8 data 13;
        Some (if x = 8 \<and> y = 0 then (True, 14) else if x = 0x81 \<and> y = 0 then (True, 18) else (False, off)) })"

definition link_layer :: "int \<Rightarrow> bytes \<Rightarrow> u32 \<Rightarrow> u32 \<Rightarrow> (bool \<times> u32) option" where
  "link_layer linktype data len off =
     (if linktype = DLT_EN10MB then ethernet data off
      else if linktype = DLT_PRISM_HEADER then wireless data len 144
      else if linktype = DLT_IEEE802_11_RADIO then do { n \<leftarrow> rd_le16 data 2; wireless data len (ucast n) }
      else if linktype = DLT_IEEE802_11 then wireless data len 0
      else Some (True, off))"

text \<open>A captured frame: the seconds of its time stamp, its length on the wire, and the octets captured.\<close>

record frame =
  fr_sec :: int
  fr_len :: u32
  fr_data :: bytes

definition nids_pcap_handler :: "nids_env \<Rightarrow> frame \<Rightarrow> nids \<Rightarrow> nids option" where
  "nids_pcap_handler env f s = do {
     t \<leftarrow> (if nids_tcp_timeouts (nd_tcp s) \<noteq> []
          then tcp_check_timeouts (tcp_env_of env s) (fr_sec f) (nd_tcp s) else Some (nd_tcp s));
     let s1 = s\<lparr>nd_tcp := t, nd_last_sec := fr_sec f\<rparr>;
     (go, off) \<leftarrow> link_layer (nd_linktype s1) (fr_data f) (fr_len f) (nids_linkoffset s1);
     let s2 = s1\<lparr>nids_linkoffset := off\<rparr>;
     if \<not> go \<or> length (fr_data f) < unat off then Some s2
     else call_ip_frag_procs env (drop (unat off) (fr_data f)) (ip_frag_procs s2) s2 }"

section \<open>Callbacks of the application\<close>

definition init_procs :: "nids \<Rightarrow> nids" where
  "init_procs s = s\<lparr>ip_frag_procs := [0], ip_procs := [0], udp_procs := [], nd_tcp := (nd_tcp s)\<lparr>tcp_procs := []\<rparr>\<rparr>"

definition nids_register_udp :: "nat \<Rightarrow> nids \<Rightarrow> nids" where
  "nids_register_udp x s = s\<lparr>udp_procs := register_callback x (udp_procs s)\<rparr>"
definition nids_unregister_udp :: "nat \<Rightarrow> nids \<Rightarrow> nids" where
  "nids_unregister_udp x s = s\<lparr>udp_procs := unregister_callback x (udp_procs s)\<rparr>"
definition nids_register_ip :: "nat \<Rightarrow> nids \<Rightarrow> nids" where
  "nids_register_ip x s = s\<lparr>ip_procs := register_callback x (ip_procs s)\<rparr>"
definition nids_unregister_ip :: "nat \<Rightarrow> nids \<Rightarrow> nids" where
  "nids_unregister_ip x s = s\<lparr>ip_procs := unregister_callback x (ip_procs s)\<rparr>"
definition nids_register_ip_frag :: "nat \<Rightarrow> nids \<Rightarrow> nids" where
  "nids_register_ip_frag x s = s\<lparr>ip_frag_procs := register_callback x (ip_frag_procs s)\<rparr>"
definition nids_unregister_ip_frag :: "nat \<Rightarrow> nids \<Rightarrow> nids" where
  "nids_unregister_ip_frag x s = s\<lparr>ip_frag_procs := unregister_callback x (ip_frag_procs s)\<rparr>"

section \<open>Start and end\<close>

text \<open>
  What the application set in the pointer members of \<open>nids_params\<close> and what \<open>pcap\<close> answers: whether
  an open handle was given, the file name and whether it opens, the device, the default device,
  whether a device opens (with its promiscuous flag), the result of compiling a filter and of
  setting it, the link type, the text of \<open>pcap_geterr\<close>, what a failed open leaves in \<open>nids_errbuf\<close>,
  and the contents of fresh memory and the random numbers for \<open>tcp_init\<close>.
\<close>

record pcap_io =
  pi_given :: bool
  pi_filename :: "string option"
  pi_open_offline :: "string \<Rightarrow> bool"
  pi_device :: "string option"
  pi_lookupdev :: "string option"
  pi_open_live :: "string \<Rightarrow> bool \<Rightarrow> bool"
  pi_compile :: "string \<Rightarrow> int"
  pi_setfilter :: int
  pi_datalink :: int
  pi_geterr :: string
  pi_errbuf :: string
  pi_junk :: tcp_stream
  pi_rnd :: rnd_source

definition open_live :: "pcap_io \<Rightarrow> nids_prm \<Rightarrow> bool" where
  "open_live io prm =
     (case (case pi_device io of Some d \<Rightarrow> Some d | None \<Rightarrow> pi_lookupdev io) of
        None \<Rightarrow> False
      | Some device \<Rightarrow>
          if device = ''all'' then pi_open_live io ''any'' False else pi_open_live io device (promisc prm \<noteq> 0))"

definition not_initialized :: string where "not_initialized = ''Libnids not initialized''"

text \<open>\<open>strncat(nids_errbuf, text, n)\<close> after \<open>strcpy(nids_errbuf, prefix)\<close>; \<open>PCAP_ERRBUF_SIZE\<close> is 256.\<close>

definition errtext :: "string \<Rightarrow> nat \<Rightarrow> string \<Rightarrow> string" where
  "errtext prefix n text = prefix @ take n text"

definition nids_exit :: "nids_env \<Rightarrow> pcap_io \<Rightarrow> nids \<Rightarrow> nids option" where
  "nids_exit env io s =
     (if \<not> nd_desc s then Some (s\<lparr>nd_errbuf := not_initialized\<rparr>)
      else do {
        t \<leftarrow> tcp_exit (tcp_env_of env s) (nd_tcp s);
        Some (s\<lparr>nd_tcp := t, nd_frag := ip_frag_exit (nd_frag s), nd_scan := scan_exit (nd_scan s),
                nd_errbuf := errtext ''loop: '' (256 - 7) (pi_geterr io), nd_desc := False\<rparr>) })"

text \<open>The fixed offset of a link type: \<open>None\<close> is an unknown type, \<open>Some None\<close> one with an offset per frame.\<close>

definition link_offset :: "int \<Rightarrow> u32 option option" where
  "link_offset lt =
     (if lt = DLT_PRISM_HEADER \<or> lt = DLT_IEEE802_11_RADIO \<or> lt = DLT_IEEE802_11 then Some None
      else if lt = DLT_NULL then Some (Some 4)
      else if lt = DLT_EN10MB then Some (Some 14)
      else if lt = DLT_PPP then Some (Some 4)
      else if lt = DLT_IEEE802 then Some (Some 22)
      else if lt = DLT_RAW \<or> lt = DLT_SLIP then Some (Some 0)
      else if lt = DLT_LINUX_SLL then Some (Some 16)
      else if lt = DLT_FDDI then Some (Some 21)
      else if lt = DLT_PPP_SERIAL then Some (Some 4)
      else None)"

text \<open>The filter: its use, whether it was wrong (an empty one replaces it), and whether setting it succeeded.\<close>

definition set_filter :: "pcap_io \<Rightarrow> nids \<Rightarrow> bool \<times> bool \<times> nids" where
  "set_filter io s =
     (case nd_filter s of None \<Rightarrow> (True, False, s)
      | Some f \<Rightarrow>
          (let bad = pi_compile io f < 0; s1 = (if bad then s\<lparr>nd_filter := Some ''''\<rparr> else s)
           in (pi_setfilter io \<noteq> -1, bad, s1)))"

definition open_desc :: "pcap_io \<Rightarrow> nids_prm \<Rightarrow> bool" where
  "open_desc io prm =
     (if pi_given io then True
      else case pi_filename io of Some f \<Rightarrow> pi_open_offline io f | None \<Rightarrow> open_live io prm)"

text \<open>From \<open>init_procs\<close> on.\<close>

definition start_parts :: "nids_env \<Rightarrow> pcap_io \<Rightarrow> nids \<Rightarrow> nids" where
  "start_parts env io s =
     (let prm = nd_prm s; s1 = init_procs s in
      s1\<lparr>nd_tcp := snd (tcp_init (pi_junk io) (pi_rnd io) (n_tcp_streams prm) (nd_tcp s1)),
         nd_frag := ip_frag_init (ne_frag_clk env) (nat (n_hosts prm)) (nd_frag s1),
         nd_scan := scan_init prm (ne_scan_clk env) (nd_scan s1)\<rparr>)"

text \<open>From the offset of the link type to the end of \<open>nids_init\<close>.\<close>

definition init_parts :: "nids_env \<Rightarrow> pcap_io \<Rightarrow> bool \<Rightarrow> u32 option \<Rightarrow> nids \<Rightarrow> int \<times> nids" where
  "init_parts env io filter_error off s2 =
     (let s3 = (case off of None \<Rightarrow> s2 | Some n \<Rightarrow> s2\<lparr>nids_linkoffset := n\<rparr>);
          prm = nd_prm s3;
          s4 = (if dev_addon prm = -1
                then s3\<lparr>nd_prm := prm\<lparr>dev_addon := (if nd_linktype s3 = DLT_EN10MB then 16 else 0)\<rparr>\<rparr> else s3);
          s5 = start_parts env io s4
      in if multiproc (nd_prm s5) \<noteq> 0
         then (-1, s5\<lparr>nd_errbuf := ''libnids was compiled without threads support''\<rparr>)
         else (if filter_error then 2 else 1, s5))"

definition nids_init :: "nids_env \<Rightarrow> pcap_io \<Rightarrow> nids \<Rightarrow> (int \<times> nids) option" where
  "nids_init env io s = do {
     s0 \<leftarrow> nids_exit env io s;
     if \<not> open_desc io (nd_prm s0) then Some (-1, s0\<lparr>nd_errbuf := pi_errbuf io\<rparr>)
     else do {
       let (set_ok, filter_error, s1) = set_filter io (s0\<lparr>nd_desc := True\<rparr>);
       if \<not> set_ok then Some (-1, s1)
       else do {
         let s2 = s1\<lparr>nd_linktype := pi_datalink io\<rparr>;
         (case link_offset (pi_datalink io) of
            None \<Rightarrow> Some (-1, s2\<lparr>nd_errbuf := ''link type unknown''\<rparr>)
          | Some off \<Rightarrow> Some (init_parts env io filter_error off s2)) } } }"

section \<open>Running\<close>

text \<open>The frames that \<open>pcap_loop\<close>, \<open>pcap_next\<close> and \<open>pcap_dispatch\<close> deliver are a parameter.\<close>

fun handle_frames :: "nids_env \<Rightarrow> frame list \<Rightarrow> nids \<Rightarrow> nids option" where
  "handle_frames env [] s = Some s"
| "handle_frames env (f # r) s = do { s' \<leftarrow> nids_pcap_handler env f s; handle_frames env r s' }"

definition nids_run :: "nids_env \<Rightarrow> pcap_io \<Rightarrow> frame list \<Rightarrow> nids \<Rightarrow> (int \<times> nids) option" where
  "nids_run env io fs s =
     (if \<not> nd_desc s then Some (0, s\<lparr>nd_errbuf := not_initialized\<rparr>)
      else do { s1 \<leftarrow> handle_frames env fs s; s2 \<leftarrow> nids_exit env io s1; Some (0, s2) })"

definition nids_getfd :: "int \<Rightarrow> nids \<Rightarrow> int \<times> nids" where
  "nids_getfd fd s = (if \<not> nd_desc s then (-1, s\<lparr>nd_errbuf := not_initialized\<rparr>) else (fd, s))"

definition nids_next :: "nids_env \<Rightarrow> pcap_io \<Rightarrow> frame option \<Rightarrow> nids \<Rightarrow> (int \<times> nids) option" where
  "nids_next env io fo s =
     (if \<not> nd_desc s then Some (0, s\<lparr>nd_errbuf := not_initialized\<rparr>)
      else case fo of
        None \<Rightarrow> Some (0, s\<lparr>nd_errbuf := errtext ''next: '' (256 - 7) (pi_geterr io)\<rparr>)
      | Some f \<Rightarrow> do { s1 \<leftarrow> nids_pcap_handler env f s; Some (1, s1) })"

definition nids_dispatch :: "nids_env \<Rightarrow> pcap_io \<Rightarrow> frame list \<Rightarrow> int \<Rightarrow> nids \<Rightarrow> (int \<times> nids) option" where
  "nids_dispatch env io fs r s =
     (if \<not> nd_desc s then Some (-1, s\<lparr>nd_errbuf := not_initialized\<rparr>)
      else do {
        s1 \<leftarrow> handle_frames env fs s;
        Some (r, if r = -1 then s1\<lparr>nd_errbuf := errtext ''dispatch: '' (256 - 11) (pi_geterr io)\<rparr> else s1) })"

end
