(* ===== verification/Libnids_Props.thy ===== *)
theory Libnids_Props
  imports Libnids Frag_Inv Tcp_Props
begin

text \<open>
  The components behind one another: from any captured frame to the streams, the fragment table and
  the callbacks.  The invariant \<open>nids_wf\<close> is the conjunction of the invariants of the components.
\<close>

section \<open>The invariant\<close>

text \<open>Source addresses that the port scan detector can index (see \<open>hash_safe\<close>), on the octets.\<close>

definition src_safe :: "bytes \<Rightarrow> bool" where
  "src_safe x \<longleftrightarrow> hash_safe (be32 (x ! 3) (x ! 2) (x ! 1) (x ! 0))"

lemma src_safe_src_of:
  assumes "20 \<le> length pkt"
  shows "src_safe (src_octets pkt) \<longleftrightarrow> hash_safe (src_of pkt)"
  using assms by (simp add: src_safe_def src_octets_def src_of_def rd_le32_in)

definition nids_wf :: "nids_env \<Rightarrow> nids \<Rightarrow> bool" where
  "nids_wf env s \<longleftrightarrow> tcp_wf (tcp_env_of env s) (nd_tcp s) \<and> frag_inv src_safe (ne_frag env) (nd_frag s) \<and>
     scan_wf (nd_prm s) (ne_scan_clk env) (nd_scan s) \<and> clock_ok (ne_scan_clk env) (time0 (nd_scan s)) \<and> prm_ok (nd_prm s)"

definition env_wf :: "nids_env \<Rightarrow> bool" where
  "env_wf env \<longleftrightarrow> keeps_at_most (ne_tcp env) keep_max"

text \<open>What the handlers of a packet leave alone.\<close>

definition same_cfg :: "nids \<Rightarrow> nids \<Rightarrow> bool" where
  "same_cfg s s' \<longleftrightarrow> nd_prm s' = nd_prm s \<and> nd_linktype s' = nd_linktype s \<and> nids_linkoffset s' = nids_linkoffset s \<and>
     nd_last_sec s' = nd_last_sec s \<and> nd_desc s' = nd_desc s \<and> nd_chk s' = nd_chk s \<and> ip_frag_procs s' = ip_frag_procs s \<and>
     ip_procs s' = ip_procs s \<and> udp_procs s' = udp_procs s"

lemma same_cfg_refl [simp]: "same_cfg s s"
  by (simp add: same_cfg_def)

lemma same_cfg_trans: "same_cfg a b \<Longrightarrow> same_cfg b c \<Longrightarrow> same_cfg a c"
  by (simp add: same_cfg_def)

lemma nd_event_fields [simp]: "same_cfg s (nd_event e s)" "nids_wf env (nd_event e s) = nids_wf env s"
  by (simp_all add: nd_event_def same_cfg_def nids_wf_def tcp_env_of_def)

lemma keeps_env_of: "env_wf env \<Longrightarrow> keeps_at_most (tcp_env_of env s) keep_max"
  by (simp add: env_wf_def keeps_at_most_def tcp_env_of_def)

lemma packet_ok_ip_packet: "packet_ok pkt \<Longrightarrow> ip_packet pkt"
  by (auto simp: packet_ok_def ip_packet_def hlen_def)

section \<open>UDP\<close>

lemma my_udp_check_ok:
  assumes "int off + n \<le> int (length b)" and "0 \<le> n"
  shows "\<exists>ck. my_udp_check ctl b off n src dst = Some ck"
  using csum_words_sum [of off n b] assms by (simp add: my_udp_check_def l4_check_def ip_check_ext_def nat_add_distrib)

text \<open>A datagram as RFC 768 has it: lengths that fit, and a checksum that is absent or right.\<close>

definition udp_len :: "bytes \<Rightarrow> nat" where
  "udp_len pkt = unat (be16 (pkt ! (hlen pkt + 4)) (pkt ! (hlen pkt + 5)))"

definition udp_sound :: "chksum_table \<Rightarrow> bytes \<Rightarrow> bool" where
  "udp_sound chk pkt \<longleftrightarrow> hlen pkt + 8 \<le> ip_total pkt \<and> 8 \<le> udp_len pkt \<and> hlen pkt + udp_len pkt \<le> ip_total pkt \<and>
     (be16 (pkt ! (hlen pkt + 6)) (pkt ! (hlen pkt + 7)) = 0 \<or>
      my_udp_check chk pkt (hlen pkt) (int (udp_len pkt)) (src_of pkt) (dst_of pkt) = Some 0)"

definition udp_tuple :: "bytes \<Rightarrow> tuple4" where
  "udp_tuple pkt = \<lparr>t_source = be16 (pkt ! hlen pkt) (pkt ! (hlen pkt + 1)), t_dest = be16 (pkt ! (hlen pkt + 2)) (pkt ! (hlen pkt + 3)),
     t_saddr = src_of pkt, t_daddr = dst_of pkt\<rparr>"

definition udp_payload :: "bytes \<Rightarrow> bytes" where
  "udp_payload pkt = take (udp_len pkt - 8) (drop (hlen pkt + 8) pkt)"

lemma udp_datagram_exact:
  assumes "packet_ok pkt"
  shows "udp_datagram chk pkt = Some (if udp_sound chk pkt then Some (udp_tuple pkt, udp_payload pkt) else None)"
proof -
  define h where "h = hlen pkt"
  define n where "n = ip_total pkt"
  have hd: "4 * unat (pkt ! 0 AND 0x0f) = h" and nd: "unat (be16 (pkt ! 2) (pkt ! 3)) = n" by (simp_all add: h_def n_def hlen_def ip_total_def)
  have len: "20 \<le> h" "h \<le> n" "n \<le> length pkt" using assms by (simp_all add: packet_ok_def h_def n_def ip_total_def)
  have rd: "rd8 pkt 0 = Some (pkt ! 0)" "rd_be16 pkt 2 = Some (be16 (pkt ! 2) (pkt ! 3))"
    "rd_le32 pkt 12 = Some (src_of pkt)" "rd_le32 pkt 16 = Some (dst_of pkt)"
    using len rd_be16_in [of 2 pkt] by (auto simp: rd8_def src_of_def dst_of_def rd_le32_in)
  show ?thesis
  proof (cases "n < h + 8")
    case True
    then have g: "int n - int h < 8" and "\<not> udp_sound chk pkt" by (auto simp: udp_sound_def h_def n_def)
    then show ?thesis unfolding udp_datagram_def rd bind.bind_lunit Let_def hd nd if_P [OF g] by simp
  next
    case False
    define u where "u = udp_len pkt"
    have ru: "rd_be16 pkt (h + 4) = Some (be16 (pkt ! (h + 4)) (pkt ! (h + 5)))" "rd_be16 pkt (h + 6) = Some (be16 (pkt ! (h + 6)) (pkt ! (h + 7)))"
      "rd_be16 pkt h = Some (be16 (pkt ! h) (pkt ! (h + 1)))" "rd_be16 pkt (h + 2) = Some (be16 (pkt ! (h + 2)) (pkt ! (h + 3)))"
      using False len rd_be16_in [of "h + 4" pkt] rd_be16_in [of "h + 6" pkt] rd_be16_in [of h pkt] rd_be16_in [of "h + 2" pkt]
      by (auto simp: numeral_eq_Suc)
    have ud: "unat (be16 (pkt ! (h + 4)) (pkt ! (h + 5))) = u" by (simp add: u_def udp_len_def h_def)
    show ?thesis
    proof (cases "n < h + u \<or> u < 8")
      case True
      then have "\<not> udp_sound chk pkt" by (auto simp: udp_sound_def u_def h_def n_def)
      moreover have g: "\<not> (int n - int h < 8)" "int n - int h < int u \<or> u < 8" using False True by auto
      ultimately show ?thesis
        unfolding udp_datagram_def rd bind.bind_lunit Let_def hd nd if_not_P [OF g(1)] ru ud if_P [OF g(2)] by simp
    next
      case ok: False
      define ck where "ck = be16 (pkt ! (h + 6)) (pkt ! (h + 7))"
      obtain c where c: "my_udp_check chk pkt h (int u) (src_of pkt) (dst_of pkt) = Some c"
        using my_udp_check_ok [of h "int u" pkt chk "src_of pkt" "dst_of pkt"] ok len by auto
      have sl: "Tcp_Queue.slice pkt (int h + 8) (int u - 8) = Some (udp_payload pkt)"
        using ok len by (simp add: Tcp_Queue.slice_def udp_payload_def u_def [symmetric] h_def [symmetric] nat_add_distrib nat_diff_distrib)
      have snd: "udp_sound chk pkt \<longleftrightarrow> ck = 0 \<or> c = 0"
        using ok False c by (auto simp: udp_sound_def u_def [symmetric] h_def [symmetric] n_def [symmetric] ck_def)
      have tp: "udp_tuple pkt = \<lparr>t_source = be16 (pkt ! h) (pkt ! (h + 1)), t_dest = be16 (pkt ! (h + 2)) (pkt ! (h + 3)),
          t_saddr = src_of pkt, t_daddr = dst_of pkt\<rparr>" by (simp add: udp_tuple_def h_def)
      have g: "\<not> (int n - int h < 8)" "\<not> (int n - int h < int u \<or> u < 8)" using False ok by auto
      show ?thesis unfolding udp_datagram_def rd bind.bind_lunit Let_def hd nd if_not_P [OF g(1)] ru ud if_not_P [OF g(2)] ck_def [symmetric] sl
          snd tp using c by simp
    qed
  qed
qed

lemma call_udp_log: "call_udp addr p pkt is s = s\<lparr>nd_log := nd_log s @ map (\<lambda>i. Udp_Call i addr p pkt) is\<rparr>"
  by (induction "is" arbitrary: s) (simp_all add: nd_event_def)

lemma process_udp_exact:
  assumes "packet_ok pkt"
  shows "process_udp pkt s = Some (s\<lparr>nd_log := nd_log s @
    (if udp_sound (nd_chk s) pkt then map (\<lambda>i. Udp_Call i (udp_tuple pkt) (udp_payload pkt) pkt) (udp_procs s) else [])\<rparr>)"
  by (simp add: process_udp_def udp_datagram_exact [OF assms] call_udp_log)

section \<open>Packets\<close>

lemma gen_ip_proc_ok:
  assumes wf: "nids_wf env s" "env_wf env" and pkt: "packet_ok pkt" "src_safe (src_octets pkt)"
  shows "\<exists>s'. gen_ip_proc env pkt skblen s = Some s' \<and> nids_wf env s' \<and> same_cfg s s'"
proof -
  have ip: "ip_packet pkt" using packet_ok_ip_packet [OF pkt(1)] .
  have len: "20 \<le> length pkt" using ip by (simp add: ip_packet_def)
  then have p: "rd8 pkt 9 = Some (pkt ! 9)" by (simp add: rd8_def)
  have t: "tcp_wf (tcp_env_of env s) (nd_tcp s)" and sc: "prm_ok (te_prm (tcp_env_of env s))" "clock_ok (ne_scan_clk env) (time0 (nd_scan s))"
      "scan_wf (te_prm (tcp_env_of env s)) (ne_scan_clk env) (nd_scan s)" using wf(1) by (simp_all add: nids_wf_def tcp_env_of_def)
  have hs: "hash_safe (src_of pkt)" using pkt(2) src_safe_src_of [OF len] by simp
  obtain sc' t' where tcp: "process_tcp (tcp_env_of env s) (ne_scan_clk env) (nd_chk s) pkt skblen (nd_scan s, nd_tcp s) = Some (sc', t')"
      "scan_wf (te_prm (tcp_env_of env s)) (ne_scan_clk env) sc'" "time0 sc' = time0 (nd_scan s)" "tcp_wf (tcp_env_of env s) t'"
    using process_tcp_step [OF keeps_env_of [OF wf(2)] t sc ip hs, of "nd_chk s" skblen] by blast
  obtain t'' where icmp: "process_icmp (tcp_env_of env s) pkt (nd_tcp s) = Some t''" "tcp_wf (tcp_env_of env s) t''"
    using process_icmp_ok [OF t ip] by blast
  show ?thesis
    using wf(1) p tcp icmp process_udp_exact [OF pkt(1), of s]
    by (auto simp: gen_ip_proc_def nids_wf_def same_cfg_def tcp_env_of_def)
qed

lemma call_ip_procs_ok:
  assumes "nids_wf env s" "env_wf env" and "packet_ok pkt" "src_safe (src_octets pkt)"
  shows "\<exists>s'. call_ip_procs env pkt skblen is s = Some s' \<and> nids_wf env s' \<and> same_cfg s s'"
  using assms(1)
proof (induction "is" arbitrary: s)
  case (Cons i r)
  obtain s1 where s1: "(if i = 0 then gen_ip_proc env pkt skblen s else Some (nd_event (Ip_Call i pkt skblen) s)) = Some s1"
      "nids_wf env s1" "same_cfg s s1"
    using gen_ip_proc_ok [OF Cons.prems assms(2-4), of skblen] Cons.prems by (cases "i = 0") auto
  then show ?case using Cons.IH [OF s1(2)] same_cfg_trans by fastforce
qed simp

lemma pass_packet_ok:
  assumes "nids_wf env s" "env_wf env" and "packet_ok pkt" "src_safe (src_octets pkt)"
  shows "\<exists>s'. pass_packet env nf pkt s = Some s' \<and> nids_wf env s' \<and> same_cfg s s'"
proof -
  have "20 \<le> length pkt" using assms(3) by (simp add: packet_ok_def)
  then show ?thesis using call_ip_procs_ok [OF assms] by (simp add: pass_packet_def rd_be16_in)
qed

text \<open>
  A captured IP packet: the whole header is there when its fixed part is, and with options one more
  octet.
\<close>

definition ip_captured :: "bytes \<Rightarrow> bool" where
  "ip_captured pkt \<longleftrightarrow> length pkt < 20 \<or>
     hlen pkt \<le> length pkt \<and> (hlen pkt = 20 \<or> hlen pkt < length pkt) \<and> src_safe (src_octets pkt)"

text \<open>A captured packet that, if it is a fragment, has the eight octets of payload \<open>ip_create\<close> copies.\<close>

definition ip_readable :: "bytes \<Rightarrow> bool" where
  "ip_readable pkt \<longleftrightarrow> ip_captured pkt \<and> (length pkt < 20 \<or> frag_room pkt)"

text \<open>The condition of \<open>gen_ip_frag_proc\<close>, as RFC 791 states it.\<close>

definition ip_sound :: "chksum_table \<Rightarrow> bytes \<Rightarrow> bool" where
  "ip_sound chk pkt \<longleftrightarrow> 20 \<le> length pkt \<and> drop_bit 4 (pkt ! 0) = 4 \<and> packet_ok pkt \<and> ip_fast_csum chk pkt (hlen pkt div 4) = Some 0"

lemma ip_header_ok_exact:
  assumes "ip_captured pkt"
  shows "ip_header_ok chk pkt = Some (ip_sound chk pkt)"
proof (cases "length pkt < 20")
  case True
  then show ?thesis by (simp add: ip_header_ok_def ip_sound_def)
next
  case False
  define hl where "hl = unat (pkt ! 0 AND 0x0f)"
  have len: "20 \<le> length pkt" "4 * hl \<le> length pkt" "hlen pkt = 4 * hl" using assms False by (simp_all add: ip_captured_def hlen_def hl_def)
  have rd: "rd8 pkt 0 = Some (pkt ! 0)" "rd_be16 pkt 2 = Some (be16 (pkt ! 2) (pkt ! 3))" "rd_le32 pkt 12 \<noteq> None"
    using len rd_be16_in [of 2 pkt] by (auto simp: rd8_def rd_le32_in)
  have "csum_words pkt 0 (int (4 * hl)) 0 = Some (0 + of_nat (sum_list (words16 (take (nat (int (4 * hl))) (drop 0 pkt)))))"
    by (rule csum_words_sum) (use len(2) in \<open>simp_all only: nat_int add_0 of_nat_0_le_iff\<close>)
  then have "\<exists>c. ip_check_ext pkt 0 (int (4 * hl)) 0 = Some c" unfolding ip_check_ext_def by simp
  then have "\<exists>ck. ip_fast_csum chk pkt hl = Some ck"
    using rd(3) unfolding ip_fast_csum_def by (cases "rd_le32 pkt 12") (auto simp del: of_nat_mult)
  then obtain ck where ck: "ip_fast_csum chk pkt hl = Some ck" by blast
  have "ip_sound chk pkt \<longleftrightarrow> \<not> (hl < 5 \<or> drop_bit 4 (pkt ! 0) \<noteq> 4) \<and> ck = 0 \<and>
      unat (be16 (pkt ! 2) (pkt ! 3)) \<le> length pkt \<and> 4 * hl \<le> unat (be16 (pkt ! 2) (pkt ! 3))"
    using len ck by (auto simp: ip_sound_def packet_ok_def)
  then show ?thesis unfolding ip_header_ok_def if_not_P [OF False] rd(1,2) bind.bind_lunit Let_def hl_def [symmetric]
    using ck by auto
qed

lemma same_outside_header:
  assumes "same_outside 20 n b b'" and "20 \<le> length b"
  shows "hlen b' = hlen b" "src_octets b' = src_octets b" "packet_ok b' = packet_ok b" "length b' = length b"
    "frag_room b' = frag_room b"
proof -
  have n: "b' ! i = b ! i" if "i < 20" for i using assms(1) that by (simp add: same_outside_def)
  show l: "length b' = length b" using assms(1) by (simp add: same_outside_def)
  show h: "hlen b' = hlen b" by (simp add: hlen_def n)
  show "src_octets b' = src_octets b" unfolding src_octets_def using l assms(2) by (auto intro!: nth_equalityI simp: n)
  show "packet_ok b' = packet_ok b" by (simp add: packet_ok_def h l n)
  show "frag_room b' = frag_room b" by (simp add: frag_room_def h n)
qed

text \<open>The options of a sound packet: accepted or not, the header around them stays.\<close>

lemma options_step:
  assumes "ip_sound chk pkt" and "ip_captured pkt"
  shows "\<exists>b0 rc pkt1. rd8 pkt 0 = Some b0 \<and> (if unat (b0 AND 0x0f) > 5 then ip_options_compile pkt else Some (0, pkt)) = Some (rc, pkt1) \<and>
    packet_ok pkt1 \<and> src_octets pkt1 = src_octets pkt \<and> length pkt1 = length pkt \<and> frag_room pkt1 = frag_room pkt"
proof -
  have len: "20 \<le> length pkt" "packet_ok pkt" using assms(1) by (simp_all add: ip_sound_def)
  have rd: "rd8 pkt 0 = Some (pkt ! 0)" using len(1) by (intro rd8_in) linarith
  show ?thesis
  proof (cases "unat (pkt ! 0 AND 0x0f) > 5")
    case True
    then have "5 \<le> ihl_of pkt" "4 * ihl_of pkt < length pkt" using assms(2) len(1) by (auto simp: ihl_of_def ip_captured_def hlen_def)
    then obtain rc b' where "ip_options_compile pkt = Some (rc, b')" "same_outside 20 (4 * ihl_of pkt) pkt b'"
      using ip_options_compile_spec by blast
    then show ?thesis using rd True len same_outside_header [of "4 * ihl_of pkt" pkt b'] by auto
  next
    case False
    then show ?thesis using rd len by simp
  qed
qed

lemma gen_ip_frag_proc_ok:
  assumes wf: "nids_wf env s" "env_wf env" and rd: "ip_readable pkt"
  shows "\<exists>pkt' s'. gen_ip_frag_proc env pkt s = Some (pkt', s') \<and> nids_wf env s' \<and> same_cfg s s' \<and> ip_readable pkt'"
proof (cases "ne_ip_filter env pkt (int (length pkt)) \<and> ip_sound (nd_chk s) pkt")
  case False
  then show ?thesis using wf rd ip_header_ok_exact [of pkt "nd_chk s"] by (auto simp: gen_ip_frag_proc_def ip_readable_def)
next
  case True
  have pkt: "ip_captured pkt" using rd by (simp add: ip_readable_def)
  from True have len: "20 \<le> length pkt" "packet_ok pkt" by (simp_all add: ip_sound_def)
  obtain b0 rc pkt1 where o: "rd8 pkt 0 = Some b0" "(if unat (b0 AND 0x0f) > 5 then ip_options_compile pkt else Some (0, pkt)) = Some (rc, pkt1)"
      "packet_ok pkt1" "src_octets pkt1 = src_octets pkt" "length pkt1 = length pkt" and fr: "frag_room pkt1 = frag_room pkt"
    using options_step [OF _ pkt] True by blast
  have room: "frag_room pkt1" using rd len(1) fr by (simp add: ip_readable_def)
  have safe: "src_safe (src_octets pkt1)" using pkt len o(4) by (auto simp: ip_captured_def)
  have hl: "hlen pkt1 = hlen pkt"
    using o(1,2) same_outside_header(1) [of "4 * ihl_of pkt" pkt pkt1] ip_options_compile_spec [of pkt] pkt len
    by (auto simp: ihl_of_def ip_captured_def hlen_def rd8_def split: if_splits)
  then have "ip_captured pkt1" using pkt o(4,5) by (simp add: ip_captured_def)
  then have cap: "ip_readable pkt1" using room by (simp add: ip_readable_def)
  obtain c d fs where st: "ip_defrag_stub (nd_prm s) (ne_frag env) (ne_frag_clk env) pkt1 (nd_frag s) = Some (c, d, fs)"
      "frag_inv src_safe (ne_frag env) fs" "pred_option (handed src_safe) d" "c = IPF_NEW \<longleftrightarrow> d \<noteq> None"
    using ip_defrag_stub_inv [where P = src_safe and env = "ne_frag env" and s = "nd_frag s" and prm = "nd_prm s" and clk = "ne_frag_clk env" and iph = pkt1]
      wf o(3) safe room by (auto simp: nids_wf_def env_wf_def)
  let ?s1 = "s\<lparr>nd_frag := fs\<rparr>"
  have w1: "nids_wf env ?s1" "same_cfg s ?s1" using wf(1) st(2) by (simp_all add: nids_wf_def tcp_env_of_def same_cfg_def)
  have hok: "ip_header_ok (nd_chk s) pkt = Some True" using ip_header_ok_exact [OF pkt, of "nd_chk s"] True by simp
  have step: "gen_ip_frag_proc env pkt s = (if rc \<noteq> 0 then Some (pkt1, nd_event (Ip_Warn NIDS_WARN_IP_SRR) s)
      else (case c of IPF_ISF \<Rightarrow> Some (pkt1, ?s1)
             | IPF_NOTF \<Rightarrow> do { s2 \<leftarrow> pass_packet env False pkt1 ?s1; Some (pkt1, s2) }
             | IPF_NEW \<Rightarrow> do { iph \<leftarrow> d; s2 \<leftarrow> pass_packet env True iph ?s1; Some (pkt1, s2) }))"
    using True hok o(1,2) st(1) by (simp add: gen_ip_frag_proc_def Let_def)
  have p1: "\<exists>s'. pass_packet env nf p ?s1 = Some s' \<and> nids_wf env s' \<and> same_cfg s s'" if "packet_ok p" "src_safe (src_octets p)" for nf p
    using pass_packet_ok [OF w1(1) wf(2) that, of nf] same_cfg_trans [OF w1(2)] by blast
  show ?thesis
  proof (cases c)
    case IPF_NOTF
    then show ?thesis using step wf(1) cap p1 [OF o(3) safe, of False] by auto
  next
    case IPF_NEW
    then obtain x where x: "d = Some x" "packet_ok x" "src_safe (src_octets x)" using st(3,4) by (auto simp: handed_def)
    then show ?thesis using step wf(1) cap IPF_NEW p1 [OF x(2,3), of True] by auto
  next
    case IPF_ISF
    then show ?thesis using step wf(1) cap w1 by auto
  qed
qed

lemma call_ip_frag_procs_ok:
  assumes "nids_wf env s" "env_wf env" and "ip_readable pkt"
  shows "\<exists>s'. call_ip_frag_procs env pkt is s = Some s' \<and> nids_wf env s' \<and> same_cfg s s'"
  using assms(1,3)
proof (induction "is" arbitrary: s pkt)
  case (Cons i r)
  obtain p1 s1 where s1: "(if i = 0 then gen_ip_frag_proc env pkt s else Some (pkt, nd_event (Ip_Frag_Call i pkt) s)) = Some (p1, s1)"
      "nids_wf env s1" "same_cfg s s1" "ip_readable p1"
    using gen_ip_frag_proc_ok [OF Cons.prems(1) assms(2) Cons.prems(2)] Cons.prems by (cases "i = 0") auto
  then show ?case using Cons.IH [OF s1(2,4)] same_cfg_trans by fastforce
qed simp

section \<open>Frames\<close>

text \<open>
  A frame whose IP packet, if it has one, is \<open>ip_readable\<close>.  The second condition of a link layer, that its
  own headers are captured, holds of every frame on the wired ones.
\<close>

definition frame_captured :: "int \<Rightarrow> u32 \<Rightarrow> frame \<Rightarrow> bool" where
  "frame_captured lt off f =
     (case link_layer lt (fr_data f) (fr_len f) off of
        None \<Rightarrow> False
      | Some (go, o1) \<Rightarrow> go \<and> unat o1 \<le> length (fr_data f) \<longrightarrow> ip_readable (drop (unat o1) (fr_data f)))"

lemma wired_link_layer:
  "lt \<noteq> DLT_PRISM_HEADER \<Longrightarrow> lt \<noteq> DLT_IEEE802_11_RADIO \<Longrightarrow> lt \<noteq> DLT_IEEE802_11 \<Longrightarrow> link_layer lt data len off \<noteq> None"
  by (auto simp: link_layer_def ethernet_def rd8_def)

text \<open>The offset a frame is judged with is the one of its predecessors, or does not matter.\<close>

lemma frame_captured_next:
  assumes "link_layer lt data len off = Some (go, o1)"
  shows "frame_captured lt o1 f = frame_captured lt off f"
proof -
  have "link_layer lt d n o1 = link_layer lt d n off \<or>
      (\<exists>a b. link_layer lt d n o1 = Some (False, a) \<and> link_layer lt d n off = Some (False, b))" for d n
  proof (cases "lt = DLT_EN10MB")
    case True
    then show ?thesis using assms by (auto simp: link_layer_def ethernet_def rd8_def)
  next
    case False
    then show ?thesis using assms by (auto simp: link_layer_def)
  qed
  from this [of "fr_data f" "fr_len f"] show ?thesis by (auto simp: frame_captured_def)
qed

lemma nids_pcap_handler_ok:
  assumes wf: "nids_wf env s" "env_wf env" and f: "frame_captured (nd_linktype s) (nids_linkoffset s) f" and sec: "nd_last_sec s \<le> fr_sec f"
  shows "\<exists>s'. nids_pcap_handler env f s = Some s' \<and> nids_wf env s' \<and> nd_last_sec s' = fr_sec f \<and> nd_linktype s' = nd_linktype s \<and>
    nd_desc s' = nd_desc s \<and> (\<forall>g. frame_captured (nd_linktype s) (nids_linkoffset s') g = frame_captured (nd_linktype s) (nids_linkoffset s) g)"
proof -
  have t: "tcp_wf (tcp_env_of env s) (nd_tcp s)" using wf(1) by (simp add: nids_wf_def)
  obtain t1 where t1: "(if nids_tcp_timeouts (nd_tcp s) \<noteq> [] then tcp_check_timeouts (tcp_env_of env s) (fr_sec f) (nd_tcp s) else Some (nd_tcp s)) = Some t1"
      "tcp_wf (tcp_env_of env s) t1"
    using tcp_check_timeouts_ok [OF t, of "fr_sec f"] t by (cases "nids_tcp_timeouts (nd_tcp s) \<noteq> []") auto
  obtain go off where ll: "link_layer (nd_linktype s) (fr_data f) (fr_len f) (nids_linkoffset s) = Some (go, off)"
      "go \<and> unat off \<le> length (fr_data f) \<longrightarrow> ip_readable (drop (unat off) (fr_data f))"
    using f by (auto simp: frame_captured_def split: option.splits)
  define s2 where "s2 = s\<lparr>nd_tcp := t1, nd_last_sec := fr_sec f, nids_linkoffset := off\<rparr>"
  have "tcp_wf ((tcp_env_of env s)\<lparr>te_now := fr_sec f\<rparr>) t1"
    by (rule tcp_wf_later [OF t1(2)]) (use sec in \<open>simp add: tcp_env_of_def\<close>)
  then have w2: "nids_wf env s2" using wf(1) by (simp add: nids_wf_def s2_def tcp_env_of_def)
  have st: "nids_pcap_handler env f s = (if \<not> go \<or> length (fr_data f) < unat off then Some s2
      else call_ip_frag_procs env (drop (unat off) (fr_data f)) (ip_frag_procs s2) s2)"
    using t1(1) ll(1) by (simp add: nids_pcap_handler_def Let_def s2_def)
  have cap: "\<forall>g. frame_captured (nd_linktype s) off g = frame_captured (nd_linktype s) (nids_linkoffset s) g"
    using frame_captured_next [OF ll(1)] by blast
  have e: "nd_last_sec s2 = fr_sec f" "nd_linktype s2 = nd_linktype s" "nd_desc s2 = nd_desc s" "nids_linkoffset s2 = off" by (simp_all add: s2_def)
  show ?thesis
  proof (cases "\<not> go \<or> length (fr_data f) < unat off")
    case True
    then show ?thesis using st w2 e cap by auto
  next
    case False
    then obtain s' where "call_ip_frag_procs env (drop (unat off) (fr_data f)) (ip_frag_procs s2) s2 = Some s'" "nids_wf env s'" "same_cfg s2 s'"
      using call_ip_frag_procs_ok [OF w2 wf(2)] ll(2) by auto
    then show ?thesis using st False e cap by (auto simp: same_cfg_def)
  qed
qed

lemma handle_frames_ok:
  "nids_wf env s \<Longrightarrow> env_wf env \<Longrightarrow> list_all (frame_captured (nd_linktype s) (nids_linkoffset s)) fs \<Longrightarrow> sorted (nd_last_sec s # map fr_sec fs) \<Longrightarrow>
   \<exists>s'. handle_frames env fs s = Some s' \<and> nids_wf env s' \<and> nd_desc s' = nd_desc s"
proof (induction fs arbitrary: s)
  case (Cons f fs)
  obtain s1 where s1: "nids_pcap_handler env f s = Some s1" "nids_wf env s1" "nd_last_sec s1 = fr_sec f" "nd_linktype s1 = nd_linktype s"
      "nd_desc s1 = nd_desc s" "\<forall>g. frame_captured (nd_linktype s) (nids_linkoffset s1) g = frame_captured (nd_linktype s) (nids_linkoffset s) g"
    using nids_pcap_handler_ok [OF Cons.prems(1,2), of f] Cons.prems(3,4) by auto
  have "list_all (frame_captured (nd_linktype s1) (nids_linkoffset s1)) fs" using Cons.prems(3) s1(4,6) by (simp add: list_all_iff)
  moreover have "sorted (nd_last_sec s1 # map fr_sec fs)" using Cons.prems(4) s1(3) by simp
  ultimately show ?case using Cons.IH [OF s1(2) Cons.prems(2)] s1(1,5) by auto
qed simp

lemma nids_exit_ok:
  assumes "nids_wf env s"
  shows "\<exists>s'. nids_exit env io s = Some s' \<and> \<not> nd_desc s' \<and> (nd_desc s \<longrightarrow> tcp_by_time (nd_tcp s') = [] \<and> tcp_num (nd_tcp s') = 0)"
  using tcp_exit_ok [of "tcp_env_of env s" "nd_tcp s"] assms by (auto simp: nids_exit_def nids_wf_def)

section \<open>Start\<close>

text \<open>A state as the program starts with, and parameters that make sense.\<close>

definition unused :: "nids \<Rightarrow> bool" where
  "unused s \<longleftrightarrow> \<not> nd_desc s \<and> nd_frag s = frag_start \<and> tcp_by_time (nd_tcp s) = [] \<and> tcp_num (nd_tcp s) = 0"

definition params_ok :: "nids_env \<Rightarrow> nids \<Rightarrow> bool" where
  "params_ok env s \<longleftrightarrow> prm_ok (nd_prm s) \<and> 0 < n_tcp_streams (nd_prm s) \<and> n_tcp_streams (nd_prm s) < 500000000 \<and> 0 < n_hosts (nd_prm s) \<and>
     clock_ok (ne_scan_clk env) (fst (ne_scan_clk env (clock_reads (nd_scan s))))"

lemma start_parts_wf:
  assumes "params_ok env s" and "nd_frag s = frag_start" "tcp_by_time (nd_tcp s) = []" "tcp_num (nd_tcp s) = 0"
  shows "nids_wf env (start_parts env io s)"
proof -
  let ?s = "start_parts env io s" and ?t0 = "(nd_tcp s)\<lparr>tcp_procs := []\<rparr>"
  have f: "nd_prm ?s = nd_prm s" "nd_tcp ?s = snd (tcp_init (pi_junk io) (pi_rnd io) (n_tcp_streams (nd_prm s)) ?t0)"
    "nd_frag ?s = ip_frag_init (ne_frag_clk env) (nat (n_hosts (nd_prm s))) frag_start"
    "nd_scan ?s = scan_init (nd_prm s) (ne_scan_clk env) (nd_scan s)"
    using assms(2) by (simp_all add: start_parts_def init_procs_def Let_def)
  have p: "prm_ok (nd_prm s)" "0 < n_tcp_streams (nd_prm s)" "n_tcp_streams (nd_prm s) < 500000000" "0 < n_hosts (nd_prm s)"
      "clock_ok (ne_scan_clk env) (fst (ne_scan_clk env (clock_reads (nd_scan s))))" using assms(1) by (simp_all add: params_ok_def)
  have "tcp_wf (tcp_env_of env ?s) (nd_tcp ?s)" unfolding f(2) using tcp_init_ok [OF p(2,3), of ?t0] assms(3,4) by simp
  moreover have "frag_inv src_safe (ne_frag env) (nd_frag ?s)" unfolding f(3) by (rule frag_init_inv) (use p(4) in simp)
  moreover have "time0 (nd_scan ?s) = fst (ne_scan_clk env (clock_reads (nd_scan s)))" unfolding f(4) using p(1) by (simp add: scan_init_def prm_ok_def)
  ultimately show ?thesis unfolding nids_wf_def f(1) using scan_wf_init(1) [OF p(1)] p(1,5) f(4) by simp
qed

text \<open>What \<open>nids_init\<close> returns: \<open>-1\<close>, or 2 when the filter was replaced, or 1.\<close>

definition filter_bad :: "pcap_io \<Rightarrow> nids \<Rightarrow> bool" where
  "filter_bad io s \<longleftrightarrow> (\<exists>f. nd_filter s = Some f \<and> pi_compile io f < 0)"

definition start_fails :: "pcap_io \<Rightarrow> nids \<Rightarrow> bool" where
  "start_fails io s \<longleftrightarrow> \<not> open_desc io (nd_prm s) \<or> nd_filter s \<noteq> None \<and> pi_setfilter io = -1 \<or>
     link_offset (pi_datalink io) = None \<or> multiproc (nd_prm s) \<noteq> 0"

lemma set_filter_eq:
  "set_filter io s = (nd_filter s = None \<or> pi_setfilter io \<noteq> -1, filter_bad io s, if filter_bad io s then s\<lparr>nd_filter := Some ''''\<rparr> else s)"
  by (cases "nd_filter s") (simp_all add: set_filter_def filter_bad_def Let_def)

lemma nids_init_fails:
  assumes "\<not> nd_desc s" and "start_fails io s"
  shows "\<exists>s'. nids_init env io s = Some (-1, s')"
proof -
  let ?s0 = "s\<lparr>nd_errbuf := not_initialized\<rparr>"
  have e: "nids_exit env io s = Some ?s0" using assms(1) by (simp add: nids_exit_def)
  have m: "multiproc (nd_prm (start_parts env io t)) = multiproc (nd_prm t)" for t
    by (simp add: start_parts_def init_procs_def Let_def)
  consider "\<not> open_desc io (nd_prm s)" | "open_desc io (nd_prm s)" "nd_filter s \<noteq> None" "pi_setfilter io = -1"
    | "open_desc io (nd_prm s)" "nd_filter s = None \<or> pi_setfilter io \<noteq> -1" "link_offset (pi_datalink io) = None"
    | off where "open_desc io (nd_prm s)" "nd_filter s = None \<or> pi_setfilter io \<noteq> -1" "link_offset (pi_datalink io) = Some off"
        "multiproc (nd_prm s) \<noteq> 0"
    using assms(2) unfolding start_fails_def
    by (cases "open_desc io (nd_prm s)"; cases "nd_filter s = None"; cases "pi_setfilter io = -1"; cases "link_offset (pi_datalink io)") simp_all
  then show ?thesis
  proof cases
    case 1
    then show ?thesis using e by (simp add: nids_init_def)
  next
    case 2
    then show ?thesis using e by (simp add: nids_init_def set_filter_eq)
  next
    case 3
    then show ?thesis using e by (auto simp: nids_init_def set_filter_eq Let_def)
  next
    case 4
    moreover have "fst (init_parts env io b off t) = -1" if "multiproc (nd_prm t) \<noteq> 0" for b t
      using that by (cases off) (auto simp: init_parts_def Let_def m)
    ultimately show ?thesis using e by (auto simp: nids_init_def set_filter_eq Let_def prod_eq_iff)
  qed
qed

lemma nids_init_starts:
  assumes "\<not> nd_desc s" and "\<not> start_fails io s"
  obtains s4 where "nids_init env io s = Some (if filter_bad io s then 2 else 1, start_parts env io s4)"
    and "nd_desc s4" "nd_linktype s4 = pi_datalink io" "nd_frag s4 = nd_frag s" "nd_tcp s4 = nd_tcp s" "nd_scan s4 = nd_scan s"
      "nd_last_sec s4 = nd_last_sec s" "nd_filter s4 = (if filter_bad io s then Some '''' else nd_filter s)"
      "\<exists>n. nd_prm s4 = (nd_prm s)\<lparr>dev_addon := n\<rparr>" "\<forall>n. link_offset (pi_datalink io) = Some (Some n) \<longrightarrow> nids_linkoffset s4 = n"
proof -
  let ?s0 = "s\<lparr>nd_errbuf := not_initialized\<rparr>" and ?s1 = "s\<lparr>nd_errbuf := not_initialized, nd_desc := True\<rparr>"
  have e: "nids_exit env io s = Some ?s0" using assms(1) by (simp add: nids_exit_def)
  obtain off where off: "link_offset (pi_datalink io) = Some off" using assms(2) by (auto simp: start_fails_def)
  have a: "open_desc io (nd_prm s)" "nd_filter s = None \<or> pi_setfilter io \<noteq> -1" "multiproc (nd_prm s) = 0"
    using assms(2) by (auto simp: start_fails_def)
  define s2 where "s2 = (if filter_bad io s then ?s1\<lparr>nd_filter := Some ''''\<rparr> else ?s1)\<lparr>nd_linktype := pi_datalink io\<rparr>"
  define s3 where "s3 = (case off of None \<Rightarrow> s2 | Some n \<Rightarrow> s2\<lparr>nids_linkoffset := n\<rparr>)"
  define s4 where "s4 = (if dev_addon (nd_prm s3) = -1
       then s3\<lparr>nd_prm := (nd_prm s3)\<lparr>dev_addon := (if nd_linktype s3 = DLT_EN10MB then 16 else 0)\<rparr>\<rparr> else s3)"
  have f2: "nd_desc s2" "nd_linktype s2 = pi_datalink io" "nd_frag s2 = nd_frag s" "nd_tcp s2 = nd_tcp s" "nd_scan s2 = nd_scan s"
      "nd_last_sec s2 = nd_last_sec s" "nd_filter s2 = (if filter_bad io s then Some '''' else nd_filter s)" "nd_prm s2 = nd_prm s"
    by (simp_all add: s2_def)
  have f3: "nd_desc s3" "nd_linktype s3 = pi_datalink io" "nd_frag s3 = nd_frag s" "nd_tcp s3 = nd_tcp s" "nd_scan s3 = nd_scan s"
      "nd_last_sec s3 = nd_last_sec s" "nd_filter s3 = (if filter_bad io s then Some '''' else nd_filter s)" "nd_prm s3 = nd_prm s"
      "\<forall>n. off = Some n \<longrightarrow> nids_linkoffset s3 = n"
    using f2 by (cases off; simp add: s3_def)+
  have f4: "nd_desc s4" "nd_linktype s4 = pi_datalink io" "nd_frag s4 = nd_frag s" "nd_tcp s4 = nd_tcp s" "nd_scan s4 = nd_scan s"
      "nd_last_sec s4 = nd_last_sec s" "nd_filter s4 = (if filter_bad io s then Some '''' else nd_filter s)"
      "\<exists>n. nd_prm s4 = (nd_prm s)\<lparr>dev_addon := n\<rparr>" "\<forall>n. off = Some n \<longrightarrow> nids_linkoffset s4 = n"
    using f3 by (auto simp: s4_def intro: exI [of _ "dev_addon (nd_prm s)"])
  have m: "multiproc (nd_prm (start_parts env io s4)) = 0"
    using f4(8) a(3) by (auto simp: start_parts_def init_procs_def Let_def)
  have fb: "filter_bad io ?s1 = filter_bad io s" by (simp add: filter_bad_def)
  have i: "init_parts env io b off s2 = (if b then 2 else 1, start_parts env io s4)" for b
    unfolding init_parts_def Let_def s3_def [symmetric] s4_def [symmetric] using m by simp
  have "nids_init env io s = Some (init_parts env io (filter_bad io s) off s2)"
    using e a(1,2) off fb by (simp add: nids_init_def set_filter_eq Let_def s2_def)
  then have "nids_init env io s = Some (if filter_bad io s then 2 else 1, start_parts env io s4)" by (simp add: i)
  then show thesis using that f4 off by simp
qed

section \<open>Properties\<close>

text \<open>
  C5.  A whole session is safe, on frames that satisfy \<open>frame_captured\<close>.  When \<open>nids_init\<close> succeeds from the
  state the program starts in, with parameters in range (\<open>params_ok\<close>), listeners that leave at most half a gigabyte unread and
  a scan clock that does not run backwards and stays within \<open>2^31\<close> milliseconds of its start, then \<open>nids_run\<close> handles every
  sequence of such frames with time stamps that do not decrease: the link layer, the IP checks,
  the option parser, the defragmenter, the port scan detector and the TCP tracker stay inside
  their data, no loop runs forever, and \<open>nids_exit\<close> releases the streams and closes the session.

  \<open>frame_captured\<close> excludes the frames for which the code reads outside its data: a capture that ends
  inside an IP header behind its 20th octet, or right at the end of a header with options; a source address 0.0.x.y
  with \<open>y \<ge> 128\<close>; a fragment with less than eight octets of payload; and an 802.11 capture that ends inside the
  headers in front of the IP packet (the last theorem of this file, \<open>ip_options_compile_overread\<close>,
  \<open>detect_scan_negative_index\<close> and \<open>short_fragment_overread\<close> show these reads).  Everything else about a frame is arbitrary.
\<close>

theorem nids_session_safe:
  assumes "unused s" and "params_ok env s" and "env_wf env" and "nids_init env io s = Some (r, s1)" and "0 < r"
    and "list_all (frame_captured (nd_linktype s1) (nids_linkoffset s1)) fs" and "sorted (nd_last_sec s # map fr_sec fs)"
  shows "\<exists>s2. nids_run env io fs s1 = Some (0, s2) \<and> \<not> nd_desc s2 \<and> tcp_num (nd_tcp s2) = 0"
proof -
  have u: "\<not> nd_desc s" "nd_frag s = frag_start" "tcp_by_time (nd_tcp s) = []" "tcp_num (nd_tcp s) = 0" using assms(1) by (simp_all add: unused_def)
  have ok: "\<not> start_fails io s" using nids_init_fails [OF u(1), of io env] assms(4,5) by auto
  obtain s4 where s4: "nids_init env io s = Some (if filter_bad io s then 2 else 1, start_parts env io s4)"
    and f: "nd_desc s4" "nd_frag s4 = nd_frag s" "nd_tcp s4 = nd_tcp s" "nd_scan s4 = nd_scan s" "nd_last_sec s4 = nd_last_sec s"
      "\<exists>n. nd_prm s4 = (nd_prm s)\<lparr>dev_addon := n\<rparr>"
    using nids_init_starts [OF u(1) ok, of env] by metis
  have s1: "s1 = start_parts env io s4" using s4 assms(4) by simp
  have "params_ok env s4" using assms(2) f(4,6) by (auto simp: params_ok_def prm_ok_def)
  then have wf: "nids_wf env s1" unfolding s1 using start_parts_wf [of env s4 io] f(2,3) u by simp
  have e: "nd_last_sec s1 = nd_last_sec s" "nd_desc s1" using f(1,5) by (simp_all add: s1 start_parts_def init_procs_def Let_def)
  obtain s' where s': "handle_frames env fs s1 = Some s'" "nids_wf env s'" "nd_desc s'"
    using handle_frames_ok [OF wf assms(3,6)] assms(7) e by auto
  then show ?thesis using nids_exit_ok [OF s'(2), of io] e(2) by (auto simp: nids_run_def)
qed

definition quiet_io :: pcap_io where
  "quiet_io = \<lparr>pi_given = True, pi_filename = None, pi_open_offline = (\<lambda>_. False), pi_device = None, pi_lookupdev = None,
     pi_open_live = (\<lambda>_ _. False), pi_compile = (\<lambda>_. 0), pi_setfilter = 0, pi_datalink = 1, pi_geterr = [], pi_errbuf = [],
     pi_junk = junk_stream, pi_rnd = \<lparr>urandom_fd = 0, urandom_xor = [], urandom_perm = [], rand_vals = [1, 2, 3, 4, 5, 6]\<rparr>\<rparr>"

definition sample_nids_env :: nids_env where
  "sample_nids_env = \<lparr>ne_tcp = Tcp_Safe.sample_env, ne_frag = Frag_Inv.sample_env, ne_scan_clk = tick, ne_frag_clk = second_clock,
     ne_ip_filter = nids_ip_filter\<rparr>"

definition program_start :: nids where
  "program_start = \<lparr>nd_prm = nids_params0, nd_filter = None, nd_linktype = 0, nids_linkoffset = 0, nd_desc = False, nd_last_sec = 0, nd_errbuf = [],
     ip_frag_procs = [], ip_procs = [], udp_procs = [], nd_tcp = no_streams, nd_frag = frag_start, nd_scan = scan_start, nd_chk = [], nd_log = []\<rparr>"

definition eth_frame :: "int \<Rightarrow> bytes \<Rightarrow> frame" where
  "eth_frame sec pkt = \<lparr>fr_sec = sec, fr_len = of_nat (14 + length pkt), fr_data = replicate 12 1 @ [8, 0] @ pkt\<rparr>"

lemma sample_nids_env_wf: "env_wf sample_nids_env"
proof -
  have "keeps_at_most Tcp_Safe.sample_env keep_max" by (rule sniffer_keeps) (simp add: Tcp_Safe.sample_env_def)
  then show ?thesis by (simp add: env_wf_def sample_nids_env_def)
qed

lemma program_start_ok: "unused program_start" "params_ok sample_nids_env program_start"
  using tick_ok nids_params0_scan
  by (simp_all add: unused_def params_ok_def program_start_def no_streams_def sample_nids_env_def scan_start_def nids_params0_def)
    (simp add: tick_def)

lemma eth_link_layer: "link_layer DLT_EN10MB (fr_data (eth_frame sec pkt)) n off = Some (True, 14)"
  by (simp add: link_layer_def ethernet_def eth_frame_def rd8_def nth_append)

theorem nids_session_safe_witness:
  "\<exists>s1 s2. nids_init sample_nids_env quiet_io program_start = Some (1, s1) \<and>
     nids_run sample_nids_env quiet_io [eth_frame 1 syn_packet, eth_frame 5 sample_packet] s1 = Some (0, s2) \<and> \<not> nd_desc s2 \<and> tcp_num (nd_tcp s2) = 0"
proof -
  have u: "\<not> nd_desc program_start" by (simp add: program_start_def)
  have ok: "\<not> start_fails quiet_io program_start" "\<not> filter_bad quiet_io program_start"
    by (simp_all add: start_fails_def open_desc_def quiet_io_def program_start_def link_offset_def nids_params0_def filter_bad_def)
  obtain s4 where n: "nids_init sample_nids_env quiet_io program_start =
        Some (if filter_bad quiet_io program_start then 2 else 1, start_parts sample_nids_env quiet_io s4)" "nd_linktype s4 = pi_datalink quiet_io"
    by (rule nids_init_starts [OF u ok(1)]) (rule that)
  have s4: "nids_init sample_nids_env quiet_io program_start = Some (1, start_parts sample_nids_env quiet_io s4)" "nd_linktype s4 = 1"
    using n ok(2) by (simp_all add: quiet_io_def)
  let ?s1 = "start_parts sample_nids_env quiet_io s4"
  have lt: "nd_linktype ?s1 = 1" using s4(2) by (simp add: start_parts_def init_procs_def Let_def)
  have cap: "ip_readable syn_packet" "ip_readable sample_packet" by code_simp+
  have "frame_captured 1 off (eth_frame sec pkt)" if "ip_readable pkt" for sec pkt off
    using that eth_link_layer [of sec pkt "fr_len (eth_frame sec pkt)" off] by (simp add: frame_captured_def) (simp add: eth_frame_def)
  then have "list_all (frame_captured (nd_linktype ?s1) (nids_linkoffset ?s1)) [eth_frame 1 syn_packet, eth_frame 5 sample_packet]"
    using cap lt by simp
  moreover have "sorted (nd_last_sec program_start # map fr_sec [eth_frame 1 syn_packet, eth_frame 5 sample_packet])"
    by (simp add: program_start_def eth_frame_def)
  ultimately show ?thesis
    using nids_session_safe [OF program_start_ok sample_nids_env_wf s4(1) zero_less_one] s4(1) by blast
qed

text \<open>
  C35.  \<open>nids_init\<close> returns \<open>-1\<close>, 1 or 2 and nothing else: \<open>-1\<close> exactly when the capture cannot be opened,
  the filter cannot be set, the link type is unknown or threads are asked for; 2 exactly when it
  starts with the filter replaced by an empty one because it did not compile; and when it starts,
  the session is open with the link type of the capture, both internal processors are registered,
  and no callback of the application is.
\<close>

theorem nids_init_result:
  assumes "\<not> nd_desc s"
  shows "\<exists>s'. nids_init env io s = Some (if start_fails io s then -1 else if filter_bad io s then 2 else 1, s') \<and>
    (start_fails io s \<or> nd_desc s' \<and> nd_linktype s' = pi_datalink io \<and> ip_frag_procs s' = [0] \<and> ip_procs s' = [0] \<and> udp_procs s' = [] \<and>
       nd_filter s' = (if filter_bad io s then Some '''' else nd_filter s))"
proof (cases "start_fails io s")
  case True
  then show ?thesis using nids_init_fails [OF assms True, of env] by auto
next
  case False
  obtain s4 where "nids_init env io s = Some (if filter_bad io s then 2 else 1, start_parts env io s4)"
      "nd_desc s4" "nd_linktype s4 = pi_datalink io" "nd_filter s4 = (if filter_bad io s then Some '''' else nd_filter s)"
    by (rule nids_init_starts [OF assms False]) (rule that)
  then show ?thesis using False by (simp add: start_parts_def init_procs_def Let_def)
qed

theorem nids_init_result_witness:
  "\<exists>s'. nids_init sample_nids_env (quiet_io\<lparr>pi_datalink := 77\<rparr>) program_start =
      Some (if start_fails (quiet_io\<lparr>pi_datalink := 77\<rparr>) program_start then -1
            else if filter_bad (quiet_io\<lparr>pi_datalink := 77\<rparr>) program_start then 2 else 1, s') \<and> start_fails (quiet_io\<lparr>pi_datalink := 77\<rparr>) program_start"
proof -
  have "start_fails (quiet_io\<lparr>pi_datalink := 77\<rparr>) program_start" by (simp add: start_fails_def link_offset_def)
  then show ?thesis
    using nids_init_result [of program_start sample_nids_env "quiet_io\<lparr>pi_datalink := 77\<rparr>"] by (auto simp: program_start_def)
qed

text \<open>A packet that is not a fragment passes the defragmenter.\<close>

lemma not_fragment:
  assumes "ip_defrag_stub prm env clk pkt s = Some (c, d, s')" and "rd_be16 pkt 6 = Some off" and "off AND IP_MF = 0" "off AND IP_OFFSET = 0"
  shows "c = IPF_NOTF"
  using assms by (auto simp: ip_defrag_stub_def split: bind_splits)

text \<open>
  C14.  A UDP datagram reaches the application.  For an Ethernet frame with a sound, unfragmented IP
  packet without options that carries UDP, the handler calls every registered UDP callback, in the
  order of the list and once each, with the tuple of the datagram and exactly its payload, when the
  datagram is as RFC 768 has it (its lengths fit, its checksum is absent or right); otherwise it
  calls none.  The trailer of the frame never becomes payload.
\<close>

theorem udp_delivered:
  assumes wf: "nids_wf env s" "env_wf env" and s: "nd_linktype s = DLT_EN10MB" "ip_frag_procs s = [0]" "ip_procs s = [0]"
    and f: "f = eth_frame sec pkt" "nd_last_sec s \<le> sec" and pkt: "ip_captured pkt" "ip_sound (nd_chk s) pkt" "hlen pkt = 20" "pkt ! 9 = 17"
    and nofrag: "rd_be16 pkt 6 = Some off" "off AND IP_MF = 0" "off AND IP_OFFSET = 0"
    and filter: "ne_ip_filter env pkt (int (length pkt))"
  shows "\<exists>s'. nids_pcap_handler env f s = Some s' \<and> nd_log s' = nd_log s @
    (if udp_sound (nd_chk s) pkt then map (\<lambda>i. Udp_Call i (udp_tuple pkt) (udp_payload pkt) pkt) (udp_procs s) else [])"
proof -
  have t: "tcp_wf (tcp_env_of env s) (nd_tcp s)" using wf(1) by (simp add: nids_wf_def)
  obtain t1 where t1: "(if nids_tcp_timeouts (nd_tcp s) \<noteq> [] then tcp_check_timeouts (tcp_env_of env s) (fr_sec f) (nd_tcp s) else Some (nd_tcp s)) = Some t1"
    using tcp_check_timeouts_ok [OF t, of "fr_sec f"] by (cases "nids_tcp_timeouts (nd_tcp s) \<noteq> []") auto
  define s2 where "s2 = s\<lparr>nd_tcp := t1, nd_last_sec := fr_sec f, nids_linkoffset := 14\<rparr>"
  have ll: "link_layer (nd_linktype s) (fr_data f) (fr_len f) (nids_linkoffset s) = Some (True, 14)" "drop 14 (fr_data f) = pkt" "\<not> length (fr_data f) < 14"
    using eth_link_layer s(1) f(1) by (simp_all add: eth_frame_def)
  have h: "nids_pcap_handler env f s = call_ip_frag_procs env pkt [0] s2"
    using t1 ll s(2) by (simp add: nids_pcap_handler_def Let_def s2_def)
  have pok: "packet_ok pkt" "20 \<le> length pkt" and safe: "src_safe (src_octets pkt)" using pkt by (auto simp: ip_sound_def ip_captured_def)
  have rd: "rd8 pkt 0 = Some (pkt ! 0)" "rd8 pkt 9 = Some (pkt ! 9)" "rd_be16 pkt 2 \<noteq> None" using pok(2) by (auto simp: rd8_def rd_be16_in)
  have room: "frag_room pkt" using nofrag pok(2) by (simp add: frag_room_def rd_be16_in)
  have hl: "\<not> 5 < unat (pkt ! 0 AND 0x0f)" using pkt(3) by (simp add: hlen_def)
  obtain c d fs where st: "ip_defrag_stub (nd_prm s) (ne_frag env) (ne_frag_clk env) pkt (nd_frag s) = Some (c, d, fs)"
    using ip_defrag_stub_inv [where P = src_safe and env = "ne_frag env" and s = "nd_frag s" and prm = "nd_prm s" and clk = "ne_frag_clk env" and iph = pkt]
      wf pok(1) safe room by (auto simp: nids_wf_def env_wf_def)
  have c: "c = IPF_NOTF" by (rule not_fragment [OF st nofrag])
  define s3 where "s3 = s2\<lparr>nd_frag := fs\<rparr>"
  have e: "nd_chk s3 = nd_chk s" "udp_procs s3 = udp_procs s" "nd_log s3 = nd_log s" "ip_procs s3 = [0]" "nd_prm s2 = nd_prm s" "nd_frag s2 = nd_frag s"
      "nd_chk s2 = nd_chk s" using s(3) by (simp_all add: s3_def s2_def)
  have b: "Option.bind (gen_ip_proc env pkt k s3) (call_ip_procs env pkt k []) = gen_ip_proc env pkt k s3" for k
    by (cases "gen_ip_proc env pkt k s3") simp_all
  obtain sk where pp: "pass_packet env False pkt s3 = gen_ip_proc env pkt sk s3" using rd(3) e(4) b by (auto simp: pass_packet_def)
  have g: "gen_ip_proc env pkt sk s3 = Some (s3\<lparr>nd_log := nd_log s3 @
    (if udp_sound (nd_chk s3) pkt then map (\<lambda>i. Udp_Call i (udp_tuple pkt) (udp_payload pkt) pkt) (udp_procs s3) else [])\<rparr>)"
    using process_udp_exact [OF pok(1), of s3] rd(2) pkt(4) by (simp add: gen_ip_proc_def)
  have hok: "ip_header_ok (nd_chk s) pkt = Some True" using ip_header_ok_exact [OF pkt(1), of "nd_chk s"] pkt(2) by simp
  have "gen_ip_frag_proc env pkt s2 = map_option (Pair pkt) (pass_packet env False pkt s3)"
    using filter hok rd(1) hl st c e(5-7) by (simp add: gen_ip_frag_proc_def s3_def Let_def map_option_case bind_eq_Some_conv split: option.split)
  then show ?thesis unfolding h using pp g e by simp
qed

definition udp_packet :: bytes where
  "udp_packet = [0x45, 0, 0, 0x20, 0, 0, 0, 0, 0x40, 17, 0x66, 0xcb, 10, 0, 0, 1, 10, 0, 0, 2] @ [0, 53, 0x12, 0x34, 0, 12, 0, 0] @ [97, 98, 99, 100] @ [0, 0]"

definition listening :: nids where
  "listening = nids_register_udp 9 (start_parts sample_nids_env quiet_io (program_start\<lparr>nd_linktype := 1\<rparr>))"

lemma listening_ok: "nids_wf sample_nids_env listening" "nd_linktype listening = 1" "ip_frag_procs listening = [0]" "ip_procs listening = [0]"
  "nd_chk listening = []" "nd_last_sec listening = 0" "udp_procs listening = [9]"
proof -
  let ?s = "start_parts sample_nids_env quiet_io (program_start\<lparr>nd_linktype := 1\<rparr>)"
  have "params_ok sample_nids_env (program_start\<lparr>nd_linktype := 1\<rparr>)" using program_start_ok(2) by (simp add: params_ok_def)
  then have "nids_wf sample_nids_env ?s" by (rule start_parts_wf) (simp_all add: program_start_def no_streams_def)
  then show "nids_wf sample_nids_env listening" by (simp add: listening_def nids_register_udp_def nids_wf_def tcp_env_of_def)
  show "nd_linktype listening = 1" "ip_frag_procs listening = [0]" "ip_procs listening = [0]" "nd_chk listening = []" "nd_last_sec listening = 0"
      "udp_procs listening = [9]"
    by (simp_all add: listening_def nids_register_udp_def start_parts_def init_procs_def Let_def program_start_def register_callback_def)
qed

theorem udp_delivered_witness:
  "\<exists>s'. nids_pcap_handler sample_nids_env (eth_frame 3 udp_packet) listening = Some s' \<and>
     nd_log s' = nd_log listening @ [Udp_Call 9 (udp_tuple udp_packet) [97, 98, 99, 100] udp_packet]"
proof -
  have p: "ip_captured udp_packet" "ip_sound [] udp_packet" "hlen udp_packet = 20" "udp_packet ! 9 = 17" "rd_be16 udp_packet 6 = Some 0"
      "udp_sound [] udp_packet" "udp_payload udp_packet = [97, 98, 99, 100]" by code_simp+
  have f: "ne_ip_filter sample_nids_env udp_packet (int (length udp_packet))" by (simp add: sample_nids_env_def nids_ip_filter_def)
  have z: "(0 :: u16) AND IP_MF = 0" "(0 :: u16) AND IP_OFFSET = 0" by simp_all
  show ?thesis
    using udp_delivered [OF listening_ok(1) sample_nids_env_wf listening_ok(2-4) refl _ p(1) _ p(3-5) z f, of 3] p(2,6,7) listening_ok(5-7) by simp
qed

text \<open>
  C36.  Two reads past the captured octets.  \<open>gen_ip_frag_proc\<close> computes the header checksum over the length
  that the header claims before it compares that length with the captured one: on every packet of
  version 4 whose header claims more octets than were captured, and whose source is not exempt from
  checksums, it reads behind the capture.  And the plain 802.11 link layer reads its frame control
  field without looking at the captured length: a capture of less than two octets is read behind its end.
\<close>

theorem short_captures_overread:
  assumes "20 \<le> length pkt" and "length pkt < hlen pkt" and "drop_bit 4 (pkt ! 0) = 4"
    and "rd_le32 pkt 12 = Some src" and "dontchksum chk src = 0" and "length data < 2"
  shows "ip_header_ok chk pkt = None \<and> link_layer DLT_IEEE802_11 data len off = None"
proof -
  have h: "hlen pkt = 4 * unat (pkt ! 0 AND 0x0f)" "rd8 pkt 0 = Some (pkt ! 0)" using assms(1) by (auto simp: hlen_def rd8_def)
  have "ip_check_ext pkt 0 (int (4 * n)) 0 = None" if "length pkt < 4 * n" for n
  proof -
    have "csum_loop pkt 0 (int (4 * n)) 0 = None" using that assms(1) by (intro csum_loop_out) auto
    then show ?thesis by (simp add: ip_check_ext_def csum_words_def)
  qed
  then have "ip_check_ext pkt 0 (int (4 * unat (pkt ! 0 AND 0x0f))) 0 = None" using assms(2) h(1) by metis
  then have "ip_header_ok chk pkt = None"
    using assms(1-5) h by (simp add: ip_header_ok_def ip_fast_csum_def Let_def)
  moreover have "link_layer DLT_IEEE802_11 data len off = None"
    using assms(6) by (simp add: link_layer_def wireless_def rd_le16_def rd8_def bind_eq_None_conv)
  ultimately show ?thesis ..
qed

theorem short_captures_overread_witness:
  "ip_header_ok [] (0x4f # replicate 19 0) = None \<and> link_layer DLT_IEEE802_11 [8] 100 0 = None"
proof -
  have "hlen (0x4f # replicate 19 0) = 60" "rd_le32 (0x4f # replicate 19 0) 12 = Some 0" by code_simp+
  then show ?thesis using short_captures_overread [of "0x4f # replicate 19 0" 0 "[]" "[8]" 100 0] by simp
qed

end
