(* ===== verification/Cstring.thy ===== *)
theory Cstring
  imports Prelude "HOL-Library.Char_ord"
begin

text \<open>
  What the program uses of the C library on texts: the character classes of \<open>ctype.h\<close> in the C
  locale, the conversions \<open>%d\<close>, \<open>%hu\<close>, \<open>%x\<close>, \<open>%03d\<close> and \<open>%-ns\<close> of \<open>printf\<close>, and \<open>inet_ntoa\<close>.  A C string
  is the list of its characters without the terminating NUL.  The lemmas say that a printed number
  can be read back and how long it is.
\<close>

section \<open>Characters\<close>

definition isdigit :: "char \<Rightarrow> bool" where
  "isdigit c \<longleftrightarrow> c \<in> set ''0123456789''"

definition islower :: "char \<Rightarrow> bool" where
  "islower c \<longleftrightarrow> c \<in> set ''abcdefghijklmnopqrstuvwxyz''"

definition isxdigit :: "char \<Rightarrow> bool" where
  "isxdigit c \<longleftrightarrow> c \<in> set ''0123456789abcdefABCDEF''"

text \<open>Space, tab, newline, vertical tab, form feed and carriage return.\<close>

definition isspace :: "char \<Rightarrow> bool" where
  "isspace c \<longleftrightarrow> c \<in> {CHR '' '', CHR 0x09, CHR 0x0A, CHR 0x0B, CHR 0x0C, CHR 0x0D}"

section \<open>Numbers\<close>

definition digit_char :: "nat \<Rightarrow> char" where
  "digit_char n = ''0123456789abcdef'' ! n"

function numeral_text :: "nat \<Rightarrow> nat \<Rightarrow> string" where
  "numeral_text b n = (if b < 2 \<or> n < b then [digit_char n] else numeral_text b (n div b) @ [digit_char (n mod b)])"
  by pat_completeness auto
termination
  by (relation "measure snd") auto

declare numeral_text.simps [simp del]

abbreviation dec :: "nat \<Rightarrow> string" where "dec \<equiv> numeral_text 10"
abbreviation hex :: "nat \<Rightarrow> string" where "hex \<equiv> numeral_text 16"

definition fmt_d :: "int \<Rightarrow> string" where
  "fmt_d v = (if v < 0 then CHR ''-'' # dec (nat (- v)) else dec (nat v))"

definition fmt_hu :: "u16 \<Rightarrow> string" where
  "fmt_hu v = dec (unat v)"

definition fmt_x :: "u32 \<Rightarrow> string" where
  "fmt_x v = hex (unat v)"

text \<open>\<open>%03d\<close>: zeros between the sign and the digits up to three characters.\<close>

definition fmt_03d :: "int \<Rightarrow> string" where
  "fmt_03d v =
     (if v < 0 then CHR ''-'' # replicate (2 - length (dec (nat (- v)))) CHR ''0'' @ dec (nat (- v))
      else replicate (3 - length (dec (nat v))) CHR ''0'' @ dec (nat v))"

definition fmt_left :: "nat \<Rightarrow> string \<Rightarrow> string" where
  "fmt_left n s = s @ replicate (n - length s) CHR '' ''"

text \<open>The first octet in memory is the low one of the word.\<close>

definition inet_ntoa :: "u32 \<Rightarrow> string" where
  "inet_ntoa a =
     dec (unat (a AND 0xff)) @ ''.'' @ dec (unat (drop_bit 8 a AND 0xff)) @ ''.'' @
     dec (unat (drop_bit 16 a AND 0xff)) @ ''.'' @ dec (unat (drop_bit 24 a))"

section \<open>Reading back\<close>

definition digit_val :: "char \<Rightarrow> nat" where
  "digit_val c = (if isdigit c then of_char c - 48 else of_char c - 87)"

definition text_val :: "nat \<Rightarrow> string \<Rightarrow> nat" where
  "text_val b s = foldl (\<lambda>n c. n * b + digit_val c) 0 s"

lemma digit_chars:
  assumes "n < 16"
  shows "digit_val (digit_char n) = n" "digit_char n \<in> set ''0123456789abcdef''" "n < 10 \<Longrightarrow> isdigit (digit_char n)"
    "isxdigit (digit_char n)"
proof -
  have "\<forall>n \<in> set [0..<16]. digit_val (digit_char n) = n \<and> digit_char n \<in> set ''0123456789abcdef'' \<and> (n < 10 \<longrightarrow> isdigit (digit_char n)) \<and> isxdigit (digit_char n)"
    by code_simp
  then show "digit_val (digit_char n) = n" "digit_char n \<in> set ''0123456789abcdef''" "n < 10 \<Longrightarrow> isdigit (digit_char n)"
    "isxdigit (digit_char n)" using assms by auto
qed

lemma text_val_snoc [simp]: "text_val b (s @ [c]) = text_val b s * b + digit_val c"
  by (simp add: text_val_def)

lemma text_val_numeral:
  assumes "2 \<le> b" and "b \<le> 16"
  shows "text_val b (numeral_text b n) = n"
  using assms
proof (induction b n rule: numeral_text.induct)
  case (1 b n)
  show ?case
  proof (cases "n < b")
    case True
    then show ?thesis using 1 by (simp add: numeral_text.simps text_val_def digit_chars)
  next
    case False
    have "n mod b < 16" using 1(2,3) mod_less_divisor [of b n] by linarith
    then show ?thesis using 1 False by (subst numeral_text.simps) (simp add: digit_chars)
  qed
qed

lemma numeral_text_inj: "\<lbrakk>2 \<le> b; b \<le> 16; numeral_text b m = numeral_text b n\<rbrakk> \<Longrightarrow> m = n"
  using text_val_numeral by metis

lemma numeral_text_chars:
  assumes "2 \<le> b" and "b \<le> 16"
  shows "set (numeral_text b n) \<subseteq> digit_char ` {..<b}"
  using assms
proof (induction b n rule: numeral_text.induct)
  case (1 b n)
  have "n mod b < b" using 1 by simp
  then show ?case using 1 by (subst numeral_text.simps) auto
qed

lemma numeral_text_Nil [simp]: "numeral_text b n \<noteq> []"
  by (subst numeral_text.simps) simp

lemma numeral_text_length:
  assumes "2 \<le> b" and "n < b ^ Suc k"
  shows "length (numeral_text b n) \<le> Suc k"
  using assms
proof (induction k arbitrary: n)
  case 0
  then show ?case by (simp add: numeral_text.simps)
next
  case (Suc k)
  have "n div b < b ^ Suc k" using Suc.prems by (simp add: div_less_iff_less_mult mult.commute)
  then show ?case using Suc by (subst numeral_text.simps) auto
qed

lemma dec_digits: "c \<in> set (dec n) \<Longrightarrow> isdigit c"
  using numeral_text_chars [of 10 n] digit_chars(3) by fastforce

lemma hex_digits: "c \<in> set (hex n) \<Longrightarrow> isxdigit c"
  using numeral_text_chars [of 16 n] digit_chars(4) by fastforce

lemma dec_byte: "n < 256 \<Longrightarrow> length (dec n) \<le> 3"
  using numeral_text_length [of 10 n 2] by simp

lemma fmt_hu_length: "length (fmt_hu v) \<le> 5"
proof -
  have "unat v < 2 ^ LENGTH(16)" by (rule unsigned_less)
  then show ?thesis using numeral_text_length [of 10 "unat v" 4] by (simp add: fmt_hu_def)
qed

lemma octet_of_u32: "unat ((a :: u32) AND 0xff) < 256" "unat (drop_bit 24 (a :: u32)) < 256"
proof -
  have "a AND 0xff \<le> 0xff" by (rule word_and_le1)
  then show "unat (a AND 0xff) < 256" by (simp add: word_le_nat_alt)
  have "unat a < 2 ^ LENGTH(32)" by (rule unsigned_less)
  then have "unat a div 2 ^ 24 < 256" by (simp add: less_mult_imp_div_less)
  then show "unat (drop_bit 24 a) < 256" by (simp only: unsigned_drop_bit_eq) (simp add: drop_bit_eq_div take_bit_eq_mod)
qed

lemma inet_ntoa_length: "length (inet_ntoa a) \<le> 15"
  using dec_byte [OF octet_of_u32(1) [of a]] dec_byte [OF octet_of_u32(1) [of "drop_bit 8 a"]]
    dec_byte [OF octet_of_u32(1) [of "drop_bit 16 a"]] dec_byte [OF octet_of_u32(2) [of a]]
  by (simp add: inet_ntoa_def)

end
