(* ===== verification/Syslog.thy ===== *)
theory Syslog
  imports Cstring Scan
begin

text \<open>
  The warnings of libnids as text: \<open>nids_syslog\<close> of \<open>src/libnids/libnids.c\<close>, the default value of
  \<open>nids_params.syslog\<close>.  The value is the text that goes to the log; \<open>None\<close> is a read outside the packet
  or a write behind the 1024 characters of \<open>buf\<close>.
\<close>

section \<open>Texts\<close>

fun nids_warnings :: "nids_warn \<Rightarrow> string" where
  "nids_warnings NIDS_WARN_UNDEFINED = ''Murphy - you never should see this message !''"
| "nids_warnings NIDS_WARN_IP_OVERSIZED = ''Oversized IP packet''"
| "nids_warnings NIDS_WARN_IP_INVLIST = ''Invalid IP fragment list: fragment over size''"
| "nids_warnings NIDS_WARN_IP_OVERLAP = ''Overlapping IP fragments''"
| "nids_warnings NIDS_WARN_IP_HDR = ''Invalid IP header''"
| "nids_warnings NIDS_WARN_IP_SRR = ''Source routed IP frame''"
| "nids_warnings NIDS_WARN_TCP_TOOMUCH = ''Max number of TCP streams reached''"
| "nids_warnings NIDS_WARN_TCP_HDR = ''Invalid TCP header''"
| "nids_warnings NIDS_WARN_TCP_BIGQUEUE = ''Too much data in TCP receive queue''"
| "nids_warnings NIDS_WARN_TCP_BADFLAGS = ''Invalid TCP flags''"

text \<open>What the last argument points to.\<close>

datatype syslog_data = No_Data | Tcp_Data bytes | Host_Data host

text \<open>\<open>strcat\<close> and \<open>sprintf(buf + strlen(buf), ...)\<close>: the terminating NUL needs a place too.\<close>

definition buf_cat :: "string \<Rightarrow> string \<Rightarrow> string option" where
  "buf_cat buf s = (if length buf + length s < 1024 then Some (buf @ s) else None)"

fun scan_ports_loop :: "scan_entry list \<Rightarrow> string \<Rightarrow> u8 \<Rightarrow> u8 \<Rightarrow> (string \<times> u8 \<times> u8) option" where
  "scan_ports_loop [] buf flagsand flagsor = Some (buf, flagsand, flagsor)"
| "scan_ports_loop (e # r) buf flagsand flagsor = do {
     buf1 \<leftarrow> buf_cat buf (inet_ntoa (scan_addr e));
     buf2 \<leftarrow> buf_cat buf1 ('':'' @ fmt_hu (scan_port e) @ '','');
     scan_ports_loop r buf2 (flagsand AND scan_flags e) (flagsor OR scan_flags e) }"

definition scan_kind :: "u8 \<Rightarrow> u8 \<Rightarrow> string" where
  "scan_kind flagsand flagsor =
     (if flagsand = flagsor then
        (if flagsand = 2 then ''scan type: SYN''
         else if flagsand = 0 then ''scan type: NULL''
         else if flagsand = 1 then ''scan type: FIN''
         else ''flags=0x'' @ fmt_x (ucast flagsand))
      else ''various flags'')"

definition nids_syslog :: "nids_warn_type \<Rightarrow> nids_warn \<Rightarrow> bytes \<Rightarrow> syslog_data \<Rightarrow> string option" where
  "nids_syslog type errnum iph data =
     (case type of
        NIDS_WARN_IP \<Rightarrow>
          if errnum \<noteq> NIDS_WARN_IP_HDR then do {
            src \<leftarrow> rd_le32 iph 12;
            dst \<leftarrow> rd_le32 iph 16;
            Some (nids_warnings errnum @ '', packet (apparently) from '' @ inet_ntoa src @ '' to '' @ inet_ntoa dst @ [CHR 0x0A]) }
          else Some (nids_warnings errnum @ [CHR 0x0A])
      | NIDS_WARN_TCP \<Rightarrow> do {
          src \<leftarrow> rd_le32 iph 12;
          dst \<leftarrow> rd_le32 iph 16;
          if errnum \<noteq> NIDS_WARN_TCP_HDR then
            (case data of
               Tcp_Data th \<Rightarrow> do {
                 sp \<leftarrow> rd_be16 th 0;
                 dp \<leftarrow> rd_be16 th 2;
                 Some (nids_warnings errnum @ '',from '' @ inet_ntoa src @ '':'' @ fmt_hu sp @ '' to  '' @ inet_ntoa dst @ '':'' @ fmt_hu dp @ [CHR 0x0A]) }
             | _ \<Rightarrow> None)
          else Some (nids_warnings errnum @ '',from '' @ inet_ntoa src @ '' to '' @ inet_ntoa dst @ [CHR 0x0A]) }
      | NIDS_WARN_SCAN \<Rightarrow>
          (case data of
             Host_Data h \<Rightarrow> do {
               buf \<leftarrow> buf_cat [] (''Scan from '' @ inet_ntoa (host_addr h) @ ''. Scanned ports: '');
               (buf1, flagsand, flagsor) \<leftarrow> scan_ports_loop (host_packets h) buf 255 0;
               buf_cat buf1 (scan_kind flagsand flagsor) }
           | _ \<Rightarrow> None)
      | NIDS_WARN_UDP \<Rightarrow> Some (''Unknown warning number ?'' @ [CHR 0x0A]))"

section \<open>The text of a scan alarm\<close>

definition target_text :: "scan_entry \<Rightarrow> string" where
  "target_text e = inet_ntoa (scan_addr e) @ '':'' @ fmt_hu (scan_port e) @ '',''"

definition scan_text :: "host \<Rightarrow> string" where
  "scan_text h = ''Scan from '' @ inet_ntoa (host_addr h) @ ''. Scanned ports: '' @ concat (map target_text (host_packets h)) @
     scan_kind (foldl (AND) 255 (map scan_flags (host_packets h))) (foldl (OR) 0 (map scan_flags (host_packets h)))"

lemma target_text_length: "length (target_text e) \<le> 22"
  using inet_ntoa_length [of "scan_addr e"] fmt_hu_length [of "scan_port e"] by (simp add: target_text_def)

lemma targets_text_length: "length (concat (map target_text es)) \<le> 22 * length es"
proof (induction es)
  case (Cons e es)
  then show ?case using target_text_length [of e] by simp
qed simp

lemma buf_cat_target:
  "Option.bind (buf_cat buf (inet_ntoa (scan_addr e))) (\<lambda>b. buf_cat b ('':'' @ fmt_hu (scan_port e) @ '','')) = buf_cat buf (target_text e)"
  by (auto simp: buf_cat_def target_text_def)

lemma scan_ports_loop_Cons:
  "scan_ports_loop (e # r) buf fa fo =
     Option.bind (buf_cat buf (target_text e)) (\<lambda>b. scan_ports_loop r b (fa AND scan_flags e) (fo OR scan_flags e))"
  by (simp only: scan_ports_loop.simps buf_cat_target [symmetric] bind_assoc)

lemma scan_ports_loop_exact:
  "scan_ports_loop es buf fa fo =
     (if es \<noteq> [] \<and> 1024 \<le> length buf + length (concat (map target_text es)) then None
      else Some (buf @ concat (map target_text es), foldl (AND) fa (map scan_flags es), foldl (OR) fo (map scan_flags es)))"
proof (induction es arbitrary: buf fa fo)
  case (Cons e es)
  show ?case unfolding scan_ports_loop_Cons by (auto simp: buf_cat_def Cons.IH)
qed simp

lemma scan_kind_length: "length (scan_kind fa fo) \<le> 15"
proof -
  have "unat (ucast fa :: u32) < 16 ^ Suc 1" using unat_u8_less [of fa] by simp
  then have "length (fmt_x (ucast fa)) \<le> 2" unfolding fmt_x_def using numeral_text_length [of 16 "unat (ucast fa :: u32)" 1] by simp
  then show ?thesis by (auto simp: scan_kind_def)
qed

lemma nids_syslog_scan:
  "nids_syslog NIDS_WARN_SCAN errnum iph (Host_Data h) = (if length (scan_text h) < 1024 then Some (scan_text h) else None)"
  using inet_ntoa_length [of "host_addr h"] scan_kind_length
  by (auto simp: nids_syslog_def buf_cat_def scan_ports_loop_exact scan_text_def)

lemma scan_text_length: "length (scan_text h) \<le> 57 + 22 * length (host_packets h)"
  using inet_ntoa_length [of "host_addr h"] targets_text_length [of "host_packets h"]
    scan_kind_length [of "foldl (AND) 255 (map scan_flags (host_packets h))" "foldl (OR) 0 (map scan_flags (host_packets h))"]
  by (simp add: scan_text_def)

section \<open>Properties\<close>

text \<open>An alarm of SYN packets between the longest addresses and ports.\<close>

definition longest_texts :: "host \<Rightarrow> bool" where
  "longest_texts h \<longleftrightarrow> length (inet_ntoa (host_addr h)) = 15 \<and>
     (\<forall>e \<in> set (host_packets h). length (inet_ntoa (scan_addr e)) = 15 \<and> length (fmt_hu (scan_port e)) = 5 \<and> scan_flags e = 2)"

lemma foldl_flags:
  assumes "\<forall>x \<in> set xs. x = (2 :: u8)" and "xs \<noteq> []"
  shows "foldl (AND) 255 xs = 2" "foldl (OR) 0 xs = 2"
proof -
  have r: "xs = replicate (length xs) 2" using replicate_length_same [of xs 2] assms(1) by simp
  have "foldl (AND) (2 :: u8) (replicate n 2) = 2" "foldl (OR) (2 :: u8) (replicate n 2) = 2" for n by (induction n) simp_all
  moreover obtain n where "length xs = Suc n" using assms(2) by (cases xs) auto
  ultimately show "foldl (AND) 255 xs = 2" "foldl (OR) 0 xs = 2" by (subst r, simp)+
qed

lemma longest_scan_text:
  assumes "longest_texts h" and "host_packets h \<noteq> []"
  shows "length (scan_text h) = 56 + 22 * length (host_packets h)"
proof -
  have "length (concat (map target_text es)) = 22 * length es" if "\<forall>e \<in> set es. length (target_text e) = 22" for es
    using that by (induction es) simp_all
  then have "length (concat (map target_text (host_packets h))) = 22 * length (host_packets h)"
    using assms(1) by (simp add: longest_texts_def target_text_def)
  moreover have "length (scan_kind (foldl (AND) 255 (map scan_flags (host_packets h))) (foldl (OR) 0 (map scan_flags (host_packets h)))) = 14"
    using assms by (subst foldl_flags, auto simp: longest_texts_def)+ (simp add: foldl_flags scan_kind_def)
  ultimately show ?thesis using assms(1) by (simp add: scan_text_def longest_texts_def)
qed

text \<open>
  C37.  The text of an alarm that the port scan detector raises.  As long as \<open>scan_num_ports\<close> is at most 42
  it fits into the 1024 characters of \<open>buf\<close>, and it is the text with every recorded target.  With
  \<open>scan_num_ports\<close> of 43 or more, an alarm of a SYN scan between addresses of 15 characters and ports of
  five digits is written behind the end of \<open>buf\<close>.  The detector requires a source other than 0.0.x.y with
  \<open>y \<ge> 128\<close> (\<open>hash_safe\<close>).
\<close>

theorem scan_alarm_text:
  assumes "prm_ok prm" and "clock_ok clk (time0 s)" and "scan_wf prm clk s" and "tcp_readable pkt" and "hash_safe (src_of pkt)"
    and "detect_scan prm clk pkt s = Some (s', Some h)"
  shows "(scan_num_ports prm \<le> 42 \<longrightarrow> nids_syslog NIDS_WARN_SCAN errnum iph (Host_Data h) = Some (scan_text h)) \<and>
    (43 \<le> scan_num_ports prm \<and> longest_texts h \<longrightarrow> nids_syslog NIDS_WARN_SCAN errnum iph (Host_Data h) = None)"
proof -
  obtain t chain j h3 s3 where "detected prm clk pkt s t chain j h3 s3 (Some h)"
    using detect_scan_detected [OF assms(1-5)] assms(6) by auto
  then have n: "int (length (host_packets h)) = scan_num_ports prm + 1" by (simp add: detected_def Let_def alarm_ok_def)
  have "scan_num_ports prm \<le> 42 \<Longrightarrow> length (scan_text h) < 1024" using n scan_text_length [of h] by linarith
  moreover have "1024 \<le> length (scan_text h)" if "43 \<le> scan_num_ports prm" "longest_texts h"
  proof -
    have "host_packets h \<noteq> []" using that(1) n by auto
    then show ?thesis using longest_scan_text [OF that(2)] that(1) n by linarith
  qed
  ultimately show ?thesis by (auto simp: nids_syslog_scan)
qed

text \<open>
  Two alarms: with no port allowed the first packet raises one; and a host 100.100.100.100 that has
  sent SYN packets to the ports 10000 to 10042 of 100.100.100.100, when \<open>scan_num_ports\<close> is 43, raises one with
  its packet to port 10043.
\<close>

definition prm43 :: nids_prm where
  "prm43 = nids_params0\<lparr>scan_num_hosts := 1, scan_num_ports := 43\<rparr>"

definition port_entry :: "nat \<Rightarrow> scan_entry" where
  "port_entry n = \<lparr>scan_addr = 0x64646464, scan_port = of_nat n, scan_flags = 2\<rparr>"

definition port_entries :: "nat \<Rightarrow> scan_entry list" where
  "port_entries n = map (\<lambda>k. port_entry (10000 + k)) [0..<n]"

definition scanning_host :: "int \<Rightarrow> nat \<Rightarrow> host" where
  "scanning_host t n = \<lparr>host_addr = 0x64646464, host_modtime = t, host_packets = port_entries n\<rparr>"

definition scan43 :: scan_state where
  "scan43 = \<lparr>hashhost = Some [[scanning_host 0 43]], time0 = 0, timenow = 0, clock_reads = 0\<rparr>"

definition packet43 :: bytes where
  "packet43 = [0x45, 0, 0, 40, 0, 0, 0, 0, 64, 6, 0, 0, 100, 100, 100, 100, 100, 100, 100, 100] @ [0, 9, 0x27, 0x3b] @ replicate 16 2"

lemma unat_u16: "k < 65536 \<Longrightarrow> unat (of_nat k :: u16) = k"
  by (simp add: unat_of_nat take_bit_nat_eq_self)

lemma u16_of_nat_inj: "m < 65536 \<Longrightarrow> n < 65536 \<Longrightarrow> (of_nat m :: u16) = of_nat n \<Longrightarrow> m = n"
proof -
  assume m: "m < 65536" and n: "n < 65536" and e: "(of_nat m :: u16) = of_nat n"
  have "m = unat (of_nat m :: u16)" by (rule unat_u16 [OF m, symmetric])
  also have "\<dots> = unat (of_nat n :: u16)" by (rule arg_cong [OF e])
  also have "\<dots> = n" by (rule unat_u16 [OF n])
  finally show "m = n" .
qed

lemma port_entries_props:
  assumes "n \<le> 50000"
  shows "length (port_entries n) = n" "distinct (map target (port_entries n))" "port_entries (Suc n) = port_entries n @ [port_entry (10000 + n)]"
    "\<not> (\<exists>e \<in> set (port_entries n). same_target 0x64646464 (of_nat (10000 + n)) e)"
proof -
  show "length (port_entries n) = n" by (simp add: port_entries_def)
  have "inj_on (\<lambda>k. target (port_entry (10000 + k))) {0..<n}"
  proof (rule inj_onI)
    fix j k assume "j \<in> {0..<n}" "k \<in> {0..<n}" "target (port_entry (10000 + j)) = target (port_entry (10000 + k))"
    then show "j = k" using u16_of_nat_inj [of "10000 + j" "10000 + k"] assms by (simp add: target_def port_entry_def)
  qed
  then show "distinct (map target (port_entries n))" by (simp add: port_entries_def distinct_map comp_def)
  show "port_entries (Suc n) = port_entries n @ [port_entry (10000 + n)]" by (simp add: port_entries_def)
  show "\<not> (\<exists>e \<in> set (port_entries n). same_target 0x64646464 (of_nat (10000 + n)) e)"
  proof
    assume "\<exists>e \<in> set (port_entries n). same_target 0x64646464 (of_nat (10000 + n)) e"
    then obtain k where "k < n" "(of_nat (10000 + k) :: u16) = of_nat (10000 + n)"
      by (auto simp: port_entries_def same_target_def port_entry_def)
    then show False using u16_of_nat_inj [of "10000 + k" "10000 + n"] assms by simp
  qed
qed

lemma scan_hash_one: "scan_hash prm43 a = 0"
  by (simp add: scan_hash_def prm43_def smod_int_alt_def)

lemma scan43_wf: "scan_wf prm43 tick scan43"
  using port_entries_props(1,2) [of 43]
  by (simp add: scan_wf_def scan43_def chain_wf_def host_wf_def scanning_host_def time_wf_def clock_ms_def tick_def scan_hash_one)
    (simp add: prm43_def i32_def)

lemma packet43_alarm: "\<exists>s' t. detect_scan prm43 tick packet43 scan43 = Some (s', Some (scanning_host t 44))"
proof -
  have rd: "rd8 packet43 0 = Some 0x45" "rd_le32 packet43 12 = Some 0x64646464" "rd_le32 packet43 16 = Some 0x64646464"
    "rd_be16 packet43 22 = Some 10043" "rd8 packet43 33 = Some 2" by code_simp+
  have new: "\<not> (\<exists>e \<in> set (port_entries 43). same_target 0x64646464 10043 e)"
    and up: "port_entries 44 = port_entries 43 @ [port_entry 10043]" and n: "length (port_entries 43) = 43"
    using port_entries_props [of 43] by simp_all
  have g: "get_host tick 0x64646464 [scanning_host 0 43] s = Some ([scanning_host 0 43], 0, s)" for s
    by (simp add: get_host_def scanning_host_def)
  have r: "record_target prm43 0x64646464 10043 (Some 2) ((scanning_host 0 43)\<lparr>host_modtime := t\<rparr>) =
      Some ((scanning_host t 44)\<lparr>host_packets := []\<rparr>, Some (scanning_host t 44))" for t
    using new n by (simp add: record_target_def scanning_host_def up port_entry_def prm43_def)
  obtain t2 s2 where g2: "gettime tick (scan43\<lparr>timenow := 0\<rparr>) = (t2, s2)" by (metis prod.exhaust)
  obtain t3 s3 where g3: "gettime tick s2 = (t3, s3)" by (metis prod.exhaust)
  have i: "\<not> i32 (host_modtime (scanning_host 0 43) - t2) > scan_delay prm43"
    using g2 by (auto simp: gettime_def Let_def scan43_def scanning_host_def clock_ms_def tick_def prm43_def nids_params0_def i32_def)
  have nh: "\<not> scan_num_hosts prm43 \<le> 0" by (simp add: prm43_def)
  have h0: "hashhost scan43 = Some [[scanning_host 0 43]]" by (simp add: scan43_def)
  show ?thesis
    using rd(4,5) r i unfolding detect_scan_def if_not_P [OF nh] rd(1,2) bind.bind_lunit h0 Let_def
    by (auto simp: scan_hash_one g g2 g3 rd(3))
qed

lemma dec_length: "10 ^ k \<le> n \<Longrightarrow> n < 10 ^ Suc k \<Longrightarrow> length (dec n) = Suc k"
proof (induction k arbitrary: n)
  case 0
  then show ?case by (simp add: numeral_text.simps)
next
  case (Suc k)
  have "10 ^ k \<le> n div 10" "n div 10 < 10 ^ Suc k" using Suc.prems
    by (simp_all add: less_eq_div_iff_mult_less_eq div_less_iff_less_mult mult.commute)
  moreover have "\<not> n < 10" using mult_le_mono2 [OF one_le_power [of "10 :: nat" k], of 10] Suc.prems(1) unfolding power_Suc by linarith
  ultimately show ?case using Suc.IH by (subst numeral_text.simps) simp
qed

lemma scanning_host_longest:
  assumes "n \<le> 50000"
  shows "longest_texts (scanning_host t n)"
proof -
  have d: "dec 100 = ''100''" by (simp add: numeral_text.simps digit_char_def)
  have "length (inet_ntoa 0x64646464) = 15" by (simp add: inet_ntoa_def d)
  moreover have "length (fmt_hu (of_nat (10000 + k))) = 5" if "k \<le> 50000" for k
  proof -
    have "unat (of_nat (10000 + k) :: u16) = 10000 + k" by (rule unat_u16) (use that in linarith)
    then show ?thesis using dec_length [of 4 "10000 + k"] that unfolding fmt_hu_def by simp
  qed
  ultimately show ?thesis using assms by (auto simp: longest_texts_def scanning_host_def port_entries_def port_entry_def)
qed

theorem scan_alarm_text_witness:
  "\<exists>s1 h1 s2 h2. detect_scan (nids_params0\<lparr>scan_num_ports := 0\<rparr>) tick syn_packet
       (scan_init (nids_params0\<lparr>scan_num_ports := 0\<rparr>) tick scan_start) = Some (s1, Some h1) \<and>
     nids_syslog NIDS_WARN_SCAN NIDS_WARN_UNDEFINED [] (Host_Data h1) = Some (scan_text h1) \<and>
     detect_scan prm43 tick packet43 scan43 = Some (s2, Some h2) \<and> length (host_packets h2) = 44 \<and>
     nids_syslog NIDS_WARN_SCAN NIDS_WARN_UNDEFINED [] (Host_Data h2) = None"
proof -
  let ?prm = "nids_params0\<lparr>scan_num_ports := 0\<rparr>" and ?s = "scan_init (nids_params0\<lparr>scan_num_ports := 0\<rparr>) tick scan_start"
  have p: "prm_ok ?prm" "prm_ok prm43" by (simp_all add: prm_ok_def nids_params0_def prm43_def)
  have c: "clock_ok tick (time0 ?s)" "clock_ok tick (time0 scan43)"
    using tick_ok by (simp_all add: scan_init_def scan_start_def nids_params0_def tick_def) (simp add: scan43_def)
  have r: "tcp_readable syn_packet" "hash_safe (src_of syn_packet)" "tcp_readable packet43" "hash_safe (src_of packet43)" by code_simp+
  have w: "scan_wf ?prm tick ?s" by (rule scan_wf_init(1) [OF p(1)])
  obtain t chain j h3 s3 al where d: "detected ?prm tick syn_packet ?s t chain j h3 s3 al"
      and e: "\<exists>s'. detect_scan ?prm tick syn_packet ?s = Some (s', al)"
    using detect_scan_detected [OF p(1) c(1) w r(1,2)] by blast
  have "host_wf ?prm (chain ! j)" using d by (auto simp: detected_def Let_def chain_wf_def)
  then have "host_packets (chain ! j) = []" by (simp add: host_wf_def)
  then have "al \<noteq> None" using d by (auto simp: detected_def Let_def scan_spec_def)
  then obtain s1 h1 where h1: "detect_scan ?prm tick syn_packet ?s = Some (s1, Some h1)" using e by auto
  obtain s2 u where h2: "detect_scan prm43 tick packet43 scan43 = Some (s2, Some (scanning_host u 44))" using packet43_alarm by blast
  have "nids_syslog NIDS_WARN_SCAN NIDS_WARN_UNDEFINED [] (Host_Data h1) = Some (scan_text h1)"
    using scan_alarm_text [OF p(1) c(1) w r(1,2) h1] by simp
  moreover have "scan_num_ports prm43 = 43" by (simp add: prm43_def)
  then have "nids_syslog NIDS_WARN_SCAN NIDS_WARN_UNDEFINED [] (Host_Data (scanning_host u 44)) = None"
    using scan_alarm_text [OF p(2) c(2) scan43_wf r(3,4) h2] scanning_host_longest [of 44 u] by simp
  moreover have "length (host_packets (scanning_host u 44)) = 44" using port_entries_props(1) [of 44] by (simp add: scanning_host_def)
  ultimately show ?thesis using h1 h2 by blast
qed

end
