(* ===== verification/Sniffer_App.thy ===== *)
theory Sniffer_App
  imports Syslog Sniffer_Cb Libnids
begin

text \<open>
  The capture process, \<open>src/sniffer/Sniffer.cpp\<close>, with the packets it reports (\<open>include/Packet.h\<close>,
  \<open>src/Packet.cpp\<close>): the callbacks it registers with libnids, the parsing of its arguments and its
  start.  A report is the packet handed to \<open>notify_packet\<close>; \<open>None\<close> is a read or write outside a block.
  The members that a constructor leaves alone keep what was in that memory, the argument \<open>junk\<close>.
\<close>

section \<open>Packets\<close>

record packet =
  m_src_ip :: string
  m_dest_ip :: string
  m_acked :: int
  m_seq :: int
  m_ack_seq :: int
  m_window :: int
  m_src_port :: int
  m_dest_port :: int
  m_extra :: int
  m_event :: int
  m_length :: int
  m_type :: int
  m_data :: bytes

abbreviation (input) BUFFER_UNIT_SIZE :: nat where "BUFFER_UNIT_SIZE \<equiv> 65536"

abbreviation (input) ENV_NEW_TCP_CONNECTION :: int where "ENV_NEW_TCP_CONNECTION \<equiv> 0"
abbreviation (input) ENV_TCP_CONNECTION_CLOSE :: int where "ENV_TCP_CONNECTION_CLOSE \<equiv> 1"
abbreviation (input) ENV_NEW_DATA_FROM_SERVER :: int where "ENV_NEW_DATA_FROM_SERVER \<equiv> 2"
abbreviation (input) ENV_NEW_DATA_TO_SERVER :: int where "ENV_NEW_DATA_TO_SERVER \<equiv> 3"
abbreviation (input) ENV_TCP_CONNECTION_CLOSED_BY_RST :: int where "ENV_TCP_CONNECTION_CLOSED_BY_RST \<equiv> 4"
abbreviation (input) ENV_NEW_UDP_DATA :: int where "ENV_NEW_UDP_DATA \<equiv> 5"
abbreviation (input) ENV_ERROR_FILTER_EXPR :: int where "ENV_ERROR_FILTER_EXPR \<equiv> 7"
abbreviation (input) ENV_WARN_IP :: int where "ENV_WARN_IP \<equiv> 8"
abbreviation (input) ENV_WARN_TCP :: int where "ENV_WARN_TCP \<equiv> 9"
abbreviation (input) ENV_WARN_SCAN :: int where "ENV_WARN_SCAN \<equiv> 10"

definition new_packet :: "packet \<Rightarrow> packet" where
  "new_packet junk = junk\<lparr>m_src_ip := '''', m_dest_ip := ''''\<rparr>"

text \<open>\<open>strcpy\<close> into one of the address arrays of 16 characters, and \<open>memcpy\<close> to the start of \<open>m_data\<close>.\<close>

definition ip_cpy :: "string \<Rightarrow> string option" where
  "ip_cpy s = (if length s < 16 then Some s else None)"

definition data_cpy :: "bytes \<Rightarrow> bytes \<Rightarrow> bytes option" where
  "data_cpy old xs = (if length xs \<le> BUFFER_UNIT_SIZE then Some (xs @ drop (length xs) old) else None)"

definition do_copy :: "packet \<Rightarrow> packet \<Rightarrow> packet option" where
  "do_copy src dst = do {
     s \<leftarrow> ip_cpy (m_src_ip src);
     d \<leftarrow> ip_cpy (m_dest_ip src);
     xs \<leftarrow> (if m_length src < 0 then None else Tcp_Queue.slice (m_data src) 0 (m_length src));
     b \<leftarrow> data_cpy (m_data dst) xs;
     Some (src\<lparr>m_src_ip := s, m_dest_ip := d, m_data := b\<rparr>) }"

text \<open>\<open>operator=\<close> and \<open>copy_ptr\<close> on packets with addresses: nothing happens when both are one packet.\<close>

definition copy_ptr :: "(nat \<Rightarrow> packet) \<Rightarrow> nat option \<Rightarrow> nat option \<Rightarrow> (nat \<Rightarrow> packet) option" where
  "copy_ptr mem src dest =
     (case (src, dest) of
        (Some p, Some q) \<Rightarrow> if p = q then Some mem else do { r \<leftarrow> do_copy (mem p) (mem q); Some (mem(q := r)) }
      | _ \<Rightarrow> Some mem)"

section \<open>Warnings\<close>

fun warn_number :: "nids_warn \<Rightarrow> int" where
  "warn_number NIDS_WARN_UNDEFINED = 0"
| "warn_number NIDS_WARN_IP_OVERSIZED = 1"
| "warn_number NIDS_WARN_IP_INVLIST = 2"
| "warn_number NIDS_WARN_IP_OVERLAP = 3"
| "warn_number NIDS_WARN_IP_HDR = 4"
| "warn_number NIDS_WARN_IP_SRR = 5"
| "warn_number NIDS_WARN_TCP_TOOMUCH = 6"
| "warn_number NIDS_WARN_TCP_HDR = 7"
| "warn_number NIDS_WARN_TCP_BIGQUEUE = 8"
| "warn_number NIDS_WARN_TCP_BADFLAGS = 9"

definition my_nids_syslog :: "packet \<Rightarrow> nids_warn_type \<Rightarrow> nids_warn \<Rightarrow> bytes \<Rightarrow> syslog_data \<Rightarrow> packet option option" where
  "my_nids_syslog junk type errnum iph data =
     (case type of
        NIDS_WARN_IP \<Rightarrow> do {
          src \<leftarrow> rd_le32 iph 12;
          dst \<leftarrow> rd_le32 iph 16;
          s \<leftarrow> ip_cpy (inet_ntoa src);
          d \<leftarrow> ip_cpy (inet_ntoa dst);
          Some (Some ((new_packet junk)\<lparr>m_type := 0, m_event := ENV_WARN_IP, m_length := 0, m_extra := warn_number errnum,
                        m_src_ip := s, m_dest_ip := d\<rparr>)) }
      | NIDS_WARN_TCP \<Rightarrow>
          (case data of
             Tcp_Data th \<Rightarrow> do {
               sp \<leftarrow> rd_be16 th 0;
               dp \<leftarrow> rd_be16 th 2;
               src \<leftarrow> rd_le32 iph 12;
               dst \<leftarrow> rd_le32 iph 16;
               s \<leftarrow> ip_cpy (inet_ntoa src);
               d \<leftarrow> ip_cpy (inet_ntoa dst);
               Some (Some ((new_packet junk)\<lparr>m_type := 0, m_event := ENV_WARN_TCP, m_length := 0, m_extra := warn_number errnum,
                             m_src_port := uint sp, m_dest_port := uint dp, m_src_ip := s, m_dest_ip := d\<rparr>)) }
           | _ \<Rightarrow> None)
      | NIDS_WARN_SCAN \<Rightarrow>
          (case data of
             Host_Data h \<Rightarrow> do {
               buf \<leftarrow> buf_cat [] (''Scan from '' @ inet_ntoa (host_addr h) @ ''.'');
               let fl = map scan_flags (host_packets h);
               buf1 \<leftarrow> buf_cat buf (scan_kind (foldl (AND) 255 fl) (foldl (OR) 0 fl));
               b \<leftarrow> data_cpy (m_data junk) (map of_char buf1 @ [0]);
               Some (Some ((new_packet junk)\<lparr>m_type := 0, m_event := ENV_WARN_SCAN, m_length := int (length buf1), m_data := b\<rparr>)) }
           | _ \<Rightarrow> None)
      | NIDS_WARN_UDP \<Rightarrow> Some None)"

section \<open>Callbacks\<close>

definition adres :: "tuple4 \<Rightarrow> string" where
  "adres addr = inet_ntoa (t_saddr addr) @ '','' @ fmt_d (uint (t_source addr)) @ '','' @
     inet_ntoa (t_daddr addr) @ '','' @ fmt_d (uint (t_dest addr))"

text \<open>Event, ports and addresses of a report on a connection.\<close>

definition tuple_packet :: "packet \<Rightarrow> int \<Rightarrow> int \<Rightarrow> tuple4 \<Rightarrow> packet option" where
  "tuple_packet junk type event addr = do {
     s \<leftarrow> ip_cpy (inet_ntoa (t_saddr addr));
     d \<leftarrow> ip_cpy (inet_ntoa (t_daddr addr));
     Some ((new_packet junk)\<lparr>m_type := type, m_event := event, m_src_port := uint (t_source addr), m_dest_port := uint (t_dest addr),
             m_src_ip := s, m_dest_ip := d\<rparr>) }"

text \<open>
  What \<open>tcp_callback\<close> reports; what it asks of the stream is \<open>sniffer_cb\<close>.  The member \<open>acked\<close> of a half
  stream is never assigned after \<open>add_new_tcp\<close> cleared it.
\<close>

definition tcp_callback :: "packet \<Rightarrow> tcp_stream \<Rightarrow> packet option option" where
  "tcp_callback junk a =
     (if s_nids_state a = NIDS_JUST_EST then do {
        p \<leftarrow> tuple_packet junk 0 ENV_NEW_TCP_CONNECTION (s_addr a);
        Some (Some (p\<lparr>m_length := 0\<rparr>)) }
      else if s_nids_state a = NIDS_CLOSE \<or> s_nids_state a = NIDS_RESET then do {
        p \<leftarrow> tuple_packet junk 0 (if s_nids_state a = NIDS_CLOSE then ENV_TCP_CONNECTION_CLOSE else ENV_TCP_CONNECTION_CLOSED_BY_RST) (s_addr a);
        Some (Some (p\<lparr>m_length := 0\<rparr>)) }
      else if s_nids_state a = NIDS_DATA then
        (if h_count_new_urg (s_server a) then Some None
         else do {
           let toServer = (h_count_new (s_client a) = 0);
           let hlf = (if toServer then s_server a else s_client a);
           p \<leftarrow> tuple_packet junk 0 (if toServer then ENV_NEW_DATA_TO_SERVER else ENV_NEW_DATA_FROM_SERVER) (s_addr a);
           xs \<leftarrow> (if h_count_new hlf = 0 then Some [] else Option.bind (h_data hlf) (\<lambda>b. Tcp_Queue.slice b 0 (h_count_new hlf)));
           b \<leftarrow> data_cpy (m_data p) xs;
           Some (Some (p\<lparr>m_length := h_count_new hlf, m_ack_seq := uint (h_ack_seq hlf), m_acked := 0, m_seq := uint (h_seq hlf),
                         m_window := uint (h_window hlf), m_data := b\<rparr>)) })
      else Some None)"

definition udp_callback :: "packet \<Rightarrow> tuple4 \<Rightarrow> bytes \<Rightarrow> packet option option" where
  "udp_callback junk addr buf =
     (if length buf = 0 then Some None
      else do {
        p \<leftarrow> tuple_packet junk 1 ENV_NEW_UDP_DATA addr;
        b \<leftarrow> data_cpy (m_data p) buf;
        Some (Some (p\<lparr>m_length := int (length buf), m_data := b\<rparr>)) })"

section \<open>Arguments\<close>

abbreviation (input) NUL :: char where "NUL \<equiv> CHR 0x00"

text \<open>\<open>strcat(mem + off, s)\<close> in a block of characters.\<close>

definition strcat_at :: "string \<Rightarrow> nat \<Rightarrow> string \<Rightarrow> string option" where
  "strcat_at mem off s =
     (let k = off + length (takeWhile (\<lambda>c. c \<noteq> NUL) (drop off mem)) in
      if k + length s < length mem then Some (take k mem @ s @ NUL # drop (Suc (k + length s)) mem) else None)"

fun filter_words :: "string list \<Rightarrow> string \<Rightarrow> nat \<Rightarrow> (string \<times> nat) option" where
  "filter_words [] mem len = Some (mem, len)"
| "filter_words (w # r) mem len =
     (if w = ''pend'' then Some (mem, len)
      else do {
        m1 \<leftarrow> strcat_at mem len w;
        m2 \<leftarrow> strcat_at m1 (len + length w) '' '';
        filter_words r m2 (len + length w + 1) })"

text \<open>The text the pointer \<open>pcap_filter\<close> stands for at the end, starting from the fresh block of 256 characters.\<close>

definition filter_arg :: "string \<Rightarrow> string list \<Rightarrow> string option" where
  "filter_arg fresh args = do {
     (mem, len) \<leftarrow> filter_words args fresh 0;
     if len < length mem then Some (takeWhile (\<lambda>c. c \<noteq> NUL) (mem[len := NUL])) else None }"

text \<open>\<open>fresh n\<close> is the memory \<open>new\<close> returns when \<open>n\<close> arguments are left.\<close>

fun parse_param :: "(nat \<Rightarrow> string) \<Rightarrow> string list \<Rightarrow> nids \<Rightarrow> nids option" where
  "parse_param fresh [] s = Some s"
| "parse_param fresh (opt # r) s = do {
     s1 \<leftarrow> (if opt = ''-p'' then do { f \<leftarrow> filter_arg (fresh (length r)) r; Some (s\<lparr>nd_filter := Some f\<rparr>) } else Some s);
     let s2 = (if opt = ''-checksum''
               then s1\<lparr>nd_prm := (nd_prm s1)\<lparr>checksum := (if r = [] \<or> hd r = ''1'' then 1 else 0)\<rparr>\<rparr> else s1);
     parse_param fresh r s2 }"

section \<open>Start\<close>

definition close_checksum :: "nids \<Rightarrow> nids" where
  "close_checksum s = s\<lparr>nd_chk := nids_register_chksum_ctl [\<lparr>netaddr = 0, ctl_mask = 0, action = 1, reserved = 0\<rparr>] 1\<rparr>"

text \<open>The callbacks are item 1 of their lists.  \<open>Inl 1\<close> is \<open>exit(1)\<close>; otherwise the reports sent and the state.\<close>

definition prepare_sniffer :: "nids_env \<Rightarrow> pcap_io \<Rightarrow> packet \<Rightarrow> nids \<Rightarrow> (int + packet list \<times> nids) option" where
  "prepare_sniffer env io junk s = do {
     let s1 = (if checksum (nd_prm s) = 0 then close_checksum s else s);
     let s2 = s1\<lparr>nd_prm := (nd_prm s1)\<lparr>promisc := 1\<rparr>\<rparr>;
     (ret, s3) \<leftarrow> nids_init env io s2;
     if ret < 0 then Some (Inl 1)
     else Some (Inr (if ret = 2 then [(new_packet junk)\<lparr>m_type := 1, m_event := ENV_ERROR_FILTER_EXPR, m_length := 0\<rparr>] else [],
                     nids_register_udp 1 (s3\<lparr>nd_tcp := nids_register_tcp 1 (nd_tcp s3)\<rparr>))) }"

end
