(* ===== verification/Sniffer_Props.thy ===== *)
theory Sniffer_Props
  imports Sniffer_App Libnids_Props
begin

text \<open>
  The capture process: what it reports of a datagram and of a stream, how it reads its arguments, that a
  whole run of it is safe, and a warning that it reports with a read behind a short capture.
\<close>

section \<open>Reports\<close>

lemma ip_cpy_ntoa [simp]: "ip_cpy (inet_ntoa a) = Some (inet_ntoa a)"
  using inet_ntoa_length [of a] by (simp add: ip_cpy_def)

lemma tuple_packet_eq [simp]:
  "tuple_packet junk ty ev addr = Some (junk\<lparr>m_type := ty, m_event := ev, m_src_port := uint (t_source addr), m_dest_port := uint (t_dest addr),
     m_src_ip := inet_ntoa (t_saddr addr), m_dest_ip := inet_ntoa (t_daddr addr)\<rparr>)"
  by (simp add: tuple_packet_def new_packet_def)

lemma udp_datagram_length:
  assumes "udp_datagram chk pkt = Some (Some (addr, payload))"
  shows "length payload \<le> 65527"
proof -
  obtain hl and u :: u16 where "Tcp_Queue.slice pkt hl (int (unat u) - 8) = Some payload"
    using assms by (auto simp: udp_datagram_def bind_eq_Some_conv Let_def split: if_splits)
  then have "length payload \<le> nat (int (unat u) - 8)" by (auto simp: Tcp_Queue.slice_def split: if_splits)
  then show ?thesis using unat_u16_less [of u] by linarith
qed

text \<open>
  C38.  Every datagram that libnids hands to \<open>udp_callback\<close> fits into the packet that is reported: the
  addresses with their terminating NUL into 16 characters and the payload into the 64 KB of \<open>m_data\<close>;
  the report carries its ports, addresses and octets unchanged, and an empty datagram is not reported.
\<close>

theorem udp_reported:
  assumes "udp_datagram chk pkt = Some (Some (addr, payload))"
  shows "udp_callback junk addr payload = Some (if payload = [] then None else Some (junk\<lparr>m_type := 1, m_event := ENV_NEW_UDP_DATA,
    m_src_port := uint (t_source addr), m_dest_port := uint (t_dest addr), m_src_ip := inet_ntoa (t_saddr addr), m_dest_ip := inet_ntoa (t_daddr addr),
    m_length := int (length payload), m_data := payload @ drop (length payload) (m_data junk)\<rparr>))"
  using udp_datagram_length [OF assms] by (simp add: udp_callback_def data_cpy_def)

definition stack_junk :: packet where
  "stack_junk = \<lparr>m_src_ip = ''?'', m_dest_ip = ''?'', m_acked = 7, m_seq = 7, m_ack_seq = 7, m_window = 7, m_src_port = 7, m_dest_port = 7,
     m_extra = 7, m_event = 7, m_length = 7, m_type = 7, m_data = [1, 2, 3]\<rparr>"

theorem udp_reported_witness:
  "\<exists>p. udp_callback stack_junk (udp_tuple udp_packet) [97, 98, 99, 100] = Some (Some p) \<and> take (nat (m_length p)) (m_data p) = [97, 98, 99, 100]"
proof -
  have "packet_ok udp_packet" "udp_sound [] udp_packet" "udp_payload udp_packet = [97, 98, 99, 100]" by code_simp+
  then have "udp_datagram [] udp_packet = Some (Some (udp_tuple udp_packet, [97, 98, 99, 100]))" using udp_datagram_exact [of udp_packet "[]"] by simp
  then show ?thesis using udp_reported [of "[]" udp_packet "udp_tuple udp_packet" "[97, 98, 99, 100]" stack_junk] by simp
qed

text \<open>A stream with new octets in one direction and none waiting before them is reported with exactly these.\<close>

lemma tcp_data_reported:
  assumes "s_nids_state a = NIDS_DATA" and "\<not> h_count_new_urg (s_server a)" and "d = Server \<longrightarrow> h_count_new (s_client a) = 0"
    and "buf_wf (half d a)" and "h_count_new (half d a) = pend (half d a)" and "0 < h_count_new (half d a)" and "h_count_new (half d a) \<le> 65536"
  shows "\<exists>p. tcp_callback junk a = Some (Some p) \<and> take (nat (m_length p)) (m_data p) = new_data d a \<and>
    m_event p = (if d = Server then ENV_NEW_DATA_TO_SERVER else ENV_NEW_DATA_FROM_SERVER)"
proof -
  let ?h = "half d a"
  obtain b where b: "h_data ?h = Some b" "pend ?h \<le> int (length b)" using assms(4-6) by (auto simp: buf_wf_def split: option.splits)
  then have n: "new_data d a = take (nat (pend ?h)) b" using assms(5,6) by (simp add: new_data_def buffered_def)
  have hlf: "(h_count_new (s_client a) = 0) = (d = Server)" using assms(3,6) by (cases d) auto
  define xs where "xs = take (nat (pend ?h)) b"
  have sl: "Tcp_Queue.slice b 0 (pend ?h) = Some xs" using b(2) assms(5,6) by (simp add: Tcp_Queue.slice_def xs_def)
  have len: "length xs = nat (pend ?h)" "length xs \<le> 65536" using b(2) assms(5,7) by (simp_all add: xs_def)
  show ?thesis
    by (cases d) (use assms b(1) hlf sl len n [folded xs_def, symmetric] in \<open>simp_all add: tcp_callback_def Let_def data_cpy_def\<close>)
qed

section \<open>Warnings\<close>

text \<open>
  C39.  A packet shorter than an IP header is dropped with the warning \<open>NIDS_WARN_IP_HDR\<close>.  The warning
  routine of libnids prints it without looking at the packet; the one that the capture process installs
  instead reads the addresses of the header and so reads behind the end of the capture.
\<close>

theorem short_header_warning:
  assumes "length pkt < 20" and "ne_ip_filter env pkt (int (length pkt))"
  shows "gen_ip_frag_proc env pkt s = Some (pkt, nd_event (Ip_Warn NIDS_WARN_IP_HDR) s) \<and>
    nids_syslog NIDS_WARN_IP NIDS_WARN_IP_HDR pkt No_Data = Some (''Invalid IP header'' @ [CHR 0x0A]) \<and>
    my_nids_syslog junk NIDS_WARN_IP NIDS_WARN_IP_HDR pkt No_Data = None"
proof -
  have "rd_le32 pkt 16 = None" using assms(1) by (simp add: rd_le32_def rd8_def bind_eq_None_conv)
  then have "my_nids_syslog junk NIDS_WARN_IP NIDS_WARN_IP_HDR pkt No_Data = None" by (simp add: my_nids_syslog_def bind_eq_None_conv)
  moreover have "ip_header_ok (nd_chk s) pkt = Some False" using assms(1) by (simp add: ip_header_ok_def)
  ultimately show ?thesis using assms(2) by (simp add: gen_ip_frag_proc_def nids_syslog_def)
qed

theorem short_header_warning_witness:
  "my_nids_syslog stack_junk NIDS_WARN_IP NIDS_WARN_IP_HDR [0x45, 0, 0, 28] No_Data = None"
  using short_header_warning [of "[0x45, 0, 0, 28]" sample_nids_env program_start stack_junk]
  by (simp add: sample_nids_env_def nids_ip_filter_def)

section \<open>Arguments\<close>

definition joined :: "string list \<Rightarrow> string" where
  "joined ws = concat (map (\<lambda>w. w @ '' '') ws)"

lemma joined_simps [simp]: "joined [] = []" "joined (w # ws) = w @ '' '' @ joined ws"
  by (simp_all add: joined_def)

text \<open>In a block that holds a text, \<open>strcat\<close> from anywhere inside the text appends to the text.\<close>

lemma strcat_at_text:
  assumes "NUL \<notin> set t" and "off \<le> length t" and "length w \<le> length rest"
  shows "strcat_at (t @ NUL # rest) off w = Some (t @ w @ NUL # drop (length w) rest)"
proof -
  have "takeWhile (\<lambda>c. c \<noteq> NUL) (drop off t @ NUL # rest) = drop off t"
    using assms(1) by (simp add: takeWhile_tail takeWhile_eq_all_conv) (blast dest: in_set_dropD)
  then show ?thesis using assms by (simp add: strcat_at_def Let_def)
qed

lemma filter_words_text:
  assumes "NUL \<notin> set (g @ acc)" and "list_all (\<lambda>w. NUL \<notin> set w \<and> w \<noteq> ''pend'') ws" and "length (joined ws) \<le> length rest"
    and "r = [] \<or> hd r = ''pend''"
  shows "filter_words (ws @ r) (g @ acc @ NUL # rest) (length acc) =
    Some (g @ acc @ joined ws @ NUL # drop (length (joined ws)) rest, length (acc @ joined ws))"
  using assms
proof (induction ws arbitrary: acc rest)
  case Nil
  then show ?case by (cases r) auto
next
  case (Cons w ws)
  have w: "NUL \<notin> set w" "w \<noteq> ''pend''" using Cons.prems(2) by simp_all
  let ?rest1 = "drop (length w) rest"
  have r: "length w < length rest" "0 < length ?rest1" using Cons.prems(3) by simp_all
  have s1: "strcat_at (g @ acc @ NUL # rest) (length acc) w = Some ((g @ acc @ w) @ NUL # ?rest1)"
    using strcat_at_text [of "g @ acc" "length acc" w rest] Cons.prems(1) r(1) by simp
  have s2: "strcat_at ((g @ acc @ w) @ NUL # ?rest1) (length acc + length w) '' '' = Some (g @ (acc @ w @ '' '') @ NUL # drop 1 ?rest1)"
    using strcat_at_text [of "g @ acc @ w" "length acc + length w" "'' ''" ?rest1] Cons.prems(1) r(2) w(1) by simp
  have "filter_words (ws @ r) (g @ (acc @ w @ '' '') @ NUL # drop 1 ?rest1) (length (acc @ w @ '' '')) =
      Some (g @ (acc @ w @ '' '') @ joined ws @ NUL # drop (length (joined ws)) (drop 1 ?rest1), length ((acc @ w @ '' '') @ joined ws))"
    by (rule Cons.IH) (use Cons.prems w in auto)
  then show ?case using s1 s2 w(2) by (simp add: add.commute)
qed

text \<open>
  The filter expression that \<open>-p\<close> sets.  \<open>parse_param\<close> appends the words to memory that \<open>new\<close> has not
  initialised: if that memory starts with a text \<open>g\<close>, the filter is the words, each with a space behind
  it, shifted behind \<open>g\<close> and cut off at their own length.  So it is the expression the user gave when the
  fresh memory starts with a NUL, and begins with whatever was there otherwise.
\<close>

theorem filter_arg_exact:
  assumes "NUL \<notin> set g" and "list_all (\<lambda>w. NUL \<notin> set w \<and> w \<noteq> ''pend'') ws" and "length (joined ws) \<le> length rest"
    and "r = [] \<or> hd r = ''pend''"
  shows "filter_arg (g @ NUL # rest) (ws @ r) = Some (take (length (joined ws)) (g @ joined ws))"
proof -
  have w: "filter_words (ws @ r) (g @ NUL # rest) 0 = Some (g @ joined ws @ NUL # drop (length (joined ws)) rest, length (joined ws))"
    using filter_words_text [of g "[]" ws rest r] assms by simp
  have j: "NUL \<notin> set (joined ws)" using assms(2) by (auto simp: joined_def list_all_iff)
  let ?t = "g @ joined ws" and ?n = "length (joined ws)"
  have "(?t @ NUL # drop ?n rest)[?n := NUL] = take ?n ?t @ NUL # drop (Suc ?n) (?t @ NUL # drop ?n rest)"
    by (simp add: upd_conv_take_nth_drop)
  moreover have "NUL \<notin> set (take ?n ?t)" using assms(1) j by (auto dest: in_set_takeD)
  ultimately have "takeWhile (\<lambda>c. c \<noteq> NUL) ((?t @ NUL # drop ?n rest)[?n := NUL]) = take ?n ?t"
    by (simp only: takeWhile_tail [of "\<lambda>c. c \<noteq> NUL"] simp_thms takeWhile_eq_all_conv) blast
  then show ?thesis using w by (simp add: filter_arg_def)
qed

theorem filter_arg_exact_witness:
  "filter_arg (replicate 256 NUL) [''tcp'', ''port'', ''80'', ''pend''] = Some ''tcp port 80 '' \<and>
   filter_arg (''xyz'' @ replicate 253 NUL) [''tcp'', ''port'', ''80'', ''pend''] = Some ''xyztcp port ''"
  using filter_arg_exact [of "[]" "[''tcp'', ''port'', ''80'']" "replicate 255 NUL" "[''pend'']"]
    filter_arg_exact [of "''xyz''" "[''tcp'', ''port'', ''80'']" "replicate 252 NUL" "[''pend'']"]
  by (simp add: replicate_Suc [symmetric] numeral_eq_Suc del: replicate_Suc)

section \<open>A run of the capture process\<close>

lemma parse_param_keeps:
  "parse_param fresh argv s = Some s' \<Longrightarrow> \<exists>f k. s' = s\<lparr>nd_filter := f, nd_prm := (nd_prm s)\<lparr>checksum := k\<rparr>\<rparr>"
proof (induction argv arbitrary: s)
  case Nil
  then show ?case by (intro exI [of _ "nd_filter s"] exI [of _ "checksum (nd_prm s)"]) simp
next
  case (Cons opt r)
  obtain s1 where s1: "(if opt = ''-p'' then do { f \<leftarrow> filter_arg (fresh (length r)) r; Some (s\<lparr>nd_filter := Some f\<rparr>) } else Some s) = Some s1"
    using Cons.prems by (auto simp: bind_eq_Some_conv)
  then obtain f where f: "s1 = s\<lparr>nd_filter := f\<rparr>"
    by (cases "opt = ''-p''") (auto simp: bind_eq_Some_conv intro: that [of "nd_filter s"])
  define k where "k = (if opt = ''-checksum'' then if r = [] \<or> hd r = ''1'' then 1 else 0 else checksum (nd_prm s))"
  define s2 where "s2 = s\<lparr>nd_filter := f, nd_prm := (nd_prm s)\<lparr>checksum := k\<rparr>\<rparr>"
  have "(if opt = ''-checksum'' then s1\<lparr>nd_prm := (nd_prm s1)\<lparr>checksum := (if r = [] \<or> hd r = ''1'' then 1 else 0)\<rparr>\<rparr> else s1) = s2"
    by (cases s) (simp add: s2_def k_def f)
  then have p: "parse_param fresh r s2 = Some s'" using Cons.prems s1 by (simp del: if_image_distrib)
  obtain g j where "s' = s2\<lparr>nd_filter := g, nd_prm := (nd_prm s2)\<lparr>checksum := j\<rparr>\<rparr>" using Cons.IH [OF p] by blast
  then show ?case by (intro exI [of _ g] exI [of _ j]) (simp add: s2_def)
qed

lemma registered_wf: "nids_wf env (nids_register_udp x (s\<lparr>nd_tcp := nids_register_tcp y (nd_tcp s)\<rparr>)) = nids_wf env s"
  by (simp add: nids_wf_def nids_register_udp_def nids_register_tcp_def tcp_env_of_def tcp_wf_def live_def stream_wf_def mk_hash_index_def)

lemma frame_captured_offset:
  "\<lbrakk>link_offset lt = Some o1; \<forall>n. o1 = Some n \<longrightarrow> off = n\<rbrakk> \<Longrightarrow> frame_captured lt off f = frame_captured lt (case o1 of None \<Rightarrow> 0 | Some n \<Rightarrow> n) f"
  by (cases o1) (auto simp: frame_captured_def link_layer_def link_offset_def split: if_splits)

text \<open>
  C3.  The session of the capture process.  From the state the program starts in, with any arguments that
  \<open>parse_param\<close> can read, \<open>prepare_sniffer\<close> either ends with status 1, exactly when libnids cannot be
  started, or leaves an open session with the process's TCP and UDP callbacks registered, after one
  report of a wrong filter expression when there was one and no other report.  From there libnids
  (\<open>nids_run\<close>) handles every sequence of frames that satisfy \<open>frame_captured\<close>, with time stamps that do
  not decrease, and closes the session with all streams released.  \<open>frame_captured\<close> says of the IP
  packet of a frame: it is cut off before the end of its fixed header, or its header is captured, with one more
  octet if it has options; its source is not 0.0.x.y with \<open>y \<ge> 128\<close>; if it is a fragment it has eight
  octets of payload; and the 802.11 headers in front of it are captured.  Parameters, listeners and the scan clock are in
  the ranges of \<open>Libnids_Props\<close>.  Here the callbacks act on
  the streams (\<open>te_cb\<close>); the packets they report are the subject of the theorems above and are not
  part of this run, so it says nothing of what \<open>my_nids_syslog\<close> reads.
\<close>

theorem prepare_sniffer_session:
  assumes "unused s" and "params_ok env s" and "env_wf env" and "parse_param fresh argv s = Some s1"
    and "\<forall>off. link_offset (pi_datalink io) = Some off \<longrightarrow>
      list_all (frame_captured (pi_datalink io) (case off of None \<Rightarrow> 0 | Some n \<Rightarrow> n)) fs"
    and "sorted (nd_last_sec s # map fr_sec fs)"
  shows "\<exists>r. prepare_sniffer env io junk s1 = Some r \<and>
    (case r of Inl e \<Rightarrow> e = 1 \<and> start_fails io (s1\<lparr>nd_prm := (nd_prm s1)\<lparr>promisc := 1\<rparr>\<rparr>)
     | Inr (reports, s2) \<Rightarrow> \<not> start_fails io (s1\<lparr>nd_prm := (nd_prm s1)\<lparr>promisc := 1\<rparr>\<rparr>) \<and>
         reports = (if filter_bad io s1 then [(new_packet junk)\<lparr>m_type := 1, m_event := ENV_ERROR_FILTER_EXPR, m_length := 0\<rparr>] else []) \<and>
         nd_desc s2 \<and> 1 \<in> set (tcp_procs (nd_tcp s2)) \<and> udp_procs s2 = [1] \<and>
         (\<exists>s3. nids_run env io fs s2 = Some (0, s3) \<and> \<not> nd_desc s3 \<and> tcp_num (nd_tcp s3) = 0))"
proof -
  obtain f k where s1: "s1 = s\<lparr>nd_filter := f, nd_prm := (nd_prm s)\<lparr>checksum := k\<rparr>\<rparr>" using parse_param_keeps [OF assms(4)] by blast
  define s2 where "s2 = (let s = (if checksum (nd_prm s1) = 0 then close_checksum s1 else s1) in s\<lparr>nd_prm := (nd_prm s)\<lparr>promisc := 1\<rparr>\<rparr>)"
  have e: "\<not> nd_desc s2" "nd_frag s2 = frag_start" "tcp_by_time (nd_tcp s2) = []" "tcp_num (nd_tcp s2) = 0" "nd_last_sec s2 = nd_last_sec s"
      "nd_scan s2 = nd_scan s" "nd_prm s2 = (nd_prm s)\<lparr>checksum := k, promisc := 1\<rparr>" "nd_filter s2 = nd_filter s1"
    using assms(1) by (simp_all add: s2_def s1 unused_def close_checksum_def)
  have pm: "params_ok env (t\<lparr>nd_prm := (nd_prm s)\<lparr>checksum := k, promisc := 1, dev_addon := n\<rparr>\<rparr>)" if "nd_scan t = nd_scan s" for t n
    using assms(2) that by (simp add: params_ok_def prm_ok_def)
  have fs1: "start_fails io (s1\<lparr>nd_prm := (nd_prm s1)\<lparr>promisc := 1\<rparr>\<rparr>) = start_fails io s2" "filter_bad io s2 = filter_bad io s1"
    using e by (simp_all add: start_fails_def filter_bad_def s1)
  show ?thesis
  proof (cases "start_fails io s2")
    case True
    obtain s3 where "nids_init env io s2 = Some (-1, s3)" using nids_init_fails [OF e(1) True] by blast
    then show ?thesis using assms(4) True fs1 by (simp add: prepare_sniffer_def s2_def [unfolded Let_def, symmetric] Let_def)
  next
    case False
    obtain s4 where s4: "nids_init env io s2 = Some (if filter_bad io s2 then 2 else 1, start_parts env io s4)"
        "nd_desc s4" "nd_linktype s4 = pi_datalink io" "nd_frag s4 = nd_frag s2" "nd_tcp s4 = nd_tcp s2" "nd_scan s4 = nd_scan s2"
        "nd_last_sec s4 = nd_last_sec s2" "\<exists>n. nd_prm s4 = (nd_prm s2)\<lparr>dev_addon := n\<rparr>" "\<forall>n. link_offset (pi_datalink io) = Some (Some n) \<longrightarrow> nids_linkoffset s4 = n"
      by (rule nids_init_starts [OF e(1) False]) (rule that)
    define s5 where "s5 = nids_register_udp 1 ((start_parts env io s4)\<lparr>nd_tcp := nids_register_tcp 1 (nd_tcp (start_parts env io s4))\<rparr>)"
    have "params_ok env s4" using s4(6,8) e(6,7) pm [of s4] by (auto simp: params_ok_def)
    then have "nids_wf env (start_parts env io s4)" using start_parts_wf [of env s4 io] s4(4,5) e(2-4) by simp
    then have wf: "nids_wf env s5" by (simp add: s5_def registered_wf)
    have g: "nd_desc s5" "nd_linktype s5 = pi_datalink io" "nids_linkoffset s5 = nids_linkoffset s4" "nd_last_sec s5 = nd_last_sec s"
      using s4(2,3,7) e(5) by (simp_all add: s5_def nids_register_udp_def start_parts_def init_procs_def Let_def)
    obtain off where off: "link_offset (pi_datalink io) = Some off" using False by (auto simp: start_fails_def)
    have "list_all (frame_captured (nd_linktype s5) (nids_linkoffset s5)) fs"
      using off assms(5) s4(9) frame_captured_offset [OF off, of "nids_linkoffset s4"] g(2,3) by (simp add: list_all_iff)
    then obtain s6 where s6: "handle_frames env fs s5 = Some s6" "nids_wf env s6" "nd_desc s6"
      using handle_frames_ok [OF wf assms(3)] assms(6) g(1,4) by auto
    obtain s7 where s7: "nids_exit env io s6 = Some s7" "\<not> nd_desc s7" "tcp_num (nd_tcp s7) = 0" using nids_exit_ok [OF s6(2)] s6(3) by blast
    have run: "nids_run env io fs s5 = Some (0, s7)" using g(1) s6(1) s7(1) by (simp add: nids_run_def)
    have prep: "prepare_sniffer env io junk s1 = Some (Inr (if filter_bad io s2
         then [(new_packet junk)\<lparr>m_type := 1, m_event := ENV_ERROR_FILTER_EXPR, m_length := 0\<rparr>] else [], s5))"
      using s4(1) by (auto simp: prepare_sniffer_def s2_def s5_def Let_def)
    have reg: "1 \<in> set (tcp_procs (nd_tcp s5))" "udp_procs s5 = [1]"
      by (simp_all add: s5_def nids_register_udp_def nids_register_tcp_def register_callback_def start_parts_def init_procs_def Let_def)
    show ?thesis using prep run s7 fs1 False g(1) reg by simp
  qed
qed

theorem prepare_sniffer_session_witness:
  "\<exists>s1 s2 s3. parse_param (\<lambda>n. replicate 256 NUL) [''-checksum'', ''1''] program_start = Some s1 \<and>
     prepare_sniffer sample_nids_env quiet_io stack_junk s1 = Some (Inr ([], s2)) \<and> nd_desc s2 \<and> udp_procs s2 = [1] \<and>
     nids_run sample_nids_env quiet_io [eth_frame 3 udp_packet, eth_frame 4 sample_packet] s2 = Some (0, s3) \<and> \<not> nd_desc s3"
proof -
  let ?s1 = "program_start\<lparr>nd_prm := (nd_prm program_start)\<lparr>checksum := 1\<rparr>\<rparr>"
  let ?fs = "[eth_frame 3 udp_packet, eth_frame 4 sample_packet]"
  have p: "parse_param (\<lambda>n. replicate 256 NUL) [''-checksum'', ''1''] program_start = Some ?s1" by simp
  have l: "pi_datalink quiet_io = 1" "link_offset (pi_datalink quiet_io) = Some (Some 14)" by (simp_all add: quiet_io_def link_offset_def)
  have "ip_readable udp_packet" "ip_readable sample_packet" by code_simp+
  then have c: "\<forall>off. link_offset (pi_datalink quiet_io) = Some off \<longrightarrow>
      list_all (frame_captured (pi_datalink quiet_io) (case off of None \<Rightarrow> 0 | Some n \<Rightarrow> n)) ?fs"
    using eth_link_layer [of 3 udp_packet] eth_link_layer [of 4 sample_packet] l by (simp add: frame_captured_def eth_frame_def)
  have t: "sorted (nd_last_sec program_start # map fr_sec ?fs)" by (simp add: program_start_def eth_frame_def)
  have f: "\<not> start_fails quiet_io (?s1\<lparr>nd_prm := (nd_prm ?s1)\<lparr>promisc := 1\<rparr>\<rparr>)" "\<not> filter_bad quiet_io ?s1"
    by (simp_all add: start_fails_def filter_bad_def quiet_io_def link_offset_def open_desc_def program_start_def nids_params0_def)
  have "\<exists>r. prepare_sniffer sample_nids_env quiet_io stack_junk ?s1 = Some r \<and>
    (case r of Inl e \<Rightarrow> e = 1 \<and> start_fails quiet_io (?s1\<lparr>nd_prm := (nd_prm ?s1)\<lparr>promisc := 1\<rparr>\<rparr>)
     | Inr (reports, s2) \<Rightarrow> \<not> start_fails quiet_io (?s1\<lparr>nd_prm := (nd_prm ?s1)\<lparr>promisc := 1\<rparr>\<rparr>) \<and>
         reports = (if filter_bad quiet_io ?s1 then [(new_packet stack_junk)\<lparr>m_type := 1, m_event := ENV_ERROR_FILTER_EXPR, m_length := 0\<rparr>] else []) \<and>
         nd_desc s2 \<and> 1 \<in> set (tcp_procs (nd_tcp s2)) \<and> udp_procs s2 = [1] \<and>
         (\<exists>s3. nids_run sample_nids_env quiet_io ?fs s2 = Some (0, s3) \<and> \<not> nd_desc s3 \<and> tcp_num (nd_tcp s3) = 0))"
    by (rule prepare_sniffer_session [OF program_start_ok sample_nids_env_wf p c t])
  then obtain r where r: "prepare_sniffer sample_nids_env quiet_io stack_junk ?s1 = Some r" and
      c: "case r of Inl e \<Rightarrow> e = 1 \<and> start_fails quiet_io (?s1\<lparr>nd_prm := (nd_prm ?s1)\<lparr>promisc := 1\<rparr>\<rparr>)
       | Inr (reports, s2) \<Rightarrow> \<not> start_fails quiet_io (?s1\<lparr>nd_prm := (nd_prm ?s1)\<lparr>promisc := 1\<rparr>\<rparr>) \<and>
         reports = (if filter_bad quiet_io ?s1 then [(new_packet stack_junk)\<lparr>m_type := 1, m_event := ENV_ERROR_FILTER_EXPR, m_length := 0\<rparr>] else []) \<and>
         nd_desc s2 \<and> 1 \<in> set (tcp_procs (nd_tcp s2)) \<and> udp_procs s2 = [1] \<and>
         (\<exists>s3. nids_run sample_nids_env quiet_io ?fs s2 = Some (0, s3) \<and> \<not> nd_desc s3 \<and> tcp_num (nd_tcp s3) = 0)" by blast
  have "\<exists>s2 s3. r = Inr ([], s2) \<and> nd_desc s2 \<and> udp_procs s2 = [1] \<and> nids_run sample_nids_env quiet_io ?fs s2 = Some (0, s3) \<and> \<not> nd_desc s3"
    using c f by (cases r) auto
  then obtain s2 s3 where "r = Inr ([], s2)" "nd_desc s2" "udp_procs s2 = [1]" "nids_run sample_nids_env quiet_io ?fs s2 = Some (0, s3)"
      "\<not> nd_desc s3" by blast
  then show ?thesis using p r by blast
qed

end
