(* ===== verification/Circle_Buffer.thy ===== *)
theory Circle_Buffer
  imports Prelude
begin

text \<open>
  The ring buffer between the thread that receives packets and the one that delivers them,
  \<open>include/circlebuffer.h\<close>: indices that wrap, one mutex, and two condition variables.  The threads are
  interleaved by a step relation: a thread that waits on a condition variable has released the mutex,
  wakes up when it is signalled or without reason, and takes the mutex again.  Shown are that the
  buffer is a bounded queue, that what was popped is always the first part of what was pushed, and
  that no wake-up is lost.
\<close>

section \<open>The buffer\<close>

text \<open>The template parameter \<open>BUFFER_SIZE\<close> is the argument \<open>N\<close>.\<close>

record 'a cbuf =
  m_head :: u32
  m_tail :: u32
  m_buffer :: "'a list"

definition cb_clear :: "'a cbuf \<Rightarrow> 'a cbuf" where
  "cb_clear c = c\<lparr>m_head := 0, m_tail := 0\<rparr>"

definition is_empty :: "'a cbuf \<Rightarrow> bool" where
  "is_empty c \<longleftrightarrow> m_tail c = m_head c"

definition is_full :: "u32 \<Rightarrow> 'a cbuf \<Rightarrow> bool" where
  "is_full N c \<longleftrightarrow> (m_tail c + 1) mod N = m_head c"

definition cb_size :: "u32 \<Rightarrow> 'a cbuf \<Rightarrow> u32" where
  "cb_size N c = (m_tail c - m_head c + N) mod N"

text \<open>The part of \<open>push\<close> and of \<open>pop\<close> behind the loop that waits.\<close>

definition cb_put :: "u32 \<Rightarrow> 'a \<Rightarrow> 'a cbuf \<Rightarrow> 'a cbuf option" where
  "cb_put N ele c =
     (if unat (m_tail c) < length (m_buffer c)
      then Some (c\<lparr>m_buffer := (m_buffer c)[unat (m_tail c) := ele], m_tail := (m_tail c + 1) mod N\<rparr>) else None)"

definition cb_get :: "u32 \<Rightarrow> 'a cbuf \<Rightarrow> ('a \<times> 'a cbuf) option" where
  "cb_get N c =
     (if unat (m_head c) < length (m_buffer c)
      then Some (m_buffer c ! unat (m_head c), c\<lparr>m_head := (m_head c + 1) mod N\<rparr>) else None)"

section \<open>Threads\<close>

text \<open>
  Where a thread is in \<open>push\<close> or \<open>pop\<close>: before the mutex, at the test of the loop, waiting, before the
  signal, and before the mutex is released.
\<close>

datatype 'a pc =
    Idle | Leave
  | Push_Enter 'a | Push_Loop 'a | Push_Wait 'a | Push_Signal
  | Pop_Enter | Pop_Loop | Pop_Wait | Pop_Signal

text \<open>\<open>cb_pushed\<close> and \<open>cb_popped\<close> are the elements stored and taken so far.\<close>

record 'a cb_state =
  cb_buf :: "'a cbuf"
  cb_mutex :: "nat option"
  cb_threads :: "'a pc list"
  cb_pushed :: "'a list"
  cb_popped :: "'a list"

abbreviation goto :: "nat \<Rightarrow> 'a pc \<Rightarrow> 'a cb_state \<Rightarrow> 'a cb_state" where
  "goto t p s \<equiv> s\<lparr>cb_threads := (cb_threads s)[t := p]\<rparr>"

abbreviation at :: "nat \<Rightarrow> 'a pc \<Rightarrow> 'a cb_state \<Rightarrow> bool" where
  "at t p s \<equiv> t < length (cb_threads s) \<and> cb_threads s ! t = p"

fun push_waits :: "'a pc \<Rightarrow> bool" where
  "push_waits (Push_Wait e) = True"
| "push_waits p = False"

fun pop_waits :: "'a pc \<Rightarrow> bool" where
  "pop_waits Pop_Wait = True"
| "pop_waits p = False"

text \<open>The thread that \<open>pthread_cond_signal\<close> chooses among those that wait goes back to the mutex.\<close>

fun woken :: "'a pc \<Rightarrow> 'a pc" where
  "woken (Push_Wait e) = Push_Enter e"
| "woken Pop_Wait = Pop_Enter"
| "woken p = p"

text \<open>The steps inside \<open>push\<close> and \<open>pop\<close>.\<close>

inductive cb_work :: "u32 \<Rightarrow> 'a cb_state \<Rightarrow> 'a cb_state \<Rightarrow> bool" for N where
  push_lock: "\<lbrakk>at t (Push_Enter e) s; cb_mutex s = None\<rbrakk> \<Longrightarrow> cb_work N s (goto t (Push_Loop e) (s\<lparr>cb_mutex := Some t\<rparr>))"
| push_wait: "\<lbrakk>at t (Push_Loop e) s; is_full N (cb_buf s)\<rbrakk> \<Longrightarrow> cb_work N s (goto t (Push_Wait e) (s\<lparr>cb_mutex := None\<rparr>))"
| push_store: "\<lbrakk>at t (Push_Loop e) s; \<not> is_full N (cb_buf s); cb_put N e (cb_buf s) = Some b\<rbrakk> \<Longrightarrow>
    cb_work N s (goto t Push_Signal (s\<lparr>cb_buf := b, cb_pushed := cb_pushed s @ [e]\<rparr>))"
| push_signal: "\<lbrakk>at t Push_Signal s; u < length (cb_threads s); pop_waits (cb_threads s ! u)\<rbrakk> \<Longrightarrow>
    cb_work N s (goto t Leave (goto u (woken (cb_threads s ! u)) s))"
| push_signal_none: "\<lbrakk>at t Push_Signal s; \<not> list_ex pop_waits (cb_threads s)\<rbrakk> \<Longrightarrow> cb_work N s (goto t Leave s)"
| pop_lock: "\<lbrakk>at t Pop_Enter s; cb_mutex s = None\<rbrakk> \<Longrightarrow> cb_work N s (goto t Pop_Loop (s\<lparr>cb_mutex := Some t\<rparr>))"
| pop_wait: "\<lbrakk>at t Pop_Loop s; is_empty (cb_buf s)\<rbrakk> \<Longrightarrow> cb_work N s (goto t Pop_Wait (s\<lparr>cb_mutex := None\<rparr>))"
| pop_take: "\<lbrakk>at t Pop_Loop s; \<not> is_empty (cb_buf s); cb_get N (cb_buf s) = Some (e, b)\<rbrakk> \<Longrightarrow>
    cb_work N s (goto t Pop_Signal (s\<lparr>cb_buf := b, cb_popped := cb_popped s @ [e]\<rparr>))"
| pop_signal: "\<lbrakk>at t Pop_Signal s; u < length (cb_threads s); push_waits (cb_threads s ! u)\<rbrakk> \<Longrightarrow>
    cb_work N s (goto t Leave (goto u (woken (cb_threads s ! u)) s))"
| pop_signal_none: "\<lbrakk>at t Pop_Signal s; \<not> list_ex push_waits (cb_threads s)\<rbrakk> \<Longrightarrow> cb_work N s (goto t Leave s)"
| leave: "at t Leave s \<Longrightarrow> cb_work N s (goto t Idle (s\<lparr>cb_mutex := None\<rparr>))"

text \<open>Calls, and wake-ups without a signal.\<close>

inductive cb_step :: "u32 \<Rightarrow> 'a cb_state \<Rightarrow> 'a cb_state \<Rightarrow> bool" for N where
  cb_work_step: "cb_work N s s' \<Longrightarrow> cb_step N s s'"
| call_push: "at t Idle s \<Longrightarrow> cb_step N s (goto t (Push_Enter e) s)"
| call_pop: "at t Idle s \<Longrightarrow> cb_step N s (goto t Pop_Enter s)"
| spurious: "t < length (cb_threads s) \<Longrightarrow> cb_step N s (goto t (woken (cb_threads s ! t)) s)"

definition cb_init :: "'a list \<Rightarrow> nat \<Rightarrow> 'a cb_state" where
  "cb_init junk n = \<lparr>cb_buf = \<lparr>m_head = 0, m_tail = 0, m_buffer = junk\<rparr>, cb_mutex = None, cb_threads = replicate n Idle, cb_pushed = [], cb_popped = []\<rparr>"

inductive cb_reach :: "u32 \<Rightarrow> 'a cb_state \<Rightarrow> 'a cb_state \<Rightarrow> bool" for N s0 where
  cb_start: "cb_reach N s0 s0"
| cb_next: "cb_reach N s0 s \<Longrightarrow> cb_step N s s' \<Longrightarrow> cb_reach N s0 s'"

section \<open>A bounded queue\<close>

definition cb_ok :: "u32 \<Rightarrow> 'a cbuf \<Rightarrow> bool" where
  "cb_ok N c \<longleftrightarrow> 1 < unat N \<and> unat N < 2 ^ 31 \<and> length (m_buffer c) = unat N \<and> unat (m_head c) < unat N \<and> unat (m_tail c) < unat N"

definition cb_held :: "u32 \<Rightarrow> 'a cbuf \<Rightarrow> nat" where
  "cb_held N c = (unat (m_tail c) + unat N - unat (m_head c)) mod unat N"

definition contents :: "u32 \<Rightarrow> 'a cbuf \<Rightarrow> 'a list" where
  "contents N c = map (\<lambda>i. m_buffer c ! ((unat (m_head c) + i) mod unat N)) [0..<cb_held N c]"

text \<open>The contract that the threads rely on.\<close>

locale bounded_queue =
  fixes ok :: "'q \<Rightarrow> bool" and items :: "'q \<Rightarrow> 'a list" and cap :: nat and empty full :: "'q \<Rightarrow> bool"
    and put :: "'a \<Rightarrow> 'q \<Rightarrow> 'q option" and get :: "'q \<Rightarrow> ('a \<times> 'q) option"
  assumes room: "ok q \<Longrightarrow> length (items q) \<le> cap"
    and empty_iff: "ok q \<Longrightarrow> empty q \<longleftrightarrow> items q = []"
    and full_iff: "ok q \<Longrightarrow> full q \<longleftrightarrow> length (items q) = cap"
    and put_law: "ok q \<Longrightarrow> \<not> full q \<Longrightarrow> \<exists>q'. put e q = Some q' \<and> ok q' \<and> items q' = items q @ [e]"
    and get_law: "ok q \<Longrightarrow> \<not> empty q \<Longrightarrow> \<exists>q'. get q = Some (hd (items q), q') \<and> ok q' \<and> items q' = tl (items q)"
begin

lemma put_item: "\<lbrakk>ok q; \<not> full q; put e q = Some q'\<rbrakk> \<Longrightarrow> ok q' \<and> items q' = items q @ [e]"
  using put_law [of q e] by auto

lemma get_item: "\<lbrakk>ok q; \<not> empty q; get q = Some (e, q')\<rbrakk> \<Longrightarrow> ok q' \<and> items q = e # items q'"
  using get_law [of q] empty_iff [of q] by auto

end

text \<open>Indices modulo \<open>n\<close>.\<close>

lemma ring_held:
  fixes h t n :: nat
  assumes "h < n" and "t < n"
  shows "(t + n - h) mod n = (if h \<le> t then t - h else t + n - h)"
  using assms by (auto simp: mod_if)

lemma ring_index:
  fixes h i n :: nat
  assumes "h < n" and "i < n"
  shows "(h + i) mod n = (if h + i < n then h + i else h + i - n)"
  using assms by (simp add: mod_if)

lemma ring_next:
  fixes t n :: nat
  assumes "t < n"
  shows "(t + 1) mod n = (if t + 1 = n then 0 else t + 1)"
  using assms by auto

lemma next_index:
  assumes "unat (x :: u32) < unat N" and "unat N < 2 ^ 31"
  shows "unat ((x + 1) mod N) = (unat x + 1) mod unat N"
proof -
  have "unat (x + 1) = unat x + 1" using assms by (simp add: unat_word_ariths)
  then show ?thesis by (simp add: unat_mod_distrib)
qed

lemma cb_ok_dest:
  assumes "cb_ok N c"
  obtains h t n where "unat (m_head c) = h" "unat (m_tail c) = t" "unat N = n" "h < n" "t < n" "1 < n" "length (m_buffer c) = n"
    "unat ((m_head c + 1) mod N) = (h + 1) mod n" "unat ((m_tail c + 1) mod N) = (t + 1) mod n" "cb_held N c = (if h \<le> t then t - h else t + n - h)"
  using assms next_index [of "m_head c" N] next_index [of "m_tail c" N] ring_held [of "unat (m_head c)" "unat N" "unat (m_tail c)"]
  by (simp add: cb_ok_def cb_held_def)

lemma cb_size_held:
  assumes "cb_ok N c"
  shows "unat (cb_size N c) = cb_held N c"
proof -
  obtain h t n where c: "unat (m_head c) = h" "unat (m_tail c) = t" "unat N = n" "h < n" "t < n" by (rule cb_ok_dest [OF assms])
  have n: "n < 2 ^ 31" using assms c(3) by (simp add: cb_ok_def)
  define k where "k = t + n - h"
  have "k < 2 ^ 32" using c n by (simp add: k_def)
  then have u: "unat (of_nat k :: u32) = k" by (simp add: unat_of_nat take_bit_nat_eq_self)
  have "m_tail c - m_head c + N = of_nat k" unfolding k_def
    using c by (simp add: of_nat_diff flip: c(1-3))
  then show ?thesis using c u by (simp add: cb_size_def unat_mod_distrib cb_held_def k_def [symmetric])
qed

lemma contents_length [simp]: "length (contents N c) = cb_held N c"
  by (simp add: contents_def)

lemma cb_put_items:
  assumes ok: "cb_ok N c" and full: "\<not> is_full N c"
  shows "\<exists>c'. cb_put N e c = Some c' \<and> cb_ok N c' \<and> contents N c' = contents N c @ [e]"
proof -
  obtain h t n where c: "unat (m_head c) = h" "unat (m_tail c) = t" "unat N = n" "h < n" "t < n" "1 < n" "length (m_buffer c) = n"
    "unat ((m_tail c + 1) mod N) = (t + 1) mod n" "cb_held N c = (if h \<le> t then t - h else t + n - h)"
    by (rule cb_ok_dest [OF ok])
  have nf: "(t + 1) mod n \<noteq> h" using full c(1,8) by (auto simp: is_full_def word_unat_eq_iff)
  define c' where "c' = c\<lparr>m_buffer := (m_buffer c)[t := e], m_tail := (m_tail c + 1) mod N\<rparr>"
  have p: "cb_put N e c = Some c'" using c by (simp add: cb_put_def c'_def)
  have ok': "cb_ok N c'" using ok c by (simp add: cb_ok_def c'_def)
  have hd': "cb_held N c' = Suc (cb_held N c)"
    using c nf ring_next [OF c(5)] ring_held [OF c(4), of "(t + 1) mod n"] by (simp add: cb_held_def c'_def split: if_splits)
  have last: "(h + cb_held N c) mod n = t" using c ring_index [OF c(4), of "cb_held N c"] by (auto split: if_splits)
  have old: "t \<noteq> (h + i) mod n" if "i < cb_held N c" for i
    using that c ring_index [OF c(4), of i] by (auto split: if_splits)
  have "contents N c' = contents N c @ [e]"
    unfolding contents_def hd' using c(1-8) last old by (auto simp: c'_def)
  then show ?thesis using p ok' by blast
qed

lemma cb_get_items:
  assumes ok: "cb_ok N c" and nonempty: "\<not> is_empty c"
  shows "\<exists>c'. cb_get N c = Some (hd (contents N c), c') \<and> cb_ok N c' \<and> contents N c' = tl (contents N c)"
proof -
  obtain h t n where c: "unat (m_head c) = h" "unat (m_tail c) = t" "unat N = n" "h < n" "t < n" "1 < n" "length (m_buffer c) = n"
    "unat ((m_head c + 1) mod N) = (h + 1) mod n" "cb_held N c = (if h \<le> t then t - h else t + n - h)"
    by (rule cb_ok_dest [OF ok])
  have ne: "t \<noteq> h" using nonempty c(1,2) by (auto simp: is_empty_def word_unat_eq_iff)
  define c' where "c' = c\<lparr>m_head := (m_head c + 1) mod N\<rparr>"
  have ok': "cb_ok N c'" using ok c by (simp add: cb_ok_def c'_def)
  have hd': "cb_held N c = Suc (cb_held N c')"
    using c ne ring_next [OF c(4)] ring_held [OF _ c(5), of "(h + 1) mod n"] by (simp add: cb_held_def c'_def split: if_splits)
  have idx: "((h + 1) mod n + i) mod n = (h + Suc i) mod n" for i by (simp add: mod_add_left_eq)
  have "contents N c = m_buffer c ! h # contents N c'"
    unfolding contents_def hd' upt_conv_Cons [OF zero_less_Suc] map_Suc_upt [symmetric] using c idx by (simp add: c'_def)
  then show ?thesis using c ok' by (simp add: cb_get_def c'_def)
qed

interpretation cbq: bounded_queue "cb_ok N" "contents N" "unat N - 1" is_empty "is_full N" "cb_put N" "cb_get N"
proof
  fix c :: "'a cbuf" and e :: 'a
  assume ok: "cb_ok N c"
  obtain h t n where c: "unat (m_head c) = h" "unat (m_tail c) = t" "unat N = n" "h < n" "t < n" "1 < n"
    "unat ((m_tail c + 1) mod N) = (t + 1) mod n" "cb_held N c = (if h \<le> t then t - h else t + n - h)"
    by (rule cb_ok_dest [OF ok])
  show "length (contents N c) \<le> unat N - 1" using c by auto
  have "is_empty c \<longleftrightarrow> t = h" using c(1,2) by (auto simp: is_empty_def word_unat_eq_iff)
  also have "\<dots> \<longleftrightarrow> length (contents N c) = 0" using c by auto
  finally show "is_empty c \<longleftrightarrow> contents N c = []" by (simp only: length_0_conv)
  have "is_full N c \<longleftrightarrow> (t + 1) mod n = h" using c(1,7) by (auto simp: is_full_def word_unat_eq_iff)
  also have "\<dots> \<longleftrightarrow> cb_held N c = n - 1" using c ring_next [OF c(5)] by auto
  finally show "is_full N c \<longleftrightarrow> length (contents N c) = unat N - 1" using c(3) by simp
  show "\<not> is_full N c \<Longrightarrow> \<exists>c'. cb_put N e c = Some c' \<and> cb_ok N c' \<and> contents N c' = contents N c @ [e]" by (rule cb_put_items [OF ok])
  show "\<not> is_empty c \<Longrightarrow> \<exists>c'. cb_get N c = Some (hd (contents N c), c') \<and> cb_ok N c' \<and> contents N c' = tl (contents N c)"
    by (rule cb_get_items [OF ok])
qed

section \<open>Invariants of the threads\<close>

definition how_many :: "('p \<Rightarrow> bool) \<Rightarrow> 'p list \<Rightarrow> nat" where
  "how_many P ps = length (filter P ps)"

lemma how_many_update:
  "t < length ps \<Longrightarrow> how_many P (ps[t := p]) + (if P (ps ! t) then 1 else 0) = how_many P ps + (if P p then 1 else 0)"
proof (induction ps arbitrary: t)
  case (Cons q ps)
  then show ?case by (cases t) (auto simp: how_many_def)
qed simp

lemma how_many_pos: "0 < how_many P ps \<longleftrightarrow> list_ex P ps"
  by (auto simp: how_many_def list_ex_iff filter_empty_conv)

lemma how_many_nth: "t < length ps \<Longrightarrow> P (ps ! t) \<Longrightarrow> 0 < how_many P ps"
  by (auto simp: how_many_pos list_ex_length)

fun holds :: "'a pc \<Rightarrow> bool" where
  "holds (Push_Loop e) = True"
| "holds Push_Signal = True"
| "holds Pop_Loop = True"
| "holds Pop_Signal = True"
| "holds Leave = True"
| "holds p = False"

text \<open>Threads that will still look whether there is room, or whether there is an element, or will signal so.\<close>

fun push_looks :: "'a pc \<Rightarrow> bool" where
  "push_looks (Push_Enter e) = True"
| "push_looks (Push_Loop e) = True"
| "push_looks Pop_Signal = True"
| "push_looks p = False"

fun pop_looks :: "'a pc \<Rightarrow> bool" where
  "pop_looks Pop_Enter = True"
| "pop_looks Pop_Loop = True"
| "pop_looks Push_Signal = True"
| "pop_looks p = False"

definition lock_ok :: "'a cb_state \<Rightarrow> bool" where
  "lock_ok s \<longleftrightarrow> (\<forall>t. (t < length (cb_threads s) \<and> holds (cb_threads s ! t)) \<longleftrightarrow> cb_mutex s = Some t)"

text \<open>While a \<open>push\<close> waits, every free place has a thread that will look at it, and so for \<open>pop\<close>.\<close>

definition wake_ok :: "u32 \<Rightarrow> 'a cb_state \<Rightarrow> bool" where
  "wake_ok N s \<longleftrightarrow>
     (how_many push_waits (cb_threads s) = 0 \<or> unat N - 1 - cb_held N (cb_buf s) \<le> how_many push_looks (cb_threads s)) \<and>
     (how_many pop_waits (cb_threads s) = 0 \<or> cb_held N (cb_buf s) \<le> how_many pop_looks (cb_threads s))"

definition cb_inv :: "u32 \<Rightarrow> 'a cb_state \<Rightarrow> bool" where
  "cb_inv N s \<longleftrightarrow> cb_ok N (cb_buf s) \<and> cb_pushed s = cb_popped s @ contents N (cb_buf s) \<and> lock_ok s \<and> wake_ok N s"

lemma lock_ok_goto:
  assumes "lock_ok s" and "t < length (cb_threads s)"
  shows "holds p = holds (cb_threads s ! t) \<Longrightarrow> lock_ok (goto t p s)"
    and "\<not> holds (cb_threads s ! t) \<Longrightarrow> holds p \<Longrightarrow> cb_mutex s = None \<Longrightarrow> lock_ok (goto t p (s\<lparr>cb_mutex := Some t\<rparr>))"
    and "holds (cb_threads s ! t) \<Longrightarrow> \<not> holds p \<Longrightarrow> lock_ok (goto t p (s\<lparr>cb_mutex := None\<rparr>))"
proof -
  have l: "(u < length (cb_threads s) \<and> holds (cb_threads s ! u)) \<longleftrightarrow> cb_mutex s = Some u" for u using assms(1) by (simp add: lock_ok_def)
  show "holds p = holds (cb_threads s ! t) \<Longrightarrow> lock_ok (goto t p s)"
    using l assms(2) by (auto simp: lock_ok_def nth_list_update)
  show "\<not> holds (cb_threads s ! t) \<Longrightarrow> holds p \<Longrightarrow> cb_mutex s = None \<Longrightarrow> lock_ok (goto t p (s\<lparr>cb_mutex := Some t\<rparr>))"
    using l assms(2) by (auto simp: lock_ok_def nth_list_update)
  show "holds (cb_threads s ! t) \<Longrightarrow> \<not> holds p \<Longrightarrow> lock_ok (goto t p (s\<lparr>cb_mutex := None\<rparr>))"
    using l l [of t] assms(2) by (auto simp: lock_ok_def nth_list_update)
qed

text \<open>A wake-up keeps everything: a thread that waited will look.\<close>

lemma woken_holds [simp]: "holds (woken p) = holds p"
  by (cases p) auto

lemma woken_inv:
  assumes "cb_inv N s" and "t < length (cb_threads s)"
  shows "cb_inv N (goto t (woken (cb_threads s ! t)) s)"
proof -
  have "lock_ok (goto t (woken (cb_threads s ! t)) s)" by (rule lock_ok_goto(1)) (use assms in \<open>simp_all add: cb_inv_def\<close>)
  moreover have "wake_ok N (goto t (woken (cb_threads s ! t)) s)"
    using assms how_many_update [OF assms(2), of push_waits "woken (cb_threads s ! t)"] how_many_update [OF assms(2), of pop_waits "woken (cb_threads s ! t)"]
      how_many_update [OF assms(2), of push_looks "woken (cb_threads s ! t)"] how_many_update [OF assms(2), of pop_looks "woken (cb_threads s ! t)"]
    by (cases "cb_threads s ! t") (auto simp: cb_inv_def wake_ok_def)
  ultimately show ?thesis using assms(1) by (simp add: cb_inv_def)
qed

lemma wake_goto:
  fixes s :: "'a cb_state"
  assumes wf: "wake_ok N s" and t: "t < length (cb_threads s)" and q: "cb_threads s ! t = q" "\<not> push_waits q" "\<not> pop_waits q"
    and push: "if push_waits p then cb_held N (cb_buf s') = unat N - 1
      else unat N - 1 - cb_held N (cb_buf s') + of_bool (push_looks q) \<le> unat N - 1 - cb_held N (cb_buf s) + of_bool (push_looks p)"
    and pop: "if pop_waits p then cb_held N (cb_buf s') = 0
      else cb_held N (cb_buf s') + of_bool (pop_looks q) \<le> cb_held N (cb_buf s) + of_bool (pop_looks p)"
    and s': "cb_threads s' = (cb_threads s)[t := p]"
  shows "wake_ok N s'"
proof -
  note upd = how_many_update [OF t, of _ p]
  have "how_many push_waits (cb_threads s') = 0 \<or> unat N - 1 - cb_held N (cb_buf s') \<le> how_many push_looks (cb_threads s')"
    using wf q(1,2) push upd [of push_waits] upd [of push_looks] by (auto simp: wake_ok_def s' split: if_splits)
  moreover have "how_many pop_waits (cb_threads s') = 0 \<or> cb_held N (cb_buf s') \<le> how_many pop_looks (cb_threads s')"
    using wf q(1,3) pop upd [of pop_waits] upd [of pop_looks] by (auto simp: wake_ok_def s' split: if_splits)
  ultimately show ?thesis by (simp add: wake_ok_def)
qed

text \<open>A signal to a thread that waits: it will look in place of the one that signalled.\<close>

lemma wake_signal:
  fixes s :: "'a cb_state"
  assumes wf: "wake_ok N s" and t: "t < length (cb_threads s)" and u: "u < length (cb_threads s)"
    and sig: "cb_threads s ! t = Push_Signal \<and> pop_waits (cb_threads s ! u) \<or> cb_threads s ! t = Pop_Signal \<and> push_waits (cb_threads s ! u)"
  shows "wake_ok N (goto t Leave (goto u (woken (cb_threads s ! u)) s))"
proof -
  let ?p = "woken (cb_threads s ! u)" and ?ps = "(cb_threads s)[u := woken (cb_threads s ! u)]"
  have "t \<noteq> u" using sig by auto
  then have t': "t < length ?ps" "?ps ! t = cb_threads s ! t" using t by simp_all
  note a = how_many_update [OF u, of _ ?p] and b = how_many_update [OF t'(1), of _ Leave, unfolded t'(2)]
  show ?thesis
    using sig wf a [of push_waits] a [of push_looks] a [of pop_waits] a [of pop_looks] b [of push_waits] b [of push_looks] b [of pop_waits] b [of pop_looks]
    by (cases "cb_threads s ! u") (auto simp: wake_ok_def)
qed

lemma cb_work_inv:
  assumes "cb_work N s s'" and "cb_inv N s"
  shows "cb_inv N s'"
  using assms
proof (cases rule: cb_work.cases)
  case (push_lock t e)
  then show ?thesis using assms(2) wake_goto [where s = s and s' = s' and t = t and p = "Push_Loop e" and N = N] lock_ok_goto(2) [of s t "Push_Loop e"]
    by (auto simp: cb_inv_def)
next
  case (push_wait t e)
  then show ?thesis using assms(2) wake_goto [where s = s and s' = s' and t = t and p = "Push_Wait e" and N = N] lock_ok_goto(3) [of s t "Push_Wait e"]
    by (auto simp: cb_inv_def cbq.full_iff)
next
  case (push_store t e b)
  have b: "cb_ok N b" "contents N b = contents N (cb_buf s) @ [e]" using cbq.put_item [OF _ push_store(3,4)] assms(2) by (simp_all add: cb_inv_def)
  have "cb_held N b = Suc (cb_held N (cb_buf s))" "cb_held N b \<le> unat N - 1"
    using b(2) cbq.room [OF b(1)] by (simp_all flip: contents_length)
  then show ?thesis using assms(2) wake_goto [where s = s and s' = s' and t = t and p = "Push_Signal" and N = N] push_store b lock_ok_goto(1) [of s t Push_Signal]
    by (auto simp: cb_inv_def lock_ok_def)
next
  case (push_signal t u)
  have "lock_ok (goto t Leave (goto u (woken (cb_threads s ! u)) s))"
    using assms(2) push_signal lock_ok_goto(1) [of s u "woken (cb_threads s ! u)"]
      lock_ok_goto(1) [of "goto u (woken (cb_threads s ! u)) s" t Leave] by (auto simp: cb_inv_def nth_list_update)
  then show ?thesis using assms(2) push_signal wake_signal [of N s t u] by (simp add: cb_inv_def)
next
  case (push_signal_none t)
  have "how_many pop_waits (cb_threads s') = 0"
    using push_signal_none how_many_update [of t "cb_threads s" pop_waits Leave] how_many_pos [of pop_waits "cb_threads s"] by simp
  then show ?thesis using assms(2) push_signal_none lock_ok_goto(1) [of s t Leave] how_many_update [of t "cb_threads s" push_waits Leave]
    how_many_update [of t "cb_threads s" push_looks Leave] how_many_update [of t "cb_threads s" pop_waits Leave] how_many_update [of t "cb_threads s" pop_looks Leave]
    by (auto simp: cb_inv_def wake_ok_def split: if_splits)
next
  case (pop_lock t)
  then show ?thesis using assms(2) wake_goto [where s = s and s' = s' and t = t and p = "Pop_Loop" and N = N] lock_ok_goto(2) [of s t Pop_Loop]
    by (auto simp: cb_inv_def)
next
  case (pop_wait t)
  then show ?thesis using assms(2) wake_goto [where s = s and s' = s' and t = t and p = "Pop_Wait" and N = N] lock_ok_goto(3) [of s t Pop_Wait]
    by (auto simp: cb_inv_def cbq.empty_iff contents_def)
next
  case (pop_take t e b)
  have b: "cb_ok N b" "contents N (cb_buf s) = e # contents N b" using cbq.get_item [OF _ pop_take(3,4)] assms(2) by (simp_all add: cb_inv_def)
  have "cb_held N (cb_buf s) = Suc (cb_held N b)" using b(2) by (simp flip: contents_length)
  then show ?thesis using assms(2) wake_goto [where s = s and s' = s' and t = t and p = "Pop_Signal" and N = N] pop_take b lock_ok_goto(1) [of s t Pop_Signal]
    by (auto simp: cb_inv_def lock_ok_def)
next
  case (pop_signal t u)
  have "lock_ok (goto t Leave (goto u (woken (cb_threads s ! u)) s))"
    using assms(2) pop_signal lock_ok_goto(1) [of s u "woken (cb_threads s ! u)"]
      lock_ok_goto(1) [of "goto u (woken (cb_threads s ! u)) s" t Leave] by (auto simp: cb_inv_def nth_list_update)
  then show ?thesis using assms(2) pop_signal wake_signal [of N s t u] by (simp add: cb_inv_def)
next
  case (pop_signal_none t)
  have "how_many push_waits (cb_threads s') = 0"
    using pop_signal_none how_many_update [of t "cb_threads s" push_waits Leave] how_many_pos [of push_waits "cb_threads s"] by simp
  then show ?thesis using assms(2) pop_signal_none lock_ok_goto(1) [of s t Leave] how_many_update [of t "cb_threads s" push_waits Leave]
    how_many_update [of t "cb_threads s" push_looks Leave] how_many_update [of t "cb_threads s" pop_waits Leave] how_many_update [of t "cb_threads s" pop_looks Leave]
    by (auto simp: cb_inv_def wake_ok_def split: if_splits)
next
  case (leave t)
  then show ?thesis using assms(2) wake_goto [where s = s and s' = s' and t = t and p = "Idle" and N = N] lock_ok_goto(3) [of s t Idle]
    by (auto simp: cb_inv_def)
qed

lemma cb_step_inv:
  assumes "cb_step N s s'" and "cb_inv N s"
  shows "cb_inv N s'"
  using assms
proof (cases rule: cb_step.cases)
  case (call_push t e)
  then show ?thesis using assms(2) wake_goto [where s = s and s' = s' and t = t and p = "Push_Enter e" and N = N] lock_ok_goto(1) [of s t "Push_Enter e"]
    by (auto simp: cb_inv_def)
next
  case (call_pop t)
  then show ?thesis using assms(2) wake_goto [where s = s and s' = s' and t = t and p = Pop_Enter and N = N] lock_ok_goto(1) [of s t Pop_Enter]
    by (auto simp: cb_inv_def)
qed (use assms cb_work_inv woken_inv in auto)

lemma cb_init_inv:
  assumes "length junk = unat N" and "1 < unat N" and "unat N < 2 ^ 31"
  shows "cb_inv N (cb_init junk n)"
  using assms by (auto simp: cb_inv_def cb_init_def cb_ok_def contents_def cb_held_def lock_ok_def wake_ok_def how_many_def filter_empty_conv)

lemma cb_reach_inv: "cb_reach N s0 s \<Longrightarrow> cb_inv N s0 \<Longrightarrow> cb_inv N s"
  by (induction rule: cb_reach.induct) (auto intro: cb_step_inv)

text \<open>A thread inside \<open>push\<close> or \<open>pop\<close> that does not wait lets some thread go on: the one that holds the mutex, or itself.\<close>

lemma holder_works:
  assumes "cb_ok N (cb_buf s)" and "t < length (cb_threads s)" and "holds (cb_threads s ! t)"
  shows "\<exists>s'. cb_work N s s'"
proof (cases "cb_threads s ! t")
  case (Push_Loop e)
  then show ?thesis using assms(1,2) cbq.put_law [OF assms(1), of e] by (cases "is_full N (cb_buf s)") (auto intro: cb_work.intros)
next
  case Pop_Loop
  then show ?thesis using assms(1,2) cbq.get_law [OF assms(1)] by (cases "is_empty (cb_buf s)") (auto intro: cb_work.intros)
next
  case Push_Signal
  then have at: "at t Push_Signal s" using assms(2) by simp
  show ?thesis
  proof (cases "list_ex pop_waits (cb_threads s)")
    case True
    then show ?thesis using push_signal [OF at] unfolding list_ex_length by blast
  next
    case False
    then show ?thesis using push_signal_none [OF at] by blast
  qed
next
  case Pop_Signal
  then have at: "at t Pop_Signal s" using assms(2) by simp
  show ?thesis
  proof (cases "list_ex push_waits (cb_threads s)")
    case True
    then show ?thesis using pop_signal [OF at] unfolding list_ex_length by blast
  next
    case False
    then show ?thesis using pop_signal_none [OF at] by blast
  qed
qed (use assms(2,3) in \<open>auto intro: cb_work.intros\<close>)

definition rests :: "'a pc \<Rightarrow> bool" where
  "rests p \<longleftrightarrow> p = Idle \<or> push_waits p \<or> pop_waits p"

lemma busy_works:
  assumes "cb_inv N s" and "t < length (cb_threads s)" and "\<not> rests (cb_threads s ! t)"
  shows "\<exists>s'. cb_work N s s'"
proof (cases "cb_mutex s")
  case None
  then have "\<not> holds (cb_threads s ! t)" using assms(1,2) by (auto simp: cb_inv_def lock_ok_def)
  then show ?thesis using assms(2,3) None by (cases "cb_threads s ! t") (auto simp: rests_def intro: cb_work.intros)
next
  case (Some u)
  then have "u < length (cb_threads s)" "holds (cb_threads s ! u)" using assms(1) by (auto simp: cb_inv_def lock_ok_def)
  then show ?thesis using holder_works assms(1) by (auto simp: cb_inv_def)
qed

section \<open>Properties\<close>

text \<open>
  C6.  However the calls of any number of threads are interleaved, the elements that were popped are the
  first ones that were pushed, in the order in which they were pushed; the rest is in the buffer, which
  never holds more than \<open>BUFFER_SIZE - 1\<close>; and at most one thread is between taking the mutex and
  releasing it.
\<close>

theorem circle_buffer_fifo:
  assumes "cb_reach N (cb_init junk n) s" and "length junk = unat N" and "1 < unat N" and "unat N < 2 ^ 31"
  shows "cb_pushed s = cb_popped s @ contents N (cb_buf s) \<and> unat (cb_size N (cb_buf s)) = length (contents N (cb_buf s)) \<and>
    unat (cb_size N (cb_buf s)) < unat N \<and> length (filter holds (cb_threads s)) \<le> 1"
proof -
  have i: "cb_inv N s" using cb_reach_inv [OF assms(1) cb_init_inv [OF assms(2-4)]] .
  then have ok: "cb_ok N (cb_buf s)" and l: "lock_ok s" by (simp_all add: cb_inv_def)
  have "\<exists>u. {t. t < length (cb_threads s) \<and> holds (cb_threads s ! t)} \<subseteq> {u}" using l by (cases "cb_mutex s") (auto simp: lock_ok_def)
  then obtain u where "{t. t < length (cb_threads s) \<and> holds (cb_threads s ! t)} \<subseteq> {u}" by blast
  then have "card {t. t < length (cb_threads s) \<and> holds (cb_threads s ! t)} \<le> card {u}" by (intro card_mono) simp_all
  then have "length (filter holds (cb_threads s)) \<le> 1" by (simp add: length_filter_conv_card)
  then show ?thesis using i cb_size_held [OF ok] cbq.room [OF ok] assms(3) by (auto simp: cb_inv_def)
qed

theorem circle_buffer_fifo_witness:
  "\<exists>s. cb_reach 3 (cb_init [0, 0, 0 :: nat] 2) s \<and> cb_pushed s = [7] \<and> cb_pushed s = cb_popped s @ contents 3 (cb_buf s)"
proof -
  let ?s0 = "cb_init [0, 0, 0 :: nat] 2"
  let ?s1 = "goto 0 (Push_Enter 7) ?s0"
  let ?s2 = "goto 0 (Push_Loop 7) (?s1\<lparr>cb_mutex := Some 0\<rparr>)"
  let ?s3 = "goto 0 Push_Signal (?s2\<lparr>cb_buf := \<lparr>m_head = 0, m_tail = 1, m_buffer = [7, 0, 0]\<rparr>, cb_pushed := cb_pushed ?s2 @ [7]\<rparr>)"
  have "cb_reach 3 ?s0 ?s1" by (intro cb_next [OF cb_start] call_push) (simp add: cb_init_def numeral_2_eq_2)
  then have "cb_reach 3 ?s0 ?s2" by (rule cb_next) (intro cb_work_step push_lock; simp add: cb_init_def numeral_2_eq_2)
  then have r: "cb_reach 3 ?s0 ?s3"
    by (rule cb_next) (intro cb_work_step push_store [where e = 7]; simp add: cb_init_def numeral_2_eq_2 is_full_def cb_put_def)
  have "cb_pushed ?s3 = [7]" by (simp add: cb_init_def)
  then show ?thesis using r circle_buffer_fifo [OF r] by auto
qed

text \<open>
  C7.  No wake-up is lost.  In every reachable state either some thread inside \<open>push\<close> or \<open>pop\<close> can go on,
  or every thread is outside or waits, and then a \<open>push\<close> waits only while the buffer is full and a \<open>pop\<close>
  only while it is empty, so that they do not wait for each other.
\<close>

theorem circle_buffer_no_lost_wakeup:
  assumes "cb_reach N (cb_init junk n) s" and "length junk = unat N" and "1 < unat N" and "unat N < 2 ^ 31"
  shows "(\<exists>s'. cb_work N s s') \<or>
    list_all rests (cb_threads s) \<and> (list_ex push_waits (cb_threads s) \<longrightarrow> is_full N (cb_buf s)) \<and>
    (list_ex pop_waits (cb_threads s) \<longrightarrow> is_empty (cb_buf s)) \<and> \<not> (list_ex push_waits (cb_threads s) \<and> list_ex pop_waits (cb_threads s))"
proof (cases "list_all rests (cb_threads s)")
  case True
  have i: "cb_inv N s" using cb_reach_inv [OF assms(1) cb_init_inv [OF assms(2-4)]] .
  then have ok: "cb_ok N (cb_buf s)" and w: "wake_ok N s" by (simp_all add: cb_inv_def)
  have q: "\<not> push_looks p \<and> \<not> pop_looks p" if "rests p" for p :: "'a pc" using that by (cases p) (simp_all add: rests_def)
  then have z: "how_many push_looks (cb_threads s) = 0" "how_many pop_looks (cb_threads s) = 0"
    using True by (auto simp: how_many_def filter_empty_conv list_all_iff)
  have "list_ex push_waits (cb_threads s) \<longrightarrow> is_full N (cb_buf s)"
    using w z(1) cbq.room [OF ok] by (auto simp: wake_ok_def cbq.full_iff [OF ok] simp flip: how_many_pos)
  moreover have "list_ex pop_waits (cb_threads s) \<longrightarrow> is_empty (cb_buf s)"
    using w z(2) by (auto simp: wake_ok_def cbq.empty_iff [OF ok] simp flip: how_many_pos length_0_conv)
  moreover have "\<not> (is_full N (cb_buf s) \<and> is_empty (cb_buf s))" using assms(3) by (auto simp: cbq.full_iff [OF ok] cbq.empty_iff [OF ok] simp del: contents_length)
  ultimately show ?thesis using True by blast
next
  case False
  then show ?thesis using busy_works cb_reach_inv [OF assms(1) cb_init_inv [OF assms(2-4)]] by (auto simp: list_all_length)
qed

theorem circle_buffer_no_lost_wakeup_witness:
  "\<exists>s. cb_reach 3 (cb_init [0, 0, 0 :: nat] 1) s \<and> list_ex pop_waits (cb_threads s) \<and> is_empty (cb_buf s)"
proof -
  let ?s0 = "cb_init [0, 0, 0 :: nat] 1"
  let ?s1 = "goto 0 Pop_Enter ?s0"
  let ?s2 = "goto 0 Pop_Loop (?s1\<lparr>cb_mutex := Some 0\<rparr>)"
  let ?s3 = "goto 0 Pop_Wait (?s2\<lparr>cb_mutex := None\<rparr>)"
  have "cb_reach 3 ?s0 ?s1" by (intro cb_next [OF cb_start] call_pop) (simp add: cb_init_def)
  then have "cb_reach 3 ?s0 ?s2" by (rule cb_next) (intro cb_work_step pop_lock; simp add: cb_init_def)
  then have r: "cb_reach 3 ?s0 ?s3" by (rule cb_next) (intro cb_work_step pop_wait; simp add: cb_init_def is_empty_def)
  have t: "cb_threads ?s3 = [Pop_Wait]" by (simp add: cb_init_def)
  have "\<not> cb_work 3 ?s3 s'" for s' by (auto simp: cb_init_def elim!: cb_work.cases)
  then have "list_ex pop_waits (cb_threads ?s3) \<longrightarrow> is_empty (cb_buf ?s3)" using circle_buffer_no_lost_wakeup [OF r] by auto
  then show ?thesis using r t by (intro exI [of _ ?s3]) simp
qed

end
