(* ===== verification/Bpf_Image.thy ===== *)
theory Bpf_Image
  imports Cstring Bpf_Filter
begin

text \<open>
  The printer of filter programs, \<open>bpf_image.c\<close>, against the interpreter of \<open>Bpf_Filter\<close>: instructions
  with the same image do the same, so a printed program says what it does.
\<close>

section \<open>The printer\<close>

text \<open>A format of the source: the text before its conversion, the conversion, and the text behind it.\<close>

datatype img_conv = Conv_None | Conv_d | Conv_x

type_synonym img_fmt = "string \<times> img_conv \<times> string"

fun conv_text :: "img_conv \<Rightarrow> int \<Rightarrow> string" where
  "conv_text Conv_None v = ''''"
| "conv_text Conv_d v = fmt_d v"
| "conv_text Conv_x v = fmt_x (word_of_int v)"

text \<open>\<open>snprintf(operand, sizeof operand, fmt, v)\<close>\<close>

definition img_operand :: "img_fmt \<Rightarrow> int \<Rightarrow> string" where
  "img_operand fmt v = (case fmt of (a, c, b) \<Rightarrow> take 63 (a @ conv_text c v @ b))"

text \<open>The cases of the \<open>switch\<close>: code, mnemonic, format.\<close>

definition img_loads :: "(u16 \<times> string \<times> img_fmt) list" where
  "img_loads = [
     (BPF_RET OR BPF_K, ''ret'', (''#'', Conv_d, '''')),
     (BPF_RET OR BPF_A, ''ret'', ('''', Conv_None, '''')),
     (BPF_LD OR BPF_W OR BPF_ABS, ''ld'', (''['', Conv_d, '']'')),
     (BPF_LD OR BPF_H OR BPF_ABS, ''ldh'', (''['', Conv_d, '']'')),
     (BPF_LD OR BPF_B OR BPF_ABS, ''ldb'', (''['', Conv_d, '']'')),
     (BPF_LD OR BPF_W OR BPF_LEN, ''ld'', (''#pktlen'', Conv_None, '''')),
     (BPF_LD OR BPF_W OR BPF_IND, ''ld'', (''[x + '', Conv_d, '']'')),
     (BPF_LD OR BPF_H OR BPF_IND, ''ldh'', (''[x + '', Conv_d, '']'')),
     (BPF_LD OR BPF_B OR BPF_IND, ''ldb'', (''[x + '', Conv_d, '']'')),
     (BPF_LD OR BPF_IMM, ''ld'', (''#0x'', Conv_x, '''')),
     (BPF_LDX OR BPF_IMM, ''ldx'', (''#0x'', Conv_x, '''')),
     (BPF_LDX OR BPF_MSH OR BPF_B, ''ldxb'', (''4*(['', Conv_d, '']&0xf)'')),
     (BPF_LD OR BPF_MEM, ''ld'', (''M['', Conv_d, '']'')),
     (BPF_LDX OR BPF_MEM, ''ldx'', (''M['', Conv_d, '']'')),
     (BPF_ST, ''st'', (''M['', Conv_d, '']'')),
     (BPF_STX, ''stx'', (''M['', Conv_d, '']''))]"

definition img_jumps :: "(u16 \<times> string \<times> img_fmt) list" where
  "img_jumps = [
     (BPF_JMP OR BPF_JA, ''ja'', ('''', Conv_d, '''')),
     (BPF_JMP OR BPF_JGT OR BPF_K, ''jgt'', (''#0x'', Conv_x, '''')),
     (BPF_JMP OR BPF_JGE OR BPF_K, ''jge'', (''#0x'', Conv_x, '''')),
     (BPF_JMP OR BPF_JEQ OR BPF_K, ''jeq'', (''#0x'', Conv_x, '''')),
     (BPF_JMP OR BPF_JSET OR BPF_K, ''jset'', (''#0x'', Conv_x, '''')),
     (BPF_JMP OR BPF_JGT OR BPF_X, ''jgt'', (''x'', Conv_None, '''')),
     (BPF_JMP OR BPF_JGE OR BPF_X, ''jge'', (''x'', Conv_None, '''')),
     (BPF_JMP OR BPF_JEQ OR BPF_X, ''jeq'', (''x'', Conv_None, '''')),
     (BPF_JMP OR BPF_JSET OR BPF_X, ''jset'', (''x'', Conv_None, ''''))]"

definition img_alu :: "(u16 \<times> string \<times> img_fmt) list" where
  "img_alu = [
     (BPF_ALU OR BPF_ADD OR BPF_X, ''add'', (''x'', Conv_None, '''')),
     (BPF_ALU OR BPF_SUB OR BPF_X, ''sub'', (''x'', Conv_None, '''')),
     (BPF_ALU OR BPF_MUL OR BPF_X, ''mul'', (''x'', Conv_None, '''')),
     (BPF_ALU OR BPF_DIV OR BPF_X, ''div'', (''x'', Conv_None, '''')),
     (BPF_ALU OR BPF_AND OR BPF_X, ''and'', (''x'', Conv_None, '''')),
     (BPF_ALU OR BPF_OR OR BPF_X, ''or'', (''x'', Conv_None, '''')),
     (BPF_ALU OR BPF_LSH OR BPF_X, ''lsh'', (''x'', Conv_None, '''')),
     (BPF_ALU OR BPF_RSH OR BPF_X, ''rsh'', (''x'', Conv_None, '''')),
     (BPF_ALU OR BPF_ADD OR BPF_K, ''add'', (''#'', Conv_d, '''')),
     (BPF_ALU OR BPF_SUB OR BPF_K, ''sub'', (''#'', Conv_d, '''')),
     (BPF_ALU OR BPF_MUL OR BPF_K, ''mul'', (''#'', Conv_d, '''')),
     (BPF_ALU OR BPF_DIV OR BPF_K, ''div'', (''#'', Conv_d, '''')),
     (BPF_ALU OR BPF_AND OR BPF_K, ''and'', (''#0x'', Conv_x, '''')),
     (BPF_ALU OR BPF_OR OR BPF_K, ''or'', (''#0x'', Conv_x, '''')),
     (BPF_ALU OR BPF_LSH OR BPF_K, ''lsh'', (''#'', Conv_d, '''')),
     (BPF_ALU OR BPF_RSH OR BPF_K, ''rsh'', (''#'', Conv_d, '''')),
     (BPF_ALU OR BPF_NEG, ''neg'', ('''', Conv_None, '''')),
     (BPF_MISC OR BPF_TAX, ''tax'', ('''', Conv_None, '''')),
     (BPF_MISC OR BPF_TXA, ''txa'', ('''', Conv_None, ''''))]"

definition img_cases :: "(u16 \<times> string \<times> img_fmt) list" where
  "img_cases = img_loads @ img_jumps @ img_alu"

text \<open>Mnemonic, format and value; \<open>n + 1 + p->k\<close> is an \<open>int\<close>.\<close>

definition img_parts :: "bpf_insn \<Rightarrow> int \<Rightarrow> string \<times> img_fmt \<times> int" where
  "img_parts p n =
     (case map_of img_cases (insn_code p) of
        None \<Rightarrow> (''unimp'', (''0x'', Conv_x, ''''), uint (insn_code p))
      | Some (op, fmt) \<Rightarrow> (op, fmt, if insn_code p = (BPF_JMP OR BPF_JA) then sint (word_of_int (n + 1) + insn_k p) else sint (insn_k p)))"

definition img_branches :: "u16 \<Rightarrow> bool" where
  "img_branches code \<longleftrightarrow> BPF_CLASS code = BPF_JMP \<and> BPF_OP code \<noteq> BPF_JA"

text \<open>\<open>snprintf(image, sizeof image, ...)\<close>: \<open>"(%03d) %-8s %-16s jt %d\tjf %d"\<close> or \<open>"(%03d) %-8s %s"\<close>.\<close>

definition bpf_image :: "bpf_insn \<Rightarrow> int \<Rightarrow> string" where
  "bpf_image p n = (case img_parts p n of (op, fmt, v) \<Rightarrow>
     let operand = img_operand fmt v; start = ''('' @ fmt_03d n @ '') '' @ fmt_left 8 op @ '' '' in
     take 255 (if img_branches (insn_code p)
       then start @ fmt_left 16 operand @ '' jt '' @ fmt_d (n + 1 + uint (insn_jt p)) @ [CHR 0x09] @ ''jf '' @ fmt_d (n + 1 + uint (insn_jf p))
       else start @ operand))"

section \<open>Reading an image\<close>

lemma fmt_d_chars: "c \<in> set (fmt_d v) \<Longrightarrow> isdigit c \<or> c = CHR ''-''"
  by (auto simp: fmt_d_def dest: dec_digits split: if_splits)

lemma fmt_d_Nil [simp]: "fmt_d v \<noteq> []"
  by (simp add: fmt_d_def)

lemma isdigit_minus: "\<not> isdigit CHR ''-''"
  by (simp add: isdigit_def)

lemma fmt_d_inj: "fmt_d v = fmt_d w \<Longrightarrow> v = w"
proof -
  have "dec m \<noteq> CHR ''-'' # dec k" "CHR ''-'' # dec k \<noteq> dec m" for m k
    using dec_digits [of "CHR ''-''" m] by (metis list.set_intros(1) isdigit_minus)+
  then show "fmt_d v = fmt_d w \<Longrightarrow> v = w"
    by (auto simp: fmt_d_def dest: numeral_text_inj [rotated 2] split: if_splits)
qed

lemma fmt_x_inj: "fmt_x v = fmt_x w \<Longrightarrow> v = w"
  by (auto simp: fmt_x_def word_unat_eq_iff dest: numeral_text_inj [rotated 2])

lemma fmt_d_length:
  assumes "- 2147483648 \<le> v" and "v < 2147483648"
  shows "length (fmt_d v) \<le> 11"
proof -
  have "nat (- v) < 10 ^ Suc 9" "nat v < 10 ^ Suc 9" using assms by simp_all
  then show ?thesis using numeral_text_length [of 10 "nat (- v)" 9] numeral_text_length [of 10 "nat v" 9] by (auto simp: fmt_d_def)
qed

lemma fmt_x_length: "length (fmt_x v) \<le> 8"
proof -
  have "unat v < 2 ^ LENGTH(32)" by (rule unsigned_less)
  then show ?thesis using numeral_text_length [of 16 "unat v" 7] by (simp add: fmt_x_def)
qed

text \<open>The format of an operand of an instruction that is not \<open>unimp\<close>, read off its text.\<close>

definition read_fmt :: "string \<Rightarrow> img_fmt" where
  "read_fmt t =
     (case t of [] \<Rightarrow> ('''', Conv_None, '''')
      | c # r \<Rightarrow>
          if c = CHR ''x'' then (''x'', Conv_None, '''')
          else if c = CHR ''['' then (if hd r = CHR ''x'' then (''[x + '', Conv_d, '']'') else (''['', Conv_d, '']''))
          else if c = CHR ''M'' then (''M['', Conv_d, '']'')
          else if c = CHR ''4'' \<and> r \<noteq> [] \<and> hd r = CHR ''*'' then (''4*(['', Conv_d, '']&0xf)'')
          else if c = CHR ''#'' then
            (if hd r = CHR ''p'' then (''#pktlen'', Conv_None, '''')
             else if tl r \<noteq> [] \<and> hd (tl r) = CHR ''x'' then (''#0x'', Conv_x, '''') else (''#'', Conv_d, ''''))
          else ('''', Conv_d, ''''))"

definition img_fmts :: "img_fmt list" where
  "img_fmts = remdups (map (\<lambda>(c, op, f). f) img_cases)"

lemma img_fmts_eq:
  "img_fmts = [(''['', Conv_d, '']''), (''#pktlen'', Conv_None, ''''), (''[x + '', Conv_d, '']''), (''4*(['', Conv_d, '']&0xf)''),
     (''M['', Conv_d, '']''), ('''', Conv_d, ''''), (''x'', Conv_None, ''''), (''#0x'', Conv_x, ''''), (''#'', Conv_d, ''''), ('''', Conv_None, '''')]"
  by code_simp

text \<open>An untruncated operand.\<close>

definition operand_text :: "img_fmt \<Rightarrow> int \<Rightarrow> string" where
  "operand_text fmt v = (case fmt of (a, c, b) \<Rightarrow> a @ conv_text c v @ b)"

definition numchar :: "char \<Rightarrow> bool" where
  "numchar c \<longleftrightarrow> isdigit c \<or> c = CHR ''-''"

lemma not_numchar: "\<not> numchar CHR ''x''" "\<not> numchar CHR ''*''" "\<not> numchar CHR ''[''" "\<not> numchar CHR ''M''" "\<not> numchar CHR ''#''" "\<not> numchar CHR ''p''"
  by (simp_all add: numchar_def isdigit_def)

lemma fmt_d_Cons:
  obtains c r where "fmt_d v = c # r" "numchar c" "r = [] \<or> (\<exists>c' r'. r = c' # r' \<and> numchar c')"
proof (cases "fmt_d v")
  case (Cons c r)
  have n: "numchar x" if "x \<in> set (fmt_d v)" for x using fmt_d_chars [OF that] by (simp add: numchar_def)
  have "numchar c" "r = [] \<or> (\<exists>c' r'. r = c' # r' \<and> numchar c')" using n Cons by (cases r; simp)+
  then show thesis using that Cons by blast
qed simp

lemma read_fmt_operand:
  assumes "fmt \<in> set img_fmts"
  shows "read_fmt (operand_text fmt v) = fmt"
proof -
  obtain c r where d: "fmt_d v = c # r" "numchar c" "r = [] \<or> (\<exists>c' r'. r = c' # r' \<and> numchar c')" by (rule fmt_d_Cons)
  have c: "c \<noteq> CHR ''x'' \<and> c \<noteq> CHR ''['' \<and> c \<noteq> CHR ''M'' \<and> c \<noteq> CHR ''#'' \<and> c \<noteq> CHR ''p''" using d(2) not_numchar by auto
  have r: "r = [] \<or> hd r \<noteq> CHR ''x'' \<and> hd r \<noteq> CHR ''*''" using d(3) not_numchar by auto
  from assms show ?thesis unfolding img_fmts_eq list.set insert_iff
    by (elim disjE) (use c r in \<open>simp_all add: operand_text_def read_fmt_def d(1)\<close>, auto)
qed

lemma operand_text_value:
  assumes "operand_text (a, c, b) v = operand_text (a, c, b) w" and "c \<noteq> Conv_None"
  shows "(word_of_int v :: u32) = word_of_int w"
  using assms by (cases c) (auto simp: operand_text_def dest: fmt_d_inj fmt_x_inj)

lemma operand_length:
  assumes "fmt \<in> set img_fmts \<or> fmt = (''0x'', Conv_x, '''')" and "- 2147483648 \<le> v" "v < 2147483648"
  shows "length (operand_text fmt v) \<le> 21" "img_operand fmt v = operand_text fmt v"
proof -
  show "length (operand_text fmt v) \<le> 21"
    using assms(1) fmt_d_length [OF assms(2,3)] fmt_x_length [of "word_of_int v"] unfolding img_fmts_eq by (auto simp: operand_text_def)
  then show "img_operand fmt v = operand_text fmt v" by (cases fmt) (simp add: img_operand_def operand_text_def)
qed

section \<open>Images and what they determine\<close>

abbreviation (input) SP :: char where "SP \<equiv> CHR '' ''"

lemma split_at:
  assumes "x @ c # y = x' @ c # y'" and "c \<notin> set x" and "c \<notin> set x'"
  shows "x = x' \<and> y = y'"
proof -
  have "takeWhile (\<lambda>a. a \<noteq> c) (x @ c # y) = x" "takeWhile (\<lambda>a. a \<noteq> c) (x' @ c # y') = x'"
    using assms(2,3) by (auto simp: takeWhile_tail takeWhile_eq_all_conv)
  then show ?thesis using assms(1) by simp
qed

lemma img_cases_ok:
  "list_all (\<lambda>(c, op, f). length op \<le> 4 \<and> SP \<notin> set op \<and> op \<noteq> ''unimp'' \<and> img_branches c = List.member [''jgt'', ''jge'', ''jeq'', ''jset''] op \<and>
     (img_branches c \<longrightarrow> f = (''#0x'', Conv_x, '''') \<or> f = (''x'', Conv_None, ''''))) img_cases"
  by code_simp

lemma img_cases_distinct: "distinct (map (\<lambda>(c, op, f). (op, f)) img_cases)" "distinct (map fst img_cases)"
  by code_simp+

lemma img_case:
  assumes "map_of img_cases c = Some (op, f)"
  shows "length op \<le> 4" "SP \<notin> set op" "op \<noteq> ''unimp''" "img_branches c \<longleftrightarrow> List.member [''jgt'', ''jge'', ''jeq'', ''jset''] op"
    "img_branches c \<longrightarrow> f = (''#0x'', Conv_x, '''') \<or> f = (''x'', Conv_None, '''')" "f \<in> set img_fmts"
proof -
  have m: "(c, op, f) \<in> set img_cases" using assms by (rule map_of_SomeD)
  show "length op \<le> 4" "SP \<notin> set op" "op \<noteq> ''unimp''" "img_branches c \<longleftrightarrow> List.member [''jgt'', ''jge'', ''jeq'', ''jset''] op"
    "img_branches c \<longrightarrow> f = (''#0x'', Conv_x, '''') \<or> f = (''x'', Conv_None, '''')"
    using img_cases_ok m unfolding list_all_iff by blast+
  show "f \<in> set img_fmts" using m by (force simp: img_fmts_def)
qed

lemma img_case_code:
  assumes "map_of img_cases c = Some (op, f)" and "map_of img_cases c' = Some (op, f)"
  shows "c = c'"
proof -
  have "(c, op, f) \<in> set img_cases" "(c', op, f) \<in> set img_cases" using assms by (simp_all add: map_of_SomeD)
  then show ?thesis using img_cases_distinct(1) by (fastforce simp: distinct_map inj_on_def)
qed

lemma uint_u8: "0 \<le> uint (x :: u8) \<and> uint x < 256"
proof -
  have "uint x < 2 ^ LENGTH(8)" by (rule unsigned_less)
  then show ?thesis by simp
qed

lemma uint_u16: "0 \<le> uint (x :: u16) \<and> uint x < 65536"
proof -
  have "uint x < 2 ^ LENGTH(16)" by (rule unsigned_less)
  then show ?thesis by simp
qed

text \<open>The parts of an image, and their sizes.\<close>

lemma img_parts_ok:
  assumes "img_parts p n = (op, f, v)"
  shows "length op \<le> 5" "SP \<notin> set op" "f \<in> set img_fmts \<or> f = (''0x'', Conv_x, '''')" "- 2147483648 \<le> v" "v < 2147483648"
    "img_branches (insn_code p) \<Longrightarrow> SP \<notin> set (operand_text f v)"
proof -
  have s: "- 2147483648 \<le> sint (w :: u32) \<and> sint w < 2147483648" for w
    using sint_greater_eq [of w] sint_less [of w] by simp
  have c: "- 2147483648 \<le> uint (insn_code p)" "uint (insn_code p) < 2147483648" using uint_u16 [of "insn_code p"] by linarith+
  have x: "SP \<notin> set (fmt_x w)" for w using hex_digits [of SP] by (auto simp: fmt_x_def isxdigit_def)
  show "- 2147483648 \<le> v" "v < 2147483648"
    using assms s c by (auto simp: img_parts_def split: option.splits if_splits)
  have "length op \<le> 5 \<and> SP \<notin> set op \<and> (f \<in> set img_fmts \<or> f = (''0x'', Conv_x, '''')) \<and>
      (img_branches (insn_code p) \<longrightarrow> SP \<notin> set (operand_text f v))"
  proof (cases "map_of img_cases (insn_code p)")
    case None
    then have "op = ''unimp''" "f = (''0x'', Conv_x, '''')" "operand_text f v = ''0x'' @ fmt_x (word_of_int v)"
      using assms by (auto simp: img_parts_def operand_text_def)
    then show ?thesis using x by simp
  next
    case (Some r)
    then have "map_of img_cases (insn_code p) = Some (op, f)" using assms by (auto simp: img_parts_def split: prod.splits)
    note c = img_case [OF this]
    have "SP \<notin> set (operand_text f v)" if "img_branches (insn_code p)" using c(5) that x by (auto simp: operand_text_def)
    then show ?thesis using c(1,2,6) by simp
  qed
  then show "length op \<le> 5" "SP \<notin> set op" "f \<in> set img_fmts \<or> f = (''0x'', Conv_x, '''')"
    "img_branches (insn_code p) \<Longrightarrow> SP \<notin> set (operand_text f v)" by blast+
qed

definition img_rest :: "bpf_insn \<Rightarrow> int \<Rightarrow> string \<Rightarrow> string" where
  "img_rest p n operand =
     (if img_branches (insn_code p)
      then fmt_left 16 operand @ '' jt '' @ fmt_d (n + 1 + uint (insn_jt p)) @ [CHR 0x09] @ ''jf '' @ fmt_d (n + 1 + uint (insn_jf p))
      else operand)"

lemma bpf_image_text:
  assumes "img_parts p n = (op, f, v)" and "0 \<le> n" and "n < 2147483000"
  shows "bpf_image p n = ''('' @ fmt_03d n @ '') '' @ op @ SP # (replicate (7 - length op) SP @ '' '' @ img_rest p n (operand_text f v))"
proof -
  note ok = img_parts_ok [OF assms(1)]
  note ol = operand_length [OF ok(3-5)]
  have j: "length (fmt_d (n + 1 + uint (b :: u8))) \<le> 11" for b
    using assms(2,3) uint_u8 [of b] by (intro fmt_d_length) simp_all
  have "length (fmt_03d n) \<le> 13" using assms(2) fmt_d_length [of n] assms(3) by (auto simp: fmt_03d_def fmt_d_def)
  moreover have "fmt_left 8 op = op @ SP # replicate (7 - length op) SP" using ok(1) by (simp add: fmt_left_def Suc_diff_le flip: replicate_Suc)
  moreover have "length (img_rest p n (operand_text f v)) \<le> 60" using ol(1) j [of "insn_jt p"] j [of "insn_jf p"] by (auto simp: img_rest_def fmt_left_def)
  ultimately have len: "length (''('' @ fmt_03d n @ '') '' @ fmt_left 8 op @ '' '' @ img_rest p n (operand_text f v)) \<le> 255"
      and left: "fmt_left 8 op = op @ SP # replicate (7 - length op) SP" using ok(1) by simp_all
  have "bpf_image p n = take 255 (''('' @ fmt_03d n @ '') '' @ fmt_left 8 op @ '' '' @ img_rest p n (operand_text f v))"
    using assms(1) by (simp add: bpf_image_def Let_def ol(2) img_rest_def)
  then show ?thesis using take_all [OF len] left by simp
qed

text \<open>What an instruction with a printed argument and printed targets does.\<close>

definition prints_k :: "u16 \<Rightarrow> bool" where
  "prints_k c \<longleftrightarrow> (case map_of img_cases c of None \<Rightarrow> False | Some (op, (a, conv, b)) \<Rightarrow> conv \<noteq> Conv_None)"

lemma prints_k_codes:
  "list_all prints_k [0x06, 0x20, 0x28, 0x30, 0x40, 0x48, 0x50, 0x00, 0x01, 0xb1, 0x60, 0x61, 0x02, 0x03, 0x05,
     0x25, 0x35, 0x15, 0x45, 0x04, 0x14, 0x24, 0x34, 0x54, 0x44, 0x64, 0x74]"
  "list_all img_branches [0x25, 0x35, 0x15, 0x45, 0x2d, 0x3d, 0x1d, 0x4d]"
  by code_simp+

lemma exec_insn_cong:
  assumes c: "insn_code p = c" "insn_code q = c" and k: "prints_k c \<longrightarrow> insn_k p = insn_k q"
    and j: "img_branches c \<longrightarrow> insn_jt p = insn_jt q \<and> insn_jf p = insn_jf q"
  shows "exec_insn pkt wirelen buflen p s = exec_insn pkt wirelen buflen q s"
proof -
  note pk = prints_k_codes [unfolded list.pred_inject simp_thms]
  have "exec_load pkt wirelen buflen p s = exec_load pkt wirelen buflen q s"
    unfolding exec_load_def c by (intro if_cong refl; use k pk(1) in simp)
  moreover have "exec_mem p s = exec_mem q s"
    unfolding exec_mem_def c Let_def by (intro if_cong refl; use k pk(1) in simp)
  moreover have "exec_jump p s = exec_jump q s"
    unfolding exec_jump_def c branch_def by (intro if_cong refl; use k j pk in simp)
  moreover have "exec_alu p s = exec_alu q s"
    unfolding exec_alu_def c Let_def by (intro if_cong refl; use k pk(1) in simp)
  moreover have "exec_misc p s = exec_misc q s" by (simp add: exec_misc_def c)
  ultimately show ?thesis by (simp only: exec_insn_def)
qed

text \<open>The rest of a line, behind the mnemonic, determines operand and targets.\<close>

lemma img_rest_operand:
  assumes "img_rest p n t = img_rest q n t'" and "img_branches (insn_code p) \<Longrightarrow> SP \<notin> set t" and "img_branches (insn_code q) \<Longrightarrow> SP \<notin> set t'"
    and "img_branches (insn_code p) \<noteq> img_branches (insn_code q) \<Longrightarrow> SP \<notin> set t \<and> SP \<notin> set t'"
  shows "t = t' \<and> (img_branches (insn_code p) \<and> img_branches (insn_code q) \<longrightarrow> insn_jt p = insn_jt q \<and> insn_jf p = insn_jf q)"
proof -
  have sp: "\<exists>y. fmt_left 16 u @ '' jt '' @ z = u @ SP # y" for u z
    by (cases "16 - length u") (simp_all add: fmt_left_def)
  show ?thesis
  proof (cases "img_branches (insn_code p)")
    case p: True
    show ?thesis
    proof (cases "img_branches (insn_code q)")
      case q: True
      obtain y y' where "img_rest p n t = t @ SP # y" "img_rest q n t' = t' @ SP # y'" using sp p q by (simp add: img_rest_def) metis
      then have t: "t = t'" using split_at assms(1-3) p q by metis
      let ?f = "\<lambda>a. fmt_d (n + 1 + uint (a :: u8))"
      have "?f (insn_jt p) @ CHR 0x09 # ''jf '' @ ?f (insn_jf p) = ?f (insn_jt q) @ CHR 0x09 # ''jf '' @ ?f (insn_jf q)"
        using assms(1) p q t by (simp add: img_rest_def)
      moreover have "CHR 0x09 \<notin> set (?f a)" for a using fmt_d_chars [of "CHR 0x09"] by (auto simp: isdigit_def)
      ultimately have "?f (insn_jt p) = ?f (insn_jt q) \<and> ''jf '' @ ?f (insn_jf p) = ''jf '' @ ?f (insn_jf q)" by (intro split_at) simp_all
      then have "?f (insn_jt p) = ?f (insn_jt q)" "?f (insn_jf p) = ?f (insn_jf q)" by simp_all
      then have "uint (insn_jt p) = uint (insn_jt q)" "uint (insn_jf p) = uint (insn_jf q)" by (auto dest: fmt_d_inj)
      then show ?thesis using t by (simp add: word_uint_eq_iff)
    next
      case q: False
      obtain y where "img_rest p n t = t @ SP # y" using sp p by (simp add: img_rest_def) metis
      then have "t' = t @ SP # y" using assms(1) q by (simp add: img_rest_def)
      then have "SP \<in> set t'" by simp
      then show ?thesis using assms(4) p q by simp
    qed
  next
    case p: False
    show ?thesis
    proof (cases "img_branches (insn_code q)")
      case q: True
      obtain y where "img_rest q n t' = t' @ SP # y" using sp q by (simp add: img_rest_def) metis
      then have "t = t' @ SP # y" using assms(1) p by (simp add: img_rest_def)
      then have "SP \<in> set t" by simp
      then show ?thesis using assms(4) p q by simp
    next
      case q: False
      then show ?thesis using assms(1) p by (simp add: img_rest_def)
    qed
  qed
qed

text \<open>One mnemonic stands for both kinds of instructions only when it is \<open>unimp\<close>.\<close>

lemma img_branches_mixed:
  assumes "img_parts p n = (op, f, v)" and "img_parts q n = (op, f', v')" and "img_branches (insn_code p) \<noteq> img_branches (insn_code q)"
  shows "SP \<notin> set (operand_text f v) \<and> SP \<notin> set (operand_text f' v')"
proof -
  have x: "SP \<notin> set (fmt_x w)" for w using hex_digits [of SP] by (auto simp: fmt_x_def isxdigit_def)
  have "map_of img_cases (insn_code p) = None \<and> map_of img_cases (insn_code q) = None"
    using assms img_case(3,4) [of "insn_code p"] img_case(3,4) [of "insn_code q"] by (auto simp: img_parts_def split: option.splits)
  then show ?thesis using assms(1,2) x by (auto simp: img_parts_def operand_text_def)
qed

lemma img_parts_code:
  assumes "img_parts p n = (op, f, v)" and "img_parts q n = (op, f', v')" and "operand_text f v = operand_text f' v'"
  shows "insn_code p = insn_code q \<and> (prints_k (insn_code p) \<longrightarrow> insn_k p = insn_k q)"
proof (cases "map_of img_cases (insn_code p)")
  case None
  then have p: "op = ''unimp''" "f = (''0x'', Conv_x, '''')" "v = uint (insn_code p)" using assms(1) by (simp_all add: img_parts_def)
  have "map_of img_cases (insn_code q) = None" using assms(2) p(1) img_case(3) [of "insn_code q" op f'] by (auto simp: img_parts_def split: option.splits)
  then have q: "f' = (''0x'', Conv_x, '''')" "v' = uint (insn_code q)" using assms(2) by (simp_all add: img_parts_def)
  have "(word_of_int (uint (insn_code p)) :: u32) = word_of_int (uint (insn_code q))"
    using operand_text_value assms(3) p q by blast
  then have "(ucast (insn_code p) :: u32) = ucast (insn_code q)" by simp
  then have "take_bit 32 (uint (insn_code p)) = take_bit 32 (uint (insn_code q))" by (simp add: word_uint_eq_iff unsigned_ucast_eq)
  moreover have "take_bit 32 (uint (w :: u16)) = uint w" for w using uint_u16 [of w] by (intro take_bit_int_eq_self) simp_all
  ultimately have "insn_code p = insn_code q" by (simp add: word_uint_eq_iff)
  then show ?thesis using None by (simp add: prints_k_def)
next
  case (Some r)
  then have p: "map_of img_cases (insn_code p) = Some (op, f)" using assms(1) by (auto simp: img_parts_def split: prod.splits)
  have "map_of img_cases (insn_code q) \<noteq> None" using assms(2) img_case(3) [OF p] by (auto simp: img_parts_def split: option.splits)
  then have q: "map_of img_cases (insn_code q) = Some (op, f')" using assms(2) by (auto simp: img_parts_def split: option.splits)
  have f: "f = f'" using read_fmt_operand img_case(6) [OF p] img_case(6) [OF q] assms(3) by metis
  then have c: "insn_code p = insn_code q" using img_case_code p q by blast
  have "insn_k p = insn_k q" if "prints_k (insn_code p)"
  proof -
    obtain a conv b where f0: "f = (a, conv, b)" by (cases f) auto
    then have f': "f = (a, conv, b)" "conv \<noteq> Conv_None" using that p by (simp_all add: prints_k_def)
    have "(word_of_int v :: u32) = word_of_int v'" using operand_text_value [of a conv b v v'] assms(3) f f' by simp
    then show ?thesis using assms(1,2) p q c by (auto simp: img_parts_def split: if_splits)
  qed
  then show ?thesis using c by blast
qed

text \<open>
  C40.  The image of an instruction says what it does: two instructions that \<open>bpf_image\<close> prints alike at
  the same place of a program are executed alike by \<open>bpf_filter\<close>, on every packet and in every state of
  the machine.  (Instructions that are printed as \<open>unimp\<close> are printed with their code.)
\<close>

theorem bpf_image_faithful:
  assumes "bpf_image p n = bpf_image q n" and "0 \<le> n" and "n < 2147483000"
  shows "exec_insn pkt wirelen buflen p s = exec_insn pkt wirelen buflen q s"
proof -
  obtain op f v where p: "img_parts p n = (op, f, v)" by (cases "img_parts p n") auto
  obtain op' f' v' where q: "img_parts q n = (op', f', v')" by (cases "img_parts q n") auto
  note okp = img_parts_ok [OF p] and okq = img_parts_ok [OF q]
  have "op @ SP # (replicate (7 - length op) SP @ '' '' @ img_rest p n (operand_text f v)) =
      op' @ SP # (replicate (7 - length op') SP @ '' '' @ img_rest q n (operand_text f' v'))"
    using assms(1) bpf_image_text [OF p assms(2,3)] bpf_image_text [OF q assms(2,3)] by simp
  then have op: "op = op'" and r: "img_rest p n (operand_text f v) = img_rest q n (operand_text f' v')"
    using split_at [OF _ okp(2) okq(2)] by auto
  have nosp: "SP \<notin> set (operand_text f v) \<and> SP \<notin> set (operand_text f' v')" if "img_branches (insn_code p) \<noteq> img_branches (insn_code q)"
    using that p q op img_branches_mixed [of p n op f v q f' v'] by blast
  have o: "operand_text f v = operand_text f' v'"
    "img_branches (insn_code p) \<and> img_branches (insn_code q) \<longrightarrow> insn_jt p = insn_jt q \<and> insn_jf p = insn_jf q"
    using img_rest_operand [OF r okp(6) okq(6) nosp] by blast+
  then have "insn_code p = insn_code q" "prints_k (insn_code p) \<longrightarrow> insn_k p = insn_k q" using img_parts_code [of p n op f v q f' v'] p q op o(1) by simp_all
  then show ?thesis using o(2) by (intro exec_insn_cong [of p "insn_code p" q]) simp_all
qed

theorem bpf_image_faithful_witness:
  "\<forall>s0. exec_insn [1, 2] 2 2 \<lparr>insn_code = BPF_RET OR BPF_A, insn_jt = 0, insn_jf = 0, insn_k = 5\<rparr> s0 =
   exec_insn [1, 2] 2 2 \<lparr>insn_code = BPF_RET OR BPF_A, insn_jt = 1, insn_jf = 0, insn_k = 7\<rparr> s0"
proof -
  have ret_a: "map_of img_cases 0x16 = Some (''ret'', '''', Conv_None, '''')" "\<not> img_branches 0x16" by code_simp+
  have "bpf_image \<lparr>insn_code = BPF_RET OR BPF_A, insn_jt = 0, insn_jf = 0, insn_k = 5\<rparr> 3 =
        bpf_image \<lparr>insn_code = BPF_RET OR BPF_A, insn_jt = 1, insn_jf = 0, insn_k = 7\<rparr> 3"
    using ret_a by (simp add: bpf_image_def img_parts_def img_operand_def)
  then show ?thesis by (intro allI bpf_image_faithful [where n = 3]) simp_all
qed

end
