(* ===== verification/Savefile.thy ===== *)
theory Savefile
  imports Bpf_Filter
begin

text \<open>
  Capture files, \<open>savefile.c\<close>: the translation between link-layer types and the numbers stored in a file,
  the writer (\<open>sf_write_header\<close>, \<open>pcap_dump\<close>) on a machine of either byte order, and the reader
  (\<open>pcap_fopen_offline\<close>, \<open>sf_next_packet\<close>, \<open>pcap_offline_read\<close>) on a little-endian one, from which
  \<open>nids_params.filename\<close> is played back.  A file is the list of its octets; whether \<open>ferror\<close> reports an error
  when there are too few is a parameter.  Memory allocation succeeds.  The time of a packet is the 32 bits per
  component that a file keeps of it.
\<close>

section \<open>Link-layer types\<close>

text \<open>The table \<open>map\<close>, in the three groups of its comments, without its last entry \<open>{ -1, -1 }\<close>.\<close>

definition linktype_map_same :: "(int \<times> int) list" where
  "linktype_map_same = [
     (0, 0),  \<comment> \<open>\<open>DLT_NULL\<close>\<close>
     (1, 1),  \<comment> \<open>\<open>DLT_EN10MB\<close>\<close>
     (2, 2),  \<comment> \<open>\<open>DLT_EN3MB\<close>\<close>
     (3, 3),  \<comment> \<open>\<open>DLT_AX25\<close>\<close>
     (4, 4),  \<comment> \<open>\<open>DLT_PRONET\<close>\<close>
     (5, 5),  \<comment> \<open>\<open>DLT_CHAOS\<close>\<close>
     (6, 6),  \<comment> \<open>\<open>DLT_IEEE802\<close>\<close>
     (7, 7),  \<comment> \<open>\<open>DLT_ARCNET\<close>\<close>
     (8, 8),  \<comment> \<open>\<open>DLT_SLIP\<close>\<close>
     (9, 9),  \<comment> \<open>\<open>DLT_PPP\<close>\<close>
     (10, 10)]"

definition linktype_map_moved :: "(int \<times> int) list" where
  "linktype_map_moved = [
     (99, 99),  \<comment> \<open>\<open>DLT_SYMANTEC_FIREWALL\<close>\<close>
     (11, 100),  \<comment> \<open>\<open>DLT_ATM_RFC1483\<close>\<close>
     (12, 101),  \<comment> \<open>\<open>DLT_RAW\<close>\<close>
     (15, 102),  \<comment> \<open>\<open>DLT_SLIP_BSDOS\<close>\<close>
     (16, 103),  \<comment> \<open>\<open>DLT_PPP_BSDOS\<close>\<close>
     (104, 104),  \<comment> \<open>\<open>DLT_C_HDLC\<close>\<close>
     (19, 106),  \<comment> \<open>\<open>DLT_ATM_CLIP\<close>\<close>
     (50, 50),  \<comment> \<open>\<open>DLT_PPP_SERIAL\<close>\<close>
     (51, 51),  \<comment> \<open>\<open>DLT_PPP_ETHER\<close>\<close>
     (105, 105),  \<comment> \<open>\<open>DLT_IEEE802_11\<close>\<close>
     (107, 107),  \<comment> \<open>\<open>DLT_FRELAY\<close>\<close>
     (108, 108),  \<comment> \<open>\<open>DLT_LOOP\<close>\<close>
     (113, 113),  \<comment> \<open>\<open>DLT_LINUX_SLL\<close>\<close>
     (114, 114),  \<comment> \<open>\<open>DLT_LTALK\<close>\<close>
     (115, 115),  \<comment> \<open>\<open>DLT_ECONET\<close>\<close>
     (117, 117),  \<comment> \<open>\<open>DLT_PFLOG\<close>\<close>
     (118, 118),  \<comment> \<open>\<open>DLT_CISCO_IOS\<close>\<close>
     (119, 119),  \<comment> \<open>\<open>DLT_PRISM_HEADER\<close>\<close>
     (120, 120),  \<comment> \<open>\<open>DLT_AIRONET_HEADER\<close>\<close>
     (121, 121),  \<comment> \<open>\<open>DLT_HHDLC\<close>\<close>
     (122, 122),  \<comment> \<open>\<open>DLT_IP_OVER_FC\<close>\<close>
     (123, 123),  \<comment> \<open>\<open>DLT_SUNATM\<close>\<close>
     (124, 124),  \<comment> \<open>\<open>DLT_RIO\<close>\<close>
     (125, 125),  \<comment> \<open>\<open>DLT_PCI_EXP\<close>\<close>
     (126, 126),  \<comment> \<open>\<open>DLT_AURORA\<close>\<close>
     (127, 127),  \<comment> \<open>\<open>DLT_IEEE802_11_RADIO\<close>\<close>
     (128, 128),  \<comment> \<open>\<open>DLT_TZSP\<close>\<close>
     (129, 129),  \<comment> \<open>\<open>DLT_ARCNET_LINUX\<close>\<close>
     (130, 130),  \<comment> \<open>\<open>DLT_JUNIPER_MLPPP\<close>\<close>
     (131, 131),  \<comment> \<open>\<open>DLT_JUNIPER_MLFR\<close>\<close>
     (132, 132),  \<comment> \<open>\<open>DLT_JUNIPER_ES\<close>\<close>
     (133, 133),  \<comment> \<open>\<open>DLT_JUNIPER_GGSN\<close>\<close>
     (134, 134),  \<comment> \<open>\<open>DLT_JUNIPER_MFR\<close>\<close>
     (135, 135),  \<comment> \<open>\<open>DLT_JUNIPER_ATM2\<close>\<close>
     (136, 136),  \<comment> \<open>\<open>DLT_JUNIPER_SERVICES\<close>\<close>
     (137, 137)]"

definition linktype_map_new :: "(int \<times> int) list" where
  "linktype_map_new = [
     (138, 138),  \<comment> \<open>\<open>DLT_APPLE_IP_OVER_IEEE1394\<close>\<close>
     (139, 139),  \<comment> \<open>\<open>DLT_MTP2_WITH_PHDR\<close>\<close>
     (140, 140),  \<comment> \<open>\<open>DLT_MTP2\<close>\<close>
     (141, 141),  \<comment> \<open>\<open>DLT_MTP3\<close>\<close>
     (142, 142),  \<comment> \<open>\<open>DLT_SCCP\<close>\<close>
     (143, 143),  \<comment> \<open>\<open>DLT_DOCSIS\<close>\<close>
     (144, 144),  \<comment> \<open>\<open>DLT_LINUX_IRDA\<close>\<close>
     (145, 145),  \<comment> \<open>\<open>DLT_IBM_SP\<close>\<close>
     (146, 146),  \<comment> \<open>\<open>DLT_IBM_SN\<close>\<close>
     (163, 163),  \<comment> \<open>\<open>DLT_IEEE802_11_RADIO_AVS\<close>\<close>
     (164, 164),  \<comment> \<open>\<open>DLT_JUNIPER_MONITOR\<close>\<close>
     (165, 165),  \<comment> \<open>\<open>DLT_BACNET_MS_TP\<close>\<close>
     (166, 166),  \<comment> \<open>\<open>DLT_PPP_PPPD\<close>\<close>
     (167, 167),  \<comment> \<open>\<open>DLT_JUNIPER_PPPOE\<close>\<close>
     (168, 168),  \<comment> \<open>\<open>DLT_JUNIPER_PPPOE_ATM\<close>\<close>
     (169, 169),  \<comment> \<open>\<open>DLT_GPRS_LLC\<close>\<close>
     (170, 170),  \<comment> \<open>\<open>DLT_GPF_T\<close>\<close>
     (171, 171),  \<comment> \<open>\<open>DLT_GPF_F\<close>\<close>
     (172, 172),  \<comment> \<open>\<open>DLT_GCOM_T1E1\<close>\<close>
     (173, 173),  \<comment> \<open>\<open>DLT_GCOM_SERIAL\<close>\<close>
     (174, 174),  \<comment> \<open>\<open>DLT_JUNIPER_PIC_PEER\<close>\<close>
     (175, 175),  \<comment> \<open>\<open>DLT_ERF_ETH\<close>\<close>
     (176, 176),  \<comment> \<open>\<open>DLT_ERF_POS\<close>\<close>
     (177, 177),  \<comment> \<open>\<open>DLT_LINUX_LAPD\<close>\<close>
     (178, 178),  \<comment> \<open>\<open>DLT_JUNIPER_ETHER\<close>\<close>
     (179, 179),  \<comment> \<open>\<open>DLT_JUNIPER_PPP\<close>\<close>
     (180, 180),  \<comment> \<open>\<open>DLT_JUNIPER_FRELAY\<close>\<close>
     (181, 181),  \<comment> \<open>\<open>DLT_JUNIPER_CHDLC\<close>\<close>
     (182, 182),  \<comment> \<open>\<open>DLT_MFR\<close>\<close>
     (183, 183),  \<comment> \<open>\<open>DLT_JUNIPER_VP\<close>\<close>
     (184, 184),  \<comment> \<open>\<open>DLT_A429\<close>\<close>
     (185, 185),  \<comment> \<open>\<open>DLT_A653_ICM\<close>\<close>
     (186, 186),  \<comment> \<open>\<open>DLT_USB\<close>\<close>
     (187, 187),  \<comment> \<open>\<open>DLT_BLUETOOTH_HCI_H4\<close>\<close>
     (188, 188),  \<comment> \<open>\<open>DLT_IEEE802_16_MAC_CPS\<close>\<close>
     (189, 189),  \<comment> \<open>\<open>DLT_USB_LINUX\<close>\<close>
     (190, 190),  \<comment> \<open>\<open>DLT_CAN20B\<close>\<close>
     (191, 191),  \<comment> \<open>\<open>DLT_IEEE802_15_4_LINUX\<close>\<close>
     (192, 192),  \<comment> \<open>\<open>DLT_PPI\<close>\<close>
     (193, 193),  \<comment> \<open>\<open>DLT_IEEE802_16_MAC_CPS_RADIO\<close>\<close>
     (194, 194),  \<comment> \<open>\<open>DLT_JUNIPER_ISM\<close>\<close>
     (195, 195),  \<comment> \<open>\<open>DLT_IEEE802_15_4\<close>\<close>
     (196, 196),  \<comment> \<open>\<open>DLT_SITA\<close>\<close>
     (197, 197),  \<comment> \<open>\<open>DLT_ERF\<close>\<close>
     (198, 198),  \<comment> \<open>\<open>DLT_RAIF1\<close>\<close>
     (199, 199)]"

definition linktype_map :: "(int \<times> int) list" where
  "linktype_map = linktype_map_same @ linktype_map_moved @ linktype_map_new"

fun find_dlt :: "(int \<times> int) list \<Rightarrow> int \<Rightarrow> int" where
  "find_dlt [] dlt = -1"
| "find_dlt (e # r) dlt = (if fst e = dlt then snd e else find_dlt r dlt)"

fun find_linktype :: "(int \<times> int) list \<Rightarrow> int \<Rightarrow> int" where
  "find_linktype [] linktype = linktype"
| "find_linktype (e # r) linktype = (if snd e = linktype then fst e else find_linktype r linktype)"

definition dlt_to_linktype :: "int \<Rightarrow> int" where
  "dlt_to_linktype dlt = find_dlt linktype_map dlt"

definition linktype_to_dlt :: "int \<Rightarrow> int" where
  "linktype_to_dlt linktype = find_linktype linktype_map linktype"

section \<open>Headers\<close>

record pcap_file_header =
  fh_magic :: u32
  fh_major :: u16
  fh_minor :: u16
  fh_thiszone :: u32
  fh_sigfigs :: u32
  fh_snaplen :: u32
  fh_linktype :: u32

record pcap_pkthdr =
  ts_sec :: u32
  ts_usec :: u32
  pk_caplen :: u32
  pk_len :: u32

abbreviation (input) TCPDUMP_MAGIC :: u32 where "TCPDUMP_MAGIC \<equiv> 0xa1b2c3d4"
abbreviation (input) KUZNETZOV_TCPDUMP_MAGIC :: u32 where "KUZNETZOV_TCPDUMP_MAGIC \<equiv> 0xa1b2cd34"
abbreviation (input) DLT_EN10MB :: int where "DLT_EN10MB \<equiv> 1"
abbreviation (input) BPF_MAXBUFSIZE :: int where "BPF_MAXBUFSIZE \<equiv> 32768"

definition SWAPLONG :: "u32 \<Rightarrow> u32" where
  "SWAPLONG y = push_bit 24 (y AND 0xff) OR push_bit 8 (y AND 0xff00) OR drop_bit 8 (y AND 0xff0000) OR (drop_bit 24 y AND 0xff)"

definition SWAPSHORT :: "u16 \<Rightarrow> u16" where
  "SWAPSHORT y = push_bit 8 (y AND 0xff) OR drop_bit 8 (y AND 0xff00)"

text \<open>The octets of an integer in the memory of a machine, big-endian or not.\<close>

definition host32 :: "bool \<Rightarrow> u32 \<Rightarrow> bytes" where
  "host32 be w = (if be then rev (le_bytes32 w) else le_bytes32 w)"

definition host16 :: "bool \<Rightarrow> u16 \<Rightarrow> bytes" where
  "host16 be w = (if be then rev (le_bytes16 w) else le_bytes16 w)"

definition sf_write_header :: "bool \<Rightarrow> u32 \<Rightarrow> u32 \<Rightarrow> u32 \<Rightarrow> bytes" where
  "sf_write_header be linktype thiszone snaplen =
     host32 be TCPDUMP_MAGIC @ host16 be 2 @ host16 be 4 @ host32 be thiszone @ host32 be 0 @ host32 be snaplen @ host32 be linktype"

text \<open>What \<open>pcap_dump\<close> appends for a packet whose captured octets start at \<open>sp\<close>.\<close>

definition pcap_dump :: "bool \<Rightarrow> pcap_pkthdr \<times> bytes \<Rightarrow> bytes" where
  "pcap_dump be hs = (case hs of (h, sp) \<Rightarrow>
     host32 be (ts_sec h) @ host32 be (ts_usec h) @ host32 be (pk_caplen h) @ host32 be (pk_len h) @ take (unat (pk_caplen h)) sp)"

text \<open>\<open>pcap_setup_dump\<close> as \<open>pcap_dump_open\<close> calls it: the file starts with the header, or the link type is refused.\<close>

definition pcap_dump_open :: "bool \<Rightarrow> int \<Rightarrow> u32 \<Rightarrow> u32 \<Rightarrow> bytes option" where
  "pcap_dump_open be dlt tzoff snapshot =
     (let linktype = dlt_to_linktype dlt in
      if linktype = -1 then None else Some (sf_write_header be (word_of_int linktype) tzoff snapshot))"

section \<open>Opening a file\<close>

datatype sf_error =
    Read_failed | Truncated_file nat nat | Bad_format | Archaic
  | Truncated_record nat nat | Bogus_header | Truncated_packet u32 nat

datatype swapped_lengths = NOT_SWAPPED | SWAPPED | MAYBE_SWAPPED

record sf_reader =
  sf_swapped :: bool
  sf_hdrsize :: nat
  sf_tzoff :: u32
  sf_snapshot :: int
  sf_dlt :: int
  sf_bufsize :: int
  sf_room :: int  \<comment> \<open>octets of \<open>sf.base\<close> from \<open>buffer\<close> on\<close>
  sf_lengths :: swapped_lengths
  sf_version :: "u16 \<times> u16"
  sf_ferror :: bool
  sf_rest :: bytes
  sf_break :: bool
  sf_errbuf :: "sf_error option"

definition le32_at :: "bytes \<Rightarrow> nat \<Rightarrow> u32" where
  "le32_at b i = be32 (b ! (i + 3)) (b ! (i + 2)) (b ! (i + 1)) (b ! i)"

definition le16_at :: "bytes \<Rightarrow> nat \<Rightarrow> u16" where
  "le16_at b i = be16 (b ! (i + 1)) (b ! i)"

definition read_file_header :: "bytes \<Rightarrow> pcap_file_header" where
  "read_file_header b = \<lparr>fh_magic = le32_at b 0, fh_major = le16_at b 4, fh_minor = le16_at b 6, fh_thiszone = le32_at b 8,
     fh_sigfigs = le32_at b 12, fh_snaplen = le32_at b 16, fh_linktype = le32_at b 20\<rparr>"

definition swap_hdr :: "pcap_file_header \<Rightarrow> pcap_file_header" where
  "swap_hdr hp = hp\<lparr>fh_major := SWAPSHORT (fh_major hp), fh_minor := SWAPSHORT (fh_minor hp), fh_thiszone := SWAPLONG (fh_thiszone hp),
     fh_sigfigs := SWAPLONG (fh_sigfigs hp), fh_snaplen := SWAPLONG (fh_snaplen hp), fh_linktype := SWAPLONG (fh_linktype hp)\<rparr>"

definition known_magic :: "u32 \<Rightarrow> bool" where
  "known_magic m \<longleftrightarrow> m = TCPDUMP_MAGIC \<or> m = KUZNETZOV_TCPDUMP_MAGIC"

definition link_header_len :: "int \<Rightarrow> int" where
  "link_header_len dlt = (if dlt = DLT_EN10MB then 14 else if dlt = 10 then 13 + 8 else 0)"

definition lengths_of_version :: "u16 \<Rightarrow> u16 \<Rightarrow> swapped_lengths" where
  "lengths_of_version major minor =
     (if major = 2 then (if minor < 3 then SWAPPED else if minor = 3 then MAYBE_SWAPPED else NOT_SWAPPED)
      else if major = 543 then SWAPPED else NOT_SWAPPED)"

text \<open>From the check of the version on.\<close>

definition sf_setup :: "bool \<Rightarrow> u32 \<Rightarrow> bool \<Rightarrow> pcap_file_header \<Rightarrow> bytes \<Rightarrow> sf_error + sf_reader" where
  "sf_setup ferr magic swapped hdr rest =
     (if fh_major hdr < 2 then Inl Archaic
      else let dlt = linktype_to_dlt (sint (fh_linktype hdr));
               bufsize = (if sint (fh_snaplen hdr) < 0 then BPF_MAXBUFSIZE else sint (fh_snaplen hdr))
           in Inr \<lparr>sf_swapped = swapped, sf_hdrsize = (if magic = KUZNETZOV_TCPDUMP_MAGIC then 24 else 16), sf_tzoff = fh_thiszone hdr,
                sf_snapshot = (if magic = KUZNETZOV_TCPDUMP_MAGIC \<and> dlt = DLT_EN10MB then sint (fh_snaplen hdr + 14) else sint (fh_snaplen hdr)),
                sf_dlt = dlt, sf_bufsize = bufsize, sf_room = bufsize + 4 - (4 - link_header_len dlt mod 4),
                sf_lengths = lengths_of_version (fh_major hdr) (fh_minor hdr), sf_version = (fh_major hdr, fh_minor hdr),
                sf_ferror = ferr, sf_rest = rest, sf_break = False, sf_errbuf = None\<rparr>)"

definition pcap_fopen_offline :: "bool \<Rightarrow> bytes \<Rightarrow> sf_error + sf_reader" where
  "pcap_fopen_offline ferr file =
     (if length file < 24 then Inl (if ferr then Read_failed else Truncated_file 24 (length file))
      else let hdr = read_file_header (take 24 file); rest = drop 24 file in
        if known_magic (fh_magic hdr) then sf_setup ferr (fh_magic hdr) False hdr rest
        else if known_magic (SWAPLONG (fh_magic hdr)) then sf_setup ferr (SWAPLONG (fh_magic hdr)) True (swap_hdr hdr) rest
        else Inl Bad_format)"

section \<open>Reading packets\<close>

definition read_pkthdr :: "bool \<Rightarrow> bytes \<Rightarrow> pcap_pkthdr" where
  "read_pkthdr swapped b =
     (let f = (if swapped then SWAPLONG else (\<lambda>w. w)) in
      \<lparr>ts_sec = f (le32_at b 0), ts_usec = f (le32_at b 4), pk_caplen = f (le32_at b 8), pk_len = f (le32_at b 12)\<rparr>)"

definition fix_lengths :: "swapped_lengths \<Rightarrow> pcap_pkthdr \<Rightarrow> pcap_pkthdr" where
  "fix_lengths l h =
     (if l = NOT_SWAPPED \<or> l = MAYBE_SWAPPED \<and> pk_caplen h \<le> pk_len h then h
      else h\<lparr>pk_caplen := pk_len h, pk_len := pk_caplen h\<rparr>)"

datatype sf_next = Sf_Packet pcap_pkthdr bytes | Sf_Eof | Sf_Error sf_error

text \<open>
  The octets of a packet, of which at most \<open>buflen\<close> are kept; a packet longer than the buffer and than
  65535 is not read.  The second component is the rest of the file.
\<close>

definition read_packet :: "bool \<Rightarrow> u32 \<Rightarrow> pcap_pkthdr \<Rightarrow> bytes \<Rightarrow> sf_next \<times> bytes" where
  "read_packet ferr buflen h s =
     (let n = unat (pk_caplen h); got = take n s; rest = drop n s in
      if pk_caplen h > buflen \<and> pk_caplen h > 65535 then (Sf_Error Bogus_header, s)
      else if length got \<noteq> n then (Sf_Error (if ferr then Read_failed else Truncated_packet (pk_caplen h) (length got)), rest)
      else if pk_caplen h > buflen then (Sf_Packet (h\<lparr>pk_caplen := buflen\<rparr>) (take (unat buflen) got), rest)
      else (Sf_Packet h got, rest))"

definition sf_next_packet :: "sf_reader \<Rightarrow> sf_next \<times> bytes" where
  "sf_next_packet p =
     (let got = take (sf_hdrsize p) (sf_rest p); rest = drop (sf_hdrsize p) (sf_rest p) in
      if length got \<noteq> sf_hdrsize p then
        (if sf_ferror p then Sf_Error Read_failed
         else if length got \<noteq> 0 then Sf_Error (Truncated_record (sf_hdrsize p) (length got)) else Sf_Eof, rest)
      else read_packet (sf_ferror p) (word_of_int (sf_bufsize p)) (fix_lengths (sf_lengths p) (read_pkthdr (sf_swapped p) got)) rest)"

text \<open>The filter program of the handle: none, or one that runs to a result.\<close>

definition sf_accepts :: "nat \<Rightarrow> u32 list \<Rightarrow> bpf_insn list option \<Rightarrow> pcap_pkthdr \<Rightarrow> bytes \<Rightarrow> bool option" where
  "sf_accepts fuel mem0 fcode h buf =
     (case fcode of None \<Rightarrow> Some True
      | Some f \<Rightarrow> (case bpf_filter fuel mem0 (Some f) buf (pk_len h) (pk_caplen h) of
          Some (Ret v) \<Rightarrow> Some (v \<noteq> 0) | _ \<Rightarrow> None))"

lemma read_packet_rest: "length (snd (read_packet ferr buflen h s)) \<le> length s"
  by (simp add: read_packet_def Let_def)

lemma sf_next_packet_rest_le: "sf_next_packet p = (res, r) \<Longrightarrow> length r \<le> length (sf_rest p)"
  using read_packet_rest [of "sf_ferror p" "word_of_int (sf_bufsize p)" "fix_lengths (sf_lengths p) (read_pkthdr (sf_swapped p) (take (sf_hdrsize p) (sf_rest p)))"
      "drop (sf_hdrsize p) (sf_rest p)"]
  by (auto simp: sf_next_packet_def Let_def split: if_splits)

lemma sf_next_packet_rest:
  "sf_next_packet p = (Sf_Packet h b, r) \<Longrightarrow> 0 < sf_hdrsize p \<Longrightarrow> length r < length (sf_rest p)"
  using read_packet_rest [of "sf_ferror p" "word_of_int (sf_bufsize p)" "fix_lengths (sf_lengths p) (read_pkthdr (sf_swapped p) (take (sf_hdrsize p) (sf_rest p)))"
      "drop (sf_hdrsize p) (sf_rest p)"]
  by (auto simp: sf_next_packet_def Let_def split: if_splits)

text \<open>
  The loop of \<open>pcap_offline_read\<close>: \<open>n\<close> packets so far, the calls of the callback, and whether the callback
  called \<open>pcap_breakloop\<close> after them (\<open>brk\<close>).  The size of a record header is 16 or 24 in every reader that
  \<open>pcap_fopen_offline\<close> returns, so each turn uses up some of the file; with size 0 the loop would have no end.
\<close>

function offline_loop ::
  "(pcap_pkthdr \<Rightarrow> bytes \<Rightarrow> bool option) \<Rightarrow> ((pcap_pkthdr \<times> bytes) list \<Rightarrow> bool) \<Rightarrow> int \<Rightarrow> int \<Rightarrow> sf_reader \<Rightarrow> (pcap_pkthdr \<times> bytes) list \<Rightarrow>
    (int \<times> sf_reader \<times> (pcap_pkthdr \<times> bytes) list) option" where
  "offline_loop accepts brk cnt n p log =
     (if sf_hdrsize p = 0 then None
      else if sf_break p then Some (if n = 0 then (-2, p\<lparr>sf_break := False\<rparr>, log) else (n, p, log))
      else (case sf_next_packet p of
          (Sf_Eof, r) \<Rightarrow> Some (0, p\<lparr>sf_rest := r\<rparr>, log)
        | (Sf_Error e, r) \<Rightarrow> Some (-1, p\<lparr>sf_rest := r, sf_errbuf := Some e\<rparr>, log)
        | (Sf_Packet h b, r) \<Rightarrow>
            (case accepts h b of None \<Rightarrow> None
             | Some ok \<Rightarrow>
                 if \<not> ok then offline_loop accepts brk cnt n (p\<lparr>sf_rest := r\<rparr>) log
                 else (let log1 = log @ [(h, b)]; p1 = p\<lparr>sf_rest := r, sf_break := brk log1\<rparr> in
                       if n + 1 \<ge> cnt \<and> cnt > 0 then Some (n + 1, p1, log1)
                       else offline_loop accepts brk cnt (n + 1) p1 log1))))"
  by pat_completeness auto
termination
  by (relation "measure (\<lambda>(accepts, brk, cnt, n, p, log). length (sf_rest p))") (auto dest: sf_next_packet_rest [OF sym])

declare offline_loop.simps [simp del]

definition pcap_offline_read ::
  "(pcap_pkthdr \<Rightarrow> bytes \<Rightarrow> bool option) \<Rightarrow> ((pcap_pkthdr \<times> bytes) list \<Rightarrow> bool) \<Rightarrow> int \<Rightarrow> sf_reader \<Rightarrow>
    (int \<times> sf_reader \<times> (pcap_pkthdr \<times> bytes) list) option" where
  "pcap_offline_read accepts brk cnt p = offline_loop accepts brk cnt 0 p []"

section \<open>Byte orders\<close>

lemma be32_bits: "bit (be32 a b c d) n \<longleftrightarrow>
    (if n < 8 then bit d n else if n < 16 then bit c (n - 8) else if n < 24 then bit b (n - 16) else n < 32 \<and> bit a (n - 24))"
  by (auto simp: be32_def bit_simps dest: bit_imp_le_length)

lemma be32_of_octets: "be32 (ucast (drop_bit 24 w)) (ucast (drop_bit 16 w)) (ucast (drop_bit 8 w)) (ucast w) = w"
proof (rule bit_word_eqI)
  fix n assume "n < LENGTH(32)"
  then show "bit (be32 (ucast (drop_bit 24 w)) (ucast (drop_bit 16 w)) (ucast (drop_bit 8 w)) (ucast w)) n \<longleftrightarrow> bit w n"
    by (auto simp: be32_bits bit_simps)
qed

lemma SWAPLONG_octets: "SWAPLONG (be32 a b c d) = be32 d c b a"
proof (rule bit_word_eqI)
  fix n assume n: "n < LENGTH(32)"
  have m: "bit (0xff :: u32) k \<longleftrightarrow> k < 8" "bit (0xff00 :: u32) k \<longleftrightarrow> 8 \<le> k \<and> k < 16" "bit (0xff0000 :: u32) k \<longleftrightarrow> 16 \<le> k \<and> k < 24"
    "bit (0xff000000 :: u32) k \<longleftrightarrow> 24 \<le> k \<and> k < 32" for k
  proof -
    have "bit (push_bit j (Bit_Operations.mask 8) :: u32) k \<longleftrightarrow> j \<le> k \<and> k < j + 8" if "j \<le> 24" for j
      using that by (auto simp: bit_push_bit_iff bit_mask_iff)
    from this [of 0] this [of 8] this [of 16] this [of 24]
    show "bit (0xff :: u32) k \<longleftrightarrow> k < 8" "bit (0xff00 :: u32) k \<longleftrightarrow> 8 \<le> k \<and> k < 16" "bit (0xff0000 :: u32) k \<longleftrightarrow> 16 \<le> k \<and> k < 24"
      "bit (0xff000000 :: u32) k \<longleftrightarrow> 24 \<le> k \<and> k < 32"
      by (simp_all add: mask_eq_exp_minus_1 push_bit_eq_mult)
  qed
  show "bit (SWAPLONG (be32 a b c d)) n \<longleftrightarrow> bit (be32 d c b a) n"
    unfolding SWAPLONG_def using n by (auto simp: bit_or_iff bit_and_iff bit_push_bit_iff bit_drop_bit_eq m be32_bits simp del: bit_numeral_word_iff)
qed

lemma le32_at_host:
  assumes "i + 4 \<le> length b" and "take 4 (drop i b) = host32 be w"
  shows "(if be then SWAPLONG else (\<lambda>x. x)) (le32_at b i) = w"
proof -
  have n: "b ! (i + k) = host32 be w ! k" if "k < 4" for k
    using that assms by (simp flip: assms(2))
  have e: "b ! i = host32 be w ! 0" "b ! (i + 1) = host32 be w ! 1" "b ! (i + 2) = host32 be w ! 2" "b ! (i + 3) = host32 be w ! 3"
    using n [of 0] n [of 1] n [of 2] n [of 3] by simp_all
  show ?thesis
    using e be32_of_octets [of w] by (cases be) (simp_all add: le32_at_def host32_def le_bytes32_def SWAPLONG_octets)
qed

lemma SWAPSHORT_small: "SWAPSHORT 0x200 = 2" "SWAPSHORT 0x400 = 4"
  by (simp_all add: SWAPSHORT_def push_bit_eq_mult drop_bit_eq_div)

lemma length_host [simp]: "length (host32 be w) = 4" "length (host16 be v) = 2"
  by (auto simp: host32_def host16_def le_bytes32_def le_bytes16_def)

lemma SWAPLONG_twice [simp]: "SWAPLONG (SWAPLONG w) = w"
  using be32_of_octets [of w] by (metis SWAPLONG_octets)

definition in_order :: "bool \<Rightarrow> u32 \<Rightarrow> u32" where
  "in_order be w = (if be then SWAPLONG w else w)"

lemma in_order_twice [simp]: "in_order be (in_order be w) = w"
  by (simp add: in_order_def)

lemma le32_at_block:
  assumes "length pre = i"
  shows "le32_at (pre @ host32 be w @ post) i = in_order be w"
proof -
  have "in_order be (le32_at (pre @ host32 be w @ post) i) = w"
    using le32_at_host [of i "pre @ host32 be w @ post" be w] assms by (simp add: in_order_def split: if_splits)
  then show ?thesis by (metis in_order_twice)
qed

lemma header_back:
  "read_file_header (sf_write_header be l z s) =
     \<lparr>fh_magic = in_order be TCPDUMP_MAGIC, fh_major = (if be then 0x200 else 2), fh_minor = (if be then 0x400 else 4),
      fh_thiszone = in_order be z, fh_sigfigs = in_order be 0, fh_snaplen = in_order be s, fh_linktype = in_order be l\<rparr>"
proof -
  define m v where "m = host32 be TCPDUMP_MAGIC" and "v = host16 be 2 @ host16 be 4"
  have f: "sf_write_header be l z s = m @ v @ host32 be z @ host32 be 0 @ host32 be s @ host32 be l"
    by (simp add: sf_write_header_def m_def v_def)
  have len [simp]: "length m = 4" "length v = 4"
    by (simp_all add: m_def v_def)
  have "le32_at (sf_write_header be l z s) 0 = in_order be TCPDUMP_MAGIC"
    using le32_at_block [of "[]" 0 be TCPDUMP_MAGIC "v @ host32 be z @ host32 be 0 @ host32 be s @ host32 be l"]
    by (simp add: f m_def)
  moreover have "le32_at (sf_write_header be l z s) 8 = in_order be z"
    using le32_at_block [of "m @ v" 8 be z "host32 be 0 @ host32 be s @ host32 be l"] by (simp add: f)
  moreover have "le32_at (sf_write_header be l z s) 12 = in_order be 0"
    using le32_at_block [of "m @ v @ host32 be z" 12 be 0 "host32 be s @ host32 be l"] by (simp add: f)
  moreover have "le32_at (sf_write_header be l z s) 16 = in_order be s"
    using le32_at_block [of "m @ v @ host32 be z @ host32 be 0" 16 be s "host32 be l"] by (simp add: f)
  moreover have "le32_at (sf_write_header be l z s) 20 = in_order be l"
    using le32_at_block [of "m @ v @ host32 be z @ host32 be 0 @ host32 be s" 20 be l "[]"] by (simp add: f)
  moreover have "le16_at (sf_write_header be l z s) 4 = (if be then 0x200 else 2)"
    "le16_at (sf_write_header be l z s) 6 = (if be then 0x400 else 4)"
    by (simp_all add: f v_def le16_at_def nth_append host16_def le_bytes16_def be16_def)
  ultimately show ?thesis by (simp add: read_file_header_def)
qed

lemma pkthdr_back:
  assumes "length pre = 16" and "pcap_dump be (h, d) = pre @ d'"
  shows "read_pkthdr be pre = h"
proof -
  have pre: "pre = host32 be (ts_sec h) @ host32 be (ts_usec h) @ host32 be (pk_caplen h) @ host32 be (pk_len h)"
    using assms by (simp add: pcap_dump_def append_eq_append_conv flip: append_assoc)
  have "le32_at pre 0 = in_order be (ts_sec h)" "le32_at pre 4 = in_order be (ts_usec h)"
       "le32_at pre 8 = in_order be (pk_caplen h)" "le32_at pre 12 = in_order be (pk_len h)"
    using le32_at_block [of "[]" 0 be "ts_sec h" "host32 be (ts_usec h) @ host32 be (pk_caplen h) @ host32 be (pk_len h)"]
      le32_at_block [of "host32 be (ts_sec h)" 4 be "ts_usec h" "host32 be (pk_caplen h) @ host32 be (pk_len h)"]
      le32_at_block [of "host32 be (ts_sec h) @ host32 be (ts_usec h)" 8 be "pk_caplen h" "host32 be (pk_len h)"]
      le32_at_block [of "host32 be (ts_sec h) @ host32 be (ts_usec h) @ host32 be (pk_caplen h)" 12 be "pk_len h" "[]"]
    by (simp_all add: pre)
  then show ?thesis by (simp add: read_pkthdr_def in_order_def)
qed

section \<open>What was written is read back\<close>

lemma linktype_table:
  "list_all (\<lambda>(d, l). linktype_to_dlt l = d \<and> 0 \<le> l \<and> l < 65536) linktype_map"
  by code_simp

lemma find_dlt_mem: "find_dlt m d = l \<Longrightarrow> l \<noteq> -1 \<Longrightarrow> (d, l) \<in> set m"
  by (induction m) (auto split: if_splits)

lemma linktype_back:
  assumes "dlt_to_linktype d = l" "l \<noteq> -1"
  shows "linktype_to_dlt l = d" "0 \<le> l" "l < 65536"
  using find_dlt_mem [of linktype_map d l] linktype_table assms by (auto simp: dlt_to_linktype_def list_all_iff)

definition whole_packet :: "u32 \<Rightarrow> pcap_pkthdr \<times> bytes \<Rightarrow> bool" where
  "whole_packet s pk = (case pk of (h, d) \<Rightarrow> unat (pk_caplen h) = length d \<and> pk_caplen h \<le> s)"

text \<open>A reader of a file that \<open>pcap_dump_open\<close> began, before some packets.\<close>

definition reads_from :: "bool \<Rightarrow> u32 \<Rightarrow> sf_reader \<Rightarrow> bool" where
  "reads_from be s p \<longleftrightarrow> sf_hdrsize p = 16 \<and> sf_swapped p = be \<and> sf_lengths p = NOT_SWAPPED \<and> sf_bufsize p = sint s \<and>
     \<not> sf_ferror p \<and> \<not> sf_break p"

lemma next_packet_back:
  assumes "reads_from be s p" "sf_rest p = pcap_dump be (h, d) @ r" "whole_packet s (h, d)"
  shows "sf_next_packet p = (Sf_Packet h d, r)"
proof -
  define pre where "pre = take 16 (pcap_dump be (h, d))"
  have len: "length (pcap_dump be (h, d)) = 16 + length d" and d: "drop 16 (pcap_dump be (h, d)) = d"
    using assms(3) by (simp_all add: pcap_dump_def whole_packet_def)
  have l16: "length pre = 16"
    using len by (simp add: pre_def)
  have "pcap_dump be (h, d) = pre @ d"
    using d append_take_drop_id [of 16 "pcap_dump be (h, d)"] by (simp add: pre_def)
  with l16 have h: "read_pkthdr be pre = h"
    by (rule pkthdr_back)
  have r: "take 16 (sf_rest p) = pre" "drop 16 (sf_rest p) = d @ r"
    using len d by (simp_all add: assms(2) pre_def)
  have "read_packet False (word_of_int (sint s)) h (d @ r) = (Sf_Packet h d, r)"
    using assms(3) by (auto simp: read_packet_def whole_packet_def Let_def dest: leD)
  then show ?thesis
    using assms(1) h l16 r by (simp add: sf_next_packet_def Let_def reads_from_def fix_lengths_def)
qed

lemma loop_reads_back:
  assumes "reads_from be s p" "sf_rest p = concat (map (pcap_dump be) pkts)" "cnt \<le> 0"
    and "\<forall>pk \<in> set pkts. whole_packet s pk" "\<forall>(h, d) \<in> set pkts. accepts h d = Some (ok (h, d))"
  shows "\<exists>q. offline_loop accepts (\<lambda>_. False) cnt n p log = Some (0, q, log @ filter ok pkts) \<and> sf_rest q = []"
  using assms
proof (induction pkts arbitrary: p n log)
  case Nil
  then show ?case
    by (subst offline_loop.simps) (simp add: reads_from_def sf_next_packet_def)
next
  case (Cons pk pkts)
  obtain h d where pk: "pk = (h, d)" by (cases pk)
  have nxt: "sf_next_packet p = (Sf_Packet h d, concat (map (pcap_dump be) pkts))"
    using next_packet_back Cons.prems pk by simp
  have acc: "accepts h d = Some (ok (h, d))"
    using Cons.prems pk by simp
  note step = offline_loop.simps [of accepts "\<lambda>_. False" cnt n p log]
  show ?case
  proof (cases "ok (h, d)")
    case True
    let ?p = "p\<lparr>sf_rest := concat (map (pcap_dump be) pkts), sf_break := False\<rparr>"
    have "reads_from be s ?p"
      using Cons.prems(1) by (simp add: reads_from_def)
    then show ?thesis
      using Cons.IH [of ?p "n + 1" "log @ [(h, d)]"] Cons.prems acc nxt True
      by (simp add: step pk reads_from_def)
  next
    case False
    let ?p = "p\<lparr>sf_rest := concat (map (pcap_dump be) pkts)\<rparr>"
    have "reads_from be s ?p"
      using Cons.prems(1) by (simp add: reads_from_def)
    then show ?thesis
      using Cons.IH [of ?p n log] Cons.prems acc nxt False
      by (simp add: step pk reads_from_def)
  qed
qed

lemma opened_back:
  assumes "pcap_dump_open be dlt tzoff s = Some hdr"
  shows "\<exists>p. pcap_fopen_offline False (hdr @ rest) = Inr p \<and> sf_dlt p = dlt \<and> sf_tzoff p = tzoff \<and> sf_snapshot p = sint s \<and>
      sf_rest p = rest \<and> (0 \<le> sint s \<longrightarrow> reads_from be s p)"
proof -
  define l where "l = dlt_to_linktype dlt"
  have l: "l \<noteq> -1" "hdr = sf_write_header be (word_of_int l) tzoff s"
    using assms by (auto simp: pcap_dump_open_def l_def Let_def split: if_splits)
  note lb = linktype_back [OF l_def [symmetric] l(1)]
  have s: "sint (word_of_int l :: u32) = l"
    using lb by (simp add: sint_sbintrunc' signed_take_bit_int_eq_self)
  have len: "length hdr = 24"
    by (simp add: l(2) sf_write_header_def)
  have "in_order True TCPDUMP_MAGIC \<noteq> TCPDUMP_MAGIC \<and> in_order True TCPDUMP_MAGIC \<noteq> KUZNETZOV_TCPDUMP_MAGIC"
    by (simp add: in_order_def SWAPLONG_def push_bit_eq_mult drop_bit_eq_div)
  then have m: "known_magic (in_order be TCPDUMP_MAGIC) \<longleftrightarrow> \<not> be"
    by (cases be) (simp_all add: known_magic_def in_order_def)
  show ?thesis
    using len s lb m header_back [of be "word_of_int l" tzoff s, folded l(2)]
    by (cases be)
      (simp_all add: pcap_fopen_offline_def Let_def in_order_def sf_setup_def swap_hdr_def SWAPSHORT_small known_magic_def
        lengths_of_version_def reads_from_def)
qed

section \<open>Properties\<close>

text \<open>
  C12.  What \<open>pcap_dump_open\<close> and \<open>pcap_dump\<close> write on a machine of either byte order is read back by
  \<open>pcap_fopen_offline\<close> and \<open>pcap_offline_read\<close>: the link-layer type, the time zone and the snapshot length are those of the
  writer, and the callback sees the packets that the filter program accepts, unchanged and in order.
\<close>

theorem savefile_roundtrip:
  assumes "pcap_dump_open be dlt tzoff s = Some hdr" and "0 \<le> sint s" and "cnt \<le> 0"
    and "\<forall>pk \<in> set pkts. whole_packet s pk"
    and "\<forall>(h, d) \<in> set pkts. sf_accepts fuel mem0 fcode h d \<noteq> None"
  shows "\<exists>p q. pcap_fopen_offline False (hdr @ concat (map (pcap_dump be) pkts)) = Inr p
      \<and> sf_dlt p = dlt \<and> sf_tzoff p = tzoff \<and> sf_snapshot p = sint s
      \<and> pcap_offline_read (sf_accepts fuel mem0 fcode) (\<lambda>_. False) cnt p
          = Some (0, q, filter (\<lambda>(h, d). sf_accepts fuel mem0 fcode h d = Some True) pkts)
      \<and> sf_rest q = []"
proof -
  define ok where "ok = (\<lambda>(h, d). sf_accepts fuel mem0 fcode h d = Some True)"
  obtain p where p: "pcap_fopen_offline False (hdr @ concat (map (pcap_dump be) pkts)) = Inr p" "sf_dlt p = dlt"
      "sf_tzoff p = tzoff" "sf_snapshot p = sint s" "sf_rest p = concat (map (pcap_dump be) pkts)" "reads_from be s p"
    using opened_back [OF assms(1), of "concat (map (pcap_dump be) pkts)"] assms(2) by blast
  have ok: "\<forall>(h, d) \<in> set pkts. sf_accepts fuel mem0 fcode h d = Some (ok (h, d))"
    using assms(5) by (fastforce simp: ok_def)
  show ?thesis
    using loop_reads_back [OF p(6,5) assms(3,4) ok, of 0 "[]"] p(1-4)
    by (auto simp: pcap_offline_read_def ok_def)
qed

text \<open>Two packets of a big-endian writer, and a program that accepts those of more than 60 octets on the wire.\<close>

definition sample_pkts :: "(pcap_pkthdr \<times> bytes) list" where
  "sample_pkts = [(\<lparr>ts_sec = 1, ts_usec = 2, pk_caplen = 3, pk_len = 60\<rparr>, [1, 2, 3]),
                  (\<lparr>ts_sec = 1, ts_usec = 3, pk_caplen = 2, pk_len = 61\<rparr>, [4, 5])]"

definition sample_prog :: "bpf_insn list" where
  "sample_prog = [bpf_insn.make 0x80 0 0 0, bpf_insn.make 0x25 0 1 60, bpf_insn.make 0x06 0 0 96, bpf_insn.make 0x06 0 0 0]"

lemma savefile_roundtrip_witness:
  "\<exists>hdr p q. pcap_dump_open True 1 0 96 = Some hdr
      \<and> pcap_fopen_offline False (hdr @ concat (map (pcap_dump True) sample_pkts)) = Inr p
      \<and> pcap_offline_read (sf_accepts 9 [] (Some sample_prog)) (\<lambda>_. False) 0 p = Some (0, q, tl sample_pkts)"
proof -
  have o: "pcap_dump_open True 1 0 96 = Some (sf_write_header True 1 0 96)"
    by (simp add: pcap_dump_open_def dlt_to_linktype_def linktype_map_def linktype_map_same_def)
  have w: "\<forall>pk \<in> set sample_pkts. whole_packet 96 pk" "0 \<le> sint (96 :: u32)"
    by (simp_all add: sample_pkts_def whole_packet_def)
  have a: "map (\<lambda>(h, d). sf_accepts 9 [] (Some sample_prog) h d) sample_pkts = [Some False, Some True]"
    by code_simp
  then have s: "\<forall>(h, d) \<in> set sample_pkts. sf_accepts 9 [] (Some sample_prog) h d \<noteq> None"
    and f: "filter (\<lambda>(h, d). sf_accepts 9 [] (Some sample_prog) h d = Some True) sample_pkts = tl sample_pkts"
    by (auto simp: sample_pkts_def)
  show ?thesis
    using savefile_roundtrip [OF o w(2) order.refl w(1) s] o f by auto
qed

section \<open>Bounds\<close>

definition sf_ok :: "sf_reader \<Rightarrow> bool" where
  "sf_ok p \<longleftrightarrow> 0 < sf_hdrsize p \<and> 0 \<le> sf_bufsize p \<and> sf_bufsize p < 2 ^ 31"

lemma read_packet_bounds:
  assumes "read_packet ferr buflen h s = (Sf_Packet h' b, r)"
  shows "length b = unat (pk_caplen h') \<and> pk_caplen h' \<le> buflen \<and> length b + length r \<le> length s"
proof -
  have "unat buflen \<le> unat (pk_caplen h)" if "buflen < pk_caplen h"
    using that by (simp add: word_less_nat_alt)
  then show ?thesis
    using assms by (auto simp: read_packet_def Let_def not_less min_def split: if_splits)
qed

lemma next_packet_bounds:
  assumes "sf_next_packet p = (Sf_Packet h b, r)" and "sf_ok p"
  shows "length b = unat (pk_caplen h)" "int (length b) \<le> sf_bufsize p"
    "sf_hdrsize p + length b + length r \<le> length (sf_rest p)"
proof -
  have len: "length (take (sf_hdrsize p) (sf_rest p)) = sf_hdrsize p"
    and rd: "read_packet (sf_ferror p) (word_of_int (sf_bufsize p))
        (fix_lengths (sf_lengths p) (read_pkthdr (sf_swapped p) (take (sf_hdrsize p) (sf_rest p)))) (drop (sf_hdrsize p) (sf_rest p))
      = (Sf_Packet h b, r)"
    using assms(1) by (auto simp: sf_next_packet_def Let_def split: if_splits)
  note bd = read_packet_bounds [OF rd]
  have "unat (word_of_int (sf_bufsize p) :: u32) = nat (sf_bufsize p)"
    using assms(2) by (simp add: sf_ok_def unat_eq_nat_uint uint_word_of_int)
  with bd have "length b = unat (pk_caplen h) \<and> length b \<le> nat (sf_bufsize p)"
    by (simp add: word_le_nat_alt)
  then show "length b = unat (pk_caplen h)" "int (length b) \<le> sf_bufsize p"
    using assms(2) unfolding sf_ok_def by linarith+
  show "sf_hdrsize p + length b + length r \<le> length (sf_rest p)"
    using bd len assms(2) by (auto simp: sf_ok_def min_def split: if_splits)
qed

lemma opened_ok:
  assumes "pcap_fopen_offline ferr file = Inr p"
  shows "sf_ok p" "16 \<le> sf_hdrsize p" "sf_bufsize p \<le> sf_room p" "24 + length (sf_rest p) = length file"
  using assms sint_less [of "fh_snaplen (read_file_header (take 24 file))"]
    sint_less [of "SWAPLONG (fh_snaplen (read_file_header (take 24 file)))"]
  by (auto simp: pcap_fopen_offline_def sf_setup_def sf_ok_def swap_hdr_def Let_def link_header_len_def split: if_splits)

lemma opened_rest: "pcap_fopen_offline ferr file = Inr p \<Longrightarrow> sf_rest p = drop 24 file"
  by (auto simp: pcap_fopen_offline_def sf_setup_def Let_def split: if_splits)

text \<open>The packets of a log, as they lay in a file with record headers of \<open>hs\<close> octets.\<close>

fun log_size :: "nat \<Rightarrow> (pcap_pkthdr \<times> bytes) list \<Rightarrow> nat" where
  "log_size hs [] = 0"
| "log_size hs (pk # r) = hs + length (snd pk) + log_size hs r"

lemma log_size_append [simp]: "log_size hs (a @ b) = log_size hs a + log_size hs b"
  by (induction a) simp_all

text \<open>
  The packets of a log lie in the octets \<open>s\<close> of a file, in this order and apart from each other: at some
  offset \<open>k\<close> a record header of \<open>hs\<close> octets, from which the time stamp is read, and directly behind it the
  octets of the packet.
\<close>

fun found_in :: "bool \<Rightarrow> nat \<Rightarrow> bytes \<Rightarrow> (pcap_pkthdr \<times> bytes) list \<Rightarrow> bool" where
  "found_in sw hs s [] = True"
| "found_in sw hs s (pk # r) =
     (\<exists>k \<le> length s. k + hs + length (snd pk) \<le> length s \<and> take (length (snd pk)) (drop (k + hs) s) = snd pk \<and>
        ts_sec (fst pk) = (if sw then SWAPLONG else (\<lambda>w. w)) (le32_at s k) \<and>
        ts_usec (fst pk) = (if sw then SWAPLONG else (\<lambda>w. w)) (le32_at s (k + 4)) \<and>
        found_in sw hs (drop (k + hs + length (snd pk)) s) r)"

lemma le32_at_drop: "j + i + 4 \<le> length s \<Longrightarrow> le32_at (drop j s) i = le32_at s (j + i)"
  by (simp add: le32_at_def add.assoc)

lemma le32_at_take: "i + 4 \<le> n \<Longrightarrow> le32_at (take n s) i = le32_at s i"
  by (simp add: le32_at_def)

lemma found_in_drop:
  assumes "found_in sw hs (drop j s) log" and "j \<le> length s" and "8 \<le> hs"
  shows "found_in sw hs s log"
proof (cases log)
  case (Cons pk r)
  then obtain k where k: "k + hs + length (snd pk) \<le> length s - j" "take (length (snd pk)) (drop (k + hs + j) s) = snd pk"
      "ts_sec (fst pk) = (if sw then SWAPLONG else (\<lambda>w. w)) (le32_at (drop j s) k)"
      "ts_usec (fst pk) = (if sw then SWAPLONG else (\<lambda>w. w)) (le32_at (drop j s) (k + 4))"
      "found_in sw hs (drop (k + hs + length (snd pk) + j) s) r"
    using assms(1) by (auto simp: drop_drop)
  have "le32_at (drop j s) k = le32_at s (j + k)" "le32_at (drop j s) (k + 4) = le32_at s (j + k + 4)"
    using k(1) assms(2,3) by (simp_all add: le32_at_drop add.assoc)
  moreover have c: "k + hs + j = j + k + hs" "k + hs + length (snd pk) + j = j + k + hs + length (snd pk)" by simp_all
  moreover have "j + k \<le> length s" "j + k + hs + length (snd pk) \<le> length s" using k(1) assms(2,3) by linarith+
  ultimately show ?thesis
    unfolding Cons found_in.simps using k(2-5) [unfolded c] by (intro exI [of _ "j + k"]) simp
qed simp

lemma read_packet_parts:
  assumes "read_packet ferr buflen h s = (Sf_Packet h' b, r)"
  shows "r = drop (unat (pk_caplen h)) s" "b = take (length b) s" "length b \<le> unat (pk_caplen h)" "unat (pk_caplen h) \<le> length s"
    "ts_sec h' = ts_sec h" "ts_usec h' = ts_usec h"
proof -
  let ?n = "unat (pk_caplen h)"
  have n: "?n \<le> length s" "r = drop ?n s" and c: "b = take (unat buflen) (take ?n s) \<and> h' = h\<lparr>pk_caplen := buflen\<rparr> \<or> b = take ?n s \<and> h' = h"
    using assms by (auto simp: read_packet_def Let_def min_def split: if_splits)
  show "r = drop ?n s" "?n \<le> length s" by (fact n)+
  show "b = take (length b) s" "length b \<le> ?n" "ts_sec h' = ts_sec h" "ts_usec h' = ts_usec h" using c n(1) by (auto simp: min_def)
qed

lemma next_packet_found:
  assumes "sf_next_packet p = (Sf_Packet h b, r)" and "sf_ok p" and "8 \<le> sf_hdrsize p" and "found_in (sf_swapped p) (sf_hdrsize p) r log"
  shows "found_in (sf_swapped p) (sf_hdrsize p) (sf_rest p) ((h, b) # log)" and "found_in (sf_swapped p) (sf_hdrsize p) (sf_rest p) log"
proof -
  let ?s = "sf_rest p" and ?hs = "sf_hdrsize p" and ?sw = "sf_swapped p"
  let ?got = "take ?hs ?s"
  let ?h = "fix_lengths (sf_lengths p) (read_pkthdr ?sw ?got)"
  let ?n = "unat (pk_caplen ?h)"
  have len: "length ?got = ?hs" and rd: "read_packet (sf_ferror p) (word_of_int (sf_bufsize p)) ?h (drop ?hs ?s) = (Sf_Packet h b, r)"
    using assms(1) by (auto simp: sf_next_packet_def Let_def split: if_splits)
  note r = read_packet_parts(1) [OF rd] and b = read_packet_parts(2-4) [OF rd] and ts = read_packet_parts(5,6) [OF rd]
  have field: "ts_sec ?h = (if ?sw then SWAPLONG else (\<lambda>w. w)) (le32_at ?s 0)" "ts_usec ?h = (if ?sw then SWAPLONG else (\<lambda>w. w)) (le32_at ?s 4)"
    using assms(3) by (simp_all add: fix_lengths_def read_pkthdr_def Let_def le32_at_take)
  have hs: "?hs \<le> length ?s" using len by simp
  have e: "r = drop (?n - length b) (drop (?hs + length b) ?s)" unfolding r drop_drop using b(2) by (simp add: add.commute)
  have rest: "found_in ?sw ?hs (drop (?hs + length b) ?s) log"
    by (rule found_in_drop [OF assms(4) [unfolded e] _ assms(3)]) (use b(3) hs in simp)
  then show "found_in ?sw ?hs ?s ((h, b) # log)"
    using b(2,3) b(1) [symmetric] hs ts field by (intro found_in.simps(2) [THEN iffD2] exI [of _ 0]) simp
  show "found_in ?sw ?hs ?s log"
    by (rule found_in_drop [OF rest _ assms(3)]) (use b(2,3) hs in simp)
qed

definition in_buffer :: "int \<Rightarrow> pcap_pkthdr \<times> bytes \<Rightarrow> bool" where
  "in_buffer room pk \<longleftrightarrow> length (snd pk) = unat (pk_caplen (fst pk)) \<and> int (length (snd pk)) \<le> room"

definition loop_bounded :: "int \<Rightarrow> int \<Rightarrow> sf_reader \<Rightarrow> (int \<times> sf_reader \<times> (pcap_pkthdr \<times> bytes) list) \<Rightarrow> bool" where
  "loop_bounded cnt n p res \<longleftrightarrow> (case res of (st, q, log) \<Rightarrow>
     (\<forall>pk \<in> set log. in_buffer (sf_bufsize p) pk) \<and> log_size (sf_hdrsize p) log + length (sf_rest q) \<le> length (sf_rest p)
     \<and> found_in (sf_swapped p) (sf_hdrsize p) (sf_rest p) log \<and> (0 < st \<longrightarrow> st = n + int (length log)) \<and> (0 < cnt \<and> n < cnt \<longrightarrow> n + int (length log) \<le> cnt))"

lemma loop_bounds:
  assumes "sf_ok p" and "0 \<le> n" and "8 \<le> sf_hdrsize p" and "\<forall>pk. in_buffer (sf_bufsize p) pk \<longrightarrow> accepts (fst pk) (snd pk) \<noteq> None"
  shows "\<exists>st q log'. offline_loop accepts brk cnt n p log = Some (st, q, log @ log') \<and> loop_bounded cnt n p (st, q, log')"
  using assms
proof (induction accepts brk cnt n p log rule: offline_loop.induct)
  case (1 accepts brk cnt n p log)
  note step = offline_loop.simps [of accepts brk cnt n p log]
  have ok: "sf_hdrsize p \<noteq> 0" using "1.prems"(1) by (simp add: sf_ok_def)
  show ?case
  proof (cases "sf_break p")
    case True
    then show ?thesis
      using ok "1.prems" by (simp add: step loop_bounded_def)
  next
    case run: False
    obtain res r where nxt: "sf_next_packet p = (res, r)" by (cases "sf_next_packet p")
    show ?thesis
    proof (cases res)
      case (Sf_Packet h b)
      note bd = next_packet_bounds [OF nxt [unfolded Sf_Packet] "1.prems"(1)]
      have inb: "in_buffer (sf_bufsize p) (h, b)" using bd by (simp add: in_buffer_def)
      then obtain ok1 where acc: "accepts h b = Some ok1" using "1.prems"(4) by fastforce
      show ?thesis
      proof (cases ok1)
        case False
        have "\<exists>st q log'. offline_loop accepts brk cnt n (p\<lparr>sf_rest := r\<rparr>) log = Some (st, q, log @ log')
            \<and> loop_bounded cnt n (p\<lparr>sf_rest := r\<rparr>) (st, q, log')"
          using "1.IH"(1) ok run nxt Sf_Packet acc False "1.prems" by (simp add: sf_ok_def)
        then show ?thesis
          using ok run nxt Sf_Packet acc False bd next_packet_found(2) [OF nxt [unfolded Sf_Packet] "1.prems"(1,3)]
          by (fastforce simp: step loop_bounded_def)
      next
        case True
        let ?log = "log @ [(h, b)]"
        let ?p = "p\<lparr>sf_rest := r, sf_break := brk ?log\<rparr>"
        show ?thesis
        proof (cases "n + 1 \<ge> cnt \<and> cnt > 0")
          case stop: True
          have e: "offline_loop accepts brk cnt n p log = Some (n + 1, ?p, log @ [(h, b)])"
            using ok run nxt Sf_Packet acc True stop by (simp add: step Let_def)
          have "loop_bounded cnt n p (n + 1, ?p, [(h, b)])"
            using bd inb stop next_packet_found(1) [OF nxt [unfolded Sf_Packet] "1.prems"(1,3), of "[]"] by (auto simp: loop_bounded_def)
          with e show ?thesis by blast
        next
          case go: False
          have e: "offline_loop accepts brk cnt n p log = offline_loop accepts brk cnt (n + 1) ?p ?log"
            using ok run nxt Sf_Packet acc True go by (auto simp: step Let_def)
          have "\<exists>st q log'. offline_loop accepts brk cnt (n + 1) ?p ?log = Some (st, q, ?log @ log')
              \<and> loop_bounded cnt (n + 1) ?p (st, q, log')"
            using "1.IH"(2) ok run nxt Sf_Packet acc True go "1.prems" by (simp add: sf_ok_def)
          then obtain st q log' where f: "offline_loop accepts brk cnt (n + 1) ?p ?log = Some (st, q, ?log @ log')"
              "loop_bounded cnt (n + 1) ?p (st, q, log')" by blast
          have "loop_bounded cnt n p (st, q, (h, b) # log')"
            using f(2) bd inb go next_packet_found(1) [OF nxt [unfolded Sf_Packet] "1.prems"(1,3), of log']
            by (auto simp: loop_bounded_def simp del: found_in.simps(2))
          with e f(1) show ?thesis by auto
        qed
      qed
    qed (use ok run nxt "1.prems" in \<open>simp_all add: step loop_bounded_def sf_next_packet_rest_le\<close>)
  qed
qed

lemma sf_accepts_returns:
  assumes "\<forall>f. fcode = Some f \<longrightarrow> bpf_validate f = Some True \<and> ja_forward f \<and> int (length f) < 2 ^ 31 \<and> hardened f"
    and "in_buffer room pk" and "room < 2 ^ 31"
  shows "sf_accepts (case fcode of None \<Rightarrow> 0 | Some f \<Rightarrow> length f) mem0 fcode (fst pk) (snd pk) \<noteq> None"
proof (cases fcode)
  case None
  then show ?thesis by (simp add: sf_accepts_def)
next
  case (Some f)
  have len: "unat (pk_caplen (fst pk)) = length (snd pk)" "unat (pk_caplen (fst pk)) < 2 ^ 31"
    using assms(2,3) by (auto simp: in_buffer_def)
  obtain v where "bpf_filter (length f) mem0 (Some f) (snd pk) (pk_len (fst pk)) (pk_caplen (fst pk)) = Some (Ret v)"
    using bpf_filter_returns [of f "pk_caplen (fst pk)" "snd pk" mem0 "pk_len (fst pk)"] assms(1) Some len by auto
  then show ?thesis by (simp add: sf_accepts_def Some)
qed

text \<open>
  C17.  Whatever a file contains, once it is opened \<open>pcap_offline_read\<close> comes to an end: no packet is longer than
  the buffer behind the aligned link-layer header, its captured length is the number of octets that were read, the packets are octets of the
  file behind its header, in the order of the file and apart from each other, each directly behind a record header that has
  its time stamp (\<open>found_in\<close>), and a positive answer is the number of packets, which is never more than \<open>cnt\<close>.  The filter is one that passes the
  hardened checker, or none.
\<close>

theorem savefile_read_bounded:
  assumes "pcap_fopen_offline ferr file = Inr p"
    and "\<forall>f. fcode = Some f \<longrightarrow> bpf_validate f = Some True \<and> ja_forward f \<and> int (length f) < 2 ^ 31 \<and> hardened f"
  shows "\<exists>st q log. pcap_offline_read (sf_accepts (case fcode of None \<Rightarrow> 0 | Some f \<Rightarrow> length f) mem0 fcode) brk cnt p = Some (st, q, log)
      \<and> (\<forall>(h, b) \<in> set log. length b = unat (pk_caplen h) \<and> int (length b) \<le> sf_bufsize p)
      \<and> sf_bufsize p \<le> sf_room p \<and> 24 + log_size 16 log \<le> length file
      \<and> found_in (sf_swapped p) (sf_hdrsize p) (drop 24 file) log
      \<and> (0 < st \<longrightarrow> st = int (length log)) \<and> (0 < cnt \<longrightarrow> int (length log) \<le> cnt)"
proof -
  let ?a = "sf_accepts (case fcode of None \<Rightarrow> 0 | Some f \<Rightarrow> length f) mem0 fcode"
  note op = opened_ok [OF assms(1)]
  have ac: "\<forall>pk. in_buffer (sf_bufsize p) pk \<longrightarrow> ?a (fst pk) (snd pk) \<noteq> None"
    using sf_accepts_returns [OF assms(2)] op(1) unfolding sf_ok_def by blast
  obtain st q log where r: "offline_loop ?a brk cnt 0 p [] = Some (st, q, log)" and b: "loop_bounded cnt 0 p (st, q, log)"
    using loop_bounds [OF op(1) order.refl _ ac, of brk cnt "[]"] op(2) by auto
  have "log_size 16 log \<le> log_size (sf_hdrsize p) log"
    using op(2) by (induction log) auto
  then show ?thesis
    using r b op(3,4) opened_rest [OF assms(1)] by (auto simp: pcap_offline_read_def loop_bounded_def in_buffer_def)
qed

text \<open>A file of the little-endian kind whose only record claims more octets than its snapshot length of 2.\<close>

lemma savefile_read_bounded_witness:
  "\<exists>p st q log. pcap_fopen_offline False (sf_write_header False 1 0 2 @
        pcap_dump False (\<lparr>ts_sec = 1, ts_usec = 2, pk_caplen = 3, pk_len = 60\<rparr>, [1, 2, 3])) = Inr p
      \<and> pcap_offline_read (sf_accepts 0 [] None) (\<lambda>_. False) 1 p = Some (st, q, log)
      \<and> (\<forall>(h, b) \<in> set log. length b = unat (pk_caplen h) \<and> int (length b) \<le> sf_bufsize p)
      \<and> found_in (sf_swapped p) (sf_hdrsize p) [1, 0, 0, 0, 2, 0, 0, 0, 3, 0, 0, 0, 60, 0, 0, 0, 1, 2, 3] log \<and> map snd log = [[1, 2]]"
proof -
  let ?f = "sf_write_header False 1 0 2 @ pcap_dump False (\<lparr>ts_sec = 1, ts_usec = 2, pk_caplen = 3, pk_len = 60\<rparr>, [1, 2, 3])"
  have "isl (pcap_fopen_offline False ?f) = False" by code_simp
  then obtain p where "pcap_fopen_offline False ?f = Inr p" by (cases "pcap_fopen_offline False ?f") auto
  note p = this
  have "(case pcap_fopen_offline False ?f of Inl e \<Rightarrow> None | Inr p \<Rightarrow>
      map_option (\<lambda>(st, q, log). map snd log) (pcap_offline_read (sf_accepts 0 [] None) (\<lambda>_. False) 1 p)) = Some [[1, 2]]"
    by code_simp
  then have v: "map snd log = [[1, 2]]" if "pcap_offline_read (sf_accepts 0 [] None) (\<lambda>_. False) 1 p = Some (st, q, log)" for st q log
    using that p by simp
  have "drop 24 ?f = [1, 0, 0, 0, 2, 0, 0, 0, 3, 0, 0, 0, 60, 0, 0, 0, 1, 2, 3]" by code_simp
  with savefile_read_bounded [OF p, of None "[]" "\<lambda>_. False" 1] v p show ?thesis by fastforce
qed

end
