(* ===== verification/Opt_Value.thy ===== *)
theory Opt_Value
  imports Bpf_Filter
begin

text \<open>
  The statements of a basic block of a filter under the optimiser, \<open>optimize.c\<close>: which registers a statement
  uses and defines, and value numbering (\<open>F\<close>, \<open>fold_op\<close>, \<open>opt_stmt\<close>).  A statement that has become a \<open>NOP\<close> has no code.  Registers are numbered: the
  words of the scratch memory from 0 to 15, the accumulator 16 and the index register 17.  What \<open>bpf_error\<close> and \<open>abort\<close> leave by, an
  index outside the value tables and a shift that C leaves undefined are errors.
\<close>

section \<open>Statements\<close>

record stmt =
  st_code :: "u16 option"  \<comment> \<open>\<open>None\<close> is \<open>NOP\<close>\<close>
  st_k :: u32

definition BPF_SIZE :: "u16 \<Rightarrow> u16" where "BPF_SIZE c = c AND 0x18"
definition BPF_MODE :: "u16 \<Rightarrow> u16" where "BPF_MODE c = c AND 0xe0"
definition BPF_SRC :: "u16 \<Rightarrow> u16" where "BPF_SRC c = c AND 0x08"
definition BPF_RVAL :: "u16 \<Rightarrow> u16" where "BPF_RVAL c = c AND 0x18"
definition BPF_MISCOP :: "u16 \<Rightarrow> u16" where "BPF_MISCOP c = c AND 0xf8"

abbreviation (input) "A_ATOM \<equiv> 16 :: nat"
abbreviation (input) "X_ATOM \<equiv> 17 :: nat"
abbreviation (input) "N_ATOMS \<equiv> 18 :: nat"

text \<open>
  \<open>atomuse\<close>: the register a statement uses, \<open>AX_ATOM\<close> for both, or none (-1).  Of a statement on a word outside the
  scratch memory the number is not that of a register.
\<close>

definition atomuse :: "stmt \<Rightarrow> int" where
  "atomuse s = (case st_code s of None \<Rightarrow> -1 | Some c \<Rightarrow>
     if BPF_CLASS c = BPF_RET then
       (if BPF_RVAL c = BPF_A then int A_ATOM else if BPF_RVAL c = BPF_X then int X_ATOM else -1)
     else if BPF_CLASS c = BPF_LD \<or> BPF_CLASS c = BPF_LDX then
       (if BPF_MODE c = BPF_IND then int X_ATOM else if BPF_MODE c = BPF_MEM then sint (st_k s) else -1)
     else if BPF_CLASS c = BPF_ST then int A_ATOM
     else if BPF_CLASS c = BPF_STX then int X_ATOM
     else if BPF_CLASS c = BPF_JMP \<or> BPF_CLASS c = BPF_ALU then
       (if BPF_SRC c = BPF_X then int N_ATOMS else int A_ATOM)
     else (if BPF_MISCOP c = BPF_TXA then int X_ATOM else int A_ATOM))"

definition atomdef :: "stmt \<Rightarrow> int" where
  "atomdef s = (case st_code s of None \<Rightarrow> -1 | Some c \<Rightarrow>
     if BPF_CLASS c = BPF_LD \<or> BPF_CLASS c = BPF_ALU then int A_ATOM
     else if BPF_CLASS c = BPF_LDX then int X_ATOM
     else if BPF_CLASS c = BPF_ST \<or> BPF_CLASS c = BPF_STX then sint (st_k s)
     else if BPF_CLASS c = BPF_MISC then
       (if BPF_MISCOP c = BPF_TAX then int X_ATOM else int A_ATOM)
     else -1)"

datatype opt_error = Table_full | Division_by_zero | Undefined_shift | Bad_index | Abort

text \<open>
  The sets \<open>def\<close>, \<open>use\<close> and \<open>kill\<close> of a block (bit vectors), after a statement and after the branch.  A statement that
  uses a word outside the scratch memory makes the code \<open>abort\<close>, one that defines a word whose number is no bit of
  a set makes it shift too far.
\<close>

definition atom_bits :: "int \<Rightarrow> u32 \<Rightarrow> u32 \<Rightarrow> u32" where
  "atom_bits atom defs use =
     (if atom = int N_ATOMS then
        (let use1 = (if \<not> bit defs X_ATOM then set_bit X_ATOM use else use) in
         if \<not> bit defs A_ATOM then set_bit A_ATOM use1 else use1)
      else if 0 \<le> atom \<and> \<not> bit defs (nat atom) then set_bit (nat atom) use
      else use)"

fun local_ud :: "stmt list \<Rightarrow> u32 \<times> u32 \<times> u32 \<Rightarrow> u32 \<times> u32 \<times> u32" where
  "local_ud [] duk = duk"
| "local_ud (s # r) (defs, use, kill) =
     (if st_code s = None then local_ud r (defs, use, kill)
      else let use1 = atom_bits (atomuse s) defs use; a = atomdef s in
        if 0 \<le> a then
          local_ud r (set_bit (nat a) defs, use1, if \<not> bit use1 (nat a) then set_bit (nat a) kill else kill)
        else local_ud r (defs, use1, kill))"

definition compute_local_ud :: "stmt list \<Rightarrow> stmt \<Rightarrow> opt_error + (u32 \<times> u32 \<times> u32)" where
  "compute_local_ud stmts b =
     (if \<not> list_all (\<lambda>s. atomuse s \<le> int N_ATOMS \<and> atomdef s < 32) stmts then Inl Abort
      else case local_ud stmts (0, 0, 0) of (defs, use, kill) \<Rightarrow>
        Inr (defs, (case st_code b of
            Some c \<Rightarrow> if BPF_CLASS c = BPF_JMP then atom_bits (atomuse b) defs use else use
          | None \<Rightarrow> use), kill))"

section \<open>Value numbers\<close>

record valnode =
  vn_code :: u16
  vn_v0 :: int
  vn_v1 :: int
  vn_val :: nat

text \<open>\<open>hashtbl\<close> with its chains, \<open>curval\<close>, \<open>maxval\<close>, and of \<open>vmap\<close> the constants.\<close>

record vtable =
  vt_hash :: "valnode list list"
  vt_cur :: nat
  vt_max :: nat
  vt_const :: "nat \<Rightarrow> u32 option"

definition init_val :: "nat \<Rightarrow> vtable" where
  "init_val maxval = \<lparr>vt_hash = replicate 213 [], vt_cur = 0, vt_max = maxval, vt_const = (\<lambda>_. None)\<rparr>"

definition vn_hash :: "u16 \<Rightarrow> int \<Rightarrow> int \<Rightarrow> nat" where
  "vn_hash code v0 v1 =
     unat ((ucast code :: u32) XOR push_bit 4 (word_of_int v0) XOR push_bit 8 (word_of_int v1)) mod 213"

fun find_node :: "u16 \<Rightarrow> int \<Rightarrow> int \<Rightarrow> valnode list \<Rightarrow> nat option" where
  "find_node code v0 v1 [] = None"
| "find_node code v0 v1 (p # r) =
     (if vn_code p = code \<and> vn_v0 p = v0 \<and> vn_v1 p = v1 then Some (vn_val p) else find_node code v0 v1 r)"

text \<open>The function \<open>F\<close>, and \<open>K\<close>.\<close>

definition value_no :: "u16 \<Rightarrow> int \<Rightarrow> int \<Rightarrow> vtable \<Rightarrow> opt_error + (nat \<times> vtable)" where
  "value_no code v0 v1 t =
     (let h = vn_hash code v0 v1 in
      case find_node code v0 v1 (vt_hash t ! h) of
        Some v \<Rightarrow> Inr (v, t)
      | None \<Rightarrow>
          let val = vt_cur t + 1 in
          if val \<ge> vt_max t then Inl Table_full
          else Inr (val, t\<lparr>vt_cur := val,
            vt_const := (if BPF_MODE code = BPF_IMM \<and> (BPF_CLASS code = BPF_LD \<or> BPF_CLASS code = BPF_LDX)
                         then (vt_const t)(val := Some (word_of_int v0)) else vt_const t),
            vt_hash := (vt_hash t)[h := \<lparr>vn_code = code, vn_v0 = v0, vn_v1 = v1, vn_val = val\<rparr> # vt_hash t ! h]\<rparr>))"

definition const_no :: "u32 \<Rightarrow> vtable \<Rightarrow> opt_error + (nat \<times> vtable)" where
  "const_no i t = value_no (BPF_LD OR BPF_IMM OR BPF_W) (sint i) 0 t"

text \<open>The state of \<open>opt_stmt\<close>: the value numbers \<open>val\<close> of the registers, the tables, and the flag \<open>done\<close>.\<close>

record opt_st =
  os_val :: "nat list"
  os_tab :: vtable
  os_done :: bool

definition and_then :: "'e + 'a \<Rightarrow> ('a \<Rightarrow> 'e + 'b) \<Rightarrow> 'e + 'b" where
  "and_then r f = (case r of Inl e \<Rightarrow> Inl e | Inr x \<Rightarrow> f x)"

definition number :: "u16 \<Rightarrow> int \<Rightarrow> int \<Rightarrow> opt_st \<Rightarrow> opt_error + (nat \<times> opt_st)" where
  "number code v0 v1 os = and_then (value_no code v0 v1 (os_tab os)) (\<lambda>(v, t). Inr (v, os\<lparr>os_tab := t\<rparr>))"

definition number_const :: "u32 \<Rightarrow> opt_st \<Rightarrow> opt_error + (nat \<times> opt_st)" where
  "number_const k os = and_then (const_no k (os_tab os)) (\<lambda>(v, t). Inr (v, os\<lparr>os_tab := t\<rparr>))"

definition set_val :: "nat \<Rightarrow> nat \<Rightarrow> opt_st \<Rightarrow> opt_st" where
  "set_val a v os = os\<lparr>os_val := (os_val os)[a := v]\<rparr>"

definition vstore :: "bool \<Rightarrow> stmt \<Rightarrow> nat \<Rightarrow> nat \<Rightarrow> opt_st \<Rightarrow> stmt \<times> opt_st" where
  "vstore alter s a newval os =
     (if alter \<and> os_val os ! a = newval then (s\<lparr>st_code := None\<rparr>, os) else (s, set_val a newval os))"

text \<open>\<open>vmap[v]\<close>: whether \<open>v\<close> is a constant, and \<open>const_val\<close>, which is 0 otherwise.\<close>

definition const_of :: "opt_st \<Rightarrow> nat \<Rightarrow> u32 option" where
  "const_of os v = vt_const (os_tab os) v"

definition const_val :: "opt_st \<Rightarrow> nat \<Rightarrow> u32" where
  "const_val os v = (case const_of os v of Some x \<Rightarrow> x | None \<Rightarrow> 0)"

section \<open>One statement\<close>

text \<open>\<open>fold_op\<close>, for two value numbers that are constants.\<close>

definition fold_value :: "u16 \<Rightarrow> u32 \<Rightarrow> u32 \<Rightarrow> opt_error + u32" where
  "fold_value c a b =
     (let op = BPF_OP c in
      if op = BPF_ADD then Inr (a + b)
      else if op = BPF_SUB then Inr (a - b)
      else if op = BPF_MUL then Inr (a * b)
      else if op = BPF_DIV then (if b = 0 then Inl Division_by_zero else Inr (a div b))
      else if op = BPF_AND then Inr (a AND b)
      else if op = BPF_OR then Inr (a OR b)
      else if op = BPF_LSH then (if b < 32 then Inr (push_bit (unat b) a) else Inl Undefined_shift)
      else if op = BPF_RSH then (if b < 32 then Inr (drop_bit (unat b) a) else Inl Undefined_shift)
      else if op = BPF_NEG then Inr (- a)
      else Inl Abort)"

definition fold_op :: "stmt \<Rightarrow> u16 \<Rightarrow> nat \<Rightarrow> nat \<Rightarrow> opt_st \<Rightarrow> opt_error + (stmt \<times> opt_st)" where
  "fold_op s c v0 v1 os =
     and_then (fold_value c (const_val os v0) (const_val os v1)) (\<lambda>v. Inr (s\<lparr>st_code := Some (BPF_LD OR BPF_IMM), st_k := v\<rparr>, os\<lparr>os_done := False\<rparr>))"

text \<open>The loads of packet octets and constants.\<close>

definition opt_load :: "bool \<Rightarrow> stmt \<Rightarrow> u16 \<Rightarrow> opt_st \<Rightarrow> (opt_error + (stmt \<times> opt_st)) option" where
  "opt_load alter s c os =
     (if c \<in> set [BPF_LD OR BPF_ABS OR BPF_W, BPF_LD OR BPF_ABS OR BPF_H, BPF_LD OR BPF_ABS OR BPF_B] then
        Some (and_then (number c (sint (st_k s)) 0 os) (\<lambda>(v, os). Inr (vstore alter s A_ATOM v os)))
      else if c \<in> set [BPF_LD OR BPF_IND OR BPF_W, BPF_LD OR BPF_IND OR BPF_H, BPF_LD OR BPF_IND OR BPF_B] then
        (let v = os_val os ! X_ATOM in
         case (if alter then const_of os v else None) of
           Some x \<Rightarrow>
             (let c1 = BPF_LD OR BPF_ABS OR BPF_SIZE c; k1 = st_k s + x; s1 = s\<lparr>st_code := Some c1, st_k := k1\<rparr> in
              Some (and_then (number c1 (sint k1) 0 (os\<lparr>os_done := False\<rparr>)) (\<lambda>(v, os). Inr (vstore alter s1 A_ATOM v os))))
         | None \<Rightarrow>
             Some (and_then (number c (sint (st_k s)) (int v) os) (\<lambda>(v, os). Inr (vstore alter s A_ATOM v os))))
      else if c = (BPF_LD OR BPF_LEN) then
        Some (and_then (number c 0 0 os) (\<lambda>(v, os). Inr (vstore alter s A_ATOM v os)))
      else if c = (BPF_LD OR BPF_IMM) then
        Some (and_then (number_const (st_k s) os) (\<lambda>(v, os). Inr (vstore alter s A_ATOM v os)))
      else if c = (BPF_LDX OR BPF_IMM) then
        Some (and_then (number_const (st_k s) os) (\<lambda>(v, os). Inr (vstore alter s X_ATOM v os)))
      else if c = (BPF_LDX OR BPF_MSH OR BPF_B) then
        Some (and_then (number c (sint (st_k s)) 0 os) (\<lambda>(v, os). Inr (vstore alter s X_ATOM v os)))
      else None)"

text \<open>Arithmetic: the accumulator gets the number of the result.\<close>

definition set_acc_const :: "stmt \<Rightarrow> opt_st \<Rightarrow> opt_error + (stmt \<times> opt_st)" where
  "set_acc_const s os = and_then (number_const (st_k s) os) (\<lambda>(v, os). Inr (s, set_val A_ATOM v os))"

definition opt_neg :: "bool \<Rightarrow> stmt \<Rightarrow> u16 \<Rightarrow> opt_st \<Rightarrow> opt_error + (stmt \<times> opt_st)" where
  "opt_neg alter s c os =
     (let va = os_val os ! A_ATOM in
      case (if alter then const_of os va else None) of
        Some a \<Rightarrow> set_acc_const (s\<lparr>st_code := Some (BPF_LD OR BPF_IMM), st_k := - a\<rparr>) os
      | None \<Rightarrow> and_then (number c (int va) 0 os) (\<lambda>(v, os). Inr (s, set_val A_ATOM v os)))"

definition number_k :: "stmt \<Rightarrow> u16 \<Rightarrow> opt_st \<Rightarrow> opt_error + (stmt \<times> opt_st)" where
  "number_k s c os =
     and_then (number_const (st_k s) os) (\<lambda>(vk, os).
       and_then (number c (int (os_val os ! A_ATOM)) (int vk) os) (\<lambda>(v, os). Inr (s, set_val A_ATOM v os)))"

definition opt_alu_k :: "bool \<Rightarrow> stmt \<Rightarrow> u16 \<Rightarrow> opt_st \<Rightarrow> opt_error + (stmt \<times> opt_st)" where
  "opt_alu_k alter s c os =
     (let op = BPF_OP c; va = os_val os ! A_ATOM in
      if alter \<and> st_k s = 0 \<and> op \<in> set [BPF_ADD, BPF_LSH, BPF_RSH, BPF_OR] then Inr (s\<lparr>st_code := None\<rparr>, os)
      else if alter \<and> st_k s = 0 \<and> op \<in> set [BPF_MUL, BPF_AND] then
        set_acc_const (s\<lparr>st_code := Some (BPF_LD OR BPF_IMM)\<rparr>) os
      else case (if alter then const_of os va else None) of
        Some a \<Rightarrow>
          and_then (number_const (st_k s) os) (\<lambda>(vk, os).
            and_then (fold_op s c va vk os) (\<lambda>(s, os). set_acc_const s os))
      | None \<Rightarrow> number_k s c os)"

definition opt_alu_x :: "bool \<Rightarrow> stmt \<Rightarrow> u16 \<Rightarrow> opt_st \<Rightarrow> opt_error + (stmt \<times> opt_st)" where
  "opt_alu_x alter s c os =
     (let op = BPF_OP c; va = os_val os ! A_ATOM; vx = os_val os ! X_ATOM in
      case (if alter then const_of os vx else None) of
        Some x \<Rightarrow>
          (case const_of os va of
             Some a \<Rightarrow> and_then (fold_op s c va vx os) (\<lambda>(s, os). set_acc_const s os)
           | None \<Rightarrow>
               (let c1 = BPF_ALU OR BPF_K OR op in
                number_k (s\<lparr>st_code := Some c1, st_k := x\<rparr>) c1 (os\<lparr>os_done := False\<rparr>)))
      | None \<Rightarrow>
          if alter \<and> const_of os va = Some 0 \<and> op \<in> set [BPF_ADD, BPF_OR] then
            Inr (vstore alter (s\<lparr>st_code := Some (BPF_MISC OR BPF_TXA)\<rparr>) A_ATOM vx os)
          else if alter \<and> const_of os va = Some 0 \<and> op \<in> set [BPF_MUL, BPF_DIV, BPF_AND, BPF_LSH, BPF_RSH] then
            (let s1 = s\<lparr>st_code := Some (BPF_LD OR BPF_IMM), st_k := 0\<rparr> in
             and_then (number_const 0 os) (\<lambda>(v, os). Inr (vstore alter s1 A_ATOM v os)))
          else and_then (number c (int va) (int vx) os) (\<lambda>(v, os). Inr (s, set_val A_ATOM v os)))"

text \<open>Moves between registers and scratch memory.  Of a word outside the memory there is no value number.\<close>

definition opt_move :: "bool \<Rightarrow> stmt \<Rightarrow> u16 \<Rightarrow> opt_st \<Rightarrow> opt_error + (stmt \<times> opt_st)" where
  "opt_move alter s c os =
     (let n = unat (st_k s); inside = n < N_ATOMS in
      if c = (BPF_MISC OR BPF_TXA) then Inr (vstore alter s A_ATOM (os_val os ! X_ATOM) os)
      else if c = (BPF_MISC OR BPF_TAX) then Inr (vstore alter s X_ATOM (os_val os ! A_ATOM) os)
      else if c = (BPF_LD OR BPF_MEM) \<or> c = (BPF_LDX OR BPF_MEM) then
        (if \<not> inside then Inl Bad_index
         else let v = os_val os ! n; (r, imm) = (if c = (BPF_LD OR BPF_MEM) then (A_ATOM, BPF_LD OR BPF_IMM) else (X_ATOM, BPF_LDX OR BPF_IMM)) in
           case (if alter then const_of os v else None) of
             Some x \<Rightarrow> Inr (vstore alter (s\<lparr>st_code := Some imm, st_k := x\<rparr>) r v (os\<lparr>os_done := False\<rparr>))
           | None \<Rightarrow> Inr (vstore alter s r v os))
      else if c = BPF_ST then (if \<not> inside then Inl Bad_index else Inr (vstore alter s n (os_val os ! A_ATOM) os))
      else if c = BPF_STX then (if \<not> inside then Inl Bad_index else Inr (vstore alter s n (os_val os ! X_ATOM) os))
      else Inr (s, os))"

abbreviation (input) "alu_ops \<equiv> [BPF_ADD, BPF_SUB, BPF_MUL, BPF_DIV, BPF_AND, BPF_OR, BPF_LSH, BPF_RSH]"

definition opt_stmt :: "bool \<Rightarrow> stmt \<Rightarrow> opt_st \<Rightarrow> opt_error + (stmt \<times> opt_st)" where
  "opt_stmt alter s os = (case st_code s of None \<Rightarrow> Inr (s, os) | Some c \<Rightarrow>
     case opt_load alter s c os of Some r \<Rightarrow> r
     | None \<Rightarrow>
         if c = (BPF_ALU OR BPF_NEG) then opt_neg alter s c os
         else if c \<in> set (map (\<lambda>op. BPF_ALU OR op OR BPF_K) alu_ops) then opt_alu_k alter s c os
         else if c \<in> set (map (\<lambda>op. BPF_ALU OR op OR BPF_X) alu_ops) then opt_alu_x alter s c os
         else opt_move alter s c os)"

text \<open>The loop over the statements of a block in \<open>opt_blk\<close>.\<close>

fun opt_stmts :: "bool \<Rightarrow> stmt list \<Rightarrow> opt_st \<Rightarrow> opt_error + (stmt list \<times> opt_st)" where
  "opt_stmts alter [] os = Inr ([], os)"
| "opt_stmts alter (s # r) os =
     and_then (opt_stmt alter s os) (\<lambda>(s, os). and_then (opt_stmts alter r os) (\<lambda>(r, os). Inr (s # r, os)))"

section \<open>What statements do\<close>

text \<open>A statement as the filter machine executes it; \<open>NOP\<close>s disappear from the program.\<close>

definition run_stmt :: "bytes \<Rightarrow> u32 \<Rightarrow> u32 \<Rightarrow> stmt \<Rightarrow> bpf_state \<Rightarrow> bpf_turn" where
  "run_stmt p w b st s = (case st_code st of None \<Rightarrow> Next s
     | Some c \<Rightarrow> (case exec_insn p w b \<lparr>insn_code = c, insn_jt = 0, insn_jf = 0, insn_k = st_k st\<rparr> s of
         Next s' \<Rightarrow> Next (s'\<lparr>bpf_pc := bpf_pc s\<rparr>) | t \<Rightarrow> t))"

fun run_stmts :: "bytes \<Rightarrow> u32 \<Rightarrow> u32 \<Rightarrow> stmt list \<Rightarrow> bpf_state \<Rightarrow> bpf_turn" where
  "run_stmts p w b [] s = Next s"
| "run_stmts p w b (st # r) s = (case run_stmt p w b st s of Next s' \<Rightarrow> run_stmts p w b r s' | t \<Rightarrow> t)"

definition reg :: "bpf_state \<Rightarrow> nat \<Rightarrow> u32" where
  "reg s i = (if i = A_ATOM then bpf_A s else if i = X_ATOM then bpf_X s else bpf_mem s ! i)"

definition set_reg :: "nat \<Rightarrow> u32 \<Rightarrow> bpf_state \<Rightarrow> bpf_state" where
  "set_reg i v s = (if i = A_ATOM then s\<lparr>bpf_A := v\<rparr> else if i = X_ATOM then s\<lparr>bpf_X := v\<rparr>
     else s\<lparr>bpf_mem := (bpf_mem s)[i := v]\<rparr>)"

text \<open>The statements the code generator makes for the inside of a block: no jumps, no returns, memory words in range.\<close>

definition straight_codes :: "u16 list" where
  "straight_codes = [0x20, 0x28, 0x30, 0x40, 0x48, 0x50, 0x80, 0x00, 0x01, 0xb1, 0x84,
     0x04, 0x14, 0x24, 0x34, 0x54, 0x44, 0x64, 0x74, 0x0c, 0x1c, 0x2c, 0x3c, 0x5c, 0x4c, 0x6c, 0x7c, 0x87, 0x07]"

definition mem_codes :: "u16 list" where
  "mem_codes = [0x60, 0x61, 0x02, 0x03]"

definition straight :: "stmt \<Rightarrow> bool" where
  "straight st = (case st_code st of None \<Rightarrow> True
     | Some c \<Rightarrow> c \<in> set straight_codes \<or> c \<in> set mem_codes \<and> unat (st_k st) < BPF_MEMWORDS)"

section \<open>The effect of a statement on its registers\<close>

text \<open>What a statement stores in the register it defines, or how it leaves the block.\<close>

datatype outcome = Value u32 | Leaves bpf_turn

abbreviation (input) "blank \<equiv> \<lparr>bpf_pc = 0, bpf_A = 0, bpf_X = 0, bpf_mem = []\<rparr>"

definition load_out :: "bytes \<Rightarrow> u32 \<Rightarrow> u16 \<Rightarrow> u32 \<Rightarrow> outcome" where
  "load_out p b sz i =
     (case (if sz = BPF_W then load_word p b i blank else if sz = BPF_H then load_half p b i blank else load_byte p b i blank) of
        Next s \<Rightarrow> Value (bpf_A s) | t \<Rightarrow> Leaves t)"

definition msh_out :: "bytes \<Rightarrow> u32 \<Rightarrow> u32 \<Rightarrow> outcome" where
  "msh_out p b k = (if k \<ge> b then Leaves (Return 0)
     else case pkt_byte p (sint k) of None \<Rightarrow> Leaves (Undefined Bad_packet)
       | Some o8 \<Rightarrow> Value (push_bit 2 (ucast o8 AND 0xf)))"

definition alu_out :: "u16 \<Rightarrow> u32 \<Rightarrow> u32 \<Rightarrow> outcome" where
  "alu_out op a x =
     (if op = BPF_ADD then Value (a + x) else if op = BPF_SUB then Value (a - x) else if op = BPF_MUL then Value (a * x)
      else if op = BPF_DIV then (if x = 0 then Leaves (Return 0) else Value (a div x))
      else if op = BPF_AND then Value (a AND x) else if op = BPF_OR then Value (a OR x)
      else if op = BPF_LSH then (if x < 32 then Value (push_bit (unat x) a) else Leaves (Undefined Bad_shift))
      else if x < 32 then Value (drop_bit (unat x) a) else Leaves (Undefined Bad_shift))"

definition outcome_of :: "bytes \<Rightarrow> u32 \<Rightarrow> u32 \<Rightarrow> u16 \<Rightarrow> u32 \<Rightarrow> bpf_state \<Rightarrow> outcome" where
  "outcome_of p w b c k s =
     (if c = 0x20 \<or> c = 0x28 \<or> c = 0x30 then load_out p b (BPF_SIZE c) k
      else if c = 0x40 \<or> c = 0x48 \<or> c = 0x50 then load_out p b (BPF_SIZE c) (bpf_X s + k)
      else if c = 0x80 then Value w
      else if c = 0x00 \<or> c = 0x01 then Value k
      else if c = 0xb1 then msh_out p b k
      else if c = 0x84 then Value (- bpf_A s)
      else if BPF_CLASS c = BPF_ALU then
        (if BPF_SRC c = BPF_X then alu_out (BPF_OP c) (bpf_A s) (bpf_X s)
         else if BPF_OP c = BPF_DIV \<and> k = 0 then Leaves (Undefined Div_by_zero)
         else alu_out (BPF_OP c) (bpf_A s) k)
      else if c = 0x60 \<or> c = 0x61 then Value (reg s (unat k))
      else if c = 0x02 \<or> c = 0x07 then Value (bpf_A s)
      else Value (bpf_X s))"

definition finish :: "nat \<Rightarrow> bpf_state \<Rightarrow> outcome \<Rightarrow> bpf_turn" where
  "finish a s r = (case r of Value v \<Rightarrow> Next (set_reg a v s) | Leaves t \<Rightarrow> t)"

lemma finish_simps [simp]: "finish a s (Value v) = Next (set_reg a v s)" "finish a s (Leaves t) = t"
  by (simp_all add: finish_def)

lemma load_out_turn:
  "load_word p b i s = finish A_ATOM (s\<lparr>bpf_pc := bpf_pc s + 1\<rparr>) (load_out p b 0 i)"
  "load_half p b i s = finish A_ATOM (s\<lparr>bpf_pc := bpf_pc s + 1\<rparr>) (load_out p b 8 i)"
  "load_byte p b i s = finish A_ATOM (s\<lparr>bpf_pc := bpf_pc s + 1\<rparr>) (load_out p b 16 i)"
  by (auto simp: load_out_def load_word_def load_half_def load_byte_def load_acc_def cont_def set_reg_def split: option.splits)

lemma exec_straight:
  assumes "c \<in> set straight_codes"
  shows "exec_insn p w b \<lparr>insn_code = c, insn_jt = 0, insn_jf = 0, insn_k = k\<rparr> s =
     finish (if BPF_CLASS c = BPF_LDX \<or> c = 0x07 then X_ATOM else A_ATOM) (s\<lparr>bpf_pc := bpf_pc s + 1\<rparr>) (outcome_of p w b c k s)"
  using assms unfolding straight_codes_def
  by (simp only: list.set insert_iff empty_iff simp_thms)
    (elim disjE; simp add: exec_insn_def exec_load_def exec_mem_def exec_jump_def exec_alu_def exec_misc_def outcome_of_def load_out_turn
      BPF_SIZE_def BPF_CLASS_def BPF_SRC_def BPF_OP_def msh_out_def alu_out_def cont_def set_acc_def shift_acc_def set_reg_def split: option.split)

lemma exec_on_mem:
  assumes "c \<in> set mem_codes" and "unat k < BPF_MEMWORDS"
  shows "exec_insn p w b \<lparr>insn_code = c, insn_jt = 0, insn_jf = 0, insn_k = k\<rparr> s =
     finish (if c = 0x60 then A_ATOM else if c = 0x61 then X_ATOM else unat k) (s\<lparr>bpf_pc := bpf_pc s + 1\<rparr>) (outcome_of p w b c k s)"
proof -
  have k: "sint k = int (unat k)"
    using assms(2) by (intro sint_u32_nonneg) simp
  have "int (unat k) < 16"
    using assms(2) by linarith
  then have u: "uint k < 16"
    by simp
  show ?thesis
    using assms unfolding mem_codes_def
    by (simp only: list.set insert_iff empty_iff simp_thms)
      (elim disjE; simp add: k u exec_insn_def exec_load_def exec_mem_def outcome_of_def BPF_CLASS_def BPF_SRC_def cont_def set_reg_def reg_def)
qed

lemma pc_back: "(set_reg a v (s\<lparr>bpf_pc := n\<rparr>))\<lparr>bpf_pc := bpf_pc s\<rparr> = set_reg a v s"
  by (simp add: set_reg_def)

definition goes_on :: "bpf_turn \<Rightarrow> bool" where
  "goes_on t = (case t of Next _ \<Rightarrow> True | _ \<Rightarrow> False)"

lemma load_out_leaves: "load_out p b sz i = Leaves t \<Longrightarrow> \<not> goes_on t"
  by (auto simp: load_out_def goes_on_def split: bpf_turn.splits)

lemma alu_out_leaves: "alu_out op a x = Leaves t \<Longrightarrow> \<not> goes_on t"
  by (auto simp: alu_out_def goes_on_def split: if_splits)

lemma outcome_leaves: "outcome_of p w b c k s = Leaves t \<Longrightarrow> \<not> goes_on t"
  unfolding outcome_of_def msh_out_def
  by (auto simp: goes_on_def [of "Return _"] goes_on_def [of "Undefined _"] dest: load_out_leaves alu_out_leaves split: if_splits option.splits)

lemma exec_insn_outcome:
  assumes "straight st" and "st_code st = Some c"
  shows "exec_insn p w b \<lparr>insn_code = c, insn_jt = 0, insn_jf = 0, insn_k = st_k st\<rparr> s =
     finish (nat (atomdef st)) (s\<lparr>bpf_pc := bpf_pc s + 1\<rparr>) (outcome_of p w b c (st_k st) s)"
proof -
  have d: "nat (atomdef st) =
      (if c \<in> set straight_codes then (if BPF_CLASS c = BPF_LDX \<or> c = 0x07 then X_ATOM else A_ATOM)
       else if c = 0x60 then A_ATOM else if c = 0x61 then X_ATOM else unat (st_k st))"
  proof (cases "c \<in> set straight_codes")
    case True
    then show ?thesis
      unfolding straight_codes_def using assms(2)
      by (simp only: list.set insert_iff empty_iff simp_thms)
        (elim disjE; simp add: atomdef_def BPF_CLASS_def BPF_MISCOP_def)
  next
    case False
    then have m: "c \<in> set mem_codes" "unat (st_k st) < BPF_MEMWORDS" "c \<notin> set straight_codes"
      using assms by (auto simp: straight_def)
    then have "sint (st_k st) = int (unat (st_k st))"
      by (intro sint_u32_nonneg) simp
    then show ?thesis
      using m(1,3) assms(2) unfolding mem_codes_def
      by (simp only: list.set insert_iff empty_iff simp_thms)
        (elim disjE; simp add: atomdef_def BPF_CLASS_def BPF_MISCOP_def)
  qed
  show ?thesis
  proof (cases "c \<in> set straight_codes")
    case True
    then show ?thesis using exec_straight [OF True, of p w b "st_k st" s] by (simp only: d if_True)
  next
    case False
    then have m: "c \<in> set mem_codes" "unat (st_k st) < BPF_MEMWORDS"
      using assms by (simp_all add: straight_def)
    show ?thesis using exec_on_mem [OF m, of p w b s] False by (simp only: d if_False)
  qed
qed

lemma run_stmt_outcome:
  assumes "straight st" and "st_code st = Some c"
  shows "run_stmt p w b st s = finish (nat (atomdef st)) s (outcome_of p w b c (st_k st) s)"
  using exec_insn_outcome [OF assms, of p w b s] outcome_leaves [of p w b c "st_k st" s] assms(2)
  by (cases "outcome_of p w b c (st_k st) s")
    (auto simp: run_stmt_def pc_back goes_on_def split: bpf_turn.splits)

section \<open>What value numbers stand for\<close>

text \<open>
  For a given packet, \<open>rho\<close> gives the value that every number stands for.  The entry \<open>(code, v0, v1)\<close> of the table is the result of the
  instruction \<open>code\<close>: for a load \<open>v0\<close> is the constant \<open>k\<close> and \<open>v1\<close> the number of the index register, for an arithmetic
  instruction \<open>v0\<close> and \<open>v1\<close> are the numbers of the operands.
\<close>

definition is_load :: "u16 \<Rightarrow> bool" where
  "is_load c \<longleftrightarrow> BPF_CLASS c = BPF_LD \<or> BPF_CLASS c = BPF_LDX"

definition node_out :: "bytes \<Rightarrow> u32 \<Rightarrow> u32 \<Rightarrow> (nat \<Rightarrow> u32) \<Rightarrow> u16 \<Rightarrow> int \<Rightarrow> int \<Rightarrow> outcome" where
  "node_out p w b rho c v0 v1 =
     (if is_load c then outcome_of p w b c (word_of_int v0) \<lparr>bpf_pc = 0, bpf_A = 0, bpf_X = rho (nat v1), bpf_mem = []\<rparr>
      else outcome_of p w b c (rho (nat v1)) \<lparr>bpf_pc = 0, bpf_A = rho (nat v0), bpf_X = rho (nat v1), bpf_mem = []\<rparr>)"

definition args_known :: "u16 \<Rightarrow> int \<Rightarrow> int \<Rightarrow> vtable \<Rightarrow> bool" where
  "args_known c v0 v1 t \<longleftrightarrow> nat v1 \<le> vt_cur t \<and> (\<not> is_load c \<longrightarrow> nat v0 \<le> vt_cur t)"

definition is_imm :: "u16 \<Rightarrow> bool" where
  "is_imm c \<longleftrightarrow> BPF_MODE c = BPF_IMM \<and> is_load c"

definition nodes :: "vtable \<Rightarrow> valnode set" where
  "nodes t = {n. \<exists>l \<in> set (vt_hash t). n \<in> set l}"

abbreviation (input) "out_of p w b rho n \<equiv> node_out p w b rho (vn_code n) (vn_v0 n) (vn_v1 n)"

text \<open>
  An instruction that is not executed for this packet, because it is in a block on another path, may be one that fails.
  A number is live when its instruction does not.
\<close>

definition node_ok :: "bytes \<Rightarrow> u32 \<Rightarrow> u32 \<Rightarrow> (nat \<Rightarrow> u32) \<Rightarrow> vtable \<Rightarrow> valnode \<Rightarrow> bool" where
  "node_ok p w b rho t n \<longleftrightarrow> (\<forall>x. out_of p w b rho n = Value x \<longrightarrow> rho (vn_val n) = x) \<and>
     1 \<le> vn_val n \<and> vn_val n \<le> vt_cur t \<and> args_known (vn_code n) (vn_v0 n) (vn_v1 n) t \<and>
     (is_imm (vn_code n) \<longrightarrow> vt_const t (vn_val n) = Some (word_of_int (vn_v0 n)))"

definition live :: "bytes \<Rightarrow> u32 \<Rightarrow> u32 \<Rightarrow> (nat \<Rightarrow> u32) \<Rightarrow> vtable \<Rightarrow> nat \<Rightarrow> bool" where
  "live p w b rho t v \<longleftrightarrow> (\<forall>n \<in> nodes t. vn_val n = v \<longrightarrow> (\<exists>x. out_of p w b rho n = Value x))"

definition tab_ok :: "bytes \<Rightarrow> u32 \<Rightarrow> u32 \<Rightarrow> (nat \<Rightarrow> u32) \<Rightarrow> vtable \<Rightarrow> bool" where
  "tab_ok p w b rho t \<longleftrightarrow> length (vt_hash t) = 213 \<and>
     (\<forall>n \<in> nodes t. node_ok p w b rho t n) \<and>
     (\<forall>n \<in> nodes t. \<forall>m \<in> nodes t. vn_val n = vn_val m \<longrightarrow> n = m) \<and>
     (\<forall>v x. vt_const t v = Some x \<longrightarrow> rho v = x \<and> v \<le> vt_cur t)"

lemma tab_ok_const: "tab_ok p w b rho t \<Longrightarrow> vt_const t v = Some x \<Longrightarrow> rho v = x \<and> v \<le> vt_cur t"
  by (simp add: tab_ok_def)

lemma find_node_mem: "find_node c v0 v1 l = Some v \<Longrightarrow> \<exists>n \<in> set l. vn_code n = c \<and> vn_v0 n = v0 \<and> vn_v1 n = v1 \<and> vn_val n = v"
  by (induction l) (auto split: if_splits)

lemma vn_hash_less: "vn_hash c v0 v1 < 213"
  by (simp add: vn_hash_def)

lemma node_out_cong:
  "\<forall>u \<le> vt_cur t. rho' u = rho u \<Longrightarrow> args_known c v0 v1 t \<Longrightarrow> node_out p w b rho' c v0 v1 = node_out p w b rho c v0 v1"
  by (auto simp: node_out_def args_known_def)

lemma node_ok_grow:
  assumes "node_ok p w b rho t n" and "\<forall>u \<le> vt_cur t. rho' u = rho u" and "vt_cur t \<le> vt_cur t'"
    and "\<forall>u \<le> vt_cur t. vt_const t' u = vt_const t u"
  shows "node_ok p w b rho' t' n"
proof -
  have "node_out p w b rho' (vn_code n) (vn_v0 n) (vn_v1 n) = node_out p w b rho (vn_code n) (vn_v0 n) (vn_v1 n)"
    using assms(1,2) by (intro node_out_cong) (auto simp: node_ok_def)
  then show ?thesis
    using assms by (auto simp: node_ok_def args_known_def intro: order.trans)
qed

lemma imm_out: "is_imm c \<Longrightarrow> c \<in> set straight_codes \<Longrightarrow> node_out p w b rho c v0 v1 = Value (word_of_int v0)"
  unfolding straight_codes_def
  by (simp only: list.set insert_iff empty_iff simp_thms)
    (elim disjE; simp add: is_imm_def is_load_def BPF_MODE_def BPF_CLASS_def node_out_def outcome_of_def)

lemma nodes_insert:
  assumes "h < length (vt_hash t)" and "vt_hash t' = (vt_hash t)[h := n # vt_hash t ! h]"
  shows "nodes t' = insert n (nodes t)"
proof -
  have "set ((vt_hash t)[h := l]) = insert l (set (take h (vt_hash t)) \<union> set (drop (Suc h) (vt_hash t)))" for l
    using assms(1) by (simp add: upd_conv_take_nth_drop)
  moreover have "set (vt_hash t) = insert (vt_hash t ! h) (set (take h (vt_hash t)) \<union> set (drop (Suc h) (vt_hash t)))"
    using assms(1) by (subst id_take_nth_drop [of h "vt_hash t"]) auto
  ultimately show ?thesis
    unfolding nodes_def assms(2) by auto
qed

lemma live_grow:
  assumes "live p w b rho t u" "tab_ok p w b rho t" "\<forall>u \<le> vt_cur t. rho' u = rho u" "u \<le> vt_cur t"
    and "nodes t' = nodes t \<or> nodes t' = insert n (nodes t) \<and> vt_cur t < vn_val n"
  shows "live p w b rho' t' u"
proof -
  have "out_of p w b rho' m = out_of p w b rho m" if "m \<in> nodes t" for m
    using assms(2,3) that by (intro node_out_cong) (auto simp: tab_ok_def node_ok_def)
  then show ?thesis
    using assms(1,4,5) by (auto simp: live_def)
qed

definition grows :: "bytes \<Rightarrow> u32 \<Rightarrow> u32 \<Rightarrow> (nat \<Rightarrow> u32) \<Rightarrow> vtable \<Rightarrow> (nat \<Rightarrow> u32) \<Rightarrow> vtable \<Rightarrow> bool" where
  "grows p w b rho t rho' t' \<longleftrightarrow> vt_cur t \<le> vt_cur t' \<and>
     (\<forall>u \<le> vt_cur t. rho' u = rho u \<and> vt_const t' u = vt_const t u \<and> (live p w b rho t u \<longrightarrow> live p w b rho' t' u))"

lemma value_no_found:
  assumes "tab_ok p w b rho t" and "find_node c v0 v1 (vt_hash t ! vn_hash c v0 v1) = Some v"
  shows "value_no c v0 v1 t = Inr (v, t)" "\<exists>n \<in> nodes t. vn_code n = c \<and> vn_v0 n = v0 \<and> vn_v1 n = v1 \<and> vn_val n = v"
proof -
  have "vt_hash t ! vn_hash c v0 v1 \<in> set (vt_hash t)"
    using assms(1) by (simp add: tab_ok_def vn_hash_less)
  then show "\<exists>n \<in> nodes t. vn_code n = c \<and> vn_v0 n = v0 \<and> vn_v1 n = v1 \<and> vn_val n = v"
    using find_node_mem [OF assms(2)] by (auto simp: nodes_def)
qed (use assms in \<open>simp add: value_no_def\<close>)

lemma value_no_fresh:
  assumes "tab_ok p w b rho t" and "find_node c v0 v1 (vt_hash t ! vn_hash c v0 v1) = None" and "value_no c v0 v1 t = Inr (v, t')"
  shows "v = vt_cur t + 1" "vt_cur t' = v" "vt_const t' = (if is_imm c then (vt_const t)(v := Some (word_of_int v0)) else vt_const t)"
    "nodes t' = insert \<lparr>vn_code = c, vn_v0 = v0, vn_v1 = v1, vn_val = v\<rparr> (nodes t)" "length (vt_hash t') = 213"
proof -
  have h: "vn_hash c v0 v1 < length (vt_hash t)"
    using assms(1) by (simp add: tab_ok_def vn_hash_less)
  show "v = vt_cur t + 1" "vt_cur t' = v" "vt_const t' = (if is_imm c then (vt_const t)(v := Some (word_of_int v0)) else vt_const t)"
    "length (vt_hash t') = 213"
    using assms by (auto simp: value_no_def is_imm_def is_load_def tab_ok_def Let_def split: if_splits)
  show "nodes t' = insert \<lparr>vn_code = c, vn_v0 = v0, vn_v1 = v1, vn_val = v\<rparr> (nodes t)"
    using assms(2,3) by (intro nodes_insert [OF h]) (auto simp: value_no_def Let_def split: if_splits)
qed

lemma value_no_fresh_sound:
  assumes ok: "tab_ok p w b rho t" and args: "args_known c v0 v1 t" and c: "c \<in> set straight_codes"
    and new: "find_node c v0 v1 (vt_hash t ! vn_hash c v0 v1) = None" "value_no c v0 v1 t = Inr (v, t')"
  shows "\<exists>rho'. tab_ok p w b rho' t' \<and> grows p w b rho t rho' t' \<and>
        (\<forall>x. node_out p w b rho c v0 v1 = Value x \<longrightarrow> rho' v = x \<and> live p w b rho' t' v \<and> (is_imm c \<longrightarrow> vt_const t' v = Some x))"
proof -
  note f = value_no_fresh [OF ok new]
  let ?n = "\<lparr>vn_code = c, vn_v0 = v0, vn_v1 = v1, vn_val = v\<rparr>"
  define rho' where "rho' = rho(v := (case node_out p w b rho c v0 v1 of Value x \<Rightarrow> x | Leaves _ \<Rightarrow> 0))"
  have same: "\<forall>u \<le> vt_cur t. rho' u = rho u" "\<forall>u \<le> vt_cur t. vt_const t' u = vt_const t u" and le: "vt_cur t \<le> vt_cur t'"
    using f by (auto simp: rho'_def)
  have out: "node_out p w b rho' c v0 v1 = node_out p w b rho c v0 v1"
    by (rule node_out_cong [OF same(1) args])
  have val: "rho' v = x" if "node_out p w b rho c v0 v1 = Value x" for x
    using that by (simp add: rho'_def)
  have imm: "is_imm c \<Longrightarrow> rho' v = word_of_int v0"
    using imm_out [OF _ c, of p w b rho v0 v1] by (simp add: rho'_def)
  have n: "node_ok p w b rho' t' ?n"
    using f args val by (auto simp: node_ok_def args_known_def out)
  have old: "node_ok p w b rho' t' m" "vn_val m \<le> vt_cur t" if "m \<in> nodes t" for m
    using that ok node_ok_grow [OF _ same(1) le same(2)] by (auto simp: tab_ok_def node_ok_def [of p w b rho])
  have uniq: "\<forall>m \<in> nodes t'. \<forall>m' \<in> nodes t'. vn_val m = vn_val m' \<longrightarrow> m = m'"
    using old(2) ok f(1,4) by (fastforce simp: tab_ok_def)
  have cs: "rho' u = y \<and> u \<le> vt_cur t'" if "vt_const t' u = Some y" for u y
  proof (cases "u = v")
    case True
    have "vt_const t v = None" using tab_ok_const [OF ok, of v] f(1) by (cases "vt_const t v") auto
    then show ?thesis using True that f(2,3) imm by (auto split: if_splits)
  next
    case False
    then have "vt_const t u = Some y" using that f by (auto split: if_splits)
    then show ?thesis using tab_ok_const [OF ok, of u y] f(1,2) False by (simp add: rho'_def)
  qed
  have "tab_ok p w b rho' t'"
    using old(1) n uniq cs f(4,5) by (simp add: tab_ok_def)
  moreover have "grows p w b rho t rho' t'"
    using same le live_grow [OF _ ok same(1) _ disjI2, of _ t' ?n] f(1,4) by (auto simp: grows_def)
  moreover have "live p w b rho' t' v" if "node_out p w b rho c v0 v1 = Value x" for x
    using that old(2) f(1,4) out by (fastforce simp: live_def)
  moreover have "vt_const t' v = Some x" if "node_out p w b rho c v0 v1 = Value x" "is_imm c" for x
    using that f(3) imm val by simp
  ultimately show ?thesis using val by blast
qed

lemma value_no_sound:
  assumes ok: "tab_ok p w b rho t" and args: "args_known c v0 v1 t" and c: "c \<in> set straight_codes" and n: "value_no c v0 v1 t = Inr (v, t')"
  shows "1 \<le> v \<and> v \<le> vt_cur t'" (is ?pos)
    and "\<exists>rho'. tab_ok p w b rho' t' \<and> grows p w b rho t rho' t' \<and>
        (\<forall>x. node_out p w b rho c v0 v1 = Value x \<longrightarrow> rho' v = x \<and> live p w b rho' t' v \<and> (is_imm c \<longrightarrow> vt_const t' v = Some x))" (is ?snd)
    and "node_out p w b rho c v0 v1 = Leaves r \<Longrightarrow> u \<le> vt_cur t \<Longrightarrow> live p w b rho t u \<Longrightarrow> u \<noteq> v"
proof -
  have "?pos \<and> ?snd \<and> (node_out p w b rho c v0 v1 = Leaves r \<and> u \<le> vt_cur t \<and> live p w b rho t u \<longrightarrow> u \<noteq> v)"
  proof (cases "find_node c v0 v1 (vt_hash t ! vn_hash c v0 v1)")
    case None
    note f = value_no_fresh [OF ok None n]
    show ?thesis using f(1,2) value_no_fresh_sound [OF ok args c None n] by auto
  next
    case (Some v')
    note f = value_no_found [OF ok Some]
    then have v: "v' = v" "t' = t" using n by simp_all
    obtain m where m: "m \<in> nodes t" "vn_code m = c" "vn_v0 m = v0" "vn_v1 m = v1" "vn_val m = v"
      using f(2) v by blast
    have mok: "node_ok p w b rho t m" using m(1) ok by (simp add: tab_ok_def)
    have uniq: "n' = m" if "n' \<in> nodes t" "vn_val n' = v" for n'
      using that m ok unfolding tab_ok_def by metis
    have "grows p w b rho t rho t" by (simp add: grows_def)
    moreover have "rho v = x \<and> live p w b rho t v" if "node_out p w b rho c v0 v1 = Value x" for x
    proof
      show "rho v = x" using mok that m by (simp add: node_ok_def)
      show "live p w b rho t v" using that m uniq unfolding live_def by metis
    qed
    moreover have "is_imm c \<Longrightarrow> vt_const t v = Some x" if "node_out p w b rho c v0 v1 = Value x" for x
      using that mok m imm_out [OF _ c, of p w b rho v0 v1] by (simp add: node_ok_def)
    ultimately have ?snd using ok v by blast
    moreover have "1 \<le> v" "v \<le> vt_cur t'" using mok m(5) v by (auto simp: node_ok_def)
    moreover have "u \<noteq> v" if "node_out p w b rho c v0 v1 = Leaves r" "live p w b rho t u"
      using that m by (auto simp: live_def)
    ultimately show ?thesis by blast
  qed
  then show ?pos ?snd "node_out p w b rho c v0 v1 = Leaves r \<Longrightarrow> u \<le> vt_cur t \<Longrightarrow> live p w b rho t u \<Longrightarrow> u \<noteq> v" by simp_all
qed

section \<open>Each statement is simulated\<close>

definition os_ok :: "bytes \<Rightarrow> u32 \<Rightarrow> u32 \<Rightarrow> (nat \<Rightarrow> u32) \<Rightarrow> opt_st \<Rightarrow> bpf_state \<Rightarrow> bool" where
  "os_ok p w b rho os s \<longleftrightarrow> length (os_val os) = N_ATOMS \<and> length (bpf_mem s) = BPF_MEMWORDS \<and> tab_ok p w b rho (os_tab os) \<and>
     (\<forall>a < N_ATOMS. os_val os ! a \<le> vt_cur (os_tab os) \<and>
       (os_val os ! a \<noteq> 0 \<longrightarrow> reg s a = rho (os_val os ! a) \<and> live p w b rho (os_tab os) (os_val os ! a)))"

lemma os_ok_done [simp]: "os_ok p w b rho (os\<lparr>os_done := d\<rparr>) s = os_ok p w b rho os s"
  by (simp add: os_ok_def)

lemma reg_set_reg:
  "length (bpf_mem s) = BPF_MEMWORDS \<Longrightarrow> a < N_ATOMS \<Longrightarrow> a' < N_ATOMS \<Longrightarrow> reg (set_reg a v s) a' = (if a' = a then v else reg s a')"
  by (auto simp: reg_def set_reg_def)

lemma set_reg_same: "reg s a = v \<Longrightarrow> set_reg a v s = s"
  by (auto simp: reg_def set_reg_def)

lemma length_set_reg [simp]: "length (bpf_mem (set_reg a v s)) = length (bpf_mem s)"
  by (simp add: set_reg_def)

lemma set_val_ok:
  assumes "os_ok p w b rho os s" "rho v = x" "v \<le> vt_cur (os_tab os)" "live p w b rho (os_tab os) v" "a < N_ATOMS"
  shows "os_ok p w b rho (set_val a v os) (set_reg a x s)"
  using assms by (auto simp: os_ok_def set_val_def reg_set_reg nth_list_update)

text \<open>The replacement \<open>st'\<close> does what \<open>st\<close> does; of a division by the index register only when it does not end the filter.\<close>

definition simulates :: "bytes \<Rightarrow> u32 \<Rightarrow> u32 \<Rightarrow> stmt \<Rightarrow> stmt \<Rightarrow> bpf_state \<Rightarrow> bool" where
  "simulates p w b st st' s \<longleftrightarrow> (\<forall>s'. run_stmt p w b st s = Next s' \<longrightarrow> run_stmt p w b st' s = Next s') \<and>
     (\<forall>v. run_stmt p w b st s = Return v \<and> st_code st \<noteq> Some 0x3c \<longrightarrow> run_stmt p w b st' s = Return v)"

definition good_step :: "bytes \<Rightarrow> u32 \<Rightarrow> u32 \<Rightarrow> bpf_state \<Rightarrow> stmt \<Rightarrow> opt_error + (stmt \<times> opt_st) \<Rightarrow> bool" where
  "good_step p w b s st r = (case r of Inl _ \<Rightarrow> True
     | Inr (st', os') \<Rightarrow> simulates p w b st st' s \<and> (\<forall>s'. run_stmt p w b st s = Next s' \<longrightarrow> (\<exists>rho. os_ok p w b rho os' s')))"

lemma good_step_Inl [simp]: "good_step p w b s st (Inl e)"
  by (simp add: good_step_def)

lemma and_then_simps [simp]: "and_then (Inl e) f = Inl e" "and_then (Inr x) f = f x"
  by (simp_all add: and_then_def)

lemma good_stepI:
  assumes "\<And>s'. run_stmt p w b st s = Next s' \<Longrightarrow> s' = set_reg a x s"
    and "\<And>u. run_stmt p w b st s = Return u \<Longrightarrow> st_code st = Some 0x3c"
    and "run_stmt p w b st1 s = Next (set_reg a x s)"
    and "os_ok p w b rho os1 (set_reg a x s)"
  shows "good_step p w b s st (Inr (st1, os1))"
  using assms by (fastforce simp: good_step_def simulates_def)

lemma vstore_good:
  assumes ok: "os_ok p w b rho os s" and v: "rho v = x" "1 \<le> v" "v \<le> vt_cur (os_tab os)" "live p w b rho (os_tab os) v" and a: "a < N_ATOMS"
    and st: "\<And>s'. run_stmt p w b st s = Next s' \<Longrightarrow> s' = set_reg a x s"
      "\<And>u. run_stmt p w b st s = Return u \<Longrightarrow> st_code st = Some 0x3c"
    and st1: "run_stmt p w b st1 s = Next (set_reg a x s)"
  shows "good_step p w b s st (Inr (vstore alter st1 a v os))"
proof (cases "alter \<and> os_val os ! a = v")
  case True
  have "set_reg a x s = s"
    using ok v a True by (intro set_reg_same) (auto simp: os_ok_def)
  then have "good_step p w b s st (Inr (st1\<lparr>st_code := None\<rparr>, os))"
    using ok by (intro good_stepI [OF st]) (simp_all add: run_stmt_def)
  then show ?thesis using True by (simp add: vstore_def)
next
  case False
  have "good_step p w b s st (Inr (st1, set_val a v os))"
    using set_val_ok [OF ok v(1,3,4) a] by (intro good_stepI [OF st st1])
  then show ?thesis using False by (auto simp: vstore_def)
qed

lemma number_sound:
  assumes "os_ok p w b rho os s" "c \<in> set straight_codes" "args_known c v0 v1 (os_tab os)" "number c v0 v1 os = Inr (v, os1)"
  shows "os_val os1 = os_val os"
    and "node_out p w b rho c v0 v1 = Value x \<Longrightarrow>
      \<exists>rho'. os_ok p w b rho' os1 s \<and> rho' v = x \<and> 1 \<le> v \<and> v \<le> vt_cur (os_tab os1) \<and> live p w b rho' (os_tab os1) v \<and>
        vt_cur (os_tab os) \<le> vt_cur (os_tab os1) \<and>
        (\<forall>u \<le> vt_cur (os_tab os). rho' u = rho u \<and> const_of os1 u = const_of os u) \<and> (is_imm c \<longrightarrow> const_of os1 v = Some x)"
    and "node_out p w b rho c v0 v1 = Leaves r \<Longrightarrow> a < N_ATOMS \<Longrightarrow> os_val os ! a \<noteq> v"
proof -
  obtain t where t: "value_no c v0 v1 (os_tab os) = Inr (v, t)" "os1 = os\<lparr>os_tab := t\<rparr>"
    using assms(4) by (cases "value_no c v0 v1 (os_tab os)") (auto simp: number_def)
  have tab: "tab_ok p w b rho (os_tab os)"
    using assms(1) by (simp add: os_ok_def)
  note vs = value_no_sound [OF tab assms(3,2) t(1)]
  show "os_val os1 = os_val os" using t by simp
  show "node_out p w b rho c v0 v1 = Leaves r \<Longrightarrow> a < N_ATOMS \<Longrightarrow> os_val os ! a \<noteq> v"
    using vs(1) vs(3) [of r "os_val os ! a"] assms(1) by (cases "os_val os ! a = 0") (auto simp: os_ok_def)
  assume x: "node_out p w b rho c v0 v1 = Value x"
  from vs(2) x obtain rho' where r: "tab_ok p w b rho' t" "grows p w b rho (os_tab os) rho' t" "rho' v = x" "live p w b rho' t v"
      "is_imm c \<longrightarrow> vt_const t v = Some x" by blast
  then have "os_ok p w b rho' os1 s"
    using assms(1) t(2) by (auto simp: os_ok_def grows_def intro: order.trans)
  then show "\<exists>rho'. os_ok p w b rho' os1 s \<and> rho' v = x \<and> 1 \<le> v \<and> v \<le> vt_cur (os_tab os1) \<and> live p w b rho' (os_tab os1) v \<and>
        vt_cur (os_tab os) \<le> vt_cur (os_tab os1) \<and>
        (\<forall>u \<le> vt_cur (os_tab os). rho' u = rho u \<and> const_of os1 u = const_of os u) \<and> (is_imm c \<longrightarrow> const_of os1 v = Some x)"
    using r t(2) vs(1) by (auto simp: const_of_def grows_def)
qed

text \<open>A statement whose result gets the number of its instruction.\<close>

lemma leaves_good: "run_stmt p w b st s = t \<Longrightarrow> \<not> goes_on t \<Longrightarrow> run_stmt p w b st1 s = t \<Longrightarrow> good_step p w b s st (Inr (st1, os1))"
  by (auto simp: good_step_def simulates_def goes_on_def)

lemma number_good:
  assumes ok: "os_ok p w b rho os s" and c: "c \<in> set straight_codes" and args: "args_known c v0 v1 (os_tab os)"
    and st1: "straight st1" "st_code st1 = Some c" "a = nat (atomdef st1)" "a < N_ATOMS"
    and out: "outcome_of p w b c (st_k st1) s = node_out p w b rho c v0 v1"
    and st: "run_stmt p w b st s = run_stmt p w b st1 s"
  shows "good_step p w b s st (and_then (number c v0 v1 os) (\<lambda>(v, os). Inr (vstore alter st1 a v os)))"
    and "good_step p w b s st (and_then (number c v0 v1 os) (\<lambda>(v, os). Inr (st1, set_val a v os)))"
proof -
  have run: "run_stmt p w b st1 s = finish a s (node_out p w b rho c v0 v1)"
    using run_stmt_outcome [OF st1(1,2), of p w b s] st1(3) out by simp
  have both: "good_step p w b s st (and_then (number c v0 v1 os) (\<lambda>(v, os). Inr (vstore alter st1 a v os))) \<and>
      good_step p w b s st (and_then (number c v0 v1 os) (\<lambda>(v, os). Inr (st1, set_val a v os)))"
  proof (cases "number c v0 v1 os")
    case (Inr r)
    then obtain v os1 where n: "number c v0 v1 os = Inr (v, os1)" by (cases r) auto
    note ns = number_sound [OF ok c args n]
    show ?thesis
    proof (cases "node_out p w b rho c v0 v1")
      case (Value x)
      from ns(2) [OF Value] obtain rho' where r: "os_ok p w b rho' os1 s" "rho' v = x" "1 \<le> v" "v \<le> vt_cur (os_tab os1)" "live p w b rho' (os_tab os1) v" by blast
      have s1: "run_stmt p w b st1 s = Next (set_reg a x s)" using run Value by simp
      have "good_step p w b s st (Inr (vstore alter st1 a v os1))"
        using st s1 by (intro vstore_good [OF r st1(4) _ _ s1]) simp_all
      moreover have "good_step p w b s st (Inr (st1, set_val a v os1))"
        using st s1 set_val_ok [OF r(1,2,4,5) st1(4)] by (intro good_stepI [OF _ _ s1]) simp_all
      ultimately show ?thesis using n by simp
    next
      case (Leaves t)
      have t: "run_stmt p w b st1 s = t" "\<not> goes_on t" "run_stmt p w b st s = t"
        using run Leaves out st outcome_leaves [of p w b c "st_k st1" s t] by simp_all
      have "os_val os1 ! a \<noteq> v"
        using ns(1) ns(3) [OF Leaves st1(4)] by simp
      then have "vstore alter st1 a v os1 = (st1, set_val a v os1)" by (simp add: vstore_def)
      then show ?thesis using n leaves_good [OF t(3,2,1)] by simp
    qed
  qed simp
  then show "good_step p w b s st (and_then (number c v0 v1 os) (\<lambda>(v, os). Inr (vstore alter st1 a v os)))"
    "good_step p w b s st (and_then (number c v0 v1 os) (\<lambda>(v, os). Inr (st1, set_val a v os)))" by simp_all
qed

lemma const_node: "node_out p w b rho 0 (sint k) 0 = Value k" "args_known 0 (sint k) 0 t" "0 \<in> set straight_codes" "is_imm 0"
  by (simp_all add: node_out_def is_load_def BPF_CLASS_def outcome_of_def args_known_def straight_codes_def is_imm_def BPF_MODE_def)

lemma number_const_eq: "number_const k os = number 0 (sint k) 0 os"
  by (simp add: number_const_def number_def const_no_def)

lemma set_acc_const_good:
  assumes ok: "os_ok p w b rho os s" and st1: "st_code st1 = Some 0"
    and st: "\<And>s'. run_stmt p w b st s = Next s' \<Longrightarrow> s' = set_reg A_ATOM (st_k st1) s"
      "\<And>u. run_stmt p w b st s = Return u \<Longrightarrow> st_code st = Some 0x3c"
  shows "good_step p w b s st (set_acc_const st1 os)"
    and "good_step p w b s st (and_then (number_const (st_k st1) os) (\<lambda>(v, os). Inr (vstore alter st1 A_ATOM v os)))"
proof -
  have "straight st1" using st1 by (simp add: straight_def straight_codes_def)
  then have s1: "run_stmt p w b st1 s = Next (set_reg A_ATOM (st_k st1) s)"
    using run_stmt_outcome [of st1 0 p w b s] st1 by (simp add: atomdef_def BPF_CLASS_def outcome_of_def)
  have both: "good_step p w b s st (set_acc_const st1 os) \<and>
      good_step p w b s st (and_then (number_const (st_k st1) os) (\<lambda>(v, os). Inr (vstore alter st1 A_ATOM v os)))"
  proof (cases "number 0 (sint (st_k st1)) 0 os")
    case (Inr r)
    then obtain v os1 where n: "number 0 (sint (st_k st1)) 0 os = Inr (v, os1)" by (cases r) auto
    from number_sound(2) [OF ok const_node(3) const_node(2) n const_node(1)]
    obtain rho' where r: "os_ok p w b rho' os1 s" "rho' v = st_k st1" "1 \<le> v" "v \<le> vt_cur (os_tab os1)"
      "live p w b rho' (os_tab os1) v" by blast
    have "good_step p w b s st (Inr (vstore alter st1 A_ATOM v os1))"
      by (rule vstore_good [OF r _ st s1]) simp_all
    moreover have "good_step p w b s st (Inr (st1, set_val A_ATOM v os1))"
      using set_val_ok [OF r(1,2,4,5), of A_ATOM] by (intro good_stepI [OF st s1]) simp_all
    ultimately show ?thesis using n by (simp add: set_acc_const_def number_const_eq)
  qed (simp add: set_acc_const_def number_const_eq)
  then show "good_step p w b s st (set_acc_const st1 os)"
    "good_step p w b s st (and_then (number_const (st_k st1) os) (\<lambda>(v, os). Inr (vstore alter st1 A_ATOM v os)))" by simp_all
qed

text \<open>The registers that a statement uses have known values.\<close>

definition uses_known :: "stmt \<Rightarrow> nat list \<Rightarrow> bool" where
  "uses_known st val \<longleftrightarrow> (let u = atomuse st in
     (if u = int N_ATOMS then val ! A_ATOM \<noteq> 0 \<and> val ! X_ATOM \<noteq> 0 else 0 \<le> u \<and> u < int N_ATOMS \<longrightarrow> val ! nat u \<noteq> 0))"

lemma os_ok_reg: "os_ok p w b rho os s \<Longrightarrow> a < N_ATOMS \<Longrightarrow> os_val os ! a \<noteq> 0 \<Longrightarrow> reg s a = rho (os_val os ! a)"
  "os_ok p w b rho os s \<Longrightarrow> a < N_ATOMS \<Longrightarrow> os_val os ! a \<le> vt_cur (os_tab os)"
  "os_ok p w b rho os s \<Longrightarrow> a < N_ATOMS \<Longrightarrow> os_val os ! a \<noteq> 0 \<Longrightarrow> live p w b rho (os_tab os) (os_val os ! a)"
  by (simp_all add: os_ok_def)

lemma os_ok_const: "os_ok p w b rho os s \<Longrightarrow> const_of os v = Some x \<Longrightarrow> rho v = x"
  using tab_ok_const [of p w b rho "os_tab os" v x] by (simp add: os_ok_def const_of_def)

lemma reg_AX: "reg s A_ATOM = bpf_A s" "reg s X_ATOM = bpf_X s"
  by (simp_all add: reg_def)

lemmas code_defs = BPF_CLASS_def BPF_MODE_def BPF_SIZE_def BPF_SRC_def BPF_OP_def BPF_MISCOP_def BPF_RVAL_def

lemma node_out_load:
  "c = 0x20 \<or> c = 0x28 \<or> c = 0x30 \<Longrightarrow> node_out p w b rho c (sint k) 0 = load_out p b (BPF_SIZE c) k"
  by (elim disjE) (simp_all add: node_out_def is_load_def outcome_of_def BPF_CLASS_def)

lemma opt_load_good:
  assumes ok: "os_ok p w b rho os s" and st: "straight st" "st_code st = Some c" and known: "uses_known st (os_val os)"
    and r: "opt_load alter st c os = Some r"
  shows "good_step p w b s st r"
proof -
  have num: "good_step p w b s st (and_then (number c (sint (st_k st)) v1 os) (\<lambda>(v, os). Inr (vstore alter st a v os)))"
    if "c \<in> set straight_codes" "args_known c (sint (st_k st)) v1 (os_tab os)" "a = nat (atomdef st)" "a < N_ATOMS"
      "outcome_of p w b c (st_k st) s = node_out p w b rho c (sint (st_k st)) v1" for v1 a
    using number_good(1) [OF ok that(1,2) st that(3-5) refl] .
  consider (abs) "c = 0x20 \<or> c = 0x28 \<or> c = 0x30" | (ind) "c = 0x40 \<or> c = 0x48 \<or> c = 0x50" | (len) "c = 0x80"
    | (imm) "c = 0" | (ximm) "c = 1" | (msh) "c = 0xb1"
    using r by (auto simp: opt_load_def split: if_splits)
  then show ?thesis
  proof cases
    case abs
    then have c: "c \<in> set straight_codes" "is_load c" "BPF_CLASS c = BPF_LD" by (auto simp: straight_codes_def is_load_def code_defs)
    have "r = and_then (number c (sint (st_k st)) 0 os) (\<lambda>(v, os). Inr (vstore alter st A_ATOM v os))"
      using r abs by (auto simp: opt_load_def)
    then show ?thesis
      using abs c st(2) num [of 0 A_ATOM] by (auto simp: args_known_def atomdef_def node_out_def outcome_of_def)
  next
    case len
    then have c: "c \<in> set straight_codes" "is_load c" "BPF_CLASS c = BPF_LD" by (auto simp: straight_codes_def is_load_def code_defs)
    have e: "r = and_then (number c 0 0 os) (\<lambda>(v, os). Inr (vstore alter st A_ATOM v os))"
      using r len by (auto simp: opt_load_def)
    show ?thesis
      unfolding e using len c st(2)
      by (intro number_good(1) [OF ok _ _ st]) (auto simp: args_known_def atomdef_def node_out_def outcome_of_def)
  next
    case imm
    have "r = and_then (number c (sint (st_k st)) 0 os) (\<lambda>(v, os). Inr (vstore alter st A_ATOM v os))"
      using r imm by (auto simp: opt_load_def number_const_eq)
    then show ?thesis
      using imm st(2) num [of 0 A_ATOM] const_node(1) [of p w b rho "st_k st"] const_node(2-)
      by (auto simp: atomdef_def outcome_of_def BPF_CLASS_def)
  next
    case ximm
    have e: "r = and_then (number 0 (sint (st_k st)) 0 os) (\<lambda>(v, os). Inr (vstore alter st X_ATOM v os))"
      using r ximm by (auto simp: opt_load_def number_const_eq)
    have s1: "run_stmt p w b st s = Next (set_reg X_ATOM (st_k st) s)"
      using run_stmt_outcome [OF st, of p w b s] st(2) ximm by (simp add: atomdef_def BPF_CLASS_def outcome_of_def)
    show ?thesis
    proof (cases "number 0 (sint (st_k st)) 0 os")
      case (Inr q)
      then obtain v os1 where n: "number 0 (sint (st_k st)) 0 os = Inr (v, os1)" by (cases q) auto
      from number_sound(2) [OF ok const_node(3) const_node(2) n const_node(1)]
      obtain rho' where q: "os_ok p w b rho' os1 s" "rho' v = st_k st" "1 \<le> v" "v \<le> vt_cur (os_tab os1)"
          "live p w b rho' (os_tab os1) v" by blast
      have "good_step p w b s st (Inr (vstore alter st X_ATOM v os1))"
        using s1 by (intro vstore_good [OF q _ _ _ s1]) simp_all
      then show ?thesis using n e by simp
    qed (simp add: e)
  next
    case msh
    then have c: "c \<in> set straight_codes" "is_load c" "BPF_CLASS c = BPF_LDX" by (auto simp: straight_codes_def is_load_def code_defs)
    have "r = and_then (number c (sint (st_k st)) 0 os) (\<lambda>(v, os). Inr (vstore alter st X_ATOM v os))"
      using r msh by (auto simp: opt_load_def)
    then show ?thesis
      using msh c st(2) num [of 0 X_ATOM] by (auto simp: args_known_def atomdef_def node_out_def outcome_of_def)
  next
    case ind
    let ?v = "os_val os ! X_ATOM"
    have c: "c \<in> set straight_codes" "is_load c" "BPF_CLASS c = BPF_LD" "BPF_MODE c = BPF_IND" using ind
      by (auto simp: straight_codes_def is_load_def code_defs)
    have "?v \<noteq> 0"
      using known st(2) c by (auto simp: uses_known_def atomuse_def)
    then have x: "bpf_X s = rho ?v" and le: "?v \<le> vt_cur (os_tab os)"
      using os_ok_reg [OF ok, of X_ATOM] by (auto simp: reg_AX)
    show ?thesis
    proof (cases "if alter then const_of os ?v else None")
      case None
      then have "r = and_then (number c (sint (st_k st)) (int ?v) os) (\<lambda>(v, os). Inr (vstore alter st A_ATOM v os))"
        using r ind by (auto simp: opt_load_def Let_def)
      then show ?thesis
        using ind c st(2) x le num [of "int ?v" A_ATOM] by (auto simp: args_known_def atomdef_def node_out_def outcome_of_def)
    next
      case (Some y)
      then have y: "bpf_X s = y" using os_ok_const [OF ok, of ?v y] x by (auto split: if_splits)
      let ?c = "BPF_LD OR BPF_ABS OR BPF_SIZE c"
      let ?st = "st\<lparr>st_code := Some ?c, st_k := st_k st + y\<rparr>"
      have c1: "?c \<in> set straight_codes" "is_load ?c" "BPF_CLASS ?c = BPF_LD" "?c = 0x20 \<or> ?c = 0x28 \<or> ?c = 0x30" "BPF_SIZE ?c = BPF_SIZE c"
        using ind by (auto simp: straight_codes_def is_load_def code_defs)
      have e: "r = and_then (number ?c (sint (st_k st + y)) 0 (os\<lparr>os_done := False\<rparr>)) (\<lambda>(v, os). Inr (vstore alter ?st A_ATOM v os))"
        using r ind Some by (auto simp: opt_load_def Let_def)
      have st1: "straight ?st" using c1(1) by (simp add: straight_def)
      have out: "outcome_of p w b ?c (st_k st + y) s = load_out p b (BPF_SIZE c) (st_k st + y)"
        using c1(4,5) by (auto simp: outcome_of_def)
      have "run_stmt p w b st s = run_stmt p w b ?st s"
      proof -
        have "outcome_of p w b c (st_k st) s = load_out p b (BPF_SIZE c) (st_k st + y)"
          using ind by (elim disjE) (simp_all add: outcome_of_def y add.commute [of y "st_k st"])
        moreover have "atomdef ?st = int A_ATOM" "atomdef st = int A_ATOM"
          using c(3) c1(3) st(2) by (simp_all add: atomdef_def)
        ultimately show ?thesis
          using run_stmt_outcome [OF st, of p w b s] run_stmt_outcome [OF st1, of ?c p w b s] out by simp
      qed
      then show ?thesis
        unfolding e using ok c1 out
        by (intro number_good(1) [where rho = rho, OF _ c1(1) _ st1]) (simp_all add: args_known_def atomdef_def node_out_load)
    qed
  qed
qed

definition alu_k_codes :: "u16 list" where "alu_k_codes = map (\<lambda>op. BPF_ALU OR op OR BPF_K) alu_ops"
definition alu_x_codes :: "u16 list" where "alu_x_codes = map (\<lambda>op. BPF_ALU OR op OR BPF_X) alu_ops"

lemma alu_codes: "alu_k_codes = [0x04, 0x14, 0x24, 0x34, 0x54, 0x44, 0x64, 0x74]" "alu_x_codes = [0x0c, 0x1c, 0x2c, 0x3c, 0x5c, 0x4c, 0x6c, 0x7c]"
  by (simp_all add: alu_k_codes_def alu_x_codes_def)

lemma alu_k_all:
  "c \<in> set alu_k_codes \<Longrightarrow> c \<in> set straight_codes \<and> BPF_SRC c = BPF_K \<and> BPF_CLASS c = BPF_ALU \<and> BPF_OP c \<in> set alu_ops \<and> c \<noteq> 0x84"
  unfolding alu_codes
  by (simp only: list.set insert_iff empty_iff simp_thms) (elim disjE; simp add: straight_codes_def code_defs)

lemma alu_x_all:
  "c \<in> set alu_x_codes \<Longrightarrow> c \<in> set straight_codes \<and> BPF_SRC c = BPF_X \<and> BPF_CLASS c = BPF_ALU \<and> BPF_OP c \<in> set alu_ops \<and> c \<noteq> 0x84
     \<and> (BPF_ALU OR BPF_K OR BPF_OP c) \<in> set alu_k_codes \<and> BPF_OP (BPF_ALU OR BPF_K OR BPF_OP c) = BPF_OP c \<and> (c = 0x3c \<longleftrightarrow> BPF_OP c = BPF_DIV)"
  unfolding alu_codes
  by (simp only: list.set insert_iff empty_iff simp_thms) (elim disjE; simp add: straight_codes_def code_defs)

lemma outcome_alu:
  assumes "BPF_CLASS c = BPF_ALU" "c \<noteq> 0x84"
  shows "outcome_of p w b c k s = (if BPF_SRC c = BPF_X then alu_out (BPF_OP c) (bpf_A s) (bpf_X s)
      else if BPF_OP c = BPF_DIV \<and> k = 0 then Leaves (Undefined Div_by_zero) else alu_out (BPF_OP c) (bpf_A s) k)"
proof -
  have "d \<noteq> c" if "BPF_CLASS d \<noteq> BPF_ALU" for d using that assms(1) by blast
  from this [of "0x20"] this [of "0x28"] this [of "0x30"] this [of "0x40"] this [of "0x48"] this [of "0x50"] this [of "0x80"]
    this [of 0] this [of 1] this [of "0xb1"]
  show ?thesis using assms by (simp add: outcome_of_def) (simp add: BPF_CLASS_def)
qed

lemma alu_k_facts:
  assumes "c \<in> set alu_k_codes"
  shows "c \<in> set straight_codes" "\<not> is_load c" "BPF_SRC c = BPF_K" "BPF_CLASS c = BPF_ALU" "BPF_OP c \<in> set alu_ops"
    "outcome_of p w b c k s = (if BPF_OP c = BPF_DIV \<and> k = 0 then Leaves (Undefined Div_by_zero) else alu_out (BPF_OP c) (bpf_A s) k)"
  using alu_k_all [OF assms] outcome_alu [of c p w b k s] by (simp_all add: is_load_def)

lemma alu_x_facts:
  assumes "c \<in> set alu_x_codes"
  shows "c \<in> set straight_codes" "\<not> is_load c" "BPF_SRC c = BPF_X" "BPF_CLASS c = BPF_ALU" "BPF_OP c \<in> set alu_ops"
    "outcome_of p w b c k s = alu_out (BPF_OP c) (bpf_A s) (bpf_X s)"
    "(BPF_ALU OR BPF_K OR BPF_OP c) \<in> set alu_k_codes" "BPF_OP (BPF_ALU OR BPF_K OR BPF_OP c) = BPF_OP c"
    "c = 0x3c \<longleftrightarrow> BPF_OP c = BPF_DIV"
  using alu_x_all [OF assms] outcome_alu [of c p w b k s] by (simp_all add: is_load_def)

lemma fold_value_out: "BPF_OP c \<in> set alu_ops \<Longrightarrow> fold_value c a x = Inr v \<Longrightarrow> alu_out (BPF_OP c) a x = Value v \<and> (BPF_OP c = BPF_DIV \<longrightarrow> x \<noteq> 0)"
  by (auto simp: fold_value_def alu_out_def Let_def split: if_splits)

lemma alu_out_return: "alu_out op a x = Leaves (Return v) \<Longrightarrow> op = BPF_DIV \<and> x = 0"
  by (auto simp: alu_out_def split: if_splits)

lemma run_alu:
  assumes "straight st" "st_code st = Some c" "BPF_CLASS c = BPF_ALU"
  shows "run_stmt p w b st s = finish A_ATOM s (outcome_of p w b c (st_k st) s)"
  using run_stmt_outcome [OF assms(1,2), of p w b s] assms(2,3) by (simp add: atomdef_def)

lemma known_AX:
  assumes "uses_known st (os_val os)" "st_code st = Some c" "BPF_CLASS c = BPF_ALU" "os_ok p w b rho os s"
  shows "bpf_A s = rho (os_val os ! A_ATOM)" "BPF_SRC c = BPF_X \<Longrightarrow> bpf_X s = rho (os_val os ! X_ATOM)"
proof -
  have "os_val os ! A_ATOM \<noteq> 0" "BPF_SRC c = BPF_X \<Longrightarrow> os_val os ! X_ATOM \<noteq> 0"
    using assms by (auto simp: uses_known_def atomuse_def split: if_splits)
  then show "bpf_A s = rho (os_val os ! A_ATOM)" "BPF_SRC c = BPF_X \<Longrightarrow> bpf_X s = rho (os_val os ! X_ATOM)"
    using os_ok_reg(1) [OF assms(4), of A_ATOM] os_ok_reg(1) [OF assms(4), of X_ATOM] by (simp_all add: reg_AX)
qed

lemma opt_neg_good:
  assumes ok: "os_ok p w b rho os s" and st: "straight st" "st_code st = Some 0x84" and known: "uses_known st (os_val os)"
  shows "good_step p w b s st (opt_neg alter st 0x84 os)"
proof -
  let ?v = "os_val os ! A_ATOM"
  have c: "BPF_CLASS 0x84 = BPF_ALU" by (simp add: BPF_CLASS_def)
  have a: "bpf_A s = rho ?v" and le: "?v \<le> vt_cur (os_tab os)"
    using known_AX(1) [OF known st(2) c ok] os_ok_reg(2) [OF ok, of A_ATOM] by simp_all
  have s: "run_stmt p w b st s = Next (set_reg A_ATOM (- bpf_A s) s)"
    using run_alu [OF st c, of p w b s] by (simp add: outcome_of_def)
  show ?thesis
  proof (cases "if alter then const_of os ?v else None")
    case (Some x)
    then have "rho ?v = x" using os_ok_const [OF ok] by (auto split: if_splits)
    then show ?thesis
      using Some s a set_acc_const_good(1) [OF ok, of "st\<lparr>st_code := Some 0, st_k := - x\<rparr>" st] by (simp add: opt_neg_def Let_def)
  next
    case None
    have "outcome_of p w b 0x84 (st_k st) s = node_out p w b rho 0x84 (int ?v) 0"
      by (simp add: outcome_of_def node_out_def is_load_def BPF_CLASS_def a)
    then have "good_step p w b s st (and_then (number 0x84 (int ?v) 0 os) (\<lambda>(v, os). Inr (st, set_val A_ATOM v os)))"
      using le st by (intro number_good(2) [OF ok]) (simp_all add: straight_codes_def args_known_def is_load_def atomdef_def BPF_CLASS_def)
    then show ?thesis using None by (simp add: opt_neg_def)
  qed
qed

lemma number_k_good:
  assumes ok: "os_ok p w b rho os s" and a: "bpf_A s = rho (os_val os ! A_ATOM)" and c: "c \<in> set alu_k_codes"
    and st1: "straight st1" "st_code st1 = Some c" and st: "run_stmt p w b st s = run_stmt p w b st1 s"
  shows "good_step p w b s st (number_k st1 c os)"
proof (cases "number_const (st_k st1) os")
  case (Inr r)
  then obtain vk os1 where r: "number_const (st_k st1) os = Inr (vk, os1)" by (cases r) auto
  then have n: "number 0 (sint (st_k st1)) 0 os = Inr (vk, os1)" by (simp add: number_const_eq)
  from number_sound(1) [OF ok const_node(3) const_node(2) n] have val: "os_val os1 = os_val os" .
  from number_sound(2) [OF ok const_node(3) const_node(2) n const_node(1)]
  obtain rho' where q: "os_ok p w b rho' os1 s" "rho' vk = st_k st1" "vk \<le> vt_cur (os_tab os1)"
    "\<forall>u \<le> vt_cur (os_tab os). rho' u = rho u" by blast
  let ?v = "os_val os ! A_ATOM"
  have le: "?v \<le> vt_cur (os_tab os)" "?v \<le> vt_cur (os_tab os1)"
    using os_ok_reg(2) [OF ok, of A_ATOM] os_ok_reg(2) [OF q(1), of A_ATOM] val by simp_all
  have "outcome_of p w b c (st_k st1) s = node_out p w b rho' c (int ?v) (int vk)"
    using alu_k_facts [OF c] a q(2,4) le by (simp add: node_out_def)
  then have "good_step p w b s st (and_then (number c (int ?v) (int vk) os1) (\<lambda>(v, os). Inr (st1, set_val A_ATOM v os)))"
    using alu_k_facts [OF c] le st1 q(3) st by (intro number_good(2) [OF q(1)]) (simp_all add: args_known_def atomdef_def)
  then show ?thesis using r val by (simp add: number_k_def)
qed (simp add: number_k_def)

lemma alu_zero:
  "op = BPF_ADD \<or> op = BPF_LSH \<or> op = BPF_RSH \<or> op = BPF_OR \<Longrightarrow> alu_out op a 0 = Value a"
  "op = BPF_MUL \<or> op = BPF_AND \<Longrightarrow> alu_out op a 0 = Value 0"
  by (auto simp: alu_out_def)

lemma alu_of_zero:
  "op = BPF_ADD \<or> op = BPF_OR \<Longrightarrow> alu_out op 0 x = Value x"
  "op \<in> set [BPF_MUL, BPF_DIV, BPF_AND, BPF_LSH, BPF_RSH] \<Longrightarrow> alu_out op 0 x = Value y \<Longrightarrow> y = 0"
  by (auto simp: alu_out_def split: if_splits)

text \<open>A folded statement, whose result is a constant.\<close>

lemma fold_good:
  assumes ok: "os_ok p w b rho os s" and op: "BPF_OP c \<in> set alu_ops" and st: "st_code st = Some c" "straight st" "BPF_CLASS c = BPF_ALU"
    and out: "outcome_of p w b c (st_k st) s = alu_out (BPF_OP c) a x \<or> BPF_OP c = BPF_DIV \<and> x = 0"
    and v: "const_val os v0 = a" "const_val os v1 = x"
  shows "good_step p w b s st (and_then (fold_op st1 c v0 v1 os) (\<lambda>(s, os). set_acc_const s os))"
proof (cases "fold_value c a x")
  case (Inr y)
  let ?st = "st1\<lparr>st_code := Some 0, st_k := y\<rparr>"
  have "outcome_of p w b c (st_k st) s = Value y"
    using fold_value_out [OF op Inr] out by auto
  then have s: "run_stmt p w b st s = Next (set_reg A_ATOM y s)"
    using run_alu [OF st(2,1,3), of p w b s] by simp
  have "good_step p w b s st (set_acc_const ?st (os\<lparr>os_done := False\<rparr>))"
    by (rule set_acc_const_good(1)) (use ok s in simp_all)
  then show ?thesis using Inr v by (simp add: fold_op_def)
qed (use v in \<open>simp add: fold_op_def\<close>)

lemma opt_alu_k_good:
  assumes ok: "os_ok p w b rho os s" and st: "straight st" "st_code st = Some c" and known: "uses_known st (os_val os)"
    and c: "c \<in> set alu_k_codes"
  shows "good_step p w b s st (opt_alu_k alter st c os)"
proof -
  let ?v = "os_val os ! A_ATOM"
  note cf = alu_k_facts [OF c]
  have a: "bpf_A s = rho ?v" and le: "?v \<le> vt_cur (os_tab os)"
    using known_AX(1) [OF known st(2) cf(4) ok] os_ok_reg(2) [OF ok, of A_ATOM] by simp_all
  have s: "run_stmt p w b st s = finish A_ATOM s (outcome_of p w b c (st_k st) s)"
    by (rule run_alu [OF st cf(4)])
  consider (none) "alter" "st_k st = 0" "BPF_OP c \<in> set [BPF_ADD, BPF_LSH, BPF_RSH, BPF_OR]"
    | (zero) "alter" "st_k st = 0" "BPF_OP c \<in> set [BPF_MUL, BPF_AND]"
    | (rest) "\<not> (alter \<and> st_k st = 0 \<and> BPF_OP c \<in> set [BPF_ADD, BPF_LSH, BPF_RSH, BPF_OR])"
        "\<not> (alter \<and> st_k st = 0 \<and> BPF_OP c \<in> set [BPF_MUL, BPF_AND])" by blast
  then show ?thesis
  proof cases
    case none
    have "alu_out (BPF_OP c) (bpf_A s) 0 = Value (bpf_A s)"
      using none(3) by (intro alu_zero(1)) auto
    then have "run_stmt p w b st s = Next (set_reg A_ATOM (bpf_A s) s)"
      using s cf(6) [of p w b "st_k st" s] none by auto
    moreover have "set_reg A_ATOM (bpf_A s) s = s" by (simp add: set_reg_def)
    ultimately have "good_step p w b s st (Inr (st\<lparr>st_code := None\<rparr>, os))"
      using ok by (auto simp: good_step_def simulates_def run_stmt_def [of p w b "st\<lparr>st_code := None\<rparr>"])
    then show ?thesis using none by (simp add: opt_alu_k_def)
  next
    case zero
    have "alu_out (BPF_OP c) (bpf_A s) 0 = Value 0"
      using zero(3) by (intro alu_zero(2)) auto
    then have s0: "run_stmt p w b st s = Next (set_reg A_ATOM 0 s)"
      using s cf(6) [of p w b "st_k st" s] zero by auto
    have "good_step p w b s st (set_acc_const (st\<lparr>st_code := Some 0\<rparr>) os)"
      by (rule set_acc_const_good(1) [OF ok]) (use s0 zero in simp_all)
    then show ?thesis using zero by (auto simp: opt_alu_k_def)
  next
    case rest
    show ?thesis
    proof (cases "if alter then const_of os ?v else None")
      case None
      then have "opt_alu_k alter st c os = number_k st c os"
        using rest unfolding opt_alu_k_def Let_def by (simp only: if_False option.case)
      then show ?thesis using number_k_good [OF ok a c st refl] by simp
    next
      case (Some x)
      then have x: "const_of os ?v = Some x" by (auto split: if_splits)
      then have ax: "bpf_A s = x" using os_ok_const [OF ok] a by simp
      have e: "opt_alu_k alter st c os = and_then (number_const (st_k st) os) (\<lambda>(vk, os).
            and_then (fold_op st c ?v vk os) (\<lambda>(s, os). set_acc_const s os))"
        using rest Some unfolding opt_alu_k_def Let_def by (simp only: if_False option.case)
      show ?thesis
      proof (cases "number_const (st_k st) os")
        case (Inr r)
        then obtain vk os1 where r: "number_const (st_k st) os = Inr (vk, os1)" by (cases r) auto
        then have n: "number 0 (sint (st_k st)) 0 os = Inr (vk, os1)" by (simp add: number_const_eq)
        from number_sound(2) [OF ok const_node(3) const_node(2) n const_node(1)] const_node(4)
        obtain rho' where q: "os_ok p w b rho' os1 s" "const_of os1 vk = Some (st_k st)"
            "\<forall>u \<le> vt_cur (os_tab os). const_of os1 u = const_of os u" by blast
        have "good_step p w b s st (and_then (fold_op st c ?v vk os1) (\<lambda>(s, os). set_acc_const s os))"
          using cf(6) [of p w b "st_k st" s] ax x q(2,3) le
          by (intro fold_good [OF q(1) cf(5) st(2,1) cf(4)]) (auto simp: const_val_def)
        then show ?thesis using e r by simp
      qed (simp add: e)
    qed
  qed
qed

lemma alu_x_run:
  assumes "straight st" "st_code st = Some c" "c \<in> set alu_x_codes"
  shows "run_stmt p w b st s = finish A_ATOM s (alu_out (BPF_OP c) (bpf_A s) (bpf_X s))"
  using run_alu [OF assms(1,2) alu_x_facts(4) [OF assms(3)], of p w b s] alu_x_facts(6) [OF assms(3), of p w b "st_k st" s] by simp

lemma alu_x_number_good:
  assumes ok: "os_ok p w b rho os s" and st: "straight st" "st_code st = Some c" and c: "c \<in> set alu_x_codes"
    and a: "bpf_A s = rho va" "va \<le> vt_cur (os_tab os)" and x: "bpf_X s = rho vx" "vx \<le> vt_cur (os_tab os)"
  shows "good_step p w b s st (and_then (number c (int va) (int vx) os) (\<lambda>(v, os). Inr (st, set_val A_ATOM v os)))"
  using alu_x_facts [OF c] a x st
  by (intro number_good(2) [OF ok]) (simp_all add: args_known_def atomdef_def node_out_def)

text \<open>An accumulator that is 0.\<close>

lemma alu_x_zero_good:
  assumes ok: "os_ok p w b rho os s" and st: "straight st" "st_code st = Some c" and c: "c \<in> set alu_x_codes"
    and op: "BPF_OP c \<in> set [BPF_MUL, BPF_DIV, BPF_AND, BPF_LSH, BPF_RSH]" and a0: "bpf_A s = 0"
  shows "good_step p w b s st (and_then (number_const 0 os)
      (\<lambda>(v, os). Inr (vstore alter (st\<lparr>st_code := Some (BPF_LD OR BPF_IMM), st_k := 0\<rparr>) A_ATOM v os)))"
proof -
  have s: "run_stmt p w b st s = finish A_ATOM s (alu_out (BPF_OP c) 0 (bpf_X s))"
    using alu_x_run [OF st c, of p w b s] a0 by simp
  have n: "s' = set_reg A_ATOM 0 s" if "run_stmt p w b st s = Next s'" for s'
  proof (cases "alu_out (BPF_OP c) 0 (bpf_X s)")
    case (Value y)
    then show ?thesis using alu_of_zero(2) [OF op Value] s that by simp
  next
    case (Leaves t)
    then show ?thesis using alu_out_leaves [OF Leaves] s that by (cases t) (auto simp: goes_on_def)
  qed
  have u: "st_code st = Some 0x3c" if "run_stmt p w b st s = Return u" for u
  proof (cases "alu_out (BPF_OP c) 0 (bpf_X s)")
    case (Leaves t)
    then show ?thesis using alu_out_return [of "BPF_OP c" 0 "bpf_X s" u] s that alu_x_facts(9) [OF c] st(2) by simp
  qed (use s that in simp)
  show ?thesis
    using set_acc_const_good(2) [OF ok, of "st\<lparr>st_code := Some (BPF_LD OR BPF_IMM), st_k := 0\<rparr>" st alter] n u by simp
qed

lemma alu_x_copy_good:
  assumes ok: "os_ok p w b rho os s" and st: "straight st" "st_code st = Some c" and c: "c \<in> set alu_x_codes"
    and op: "BPF_OP c \<in> set [BPF_ADD, BPF_OR]" and a0: "bpf_A s = 0"
    and x: "bpf_X s = rho vx" "1 \<le> vx" "vx \<le> vt_cur (os_tab os)" "live p w b rho (os_tab os) vx"
  shows "good_step p w b s st (Inr (vstore alter (st\<lparr>st_code := Some (BPF_MISC OR BPF_TXA)\<rparr>) A_ATOM vx os))"
proof -
  let ?st = "st\<lparr>st_code := Some (BPF_MISC OR BPF_TXA)\<rparr>"
  have "alu_out (BPF_OP c) 0 (bpf_X s) = Value (bpf_X s)"
    using op by (intro alu_of_zero(1)) auto
  then have s0: "run_stmt p w b st s = Next (set_reg A_ATOM (bpf_X s) s)"
    using alu_x_run [OF st c, of p w b s] a0 by simp
  have "straight ?st" by (simp add: straight_def straight_codes_def)
  then have s1: "run_stmt p w b ?st s = Next (set_reg A_ATOM (bpf_X s) s)"
    using run_stmt_outcome [of ?st "0x87" p w b s] by (simp add: outcome_of_def atomdef_def code_defs)
  show ?thesis
    using x s0 by (intro vstore_good [OF ok _ _ _ _ _ _ _ s1]) auto
qed

text \<open>A constant index register.\<close>

lemma alu_x_const_good:
  assumes ok: "os_ok p w b rho os s" and st: "straight st" "st_code st = Some c" and c: "c \<in> set alu_x_codes"
    and a: "bpf_A s = rho (os_val os ! A_ATOM)" and x: "bpf_X s = y"
  shows "good_step p w b s st (number_k (st\<lparr>st_code := Some (BPF_ALU OR BPF_K OR BPF_OP c), st_k := y\<rparr>)
      (BPF_ALU OR BPF_K OR BPF_OP c) (os\<lparr>os_done := False\<rparr>))"
proof -
  let ?c = "BPF_ALU OR BPF_K OR BPF_OP c"
  let ?st = "st\<lparr>st_code := Some ?c, st_k := y\<rparr>"
  note cf = alu_x_facts [OF c] and s = alu_x_run [OF st c, of p w b s]
  note kf = alu_k_facts [OF cf(7)]
  have st1: "straight ?st" using kf(1) by (simp add: straight_def)
  have s1: "run_stmt p w b ?st s = finish A_ATOM s
      (if BPF_OP c = BPF_DIV \<and> y = 0 then Leaves (Undefined Div_by_zero) else alu_out (BPF_OP c) (bpf_A s) y)"
    using run_alu [OF st1 _ kf(4), of p w b s] kf(6) [of p w b y s] cf(8) by simp
  show ?thesis
  proof (cases "BPF_OP c = BPF_DIV \<and> y = 0")
    case True
    then have "run_stmt p w b st s = Return 0" using s x by (simp add: alu_out_def)
    then show ?thesis
      using cf(9) True st(2) by (auto simp: good_step_def simulates_def split: sum.splits)
  next
    case False
    then show ?thesis
      using s s1 x ok a by (intro number_k_good [OF _ _ cf(7) st1]) auto
  qed
qed

lemma opt_alu_x_good:
  assumes ok: "os_ok p w b rho os s" and st: "straight st" "st_code st = Some c" and known: "uses_known st (os_val os)"
    and c: "c \<in> set alu_x_codes"
  shows "good_step p w b s st (opt_alu_x alter st c os)"
proof -
  let ?va = "os_val os ! A_ATOM" and ?vx = "os_val os ! X_ATOM"
  note cf = alu_x_facts [OF c]
  have a: "bpf_A s = rho ?va" and x: "bpf_X s = rho ?vx" and le: "?va \<le> vt_cur (os_tab os)" "?vx \<le> vt_cur (os_tab os)"
    using known_AX [OF known st(2) cf(4) ok] cf(3) os_ok_reg(2) [OF ok, of A_ATOM] os_ok_reg(2) [OF ok, of X_ATOM] by simp_all
  have vx0: "1 \<le> ?vx"
    using known st(2) cf(3,4) by (auto simp: uses_known_def atomuse_def split: if_splits)
  have lx: "live p w b rho (os_tab os) ?vx" using os_ok_reg(3) [OF ok, of X_ATOM] vx0 by simp
  note num = alu_x_number_good [OF ok st c a le(1) x le(2)]
  show ?thesis
  proof (cases "if alter then const_of os ?vx else None")
    case X: (Some y)
    then have y: "const_of os ?vx = Some y" by (auto split: if_splits)
    then have xy: "bpf_X s = y" using os_ok_const [OF ok] x by simp
    show ?thesis
    proof (cases "const_of os ?va")
      case (Some z)
      then have "bpf_A s = z" using os_ok_const [OF ok] a by simp
      then have "good_step p w b s st (and_then (fold_op st c ?va ?vx os) (\<lambda>(s, os). set_acc_const s os))"
        using Some y xy cf(6) [of p w b "st_k st" s]
        by (intro fold_good [OF ok cf(5) st(2,1) cf(4)]) (auto simp: const_val_def)
      then show ?thesis using Some X by (simp add: opt_alu_x_def)
    next
      case None
      then show ?thesis using X alu_x_const_good [OF ok st c a xy] by (simp add: opt_alu_x_def Let_def)
    qed
  next
    case X: None
    show ?thesis
    proof (cases "alter \<and> const_of os ?va = Some 0")
      case True
      then have a0: "bpf_A s = 0" using os_ok_const [OF ok] a by simp
      have "opt_alu_x alter st c os =
          (if BPF_OP c \<in> set [BPF_ADD, BPF_OR] then Inr (vstore alter (st\<lparr>st_code := Some (BPF_MISC OR BPF_TXA)\<rparr>) A_ATOM ?vx os)
           else if BPF_OP c \<in> set [BPF_MUL, BPF_DIV, BPF_AND, BPF_LSH, BPF_RSH] then and_then (number_const 0 os)
             (\<lambda>(v, os). Inr (vstore alter (st\<lparr>st_code := Some (BPF_LD OR BPF_IMM), st_k := 0\<rparr>) A_ATOM v os))
           else and_then (number c (int ?va) (int ?vx) os) (\<lambda>(v, os). Inr (st, set_val A_ATOM v os)))"
        using X True unfolding opt_alu_x_def Let_def by (simp only: option.case simp_thms)
      then show ?thesis
        using alu_x_copy_good [OF ok st c _ a0 x vx0 le(2) lx] alu_x_zero_good [OF ok st c _ a0] num by (simp only: split: if_split) blast
    next
      case False
      have "opt_alu_x alter st c os = and_then (number c (int ?va) (int ?vx) os) (\<lambda>(v, os). Inr (st, set_val A_ATOM v os))"
        using X False unfolding opt_alu_x_def Let_def by (auto split: option.splits)
      then show ?thesis using num by simp
    qed
  qed
qed

text \<open>A move stores the value of the register \<open>a'\<close> in \<open>a\<close>.\<close>

lemma move_good:
  assumes ok: "os_ok p w b rho os s" and a: "a < N_ATOMS" "a' < N_ATOMS" "os_val os ! a' \<noteq> 0"
    and s: "run_stmt p w b st s = Next (set_reg a (reg s a') s)" and s1: "run_stmt p w b st1 s = Next (set_reg a (reg s a') s)"
  shows "good_step p w b s st (Inr (vstore alter st1 a (os_val os ! a') os))"
  using os_ok_reg [OF ok a(2)] a s by (intro vstore_good [OF ok _ _ _ _ a(1) _ _ s1]) auto

lemma run_straight:
  assumes "straight st" "st_code st = Some c" "outcome_of p w b c (st_k st) s = Value v" "a = nat (atomdef st)"
  shows "run_stmt p w b st s = Next (set_reg a v s)"
  using run_stmt_outcome [OF assms(1,2), of p w b s] assms(3,4) by simp

lemma mem_k:
  assumes "straight st" "st_code st = Some c" "c \<in> set mem_codes"
  shows "unat (st_k st) < BPF_MEMWORDS" "sint (st_k st) = int (unat (st_k st))"
proof -
  show *: "unat (st_k st) < BPF_MEMWORDS"
    using assms unfolding straight_def mem_codes_def straight_codes_def by auto
  then show "sint (st_k st) = int (unat (st_k st))" by (intro sint_u32_nonneg) simp
qed

lemma load_mem_good:
  assumes ok: "os_ok p w b rho os s" and st: "straight st" "st_code st = Some c" and known: "uses_known st (os_val os)"
    and c: "c = 0x60 \<and> r = A_ATOM \<and> imm = 0 \<or> c = 0x61 \<and> r = X_ATOM \<and> imm = 1" and v: "v = os_val os ! unat (st_k st)"
  shows "good_step p w b s st (case (if alter then const_of os v else None) of
             Some x \<Rightarrow> Inr (vstore alter (st\<lparr>st_code := Some imm, st_k := x\<rparr>) r v (os\<lparr>os_done := False\<rparr>))
           | None \<Rightarrow> Inr (vstore alter st r v os))"
proof -
  have "c \<in> set mem_codes" using c by (auto simp: mem_codes_def)
  note k = mem_k [OF st this]
  have "BPF_CLASS c = BPF_LD \<and> r = A_ATOM \<or> BPF_CLASS c = BPF_LDX \<and> r = X_ATOM" "BPF_MODE c = BPF_MEM"
    using c by (auto simp: code_defs)
  then have r: "r = nat (atomdef st)" "r < N_ATOMS" and use: "atomuse st = int (unat (st_k st))"
    using st(2) k(2) by (auto simp: atomdef_def atomuse_def)
  define n where "n = unat (st_k st)"
  have v0: "v \<noteq> 0" using known k(1) use unfolding v n_def [symmetric] by (simp add: uses_known_def Let_def)
  have s: "run_stmt p w b st s = Next (set_reg r (reg s (unat (st_k st))) s)"
    using c by (intro run_straight [OF st _ r(1)]) (auto simp: outcome_of_def BPF_CLASS_def)
  show ?thesis
  proof (cases "if alter then const_of os v else None")
    case None
    have "unat (st_k st) < N_ATOMS" using k(1) by linarith
    then have "good_step p w b s st (Inr (vstore alter st r (os_val os ! unat (st_k st)) os))"
      using v0 r(2) v by (intro move_good [OF ok _ _ _ s s]) simp_all
    then show ?thesis using None v by simp
  next
    case (Some x)
    let ?st = "st\<lparr>st_code := Some imm, st_k := x\<rparr>"
    have kn: "unat (st_k st) < N_ATOMS" using k(1) by linarith
    have x: "rho v = x" using Some os_ok_const [OF ok, of v x] by (auto split: if_splits)
    then have rx: "reg s (unat (st_k st)) = x" using os_ok_reg(1) [OF ok kn] v v0 by simp
    have i: "imm = 0 \<and> r = A_ATOM \<or> imm = 1 \<and> r = X_ATOM" using c by auto
    then have st1: "straight ?st" "r = nat (atomdef ?st)" by (auto simp: straight_def straight_codes_def atomdef_def code_defs)
    have "outcome_of p w b imm x s = Value x"
      using i by (elim disjE conjE) (simp_all add: outcome_of_def)
    then have s1: "run_stmt p w b ?st s = Next (set_reg r x s)"
      using run_straight [OF st1(1) _ _ st1(2), of imm p w b s x] by simp
    have le: "v \<le> vt_cur (os_tab os)" "live p w b rho (os_tab os) v" using os_ok_reg(2,3) [OF ok kn] v v0 by simp_all
    have "good_step p w b s st (Inr (vstore alter ?st r v (os\<lparr>os_done := False\<rparr>)))"
      by (rule vstore_good [where rho = rho, OF _ x _ _ _ r(2) _ _ s1]) (use ok v0 le s rx in simp_all)
    then show ?thesis using Some by simp
  qed
qed

lemma opt_move_good:
  assumes ok: "os_ok p w b rho os s" and st: "straight st" "st_code st = Some c" and known: "uses_known st (os_val os)"
    and c: "c = 0x87 \<or> c = 0x07 \<or> c \<in> set mem_codes"
  shows "good_step p w b s st (opt_move alter st c os)"
proof -
  consider (txa) "c = 0x87" | (tax) "c = 0x07" | (ldm) "c = 0x60 \<or> c = 0x61" | (store) "c = 0x02 \<or> c = 0x03"
    using c by (auto simp: mem_codes_def)
  then show ?thesis
  proof cases
    case txa
    have v: "os_val os ! X_ATOM \<noteq> 0" using known st(2) txa by (auto simp: uses_known_def atomuse_def code_defs)
    have s: "run_stmt p w b st s = Next (set_reg A_ATOM (reg s X_ATOM) s)"
      using st(2) txa by (intro run_straight [OF st]) (auto simp: outcome_of_def atomdef_def code_defs reg_AX)
    show ?thesis using move_good [OF ok _ _ v s s] txa by (simp add: opt_move_def)
  next
    case tax
    have v: "os_val os ! A_ATOM \<noteq> 0" using known st(2) tax by (auto simp: uses_known_def atomuse_def code_defs)
    have s: "run_stmt p w b st s = Next (set_reg X_ATOM (reg s A_ATOM) s)"
      using st(2) tax by (intro run_straight [OF st]) (auto simp: outcome_of_def atomdef_def code_defs reg_AX)
    show ?thesis using move_good [OF ok _ _ v s s] tax by (simp add: opt_move_def)
  next
    case ldm
    then have k: "unat (st_k st) < N_ATOMS" using mem_k(1) [OF st] by (auto simp: mem_codes_def intro: less_trans)
    show ?thesis
    proof (cases "c = 0x60")
      case True
      then show ?thesis
        using load_mem_good [OF ok st known, of A_ATOM 0 _ alter] k by (simp add: opt_move_def Let_def)
    next
      case False
      then show ?thesis
        using ldm load_mem_good [OF ok st known, of X_ATOM 1 _ alter] k by (simp add: opt_move_def Let_def)
    qed
  next
    case store
    then have cm: "c \<in> set mem_codes" by (auto simp: mem_codes_def)
    note k = mem_k [OF st cm]
    let ?r = "if c = 0x02 then A_ATOM else X_ATOM"
    have "BPF_CLASS c = c" using store by (auto simp: BPF_CLASS_def)
    then have d: "unat (st_k st) = nat (atomdef st)" "atomuse st = int ?r"
      using st(2) store k(2) by (auto simp: atomdef_def atomuse_def)
    have v: "os_val os ! ?r \<noteq> 0" using known d(2) by (auto simp: uses_known_def)
    have s: "run_stmt p w b st s = Next (set_reg (unat (st_k st)) (reg s ?r) s)"
      using store by (intro run_straight [OF st _ d(1)]) (auto simp: outcome_of_def BPF_CLASS_def reg_AX)
    have kn: "unat (st_k st) < N_ATOMS" using k(1) by linarith
    have "good_step p w b s st (Inr (vstore alter st (unat (st_k st)) (os_val os ! ?r) os))"
      using v kn by (intro move_good [OF ok _ _ _ s s]) auto
    then show ?thesis using store kn by (auto simp: opt_move_def Let_def)
  qed
qed

lemma opt_stmt_good:
  assumes ok: "os_ok p w b rho os s" and st: "straight st" and known: "uses_known st (os_val os)"
  shows "good_step p w b s st (opt_stmt alter st os)"
proof (cases "st_code st")
  case None
  then show ?thesis
    using ok by (auto simp: opt_stmt_def good_step_def simulates_def run_stmt_def)
next
  case (Some c)
  show ?thesis
  proof (cases "opt_load alter st c os")
    case load: (Some r)
    then show ?thesis using opt_load_good [OF ok st Some known load] Some by (simp add: opt_stmt_def)
  next
    case load: None
    have e: "opt_stmt alter st os = (if c = 0x84 then opt_neg alter st c os
        else if c \<in> set alu_k_codes then opt_alu_k alter st c os
        else if c \<in> set alu_x_codes then opt_alu_x alter st c os else opt_move alter st c os)"
      using Some load by (simp add: opt_stmt_def alu_codes)
    have "c = 0x84 \<or> c \<in> set alu_k_codes \<or> c \<in> set alu_x_codes \<or> c = 0x87 \<or> c = 0x07 \<or> c \<in> set mem_codes"
      using load st Some unfolding straight_def straight_codes_def alu_codes by (auto simp: opt_load_def Let_def split: if_splits option.splits)
    then show ?thesis
      using opt_neg_good [OF ok st] opt_alu_k_good [OF ok st Some known] opt_alu_x_good [OF ok st Some known]
        opt_move_good [OF ok st Some known] known Some unfolding e by auto
  qed
qed

section \<open>Which registers are known after a statement\<close>

definition table_pos :: "vtable \<Rightarrow> bool" where
  "table_pos t \<longleftrightarrow> length (vt_hash t) = 213 \<and> (\<forall>n \<in> nodes t. 1 \<le> vn_val n)"

text \<open>
  Of a step on \<open>os\<close>: values that were known stay so, the register \<open>d\<close> becomes known, and at most \<open>n\<close> numbers are new.
\<close>

definition knows :: "opt_st \<Rightarrow> int \<Rightarrow> nat \<Rightarrow> opt_error + ('a \<times> opt_st) \<Rightarrow> bool" where
  "knows os d n r = (case r of
       Inl e \<Rightarrow> e = Table_full \<longrightarrow> vt_max (os_tab os) \<le> vt_cur (os_tab os) + n
     | Inr (_, os') \<Rightarrow> length (os_val os') = length (os_val os) \<and> table_pos (os_tab os') \<and> vt_max (os_tab os') = vt_max (os_tab os) \<and>
         vt_cur (os_tab os') \<le> vt_cur (os_tab os) + n \<and>
         (\<forall>a < N_ATOMS. os_val os ! a \<noteq> 0 \<or> int a = d \<longrightarrow> os_val os' ! a \<noteq> 0))"

lemma value_no_pos:
  assumes "table_pos t" and "value_no c v0 v1 t = Inr (v, t')"
  shows "table_pos t' \<and> 1 \<le> v \<and> vt_cur t' \<le> vt_cur t + 1 \<and> vt_max t' = vt_max t"
proof (cases "find_node c v0 v1 (vt_hash t ! vn_hash c v0 v1)")
  case (Some u)
  have "vt_hash t ! vn_hash c v0 v1 \<in> set (vt_hash t)"
    using assms(1) by (simp add: table_pos_def vn_hash_less)
  then show ?thesis
    using find_node_mem [OF Some] assms Some by (auto simp: value_no_def table_pos_def nodes_def)
next
  case None
  have h: "vn_hash c v0 v1 < length (vt_hash t)"
    using assms(1) by (simp add: table_pos_def vn_hash_less)
  have "nodes t' = insert \<lparr>vn_code = c, vn_v0 = v0, vn_v1 = v1, vn_val = vt_cur t + 1\<rparr> (nodes t)"
    using assms(2) None by (intro nodes_insert [OF h]) (auto simp: value_no_def Let_def split: if_splits)
  then show ?thesis
    using assms None by (auto simp: value_no_def table_pos_def Let_def split: if_splits)
qed

lemma number_pos:
  assumes "table_pos (os_tab os)"
  shows "case number c v0 v1 os of Inl e \<Rightarrow> e = Table_full \<and> vt_max (os_tab os) \<le> vt_cur (os_tab os) + 1
     | Inr (v, os1) \<Rightarrow> os_val os1 = os_val os \<and> table_pos (os_tab os1) \<and> 1 \<le> v \<and> vt_cur (os_tab os1) \<le> vt_cur (os_tab os) + 1
         \<and> vt_max (os_tab os1) = vt_max (os_tab os)"
proof (cases "value_no c v0 v1 (os_tab os)")
  case (Inl e)
  then show ?thesis
    by (auto simp: number_def value_no_def Let_def split: option.splits if_splits)
next
  case (Inr r)
  then show ?thesis
    using value_no_pos [OF assms, of c v0 v1] by (cases r) (auto simp: number_def)
qed

lemma knows_number:
  assumes "table_pos (os_tab os)" and "\<And>v os1. os_val os1 = os_val os \<Longrightarrow> table_pos (os_tab os1) \<Longrightarrow> 1 \<le> v \<Longrightarrow> knows os1 d n (f (v, os1))"
  shows "knows os d (Suc n) (and_then (number c v0 v1 os) f)"
proof (cases "number c v0 v1 os")
  case (Inl e)
  then show ?thesis using number_pos [OF assms(1), of c v0 v1] by (simp add: knows_def)
next
  case (Inr r)
  obtain v os1 where r: "r = (v, os1)" by (cases r)
  have p: "os_val os1 = os_val os" "table_pos (os_tab os1)" "1 \<le> v" "vt_cur (os_tab os1) \<le> vt_cur (os_tab os) + 1"
      "vt_max (os_tab os1) = vt_max (os_tab os)"
    using number_pos [OF assms(1), of c v0 v1] Inr r by simp_all
  then show ?thesis
    using assms(2) [OF p(1-3)] Inr r by (auto simp: knows_def split: sum.splits)
qed

lemma knows_mono: "knows os d n r \<Longrightarrow> n \<le> m \<Longrightarrow> knows os d m r"
  by (auto simp: knows_def split: sum.splits)

lemma knows_set: "table_pos (os_tab os) \<Longrightarrow> length (os_val os) = N_ATOMS \<Longrightarrow> 1 \<le> v \<Longrightarrow> d = int a \<Longrightarrow> a < N_ATOMS \<Longrightarrow> knows os d n (Inr (st, set_val a v os))"
  by (auto simp: knows_def set_val_def nth_list_update)

lemma knows_same: "table_pos (os_tab os) \<Longrightarrow> d < 0 \<or> os_val os ! nat d \<noteq> 0 \<Longrightarrow> knows os d n (Inr (st, os))"
  by (auto simp: knows_def)

lemma knows_vstore: "table_pos (os_tab os) \<Longrightarrow> length (os_val os) = N_ATOMS \<Longrightarrow> 1 \<le> v \<Longrightarrow> d = int a \<Longrightarrow> a < N_ATOMS \<Longrightarrow> knows os d n (Inr (vstore alter st a v os))"
  by (auto simp: vstore_def intro: knows_set knows_same)

lemma knows_done [simp]: "knows (os\<lparr>os_done := b\<rparr>) d n r = knows os d n r"
  by (cases r) (simp_all add: knows_def)

lemma knows_set_acc: "table_pos (os_tab os) \<Longrightarrow> length (os_val os) = N_ATOMS \<Longrightarrow> knows os (int A_ATOM) 1 (set_acc_const st os)"
  unfolding set_acc_const_def number_const_eq One_nat_def by (intro knows_number) (auto intro!: knows_set)

lemma knows_number_k: "table_pos (os_tab os) \<Longrightarrow> length (os_val os) = N_ATOMS \<Longrightarrow> knows os (int A_ATOM) 2 (number_k st c os)"
  unfolding number_k_def number_const_eq numeral_2_eq_2 by (intro knows_number) (auto intro!: knows_number knows_set)

lemma knows_fold:
  "table_pos (os_tab os) \<Longrightarrow> length (os_val os) = N_ATOMS \<Longrightarrow>
   knows os (int A_ATOM) 1 (and_then (fold_op st c v0 v1 os) (\<lambda>(s, os). set_acc_const s os))"
proof (cases "fold_value c (const_val os v0) (const_val os v1)")
  case (Inl e)
  then show ?thesis by (auto simp: fold_op_def fold_value_def knows_def Let_def split: if_splits)
next
  case (Inr v)
  assume "table_pos (os_tab os)" "length (os_val os) = N_ATOMS"
  then show ?thesis
    using Inr knows_set_acc [of "os\<lparr>os_done := False\<rparr>"] by (simp add: fold_op_def)
qed

lemma opt_load_knows:
  assumes t: "table_pos (os_tab os)" "length (os_val os) = N_ATOMS" and st: "st_code st = Some c" and r: "opt_load alter st c os = Some r"
  shows "knows os (atomdef st) 2 r"
proof -
  have one: "knows os (int a) 2 (and_then (number c' v0 v1 os) (\<lambda>(v, os). Inr (vstore alter st' a v os)))" if "a < N_ATOMS" for c' v0 v1 st' a
    using t that by (intro knows_mono [OF knows_number [where n = 0]]) (auto intro!: knows_vstore)
  have ind: "knows os (int A_ATOM) 2 (and_then (number c' v0 v1 (os\<lparr>os_done := False\<rparr>)) (\<lambda>(v, os). Inr (vstore alter st' A_ATOM v os)))" for c' v0 v1 st'
  proof -
    have "knows (os\<lparr>os_done := False\<rparr>) (int A_ATOM) 2
        (and_then (number c' v0 v1 (os\<lparr>os_done := False\<rparr>)) (\<lambda>(v, os). Inr (vstore alter st' A_ATOM v os)))"
      using t by (intro knows_mono [OF knows_number [where n = 0]]) (auto intro!: knows_vstore)
    then show ?thesis by simp
  qed
  have d: "atomdef st = (if c = 1 \<or> c = 0xb1 then int X_ATOM else int A_ATOM)"
    using r st by (auto simp: opt_load_def atomdef_def BPF_CLASS_def split: if_splits)
  show ?thesis
    using r one ind unfolding d opt_load_def Let_def number_const_eq
    by (auto simp del: of_nat_numeral split: if_splits option.splits)
qed

lemma opt_alu_knows:
  assumes t: "table_pos (os_tab os)" "length (os_val os) = N_ATOMS" and a: "os_val os ! A_ATOM \<noteq> 0"
  shows "knows os (int A_ATOM) 2 (opt_neg alter st c os)"
    and "knows os (int A_ATOM) 2 (opt_alu_k alter st c os)"
    and "os_val os ! X_ATOM \<noteq> 0 \<Longrightarrow> knows os (int A_ATOM) 2 (opt_alu_x alter st c os)"
proof -
  have acc: "knows os (int A_ATOM) 2 (set_acc_const st' os)" for st'
    by (rule knows_mono [OF knows_set_acc [OF t]]) simp
  have num: "knows os (int A_ATOM) 2 (and_then (number c' v0 v1 os) (\<lambda>(v, os). Inr (st', set_val A_ATOM v os)))" for c' v0 v1 and st' :: stmt
    using t by (intro knows_mono [OF knows_number [where n = 0]]) (auto intro!: knows_set)
  have fold: "knows os (int A_ATOM) 2 (and_then (fold_op st' c' v0 v1 os) (\<lambda>(s, os). set_acc_const s os))" for st' c' v0 v1
    by (rule knows_mono [OF knows_fold [OF t]]) simp
  have kfold: "knows os (int A_ATOM) 2 (and_then (number c' v0 v1 os) (\<lambda>(vk, os).
      and_then (fold_op st' c'' v0' vk os) (\<lambda>(s, os). set_acc_const s os)))" for c' v0 v1 st' c'' v0'
    unfolding numeral_2_eq_2 using t by (intro knows_number) (auto intro!: knows_fold [simplified])
  have vst: "knows os (int A_ATOM) 2 (and_then (number c' v0 v1 os) (\<lambda>(v, os). Inr (vstore al st' A_ATOM v os)))" for c' v0 v1 st' al
    using t by (intro knows_mono [OF knows_number [where n = 0]]) (auto intro!: knows_vstore)
  have nk: "knows os (int A_ATOM) 2 (number_k st' c' os)" "knows os (int A_ATOM) 2 (number_k st' c' (os\<lparr>os_done := False\<rparr>))" for st' c'
    using knows_number_k [OF t, of st' c'] knows_number_k [of "os\<lparr>os_done := False\<rparr>" st' c'] t by simp_all
  have same: "knows os (int A_ATOM) 2 (Inr (st', os))" for st' :: stmt
    using t a by (intro knows_same) simp_all
  show "knows os (int A_ATOM) 2 (opt_neg alter st c os)"
  proof (cases "if alter then const_of os (os_val os ! A_ATOM) else None")
    case None
    then show ?thesis using num by (simp add: opt_neg_def)
  next
    case (Some x)
    then show ?thesis using acc by (simp add: opt_neg_def)
  qed
  show "knows os (int A_ATOM) 2 (opt_alu_k alter st c os)"
    using acc num kfold nk same unfolding opt_alu_k_def Let_def number_const_eq by (simp split: option.split)
  assume x: "os_val os ! X_ATOM \<noteq> 0"
  have txa: "knows os (int A_ATOM) 2 (Inr (vstore al st' A_ATOM (os_val os ! X_ATOM) os))" for st' al
    using t x by (intro knows_vstore) simp_all
  show "knows os (int A_ATOM) 2 (opt_alu_x alter st c os)"
    using num fold vst nk txa unfolding opt_alu_x_def Let_def number_const_eq by (simp split: option.split)
qed

lemma opt_move_knows:
  assumes t: "table_pos (os_tab os)" "length (os_val os) = N_ATOMS" and st: "straight st" "st_code st = Some c"
    and known: "uses_known st (os_val os)" and c: "c = 0x87 \<or> c = 0x07 \<or> c \<in> set mem_codes"
  shows "knows os (atomdef st) 2 (opt_move alter st c os)"
proof -
  have v: "knows os (atomdef st) 2 (Inr (vstore alter st' a v os'))" if "os' = os \<or> os' = os\<lparr>os_done := False\<rparr>" "v \<noteq> 0" "atomdef st = int a" "a < N_ATOMS"
    for st' a v os'
  proof -
    have "knows os' (atomdef st) 2 (Inr (vstore alter st' a v os'))"
      using t that by (intro knows_vstore) auto
    then show ?thesis using that(1) by auto
  qed
  consider (txa) "c = 0x87" | (tax) "c = 0x07" | (ldm) "c = 0x60" | (ldxm) "c = 0x61" | (store) "c = 0x02" | (storex) "c = 0x03"
    using c by (auto simp: mem_codes_def)
  then show ?thesis
  proof cases
    case txa
    then have "atomdef st = int A_ATOM" "os_val os ! X_ATOM \<noteq> 0"
      using known st(2) by (auto simp: uses_known_def atomuse_def atomdef_def code_defs)
    then show ?thesis using v txa by (simp add: opt_move_def)
  next
    case tax
    then have "atomdef st = int X_ATOM" "os_val os ! A_ATOM \<noteq> 0"
      using known st(2) by (auto simp: uses_known_def atomuse_def atomdef_def code_defs)
    then show ?thesis using v tax by (simp add: opt_move_def)
  next
    case ldm
    define n where "n = unat (st_k st)"
    have k: "n < BPF_MEMWORDS" "sint (st_k st) = int n" using mem_k [OF st] ldm by (simp_all add: mem_codes_def n_def)
    have "atomuse st = int n" "atomdef st = int A_ATOM" using ldm st(2) k by (simp_all add: atomuse_def atomdef_def code_defs)
    then have "os_val os ! n \<noteq> 0" "atomdef st = int A_ATOM" using known k(1) by (auto simp: uses_known_def)
    then show ?thesis using v k(1) ldm by (cases "if alter then const_of os (os_val os ! n) else None") (simp_all add: opt_move_def n_def [symmetric] Let_def)
  next
    case ldxm
    define n where "n = unat (st_k st)"
    have k: "n < BPF_MEMWORDS" "sint (st_k st) = int n" using mem_k [OF st] ldxm by (simp_all add: mem_codes_def n_def)
    have "atomuse st = int n" "atomdef st = int X_ATOM" using ldxm st(2) k by (simp_all add: atomuse_def atomdef_def code_defs)
    then have "os_val os ! n \<noteq> 0" "atomdef st = int X_ATOM" using known k(1) by (auto simp: uses_known_def)
    then show ?thesis using v k(1) ldxm by (cases "if alter then const_of os (os_val os ! n) else None") (simp_all add: opt_move_def n_def [symmetric] Let_def)
  next
    case store
    define n where "n = unat (st_k st)"
    have k: "n < BPF_MEMWORDS" "sint (st_k st) = int n" using mem_k [OF st] store by (simp_all add: mem_codes_def n_def)
    have "atomdef st = int n" "os_val os ! A_ATOM \<noteq> 0"
      using known store st(2) k by (auto simp: uses_known_def atomuse_def atomdef_def code_defs)
    then show ?thesis using v k(1) store by (simp add: opt_move_def n_def [symmetric] Let_def)
  next
    case storex
    define n where "n = unat (st_k st)"
    have k: "n < BPF_MEMWORDS" "sint (st_k st) = int n" using mem_k [OF st] storex by (simp_all add: mem_codes_def n_def)
    have "atomdef st = int n" "os_val os ! X_ATOM \<noteq> 0"
      using known storex st(2) k by (auto simp: uses_known_def atomuse_def atomdef_def code_defs)
    then show ?thesis using v k(1) storex by (simp add: opt_move_def n_def [symmetric] Let_def)
  qed
qed

lemma straight_cases:
  assumes "straight st" "st_code st = Some c" "opt_load alter st c os = None"
  shows "opt_stmt alter st os = (if c = 0x84 then opt_neg alter st c os
        else if c \<in> set alu_k_codes then opt_alu_k alter st c os
        else if c \<in> set alu_x_codes then opt_alu_x alter st c os else opt_move alter st c os)"
    and "c = 0x84 \<or> c \<in> set alu_k_codes \<or> c \<in> set alu_x_codes \<or> c = 0x87 \<or> c = 0x07 \<or> c \<in> set mem_codes"
proof -
  show "opt_stmt alter st os = (if c = 0x84 then opt_neg alter st c os
        else if c \<in> set alu_k_codes then opt_alu_k alter st c os
        else if c \<in> set alu_x_codes then opt_alu_x alter st c os else opt_move alter st c os)"
    using assms(2,3) by (simp add: opt_stmt_def alu_codes)
  show "c = 0x84 \<or> c \<in> set alu_k_codes \<or> c \<in> set alu_x_codes \<or> c = 0x87 \<or> c = 0x07 \<or> c \<in> set mem_codes"
    using assms unfolding straight_def straight_codes_def alu_codes by (auto simp: opt_load_def Let_def split: if_splits option.splits)
qed

lemma opt_stmt_knows:
  assumes t: "table_pos (os_tab os)" "length (os_val os) = N_ATOMS" and st: "straight st" and known: "uses_known st (os_val os)"
  shows "knows os (atomdef st) 2 (opt_stmt alter st os)"
proof (cases "st_code st")
  case None
  then show ?thesis using t by (auto simp: opt_stmt_def atomdef_def intro: knows_same)
next
  case (Some c)
  show ?thesis
  proof (cases "opt_load alter st c os")
    case load: (Some r)
    then show ?thesis using opt_load_knows [OF t Some load] Some by (simp add: opt_stmt_def)
  next
    case None
    note sc = straight_cases [OF st Some None]
    show ?thesis
    proof (cases "c = 0x84 \<or> c \<in> set alu_k_codes \<or> c \<in> set alu_x_codes")
      case True
      then have c: "BPF_CLASS c = BPF_ALU" "c \<in> set alu_x_codes \<Longrightarrow> BPF_SRC c = BPF_X"
        using alu_k_facts(4) alu_x_facts(3,4) by (auto simp: BPF_CLASS_def)
      then have "os_val os ! A_ATOM \<noteq> 0" "c \<in> set alu_x_codes \<Longrightarrow> os_val os ! X_ATOM \<noteq> 0" "atomdef st = int A_ATOM"
        using known Some by (auto simp: uses_known_def atomuse_def atomdef_def split: if_splits)
      then show ?thesis
        unfolding sc(1) using opt_alu_knows [OF t] True by auto
    next
      case False
      then show ?thesis unfolding sc(1) using opt_move_knows [OF t st Some known] sc(2) by auto
    qed
  qed
qed

text \<open>The optimiser gives up on nothing but constant divisions by zero and shifts that are too far, and a full table.\<close>

definition risky_codes :: "u16 list" where
  "risky_codes = [0x34, 0x3c, 0x64, 0x6c, 0x74, 0x7c]"

lemma risky_op: "c \<in> set alu_k_codes \<or> c \<in> set alu_x_codes \<Longrightarrow> BPF_OP c \<in> set [BPF_DIV, BPF_LSH, BPF_RSH] \<Longrightarrow> c \<in> set risky_codes"
  unfolding alu_codes risky_codes_def by (auto simp: BPF_OP_def)

lemma number_Inl: "number c v0 v1 os = Inl e \<Longrightarrow> e = Table_full"
  by (auto simp: number_def value_no_def and_then_def Let_def split: sum.splits option.splits if_splits)

lemma and_then_Inl: "and_then r f = Inl e \<longleftrightarrow> r = Inl e \<or> (\<exists>x. r = Inr x \<and> f x = Inl e)"
  by (cases r) auto

lemma set_acc_Inl: "set_acc_const st os = Inl e \<Longrightarrow> e = Table_full"
  by (auto simp: set_acc_const_def number_const_eq and_then_Inl dest: number_Inl)

lemma fold_op_Inl: "fold_op st c v0 v1 os = Inl e \<Longrightarrow> BPF_OP c \<notin> set [BPF_ADD, BPF_SUB, BPF_MUL, BPF_AND, BPF_OR]"
  by (auto simp: fold_op_def fold_value_def and_then_Inl Let_def split: if_splits)

lemma opt_stmt_Inl:
  assumes st: "straight st" and e: "opt_stmt alter st os = Inl e"
  shows "e = Table_full \<or> (\<exists>c \<in> set risky_codes. st_code st = Some c)"
proof (cases "st_code st")
  case (Some c)
  show ?thesis
  proof (cases "opt_load alter st c os")
    case (Some r)
    then have "r = Inl e" using e \<open>st_code st = Some c\<close> by (simp add: opt_stmt_def)
    then have "e = Table_full"
      using Some unfolding opt_load_def Let_def number_const_eq
      by (auto simp: and_then_Inl dest: number_Inl split: if_splits option.splits)
    then show ?thesis by simp
  next
    case None
    note sc = straight_cases [OF st Some None]
    consider (neg) "c = 0x84" | (k) "c \<in> set alu_k_codes" "c \<noteq> 0x84" | (x) "c \<in> set alu_x_codes" "c \<notin> set alu_k_codes" "c \<noteq> 0x84"
      | (move) "c = 0x87 \<or> c = 0x07 \<or> c \<in> set mem_codes" "c \<notin> set alu_x_codes" "c \<notin> set alu_k_codes" "c \<noteq> 0x84"
      using sc(2) by blast
    then show ?thesis
    proof cases
      case neg
      then show ?thesis
        using e unfolding sc(1) opt_neg_def Let_def set_acc_const_def number_const_eq
        by (auto simp: and_then_Inl dest: number_Inl split: option.splits if_splits)
    next
      case k
      then have "e = Table_full \<or> BPF_OP c \<in> set [BPF_DIV, BPF_LSH, BPF_RSH]"
        using e alu_k_facts(5) [OF k(1)] unfolding sc(1) opt_alu_k_def Let_def number_k_def number_const_eq
        by (auto simp: and_then_Inl dest: number_Inl set_acc_Inl fold_op_Inl split: option.splits if_splits)
      then show ?thesis using risky_op k(1) Some by blast
    next
      case x
      then have "e = Table_full \<or> BPF_OP c \<in> set [BPF_DIV, BPF_LSH, BPF_RSH]"
        using e alu_x_facts(5) [OF x(1)] unfolding sc(1) opt_alu_x_def Let_def number_k_def number_const_eq
        by (auto simp: and_then_Inl dest: number_Inl set_acc_Inl fold_op_Inl split: option.splits if_splits)
      then show ?thesis using risky_op x(1) Some by blast
    next
      case move
      then have "unat (st_k st) < N_ATOMS \<or> c \<notin> set mem_codes"
        using mem_k(1) [OF st Some] by (auto intro: less_trans)
      then show ?thesis
        using e move unfolding sc(1) opt_move_def Let_def mem_codes_def by (auto split: option.splits if_splits prod.splits)
    qed
  qed
qed (use e in \<open>simp add: opt_stmt_def\<close>)

section \<open>A block\<close>

lemma atom_bits_bit:
  assumes "i < N_ATOMS"
  shows "bit (atom_bits a d u) i \<longleftrightarrow> bit u i \<or> \<not> bit d i \<and> (if a = int N_ATOMS then i = A_ATOM \<or> i = X_ATOM else a = int i)"
  using assms by (auto simp: atom_bits_def Let_def bit_set_bit_iff possible_bit_def nat_eq_iff)

lemma local_ud_mono: "local_ud stmts (d, u, k) = (d', u', k') \<Longrightarrow> i < N_ATOMS \<Longrightarrow> bit u i \<Longrightarrow> bit u' i"
proof (induction stmts arbitrary: d u k)
  case (Cons s r)
  then show ?case
    by (auto simp: Let_def atom_bits_bit split: if_splits)
qed simp

lemma local_ud_uses:
  assumes "local_ud (st # r) (d, u, k) = (d', u', k')" and "\<forall>i < N_ATOMS. bit d i \<or> bit u' i \<longrightarrow> val ! i \<noteq> 0"
  shows "uses_known st val"
proof (cases "st_code st")
  case None
  then show ?thesis by (simp add: uses_known_def atomuse_def)
next
  case (Some c)
  have "bit u' i" if "i < N_ATOMS" "bit (atom_bits (atomuse st) d u) i" for i
    using assms(1) Some that local_ud_mono [of r _ "atom_bits (atomuse st) d u" _ d' u' k' i] by (auto simp: Let_def split: if_splits)
  then have k: "val ! i \<noteq> 0" if "i < N_ATOMS" "if atomuse st = int N_ATOMS then i = A_ATOM \<or> i = X_ATOM else atomuse st = int i" for i
    using assms(2) atom_bits_bit [OF that(1), of "atomuse st" d u] that by blast
  show ?thesis
    using k [of A_ATOM] k [of X_ATOM] k [of "nat (atomuse st)"] by (auto simp: uses_known_def Let_def split: if_splits)
qed

lemma local_ud_step:
  assumes "local_ud (st # r) (d, u, k) = (d', u', k')"
  shows "\<exists>d1 u1 k1. local_ud r (d1, u1, k1) = (d', u', k') \<and> (\<forall>i < N_ATOMS. bit d1 i \<longrightarrow> bit d i \<or> int i = atomdef st)"
proof (cases "st_code st = None \<or> atomdef st < 0")
  case True
  then show ?thesis using assms by (auto simp: Let_def split: if_splits)
next
  case False
  then obtain u1 k1 where "local_ud r (set_bit (nat (atomdef st)) d, u1, k1) = (d', u', k')"
    using assms by (auto simp: Let_def split: if_splits)
  then show ?thesis
    using False by (intro exI [of _ "set_bit (nat (atomdef st)) d"] exI [of _ u1] exI [of _ k1]) (auto simp: bit_set_bit_iff)
qed

lemma os_ok_pos: "os_ok p w b rho os s \<Longrightarrow> table_pos (os_tab os) \<and> length (os_val os) = N_ATOMS"
  by (simp add: os_ok_def tab_ok_def node_ok_def table_pos_def)

lemma opt_stmts_simulate:
  assumes "opt_stmts alter stmts os = Inr (stmts', os')" and "list_all straight stmts" and "os_ok p w b rho os s"
    and "local_ud stmts (d, u, k) = (d', u', k')" and "\<forall>i < N_ATOMS. bit d i \<or> bit u' i \<longrightarrow> os_val os ! i \<noteq> 0"
  shows "(\<forall>s'. run_stmts p w b stmts s = Next s' \<longrightarrow> run_stmts p w b stmts' s = Next s' \<and> (\<exists>rho'. os_ok p w b rho' os' s'))
    \<and> (Some 0x3c \<notin> st_code ` set stmts \<longrightarrow> (\<forall>v. run_stmts p w b stmts s = Return v \<longrightarrow> run_stmts p w b stmts' s = Return v))"
  using assms
proof (induction stmts arbitrary: os s d u k rho stmts')
  case Nil
  then show ?case by auto
next
  case (Cons st r)
  obtain st1 os1 r1 where o: "opt_stmt alter st os = Inr (st1, os1)" "opt_stmts alter r os1 = Inr (r1, os')" "stmts' = st1 # r1"
    using Cons.prems(1) by (auto simp: and_then_def split: sum.splits prod.splits)
  have st: "straight st" "list_all straight r" using Cons.prems(2) by simp_all
  have known: "uses_known st (os_val os)" by (rule local_ud_uses [OF Cons.prems(4,5)])
  have good: "good_step p w b s st (Inr (st1, os1))"
    using opt_stmt_good [OF Cons.prems(3) st(1) known, of alter] o(1) by simp
  have kn: "\<forall>a < N_ATOMS. os_val os ! a \<noteq> 0 \<or> int a = atomdef st \<longrightarrow> os_val os1 ! a \<noteq> 0"
    using opt_stmt_knows [OF _ _ st(1) known, of alter] os_ok_pos [OF Cons.prems(3)] o(1) by (simp add: knows_def)
  obtain d1 u1 k1 where ud: "local_ud r (d1, u1, k1) = (d', u', k')" "\<forall>i < N_ATOMS. bit d1 i \<longrightarrow> bit d i \<or> int i = atomdef st"
    using local_ud_step [OF Cons.prems(4)] by blast
  have next1: "\<forall>i < N_ATOMS. bit d1 i \<or> bit u' i \<longrightarrow> os_val os1 ! i \<noteq> 0"
    using ud(2) kn Cons.prems(5) by blast
  show ?case
  proof (cases "run_stmt p w b st s")
    case (Next s1)
    then obtain rho1 where "os_ok p w b rho1 os1 s1" using good by (auto simp: good_step_def)
    note IH = Cons.IH [OF o(2) st(2) this ud(1) next1]
    have "run_stmt p w b st1 s = Next s1" using good Next by (simp add: good_step_def simulates_def)
    then show ?thesis using IH Next by (simp add: o(3))
  next
    case (Return v)
    then show ?thesis using good by (auto simp: good_step_def simulates_def o(3))
  qed simp
qed

lemma opt_stmts_Inl:
  assumes "opt_stmts alter stmts os = Inl e" and "list_all straight stmts" and "table_pos (os_tab os)" "length (os_val os) = N_ATOMS"
    and "local_ud stmts (d, u, k) = (d', u', k')" and "\<forall>i < N_ATOMS. bit d i \<or> bit u' i \<longrightarrow> os_val os ! i \<noteq> 0"
    and "vt_cur (os_tab os) + 2 * length stmts < vt_max (os_tab os)"
  shows "e \<noteq> Table_full \<and> (\<exists>st \<in> set stmts. \<exists>c \<in> set risky_codes. st_code st = Some c)"
  using assms
proof (induction stmts arbitrary: os d u k)
  case (Cons st r)
  have st: "straight st" "list_all straight r" using Cons.prems(2) by simp_all
  have known: "uses_known st (os_val os)" by (rule local_ud_uses [OF Cons.prems(5,6)])
  note kn = opt_stmt_knows [OF Cons.prems(3,4) st(1) known, of alter]
  show ?case
  proof (cases "opt_stmt alter st os")
    case (Inl e1)
    then have "e1 = e" "e \<noteq> Table_full" using Cons.prems(1,7) kn by (auto simp: knows_def)
    then show ?thesis using opt_stmt_Inl [OF st(1), of alter os e] Inl by auto
  next
    case (Inr q)
    then obtain st1 os1 where q: "opt_stmt alter st os = Inr (st1, os1)" by (cases q) auto
    have k: "table_pos (os_tab os1)" "length (os_val os1) = N_ATOMS" "vt_max (os_tab os1) = vt_max (os_tab os)"
      "vt_cur (os_tab os1) \<le> vt_cur (os_tab os) + 2" "\<forall>a < N_ATOMS. os_val os ! a \<noteq> 0 \<or> int a = atomdef st \<longrightarrow> os_val os1 ! a \<noteq> 0"
      using kn q Cons.prems(4) by (simp_all add: knows_def)
    obtain d1 u1 k1 where ud: "local_ud r (d1, u1, k1) = (d', u', k')" "\<forall>i < N_ATOMS. bit d1 i \<longrightarrow> bit d i \<or> int i = atomdef st"
      using local_ud_step [OF Cons.prems(5)] by blast
    have "opt_stmts alter r os1 = Inl e"
      using Cons.prems(1) q by (auto simp: and_then_Inl)
    moreover have "\<forall>i < N_ATOMS. bit d1 i \<or> bit u' i \<longrightarrow> os_val os1 ! i \<noteq> 0"
      using ud(2) k(5) Cons.prems(6) by blast
    moreover have "vt_cur (os_tab os1) + 2 * length r < vt_max (os_tab os1)"
      using k(3,4) Cons.prems(7) by simp
    ultimately show ?thesis using Cons.IH [OF _ st(2) k(1,2) ud(1)] by auto
  qed
qed simp

text \<open>On entry to a block without predecessors nothing is known.\<close>

definition no_values :: "nat \<Rightarrow> opt_st" where
  "no_values maxval = \<lparr>os_val = replicate N_ATOMS 0, os_tab = init_val maxval, os_done = True\<rparr>"

lemma no_values_ok: "length (bpf_mem s) = BPF_MEMWORDS \<Longrightarrow> os_ok p w b (\<lambda>_. 0) (no_values maxval) s"
  by (simp add: no_values_def os_ok_def tab_ok_def init_val_def nodes_def)

lemma atom_bits_mono: "i < N_ATOMS \<Longrightarrow> bit u i \<Longrightarrow> bit (atom_bits a d u) i"
  by (simp add: atom_bits_bit)

lemma compute_local_ud_use:
  assumes "compute_local_ud stmts br = Inr (defs, use, kill)" and "\<forall>i < N_ATOMS. bit use i \<longrightarrow> val ! i \<noteq> 0"
  obtains u where "local_ud stmts (0, 0, 0) = (defs, u, kill)" "\<forall>i < N_ATOMS. bit (0 :: u32) i \<or> bit u i \<longrightarrow> val ! i \<noteq> 0"
proof -
  obtain u where u: "local_ud stmts (0, 0, 0) = (defs, u, kill)"
    using assms(1) by (auto simp: compute_local_ud_def split: prod.splits if_splits)
  have "bit use i" if "bit u i" "i < N_ATOMS" for i
    using assms(1) u that atom_bits_mono [of i u] by (auto simp: compute_local_ud_def split: option.splits if_splits)
  then show ?thesis using that [OF u] assms(2) by simp
qed

section \<open>Properties\<close>

text \<open>
  C13.  Value numbering keeps what a block does.  The block holds the statements of the code generator, the numbers on entry
  are right for the state, and every register that the block uses before it sets it (its set \<open>use\<close>) has a number other than 0, that is, a
  known value: without this it is false, because two registers of unknown value count as equal (\<open>unknown_values_are_equal\<close>: the block
  \<open>txa\<close> is emptied).  The tables have room for two entries per statement; \<open>opt_init\<close> allocates three.  Then the optimised block runs to the same state, with
  right numbers on exit, and rejects the packets the block rejects, unless it divides by the index register (\<open>zero_divided_goes_on\<close>).  The
  tables do not overflow, and only a constant division by zero or a shift that is too far makes the optimiser give up.
\<close>

theorem value_numbering_sound:
  assumes "list_all straight stmts" and "os_ok p w b rho os s"
    and "compute_local_ud stmts br = Inr (defs, use, kill)" and "\<forall>i < N_ATOMS. bit use i \<longrightarrow> os_val os ! i \<noteq> 0"
    and "vt_cur (os_tab os) + 2 * length stmts < vt_max (os_tab os)"
  shows "case opt_stmts alter stmts os of
      Inl e \<Rightarrow> e \<noteq> Table_full \<and> (\<exists>st \<in> set stmts. \<exists>c \<in> set risky_codes. st_code st = Some c)
    | Inr (stmts', os') \<Rightarrow>
        (\<forall>s'. run_stmts p w b stmts s = Next s' \<longrightarrow> run_stmts p w b stmts' s = Next s' \<and> (\<exists>rho'. os_ok p w b rho' os' s')) \<and>
        (Some 0x3c \<notin> st_code ` set stmts \<longrightarrow> (\<forall>v. run_stmts p w b stmts s = Return v \<longrightarrow> run_stmts p w b stmts' s = Return v))"
proof -
  obtain u where u: "local_ud stmts (0, 0, 0) = (defs, u, kill)" "\<forall>i < N_ATOMS. bit (0 :: u32) i \<or> bit u i \<longrightarrow> os_val os ! i \<noteq> 0"
    using compute_local_ud_use [OF assms(3,4)] by blast
  note tp = os_ok_pos [OF assms(2)]
  show ?thesis
  proof (cases "opt_stmts alter stmts os")
    case (Inl e)
    then show ?thesis using opt_stmts_Inl [OF Inl assms(1) _ _ u assms(5)] tp by simp
  next
    case (Inr q)
    obtain stmts' os' where q: "q = (stmts', os')" by (cases q)
    show ?thesis
      unfolding Inr q using opt_stmts_simulate [OF Inr [unfolded q] assms(1,2) u] by simp
  qed
qed

text \<open>
  The port test of a filter with a constant index: \<open>ld #2; ldx #14; add x; tax; ldh [x + 0]; st M[0]; ldx M[0]; ldh [16]\<close>.  The additions
  are folded, the load becomes absolute and is not repeated.
\<close>

definition sample_block :: "stmt list" where
  "sample_block = map (\<lambda>(c, k). \<lparr>st_code = Some c, st_k = k\<rparr>)
     [(0x00, 2), (0x01, 14), (0x0c, 0), (0x07, 0), (0x48, 0), (0x02, 0), (0x61, 0), (0x28, 16)]"

lemma value_numbering_sound_witness:
  "\<exists>stmts' os' s'. opt_stmts True sample_block (no_values 99) = Inr (stmts', os') \<and>
     map st_code stmts' = [Some 0, Some 1, Some 0, Some 7, Some 0x28, Some 2, Some 0x61, None] \<and>
     run_stmts (replicate 16 0 @ [0, 80]) 18 18 stmts' \<lparr>bpf_pc = 0, bpf_A = 0, bpf_X = 0, bpf_mem = replicate 16 0\<rparr> = Next s' \<and>
     bpf_A s' = 80 \<and> bpf_X s' = 80"
proof -
  let ?s = "\<lparr>bpf_pc = 0, bpf_A = 0, bpf_X = 0, bpf_mem = replicate 16 0\<rparr>" and ?p = "replicate 16 0 @ [0, 80] :: bytes"
  let ?br = "\<lparr>st_code = Some 0x15, st_k = 80\<rparr>"
  have st: "list_all straight sample_block" by code_simp
  have ok: "os_ok ?p 18 18 (\<lambda>_. 0) (no_values 99) ?s" by (rule no_values_ok) simp
  have "case compute_local_ud sample_block ?br of Inr (defs, use, kill) \<Rightarrow> use = 0 | _ \<Rightarrow> False" by code_simp
  then obtain defs kill where ud: "compute_local_ud sample_block ?br = Inr (defs, 0, kill)"
    by (auto split: sum.splits)
  have "map st_code (fst (projr (opt_stmts True sample_block (no_values 99)))) =
      [Some 0, Some 1, Some 0, Some 7, Some 0x28, Some 2, Some 0x61, None] \<and> \<not> isl (opt_stmts True sample_block (no_values 99))"
    by code_simp
  then obtain stmts' os' where o: "opt_stmts True sample_block (no_values 99) = Inr (stmts', os')"
      "map st_code stmts' = [Some 0, Some 1, Some 0, Some 7, Some 0x28, Some 2, Some 0x61, None]"
    by (cases "opt_stmts True sample_block (no_values 99)") auto
  have "case run_stmts ?p 18 18 sample_block ?s of Next s' \<Rightarrow> bpf_A s' = 80 \<and> bpf_X s' = 80 | _ \<Rightarrow> False"
    by code_simp
  then obtain s' where s': "run_stmts ?p 18 18 sample_block ?s = Next s'" "bpf_A s' = 80" "bpf_X s' = 80"
    by (cases "run_stmts ?p 18 18 sample_block ?s") auto
  have "run_stmts ?p 18 18 stmts' ?s = Next s'"
    using value_numbering_sound [OF st ok ud, of True] s'(1) o(1) by (simp add: no_values_def init_val_def sample_block_def)
  with o s'(2,3) show ?thesis by (intro exI conjI)
qed

text \<open>
  What the premises of this theorem exclude.  Two registers whose values are both unknown have the same number 0, so that \<open>txa\<close> is deleted.
\<close>

lemma unknown_values_are_equal:
  "\<exists>os'. opt_stmts True [\<lparr>st_code = Some 0x87, st_k = 0\<rparr>] (no_values maxval) = Inr ([\<lparr>st_code = None, st_k = 0\<rparr>], os')"
  by (simp add: opt_stmt_def opt_load_def opt_move_def vstore_def no_values_def)

text \<open>\<open>ld #0; div x\<close> becomes \<open>ld #0\<close>, although the division rejects the packet when the index register is 0.\<close>

lemma zero_divided_goes_on:
  "map st_code (fst (projr (opt_stmts True [\<lparr>st_code = Some 0, st_k = 0\<rparr>, \<lparr>st_code = Some 0xb1, st_k = 0\<rparr>, \<lparr>st_code = Some 0x3c, st_k = 0\<rparr>]
     (no_values 99)))) = [Some 0, Some 0xb1, None]"
  "run_stmts [0] 1 1 [\<lparr>st_code = Some 0, st_k = 0\<rparr>, \<lparr>st_code = Some 0xb1, st_k = 0\<rparr>, \<lparr>st_code = Some 0x3c, st_k = 0\<rparr>]
     \<lparr>bpf_pc = 0, bpf_A = 0, bpf_X = 0, bpf_mem = []\<rparr> = Return 0"
  by code_simp+

end
