(* ===== verification/Opt_Dead.thy ===== *)
theory Opt_Dead
  imports Opt_Value
begin

text \<open>
  The removal of dead stores in a block, \<open>deadstmt\<close> and \<open>opt_deadstores\<close> of \<open>optimize.c\<close>.  A pointer to a statement is its
  index in the block, of which the branch is the last.
\<close>

section \<open>The code\<close>

definition delete_stmt :: "nat \<Rightarrow> stmt list \<Rightarrow> stmt list" where
  "delete_stmt j sts = sts[j := (sts ! j)\<lparr>st_code := None\<rparr>]"

definition clear_used :: "int \<Rightarrow> nat option list \<Rightarrow> nat option list" where
  "clear_used u lst =
     (if u = int N_ATOMS then lst[X_ATOM := None, A_ATOM := None] else if 0 \<le> u then lst[nat u := None] else lst)"

text \<open>The statements, the array \<open>last\<close> and the flag \<open>done\<close>.\<close>

type_synonym dead_st = "stmt list \<times> nat option list \<times> bool"

definition deadstmt :: "nat \<Rightarrow> dead_st \<Rightarrow> dead_st" where
  "deadstmt i = (\<lambda>(sts, lst, dn).
     let s = sts ! i; last1 = clear_used (atomuse s) lst; d = atomdef s in
     if 0 \<le> d then
       (case last1 ! nat d of
          Some j \<Rightarrow> (delete_stmt j sts, last1[nat d := Some i], False)
        | None \<Rightarrow> (sts, last1[nat d := Some i], dn))
     else (sts, last1, dn))"

definition delete_last :: "u32 \<Rightarrow> nat \<Rightarrow> dead_st \<Rightarrow> dead_st" where
  "delete_last out_use a = (\<lambda>(sts, lst, dn).
     case lst ! a of
       Some j \<Rightarrow> if \<not> bit out_use a then (delete_stmt j sts, lst, False) else (sts, lst, dn)
     | None \<Rightarrow> (sts, lst, dn))"

text \<open>A statement on a word outside the scratch memory would index \<open>last\<close> behind its end.\<close>

definition opt_deadstores :: "stmt list \<Rightarrow> stmt \<Rightarrow> u32 \<Rightarrow> bool \<Rightarrow> opt_error + (stmt list \<times> stmt \<times> bool)" where
  "opt_deadstores stmts br out_use dn =
     (if \<not> list_all (\<lambda>s. atomuse s \<le> int N_ATOMS \<and> atomdef s < int N_ATOMS) (stmts @ [br]) then Inl Bad_index
      else case fold (delete_last out_use) [0..<N_ATOMS]
             (fold deadstmt [0..<Suc (length stmts)] (stmts @ [br], replicate N_ATOMS None, dn)) of
        (sts, _, dn) \<Rightarrow> Inr (butlast sts, last sts, dn))"

section \<open>Registers a statement does not use\<close>

definition uses :: "stmt \<Rightarrow> nat \<Rightarrow> bool" where
  "uses st i \<longleftrightarrow> (if atomuse st = int N_ATOMS then i = A_ATOM \<or> i = X_ATOM else atomuse st = int i)"

lemma uses_AX:
  assumes "st_code st = Some c" "c \<in> set straight_codes"
  shows "BPF_CLASS c = BPF_ALU \<Longrightarrow> uses st A_ATOM"
    and "BPF_CLASS c = BPF_ALU \<Longrightarrow> BPF_SRC c = BPF_X \<Longrightarrow> uses st X_ATOM"
    and "c = 0x40 \<or> c = 0x48 \<or> c = 0x50 \<or> c = 0x87 \<Longrightarrow> uses st X_ATOM"
    and "c = 0x07 \<Longrightarrow> uses st A_ATOM"
  using assms by (auto simp: uses_def atomuse_def code_defs split: if_splits)

lemma outcome_uses:
  assumes st: "straight st" "st_code st = Some c" and same: "\<forall>i < N_ATOMS. uses st i \<longrightarrow> reg s i = reg t i"
  shows "outcome_of p w b c (st_k st) s = outcome_of p w b c (st_k st) t"
proof (cases "c \<in> set mem_codes")
  case True
  note k = mem_k [OF st True]
  consider "c = 0x60 \<or> c = 0x61" | "c = 0x02" | "c = 0x03" using True by (auto simp: mem_codes_def)
  then show ?thesis
  proof cases
    case 1
    define n where "n = unat (st_k st)"
    have n: "n < BPF_MEMWORDS" "sint (st_k st) = int n" using k by (simp_all add: n_def)
    then have "atomuse st = int n" using 1 st(2) by (auto simp: atomuse_def code_defs)
    then have "uses st n" using n(1) by (simp add: uses_def)
    then have "reg s n = reg t n" using same n(1) by simp
    then show ?thesis using 1 by (auto simp: outcome_of_def BPF_CLASS_def n_def)
  next
    case 2
    then have "uses st A_ATOM" using st(2) by (simp add: uses_def atomuse_def code_defs)
    then show ?thesis using same 2 reg_AX(1) [of s] reg_AX(1) [of t] by (simp add: outcome_of_def BPF_CLASS_def)
  next
    case 3
    then have "uses st X_ATOM" using st(2) by (simp add: uses_def atomuse_def code_defs)
    then show ?thesis using same 3 reg_AX(2) [of s] reg_AX(2) [of t] by (simp add: outcome_of_def BPF_CLASS_def)
  qed
next
  case False
  then have c: "c \<in> set straight_codes" using st by (simp add: straight_def)
  note u = uses_AX [OF st(2) c]
  have A: "uses st A_ATOM \<Longrightarrow> bpf_A s = bpf_A t" and X: "uses st X_ATOM \<Longrightarrow> bpf_X s = bpf_X t"
    using same reg_AX [of s] reg_AX [of t] by simp_all
  show ?thesis
  proof (cases "BPF_CLASS c = BPF_ALU")
    case True
    show ?thesis
    proof (cases "c = 0x84")
      case neg: True
      then show ?thesis using A u(1) True by (simp add: outcome_of_def)
    next
      case False
      then show ?thesis
        using A X u(1,2) True unfolding outcome_alu [OF True False] by auto
    qed
  next
    case False
    then have "c \<in> set [0x20, 0x28, 0x30, 0x40, 0x48, 0x50, 0x80, 0x00, 0x01, 0xb1, 0x87, 0x07]"
      using c unfolding straight_codes_def by (auto simp: BPF_CLASS_def)
    then have "c \<in> set [0x20, 0x28, 0x30, 0x80, 0x00, 0x01, 0xb1] \<or> c \<in> set [0x40, 0x48, 0x50] \<or> c = 0x87 \<or> c = 0x07" by auto
    then show ?thesis
      using A X u(3,4) by (elim disjE) (auto simp: outcome_of_def BPF_CLASS_def)
  qed
qed

text \<open>Two states that agree outside \<open>D\<close>.\<close>

definition agree_but :: "nat set \<Rightarrow> bpf_state \<Rightarrow> bpf_state \<Rightarrow> bool" where
  "agree_but D s t \<longleftrightarrow> length (bpf_mem s) = BPF_MEMWORDS \<and> length (bpf_mem t) = BPF_MEMWORDS \<and>
     (\<forall>i < N_ATOMS. i \<notin> D \<longrightarrow> reg t i = reg s i)"

lemma straight_atomdef: "straight st \<Longrightarrow> st_code st = Some c \<Longrightarrow> 0 \<le> atomdef st \<and> nat (atomdef st) < N_ATOMS"
proof (cases "c \<in> set mem_codes")
  case True
  assume st: "straight st" "st_code st = Some c"
  define n where "n = unat (st_k st)"
  have "n < BPF_MEMWORDS" "sint (st_k st) = int n" using mem_k [OF st True] by (simp_all add: n_def)
  then show ?thesis
    using True st(2) unfolding mem_codes_def
    by (simp only: list.set insert_iff empty_iff simp_thms) (elim disjE; simp add: atomdef_def code_defs)
next
  case False
  assume st: "straight st" "st_code st = Some c"
  then have "c \<in> set straight_codes" using False by (simp add: straight_def)
  then show ?thesis
    unfolding straight_codes_def using st(2)
    by (simp only: list.set insert_iff empty_iff simp_thms) (elim disjE; simp add: atomdef_def code_defs)
qed

lemma step_agree:
  assumes st: "straight st" "st_code st = Some c" and D: "agree_but D s t" "\<forall>i \<in> D. \<not> uses st i"
    and s': "run_stmt p w b st s = Next s'"
  shows "agree_but (insert (nat (atomdef st)) D) s' t"
    and "\<exists>t'. run_stmt p w b st t = Next t' \<and> agree_but (D - {nat (atomdef st)}) s' t'"
proof -
  have "outcome_of p w b c (st_k st) s = outcome_of p w b c (st_k st) t"
    using D by (intro outcome_uses [OF st]) (auto simp: agree_but_def)
  note o = run_stmt_outcome [OF st, of p w b s] run_stmt_outcome [OF st, of p w b t, folded this]
  obtain v where v: "s' = set_reg (nat (atomdef st)) v s" "run_stmt p w b st t = Next (set_reg (nat (atomdef st)) v t)"
    using o s' outcome_leaves [of p w b c "st_k st" s]
    by (cases "outcome_of p w b c (st_k st) s") (auto simp: goes_on_def)
  note d = straight_atomdef [OF st]
  show "agree_but (insert (nat (atomdef st)) D) s' t"
    using D(1) d by (auto simp: agree_but_def v(1) reg_set_reg)
  show "\<exists>t'. run_stmt p w b st t = Next t' \<and> agree_but (D - {nat (atomdef st)}) s' t'"
    using D(1) d v(2) by (auto simp: agree_but_def v(1) reg_set_reg)
qed

section \<open>Deleted statements\<close>

definition nops :: "nat set \<Rightarrow> stmt list \<Rightarrow> stmt list" where
  "nops J sts = map (\<lambda>i. if i \<in> J then (sts ! i)\<lparr>st_code := None\<rparr> else sts ! i) [0..<length sts]"

lemma length_nops [simp]: "length (nops J sts) = length sts"
  by (simp add: nops_def)

lemma nops_nth: "i < length sts \<Longrightarrow> nops J sts ! i = (if i \<in> J then (sts ! i)\<lparr>st_code := None\<rparr> else sts ! i)"
  by (simp add: nops_def)

lemma nops_empty [simp]: "nops {} sts = sts"
  by (simp add: nops_def map_nth)

lemma delete_nops: "j < length sts \<Longrightarrow> delete_stmt j (nops J sts) = nops (insert j J) sts"
  by (rule nth_equalityI) (auto simp: delete_stmt_def nops_nth nth_list_update)

lemma run_stmts_append:
  "run_stmts p w b (xs @ ys) s = (case run_stmts p w b xs s of Next s' \<Rightarrow> run_stmts p w b ys s' | t \<Rightarrow> t)"
  by (induction xs arbitrary: s) (auto split: bpf_turn.splits)

lemma run_take_Suc:
  "i < length sts \<Longrightarrow> run_stmts p w b (take (Suc i) sts) s =
     (case run_stmts p w b (take i sts) s of Next s' \<Rightarrow> run_stmt p w b (sts ! i) s' | t \<Rightarrow> t)"
  by (simp add: take_Suc_conv_app_nth run_stmts_append split: bpf_turn.splits)

section \<open>The invariant of the loop\<close>

text \<open>
  After \<open>i\<close> statements of \<open>orig\<close> the statements in \<open>K\<close> are deleted; whichever of the registers \<open>D\<close> with a last definition
  lose it too, the run differs in \<open>D\<close> only.
\<close>

definition lasts :: "nat option list \<Rightarrow> nat set" where
  "lasts l = {a. a < N_ATOMS \<and> l ! a \<noteq> None}"

definition dead_inv :: "bytes \<Rightarrow> u32 \<Rightarrow> u32 \<Rightarrow> stmt list \<Rightarrow> nat \<Rightarrow> nat set \<Rightarrow> nat option list \<Rightarrow> bool" where
  "dead_inv p w b orig i K l \<longleftrightarrow> length l = N_ATOMS \<and> K \<subseteq> {..<i} \<and> (\<forall>a \<in> lasts l. the (l ! a) < i) \<and>
     (\<forall>D s s'. D \<subseteq> lasts l \<longrightarrow> length (bpf_mem s) = BPF_MEMWORDS \<longrightarrow> run_stmts p w b (take i orig) s = Next s' \<longrightarrow>
        (\<exists>t. run_stmts p w b (take i (nops (K \<union> (\<lambda>a. the (l ! a)) ` D) orig)) s = Next t \<and> agree_but D s' t))"

lemma update_None: "a < length l \<Longrightarrow> l[j := None] ! a = (if a = j then None else l ! a)"
  by (cases "a = j") simp_all

lemma clear_used_nth:
  "length l = N_ATOMS \<Longrightarrow> a < N_ATOMS \<Longrightarrow> clear_used (atomuse st) l ! a = (if uses st a then None else l ! a)"
  by (auto simp: clear_used_def uses_def update_None)

lemma dead_invD:
  "dead_inv p w b orig i K l \<Longrightarrow> D \<subseteq> lasts l \<Longrightarrow> length (bpf_mem s) = BPF_MEMWORDS \<Longrightarrow> run_stmts p w b (take i orig) s = Next s' \<Longrightarrow>
   \<exists>t. run_stmts p w b (take i (nops (K \<union> (\<lambda>a. the (l ! a)) ` D) orig)) s = Next t \<and> agree_but D s' t"
  by (simp add: dead_inv_def)

lemma lasts_clear: "length l = N_ATOMS \<Longrightarrow> lasts (clear_used (atomuse st) l) = lasts l - {a. uses st a}"
  by (auto simp: lasts_def clear_used_nth split: if_splits)

lemma length_clear [simp]: "length (clear_used u l) = length l"
  by (simp add: clear_used_def)

lemma dead_inv_clear:
  assumes "dead_inv p w b orig i K l"
  shows "dead_inv p w b orig i K (clear_used (atomuse st) l)"
proof -
  have len: "length l = N_ATOMS" using assms by (simp add: dead_inv_def)
  have same: "the (clear_used (atomuse st) l ! a) = the (l ! a)" if "a \<in> lasts l - {a. uses st a}" for a
    using that clear_used_nth [OF len, of a st] by (simp add: lasts_def)
  have "(\<lambda>a. the (clear_used (atomuse st) l ! a)) ` D = (\<lambda>a. the (l ! a)) ` D" if "D \<subseteq> lasts l - {a. uses st a}" for D
    using same that by (intro image_cong) auto
  then show ?thesis
    using assms same len unfolding dead_inv_def lasts_clear [OF len] by (auto simp: subset_iff)
qed

text \<open>The next statement: it defines \<open>d\<close>, or nothing when it is a \<open>NOP\<close>.\<close>

lemma dead_inv_nop:
  assumes inv: "dead_inv p w b orig i K l" and i: "i < length orig" and nop: "st_code (orig ! i) = None"
  shows "dead_inv p w b orig (Suc i) K l"
proof -
  have K: "K \<subseteq> {..<i}" "\<forall>a \<in> lasts l. the (l ! a) < i" using inv by (auto simp: dead_inv_def)
  have "\<exists>t. run_stmts p w b (take (Suc i) (nops (K \<union> (\<lambda>a. the (l ! a)) ` D) orig)) s = Next t \<and> agree_but D s' t"
    if D: "D \<subseteq> lasts l" and s: "length (bpf_mem s) = BPF_MEMWORDS" "run_stmts p w b (take (Suc i) orig) s = Next s'" for D s s'
  proof -
    have "run_stmts p w b (take i orig) s = Next s'"
      using s(2) nop i by (auto simp: run_take_Suc run_stmt_def split: bpf_turn.splits)
    then obtain t where "run_stmts p w b (take i (nops (K \<union> (\<lambda>a. the (l ! a)) ` D) orig)) s = Next t" "agree_but D s' t"
      using inv D s(1) unfolding dead_inv_def by blast
    moreover have "st_code (nops J orig ! i) = None" for J using nop i by (simp add: nops_nth)
    ultimately show ?thesis using i by (simp add: run_take_Suc run_stmt_def)
  qed
  then show ?thesis using inv by (auto simp: dead_inv_def lessThan_Suc)
qed

lemma image_split: "f ` D = (if d \<in> D then insert (f d) (f ` (D - {d})) else f ` (D - {d}))"
  by (auto simp: image_iff)

lemma union_shuffle:
  "X = (if c then insert i A else A) \<Longrightarrow> K' = K \<union> B \<Longrightarrow> J = K \<union> (A \<union> B) \<Longrightarrow> K' \<union> X = (if c then insert i J else J)"
  by auto

lemma dead_inv_def_step:
  assumes inv: "dead_inv p w b orig i K l" and i: "i < length orig" and st: "straight (orig ! i)" "st_code (orig ! i) = Some c"
    and unused: "\<forall>a \<in> lasts l. \<not> uses (orig ! i) a" and d: "d = nat (atomdef (orig ! i))"
    and K': "K' = (case l ! d of Some j \<Rightarrow> insert j K | None \<Rightarrow> K)"
  shows "dead_inv p w b orig (Suc i) K' (l[d := Some i])"
proof -
  let ?l = "l[d := Some i]" and ?st = "orig ! i"
  have len: "length l = N_ATOMS" and dN: "d < N_ATOMS"
    using inv straight_atomdef [OF st] d by (simp_all add: dead_inv_def)
  have K: "K \<subseteq> {..<i}" "\<forall>a \<in> lasts l. the (l ! a) < i" using inv by (auto simp: dead_inv_def)
  have nth: "?l ! a = (if a = d then Some i else l ! a)" if "a < N_ATOMS" for a
    using that len by (simp add: nth_list_update)
  have lasts: "lasts ?l = insert d (lasts l)"
    using dN nth by (auto simp: lasts_def)
  have run: "\<exists>t. run_stmts p w b (take (Suc i) (nops (K' \<union> (\<lambda>a. the (?l ! a)) ` D') orig)) s = Next t \<and> agree_but D' s' t"
    if D': "D' \<subseteq> lasts ?l" and s: "length (bpf_mem s) = BPF_MEMWORDS" "run_stmts p w b (take (Suc i) orig) s = Next s'" for D' s s'
  proof -
    obtain s1 where s1: "run_stmts p w b (take i orig) s = Next s1" "run_stmt p w b ?st s1 = Next s'"
      using s(2) i by (auto simp: run_take_Suc split: bpf_turn.splits)
    define D where "D = (D' - {d}) \<union> ({d} \<inter> lasts l)"
    define J where "J = K \<union> (\<lambda>a. the (l ! a)) ` D"
    have D: "D \<subseteq> lasts l" using D' lasts by (auto simp: D_def)
    obtain t where t: "run_stmts p w b (take i (nops J orig)) s = Next t" "agree_but D s1 t"
      using inv D s(1) s1(1) unfolding dead_inv_def J_def by blast
    note sa = step_agree [OF st t(2) _ s1(2), folded d]
    have unused_D: "\<forall>a \<in> D. \<not> uses ?st a" using unused D by auto
    have J': "K' \<union> (\<lambda>a. the (?l ! a)) ` D' = (if d \<in> D' then insert i J else J)"
    proof -
      define A B where "A = (\<lambda>a. the (l ! a)) ` (D' - {d})" and "B = (\<lambda>a. the (l ! a)) ` ({d} \<inter> lasts l)"
      have "(\<lambda>a. the (?l ! a)) ` (D' - {d}) = A"
        unfolding A_def using D' lasts nth by (intro image_cong) (auto simp: lasts_def)
      moreover have "the (?l ! d) = i" using nth [OF dN] by simp
      ultimately have "(\<lambda>a. the (?l ! a)) ` D' = (if d \<in> D' then insert i A else A)"
        by (subst image_split [of _ D' d]) (simp only:)
      moreover have "K' = K \<union> B"
        using dN by (auto simp: K' B_def lasts_def split: option.splits)
      moreover have "J = K \<union> (A \<union> B)"
        by (simp only: J_def D_def image_Un A_def B_def)
      ultimately show ?thesis by (rule union_shuffle)
    qed
    have iJ: "i \<notin> J" using K D by (auto simp: J_def)
    have pre: "take i (nops (insert i J) orig) = take i (nops J orig)"
      using i by (intro nth_equalityI) (auto simp: nops_nth)
    show ?thesis
    proof (cases "d \<in> D'")
      case True
      have "run_stmts p w b (take (Suc i) (nops (insert i J) orig)) s = Next t"
        using i t(1) by (simp add: run_take_Suc nops_nth pre run_stmt_def)
      moreover have "agree_but D' s' t"
        using sa(1) [OF unused_D] True by (auto simp: agree_but_def D_def)
      ultimately show ?thesis using True J' by auto
    next
      case False
      obtain t' where t': "run_stmt p w b ?st t = Next t'" "agree_but (D - {d}) s' t'"
        using sa(2) [OF unused_D] by blast
      have "run_stmts p w b (take (Suc i) (nops J orig)) s = Next t'"
        using i t(1) t'(1) iJ by (simp add: run_take_Suc nops_nth)
      moreover have "agree_but D' s' t'"
        using t'(2) False by (auto simp: agree_but_def D_def)
      ultimately show ?thesis using False J' by auto
    qed
  qed
  have "K' \<subseteq> {..<Suc i}"
    using K dN by (auto simp: K' lasts_def split: option.splits)
  moreover have "\<forall>a \<in> lasts ?l. the (?l ! a) < Suc i"
    using K nth dN unfolding lasts by (auto simp: lasts_def)
  ultimately show ?thesis
    using run len by (auto simp: dead_inv_def)
qed

lemma deadstmt_step:
  assumes inv: "dead_inv p w b orig i K l" and i: "i < length orig" and st: "straight (orig ! i)"
  shows "\<exists>K' l' dn'. deadstmt i (nops K orig, l, dn) = (nops K' orig, l', dn') \<and> dead_inv p w b orig (Suc i) K' l'"
proof -
  have K: "K \<subseteq> {..<i}" "\<forall>a \<in> lasts l. the (l ! a) < i" "length l = N_ATOMS" using inv by (auto simp: dead_inv_def)
  then have s: "nops K orig ! i = orig ! i" using i by (auto simp: nops_nth)
  let ?l = "clear_used (atomuse (orig ! i)) l"
  have inv1: "dead_inv p w b orig i K ?l" by (rule dead_inv_clear [OF inv])
  show ?thesis
  proof (cases "st_code (orig ! i)")
    case None
    then have "deadstmt i (nops K orig, l, dn) = (nops K orig, ?l, dn)"
      by (simp add: deadstmt_def s atomdef_def)
    then show ?thesis using dead_inv_nop [OF inv1 i None] by blast
  next
    case (Some c)
    note d = straight_atomdef [OF st Some]
    have unused: "\<forall>a \<in> lasts ?l. \<not> uses (orig ! i) a" using lasts_clear [OF K(3)] by auto
    note step = dead_inv_def_step [OF inv1 i st Some unused refl refl]
    have "j < length orig" if "?l ! nat (atomdef (orig ! i)) = Some j" for j
      using that d K(2) i clear_used_nth [OF K(3), of "nat (atomdef (orig ! i))" "orig ! i"]
      by (fastforce simp: lasts_def split: if_splits)
    then have "\<exists>dn'. deadstmt i (nops K orig, l, dn) =
        (nops (case ?l ! nat (atomdef (orig ! i)) of Some j \<Rightarrow> insert j K | None \<Rightarrow> K) orig, ?l[nat (atomdef (orig ! i)) := Some i], dn')"
      using d by (auto simp: deadstmt_def s Let_def delete_nops split: option.split)
    then show ?thesis using step by blast
  qed
qed

lemma dead_inv_0: "dead_inv p w b orig 0 {} (replicate N_ATOMS None)"
proof -
  have "lasts (replicate N_ATOMS None) = {}" by (auto simp: lasts_def)
  moreover have "\<exists>t. Next s' = Next t \<and> agree_but {} s' t" if "length (bpf_mem s') = BPF_MEMWORDS" for s'
    using that by (simp add: agree_but_def)
  ultimately show ?thesis by (simp add: dead_inv_def)
qed

lemma deadstmts_run:
  assumes "n \<le> length orig" and "\<forall>i < n. straight (orig ! i)"
  shows "\<exists>K l dn'. fold deadstmt [0..<n] (orig, replicate N_ATOMS None, dn) = (nops K orig, l, dn') \<and> dead_inv p w b orig n K l"
  using assms
proof (induction n)
  case 0
  then show ?case using dead_inv_0 [of p w b orig] by (intro exI [of _ "{}"]) auto
next
  case (Suc n)
  then obtain K l dn' where IH: "fold deadstmt [0..<n] (orig, replicate N_ATOMS None, dn) = (nops K orig, l, dn')"
      "dead_inv p w b orig n K l"
    by auto
  then show ?case using deadstmt_step [OF IH(2), of dn'] Suc.prems by (simp add: IH(1))
qed

lemma delete_lasts_run:
  assumes "\<forall>a \<in> lasts l. the (l ! a) < length orig" and "m \<le> N_ATOMS"
  shows "\<exists>dn'. fold (delete_last ou) [0..<m] (nops K orig, l, dn) =
     (nops (K \<union> (\<lambda>a. the (l ! a)) ` {a \<in> lasts l. a < m \<and> \<not> bit ou a}) orig, l, dn')"
  using assms(2)
proof (induction m)
  case 0
  then show ?case by simp
next
  case (Suc m)
  have "{a \<in> lasts l. a < Suc m \<and> \<not> bit ou a} =
      (if l ! m \<noteq> None \<and> \<not> bit ou m then insert m {a \<in> lasts l. a < m \<and> \<not> bit ou a} else {a \<in> lasts l. a < m \<and> \<not> bit ou a})"
    using Suc.prems by (auto simp: lasts_def less_Suc_eq)
  moreover have "the (l ! m) < length orig" if "l ! m \<noteq> None"
    using that assms(1) Suc.prems by (simp add: lasts_def)
  ultimately show ?case
    using Suc by (auto simp: delete_last_def delete_nops split: option.split)
qed

section \<open>Properties\<close>

text \<open>
  C18.  The removal of dead stores keeps the live registers.  When a block of the code generator's statements runs to its
  end, so does the block without its dead stores, and every register in \<open>out_use\<close> and every register its branch uses has the same value;
  the branch stays.
\<close>

theorem opt_deadstores_sound:
  assumes "list_all straight stmts" and "st_code br = Some c" and "BPF_CLASS c = BPF_JMP \<or> BPF_CLASS c = BPF_RET"
    and "length (bpf_mem s) = BPF_MEMWORDS" and "run_stmts p w b stmts s = Next s'"
    and "opt_deadstores stmts br out_use dn = Inr (stmts', br', dn')"
  shows "br' = br \<and> length stmts' = length stmts \<and>
    (\<exists>t. run_stmts p w b stmts' s = Next t \<and> (\<forall>a < N_ATOMS. bit out_use a \<or> uses br a \<longrightarrow> reg t a = reg s' a))"
proof -
  let ?orig = "stmts @ [br]" and ?n = "length stmts"
  obtain K l dn1 where f: "fold deadstmt [0..<?n] (?orig, replicate N_ATOMS None, dn) = (nops K ?orig, l, dn1)"
      "dead_inv p w b ?orig ?n K l"
    using deadstmts_run [of ?n ?orig dn p w b] assms(1) by (auto simp: nth_append list_all_length)
  let ?l = "clear_used (atomuse br) l"
  have inv: "dead_inv p w b ?orig ?n K ?l" by (rule dead_inv_clear [OF f(2)])
  then have K: "K \<subseteq> {..<?n}" "\<forall>a \<in> lasts ?l. the (?l ! a) < ?n" and len: "length l = N_ATOMS"
    using f(2) by (auto simp: dead_inv_def)
  have br: "nops K ?orig ! ?n = br" using K(1) by (auto simp: nops_nth)
  have "atomdef br = -1" using assms(2,3) by (auto simp: atomdef_def)
  then have f1: "deadstmt ?n (nops K ?orig, l, dn1) = (nops K ?orig, ?l, dn1)"
    by (simp add: deadstmt_def br)
  define D where "D = {a \<in> lasts ?l. a < N_ATOMS \<and> \<not> bit out_use a}"
  define J where "J = K \<union> (\<lambda>a. the (?l ! a)) ` D"
  obtain dn2 where f2: "fold (delete_last out_use) [0..<N_ATOMS] (nops K ?orig, ?l, dn1) = (nops J ?orig, ?l, dn2)"
    using delete_lasts_run [of ?l ?orig N_ATOMS out_use K dn1] K(2) unfolding J_def D_def by (auto intro: less_SucI)
  have J: "J \<subseteq> {..<?n}" using K by (auto simp: J_def D_def)
  have "fold deadstmt [0..<Suc ?n] (?orig, replicate N_ATOMS None, dn) = (nops K ?orig, ?l, dn1)"
    by (simp add: f(1) f1)
  moreover have "last (nops J ?orig) = nops J ?orig ! ?n"
    using length_nops [of J ?orig] by (subst last_conv_nth) (auto simp del: length_nops)
  ultimately have res: "stmts' = take ?n (nops J ?orig)" "br' = nops J ?orig ! ?n"
    using assms(6) f2 by (auto simp: opt_deadstores_def butlast_conv_take last_conv_nth split: if_splits)
  have "D \<subseteq> lasts ?l" by (auto simp: D_def)
  then obtain t where t: "run_stmts p w b (take ?n (nops J ?orig)) s = Next t" "agree_but D s' t"
    using dead_invD [OF inv _ assms(4), of D s'] assms(5) by (auto simp: J_def)
  have "a \<notin> D" if "a < N_ATOMS" "bit out_use a \<or> uses br a" for a
    using that lasts_clear [OF len, of br] by (auto simp: D_def)
  then show ?thesis
    using t res J by (auto simp: agree_but_def nops_nth)
qed

text \<open>\<open>ld #7; st M[0]; ld #8; st M[0]; ld #1; ld M[0]\<close>, of which only the accumulator is used behind the block.\<close>

lemma opt_deadstores_sound_witness:
  "\<exists>stmts' t dn. opt_deadstores (map (\<lambda>(c, k). \<lparr>st_code = Some c, st_k = k\<rparr>) [(0, 7), (2, 0), (0, 8), (2, 0), (0, 1), (0x60, 0)])
       \<lparr>st_code = Some 0x15, st_k = 8\<rparr> 0 True = Inr (stmts', \<lparr>st_code = Some 0x15, st_k = 8\<rparr>, dn) \<and>
     map st_code stmts' = [Some 0, None, Some 0, Some 2, None, Some 0x60] \<and>
     run_stmts [] 0 0 stmts' \<lparr>bpf_pc = 0, bpf_A = 0, bpf_X = 0, bpf_mem = replicate 16 0\<rparr> = Next t \<and> bpf_A t = 8"
proof -
  let ?b = "map (\<lambda>(c, k). \<lparr>st_code = Some c, st_k = k\<rparr>) [(0, 7), (2, 0), (0, 8), (2, 0), (0, 1), (0x60, 0)]"
  let ?br = "\<lparr>st_code = Some 0x15, st_k = 8\<rparr>" and ?s = "\<lparr>bpf_pc = 0, bpf_A = 0, bpf_X = 0, bpf_mem = replicate 16 0\<rparr>"
  have st: "list_all straight ?b" by code_simp
  have cl: "BPF_CLASS 0x15 = BPF_JMP \<or> BPF_CLASS 0x15 = BPF_RET" by (simp add: BPF_CLASS_def)
  have "case run_stmts [] 0 0 ?b ?s of Next s' \<Rightarrow> bpf_A s' = 8 | _ \<Rightarrow> False" by code_simp
  then obtain s' where s': "run_stmts [] 0 0 ?b ?s = Next s'" "bpf_A s' = 8" by (cases "run_stmts [] 0 0 ?b ?s") auto
  have "case opt_deadstores ?b ?br 0 True of
      Inr (stmts', br', dn) \<Rightarrow> map st_code stmts' = [Some 0, None, Some 0, Some 2, None, Some 0x60] | _ \<Rightarrow> False" by code_simp
  then obtain stmts' br' dn where o: "opt_deadstores ?b ?br 0 True = Inr (stmts', br', dn)"
      and codes: "map st_code stmts' = [Some 0, None, Some 0, Some 2, None, Some 0x60]"
    by (auto split: sum.splits)
  have "uses ?br A_ATOM" by (simp add: uses_def atomuse_def code_defs)
  moreover have "br' = ?br \<and> length stmts' = length ?b \<and>
      (\<exists>t. run_stmts [] 0 0 stmts' ?s = Next t \<and> (\<forall>a < N_ATOMS. bit (0 :: u32) a \<or> uses ?br a \<longrightarrow> reg t a = reg s' a))"
    by (rule opt_deadstores_sound [OF st _ cl _ s'(1) o]) simp_all
  ultimately obtain t where "br' = ?br" "run_stmts [] 0 0 stmts' ?s = Next t" "reg t A_ATOM = reg s' A_ATOM"
    by auto
  then have "br' = ?br" "run_stmts [] 0 0 stmts' ?s = Next t" "bpf_A t = 8"
    using s'(2) by (simp_all add: reg_AX)
  then show ?thesis using o codes by (intro exI conjI) simp_all
qed

end
