(* ===== verification/Fcode.thy ===== *)
theory Fcode
  imports Opt_Value
begin

text \<open>
  From the flow graph of a filter to its program, the last part of \<open>optimize.c\<close>: \<open>slength\<close>, \<open>count_stmts\<close>, \<open>convert_code_r\<close>
  and \<open>icode_to_fcode\<close>.  A block is its index in the list of blocks, a statement of a list has an address, to which jumps inside the
  block refer.  The marks are the set of marked blocks, \<open>ftail\<close> is an index of the array that starts at \<open>fstart\<close>.  The
  recursion visits each block once, so its depth is at most the number of blocks.
\<close>

section \<open>The flow graph\<close>

record snode =
  sn_addr :: nat
  sn_stmt :: stmt
  sn_jt :: "nat option"
  sn_jf :: "nat option"

record block =
  bk_stmts :: "snode list"
  bk_s :: stmt
  bk_jt :: "nat option"
  bk_jf :: "nat option"
  bk_longjt :: nat
  bk_longjf :: nat
  bk_offset :: int

type_synonym graph = "block list"

definition slength :: "snode list \<Rightarrow> nat" where
  "slength l = length (filter (\<lambda>n. st_code (sn_stmt n) \<noteq> None) l)"

definition block_size :: "block \<Rightarrow> nat" where
  "block_size b = slength (bk_stmts b) + 1 + bk_longjt b + bk_longjf b"

text \<open>\<open>count_stmts\<close> with the marks, \<open>None\<close> when the depth is exceeded.\<close>

fun count_stmts :: "nat \<Rightarrow> graph \<Rightarrow> nat option \<Rightarrow> nat set \<Rightarrow> (nat \<times> nat set) option" where
  "count_stmts 0 g p M = None"
| "count_stmts (Suc n) g None M = Some (0, M)"
| "count_stmts (Suc n) g (Some p) M =
     (if p \<ge> length g then None
      else if p \<in> M then Some (0, M)
      else case count_stmts n g (bk_jt (g ! p)) (insert p M) of None \<Rightarrow> None
        | Some (a, M1) \<Rightarrow> (case count_stmts n g (bk_jf (g ! p)) M1 of None \<Rightarrow> None
          | Some (b, M2) \<Rightarrow> Some (block_size (g ! p) + (a + b), M2)))"

section \<open>One block\<close>

datatype conv_error = No_jump_destination | No_destination_found | Outside_array | Null_pointer | Too_deep

abbreviation (input) "zero_insn \<equiv> \<lparr>insn_code = 0, insn_jt = 0, insn_jf = 0, insn_k = 0\<rparr>"

text \<open>The index in \<open>offset[]\<close>, which holds the first \<open>slen\<close> statements, deleted ones too.\<close>

fun offset_of :: "nat \<Rightarrow> nat list \<Rightarrow> nat \<Rightarrow> nat option" where
  "offset_of i [] a = None"
| "offset_of i (x # r) a = (if x = a then Some i else offset_of (i + 1) r a)"

definition local_jump :: "nat list \<Rightarrow> nat \<Rightarrow> snode \<Rightarrow> bpf_insn \<Rightarrow> conv_error + bpf_insn" where
  "local_jump offset off n i =
     (case (sn_jt n, sn_jf n) of
        (Some t, Some f) \<Rightarrow>
          (case (offset_of 0 offset t, offset_of 0 offset f) of
             (Some a, Some b) \<Rightarrow> Inr (i\<lparr>insn_jt := word_of_int (int a - int off - 1), insn_jf := word_of_int (int b - int off - 1)\<rparr>)
           | _ \<Rightarrow> Inl No_destination_found)
      | _ \<Rightarrow> Inl No_jump_destination)"

text \<open>The statements of a block, the next one at \<open>off\<close>.\<close>

fun emit_stmts :: "nat list \<Rightarrow> nat \<Rightarrow> nat \<Rightarrow> snode list \<Rightarrow> conv_error + bpf_insn list" where
  "emit_stmts offset slen off [] = Inr []"
| "emit_stmts offset slen off (n # r) =
     (case st_code (sn_stmt n) of None \<Rightarrow> emit_stmts offset slen off r
      | Some c \<Rightarrow>
          let i = \<lparr>insn_code = c, insn_jt = 0, insn_jf = 0, insn_k = st_k (sn_stmt n)\<rparr> in
          and_then (if BPF_CLASS c \<noteq> BPF_JMP \<or> c = (BPF_JMP OR BPF_JA) \<or> int off = int slen - 2 then Inr i else local_jump offset off n i)
            (\<lambda>i. and_then (emit_stmts offset slen (off + 1) r) (\<lambda>r. Inr (i # r))))"

datatype branch_out = Insns "bpf_insn list" | Long_jt | Long_jf

text \<open>The branch, at \<open>pos\<close>, of a block whose successors start at \<open>ot\<close> and \<open>fo\<close>, with the extra jumps; or the branch to mark as long.\<close>

definition emit_branch :: "block \<Rightarrow> int \<Rightarrow> int \<Rightarrow> int \<Rightarrow> branch_out" where
  "emit_branch b pos ot fo =
     (let i = \<lparr>insn_code = (case st_code (bk_s b) of Some c \<Rightarrow> c | None \<Rightarrow> 0xffff), insn_jt = 0, insn_jf = 0, insn_k = st_k (bk_s b)\<rparr>;
          off_t = (word_of_int (ot - pos - 1) :: u32); off_f = (word_of_int (fo - pos - 1) :: u32);
          ja = (\<lambda>k. \<lparr>insn_code = BPF_JMP OR BPF_JA, insn_jt = 0, insn_jf = 0, insn_k = k\<rparr>) in
      if bk_jt b = None then Insns [i]
      else if off_t \<ge> 256 \<and> bk_longjt b = 0 then Long_jt
      else let (jt, extra) = (if off_t \<ge> 256 then (0, [ja (off_t - 1)]) else (ucast off_t, [])) in
        if off_f \<ge> 256 \<and> bk_longjf b = 0 then Long_jf
        else let (jf, extra1) = (if off_f \<ge> 256 then (of_nat (length extra), extra @ [ja (off_f - (of_nat (length extra) + 1))])
                                 else (ucast off_f, extra)) in
          Insns (i\<lparr>insn_jt := jt, insn_jf := jf\<rparr> # extra1))"

section \<open>The graph\<close>

record conv =
  cv_blocks :: graph
  cv_marks :: "nat set"
  cv_insns :: "bpf_insn list"
  cv_tail :: int

datatype conv_res = Converted conv | Again graph | Failed conv_error

definition store_insns :: "bpf_insn list \<Rightarrow> nat \<Rightarrow> bpf_insn list \<Rightarrow> bpf_insn list option" where
  "store_insns arr i xs = (if i + length xs \<le> length arr then Some (take i arr @ xs @ drop (i + length xs) arr) else None)"

text \<open>\<open>convert_code_r\<close> on a block whose successors are done.\<close>

definition succ_offset :: "graph \<Rightarrow> nat option \<Rightarrow> int" where
  "succ_offset g q = (case q of None \<Rightarrow> 0 | Some q \<Rightarrow> bk_offset (g ! q))"

definition convert_block :: "nat \<Rightarrow> conv \<Rightarrow> conv_res" where
  "convert_block p cv =
     (let b = cv_blocks cv ! p; slen = slength (bk_stmts b); dst = cv_tail cv - int (block_size b);
          g1 = (cv_blocks cv)[p := b\<lparr>bk_offset := dst\<rparr>] in
      if dst < 0 then Failed Outside_array
      else if bk_jt b \<noteq> None \<and> bk_jf b = None then Failed Null_pointer
      else case emit_stmts (take slen (map sn_addr (bk_stmts b))) slen 0 (bk_stmts b) of
        Inl e \<Rightarrow> Failed e
      | Inr is \<Rightarrow>
          (case emit_branch b (dst + int slen) (succ_offset g1 (bk_jt b)) (succ_offset g1 (bk_jf b)) of
             Long_jt \<Rightarrow> Again (g1[p := (g1 ! p)\<lparr>bk_longjt := bk_longjt b + 1\<rparr>])
           | Long_jf \<Rightarrow> Again (g1[p := (g1 ! p)\<lparr>bk_longjf := bk_longjf b + 1\<rparr>])
           | Insns bs \<Rightarrow>
               (case store_insns (cv_insns cv) (nat dst) (is @ bs) of
                  None \<Rightarrow> Failed Outside_array
                | Some arr \<Rightarrow> Converted (cv\<lparr>cv_tail := dst, cv_blocks := g1, cv_insns := arr\<rparr>))))"

fun convert_code_r :: "nat \<Rightarrow> nat option \<Rightarrow> conv \<Rightarrow> conv_res" where
  "convert_code_r 0 p cv = Failed Too_deep"
| "convert_code_r (Suc n) None cv = Converted cv"
| "convert_code_r (Suc n) (Some p) cv =
     (if p \<ge> length (cv_blocks cv) then Failed Null_pointer
      else if p \<in> cv_marks cv then Converted cv
      else case convert_code_r n (bk_jf (cv_blocks cv ! p)) (cv\<lparr>cv_marks := insert p (cv_marks cv)\<rparr>) of
        Converted cv1 \<Rightarrow>
          (case convert_code_r n (bk_jt (cv_blocks cv ! p)) cv1 of
             Converted cv2 \<Rightarrow> convert_block p cv2
           | res \<Rightarrow> res)
      | res \<Rightarrow> res)"

text \<open>A branch that needs a long jump makes the loop start again; it has one unset flag less.\<close>

definition unset_flags :: "graph \<Rightarrow> nat" where
  "unset_flags g = sum_list (map (\<lambda>b. (if bk_longjt b = 0 then 1 else 0) + (if bk_longjf b = 0 then 1 else 0)) g)"

lemma sum_list_update_less:
  fixes f :: "'a \<Rightarrow> nat"
  assumes "p < length l"
  shows "f x < f (l ! p) \<Longrightarrow> sum_list (map f (l[p := x])) < sum_list (map f l)"
    and "f x = f (l ! p) \<Longrightarrow> sum_list (map f (l[p := x])) = sum_list (map f l)"
  using assms by (induction l arbitrary: p) (auto split: nat.splits simp: nth_Cons)

lemma emit_branch_long:
  "emit_branch b pos ot fo = Long_jt \<Longrightarrow> bk_longjt b = 0" "emit_branch b pos ot fo = Long_jf \<Longrightarrow> bk_longjf b = 0"
  by (auto simp: emit_branch_def Let_def split: if_splits)

lemma convert_block_again:
  assumes "convert_block p cv = Again g" and "p < length (cv_blocks cv)"
  shows "unset_flags g < unset_flags (cv_blocks cv)"
proof -
  let ?b = "cv_blocks cv ! p"
  obtain dst where "g = (cv_blocks cv)[p := ?b\<lparr>bk_offset := dst, bk_longjt := bk_longjt ?b + 1\<rparr>] \<and> bk_longjt ?b = 0
      \<or> g = (cv_blocks cv)[p := ?b\<lparr>bk_offset := dst, bk_longjf := bk_longjf ?b + 1\<rparr>] \<and> bk_longjf ?b = 0"
    using assms by (auto simp: convert_block_def Let_def dest: emit_branch_long split: if_splits sum.splits branch_out.splits option.splits)
  then show ?thesis
    using assms(2) unfolding unset_flags_def by (auto intro!: sum_list_update_less(1))
qed

lemma convert_block_done:
  assumes "convert_block p cv = Converted cv'" and "p < length (cv_blocks cv)"
  shows "unset_flags (cv_blocks cv') = unset_flags (cv_blocks cv)" "length (cv_blocks cv') = length (cv_blocks cv)"
proof -
  obtain dst where "cv_blocks cv' = (cv_blocks cv)[p := (cv_blocks cv ! p)\<lparr>bk_offset := dst\<rparr>]"
    using assms by (auto simp: convert_block_def Let_def split: if_splits sum.splits branch_out.splits option.splits)
  then show "unset_flags (cv_blocks cv') = unset_flags (cv_blocks cv)" "length (cv_blocks cv') = length (cv_blocks cv)"
    using assms(2) by (simp_all add: unset_flags_def sum_list_update_less(2))
qed

lemma convert_some:
  assumes "p < length (cv_blocks cv)" "p \<notin> cv_marks cv"
  shows "convert_code_r (Suc n) (Some p) cv =
    (case convert_code_r n (bk_jf (cv_blocks cv ! p)) (cv\<lparr>cv_marks := insert p (cv_marks cv)\<rparr>) of
        Converted cv1 \<Rightarrow> (case convert_code_r n (bk_jt (cv_blocks cv ! p)) cv1 of Converted cv2 \<Rightarrow> convert_block p cv2 | res \<Rightarrow> res)
      | res \<Rightarrow> res)"
  using assms by simp

definition flags_ok :: "graph \<Rightarrow> conv_res \<Rightarrow> bool" where
  "flags_ok g res = (case res of
     Converted cv' \<Rightarrow> unset_flags (cv_blocks cv') = unset_flags g \<and> length (cv_blocks cv') = length g
   | Again g' \<Rightarrow> unset_flags g' < unset_flags g
   | Failed e \<Rightarrow> True)"

lemma convert_block_flags:
  assumes "p < length (cv_blocks cv)"
  shows "flags_ok (cv_blocks cv) (convert_block p cv)"
proof (cases "convert_block p cv")
  case (Converted cv')
  then show ?thesis using convert_block_done [OF Converted assms] by (simp add: flags_ok_def)
next
  case (Again g)
  then show ?thesis using convert_block_again [OF Again assms] by (simp add: flags_ok_def)
qed (simp add: flags_ok_def)

lemma flags_ok_trans:
  "unset_flags g = unset_flags g' \<Longrightarrow> length g = length g' \<Longrightarrow> flags_ok g res \<Longrightarrow> flags_ok g' res"
  by (cases res) (simp_all add: flags_ok_def)

lemma convert_flags: "flags_ok (cv_blocks cv) (convert_code_r n p cv)"
proof (induction n arbitrary: p cv)
  case (Suc n)
  show ?case
  proof (cases p)
    case (Some q)
    show ?thesis
    proof (cases "q \<ge> length (cv_blocks cv) \<or> q \<in> cv_marks cv")
      case False
      let ?cv = "cv\<lparr>cv_marks := insert q (cv_marks cv)\<rparr>" and ?jf = "bk_jf (cv_blocks cv ! q)" and ?jt = "bk_jt (cv_blocks cv ! q)"
      have e: "convert_code_r (Suc n) p cv = (case convert_code_r n ?jf ?cv of
          Converted cv1 \<Rightarrow> (case convert_code_r n ?jt cv1 of Converted cv2 \<Rightarrow> convert_block q cv2 | res \<Rightarrow> res) | res \<Rightarrow> res)"
        unfolding Some using False by (intro convert_some) auto
      have 1: "flags_ok (cv_blocks cv) (convert_code_r n ?jf ?cv)" using Suc.IH [of ?cv ?jf] by simp
      show ?thesis
      proof (cases "convert_code_r n ?jf ?cv")
        case c1: (Converted cv1)
        then have f1: "unset_flags (cv_blocks cv1) = unset_flags (cv_blocks cv)" "length (cv_blocks cv1) = length (cv_blocks cv)"
          using 1 by (simp_all add: flags_ok_def)
        have 2: "flags_ok (cv_blocks cv) (convert_code_r n ?jt cv1)"
          using flags_ok_trans [OF f1 Suc.IH] .
        show ?thesis
        proof (cases "convert_code_r n ?jt cv1")
          case c2: (Converted cv2)
          then have f2: "unset_flags (cv_blocks cv2) = unset_flags (cv_blocks cv)" "length (cv_blocks cv2) = length (cv_blocks cv)"
            using 2 by (simp_all add: flags_ok_def)
          have "flags_ok (cv_blocks cv) (convert_block q cv2)"
            by (rule flags_ok_trans [OF f2 convert_block_flags]) (use False f2 in simp)
          then show ?thesis by (simp only: e c1 c2 conv_res.case)
        qed (use 2 in \<open>simp_all only: e c1 conv_res.case\<close>)
      qed (use 1 in \<open>simp_all only: e conv_res.case\<close>)
    qed (auto simp: Some flags_ok_def)
  qed (simp add: flags_ok_def)
qed (simp add: flags_ok_def)

text \<open>The loop.\<close>

definition start_conv :: "graph \<Rightarrow> nat \<Rightarrow> conv" where
  "start_conv g n = \<lparr>cv_blocks = g, cv_marks = {}, cv_insns = replicate n zero_insn, cv_tail = int n\<rparr>"

function icode_to_fcode :: "graph \<Rightarrow> nat \<Rightarrow> conv_error + bpf_insn list" where
  "icode_to_fcode g root =
     (case count_stmts (length g + 2) g (Some root) {} of
        None \<Rightarrow> Inl Too_deep
      | Some (n, _) \<Rightarrow>
          (case convert_code_r (length g + 2) (Some root) (start_conv g n) of
             Converted cv \<Rightarrow> Inr (cv_insns cv)
           | Again g' \<Rightarrow> icode_to_fcode g' root
           | Failed e \<Rightarrow> Inl e))"
  by pat_completeness auto
termination
proof (relation "measure (\<lambda>(g, root). unset_flags g)")
  fix g root n g' and M :: "nat set"
  assume "convert_code_r (length g + 2) (Some root) (start_conv g n) = Again g'"
  then show "((g', root), (g, root)) \<in> measure (\<lambda>(g, root). unset_flags g)"
    using convert_flags [of "start_conv g n" "length g + 2" "Some root"] by (simp add: start_conv_def flags_ok_def)
qed auto

declare icode_to_fcode.simps [simp del]

section \<open>Flow graphs\<close>

definition succs :: "graph \<Rightarrow> nat \<Rightarrow> nat set" where
  "succs g p = {q. bk_jt (g ! p) = Some q \<or> bk_jf (g ! p) = Some q}"

inductive_set reach :: "graph \<Rightarrow> nat \<Rightarrow> nat set" for g p where
  here: "p \<in> reach g p"
| next_block: "q \<in> reach g p \<Longrightarrow> r \<in> succs g q \<Longrightarrow> r \<in> reach g p"

definition branch_codes :: "u16 list" where
  "branch_codes = [0x15, 0x25, 0x35, 0x45, 0x1d, 0x2d, 0x3d, 0x4d]"

text \<open>
  A graph as the code generator makes it: the blocks can be given levels, as \<open>find_levels\<close> does, so there is no cycle;
  a block ends in a test with two successors or in a return; its statements do not jump.
\<close>

definition block_ok :: "graph \<Rightarrow> (nat \<Rightarrow> nat) \<Rightarrow> nat \<Rightarrow> bool" where
  "block_ok g level p \<longleftrightarrow> level p < length g \<and> (bk_jt (g ! p) = None \<longleftrightarrow> bk_jf (g ! p) = None) \<and>
     (\<forall>q \<in> succs g p. q < length g \<and> level q < level p) \<and> (\<forall>n \<in> set (bk_stmts (g ! p)). straight (sn_stmt n)) \<and>
     (\<exists>c. st_code (bk_s (g ! p)) = Some c \<and> (if bk_jt (g ! p) = None then c = 0x06 \<or> c = 0x16 else c \<in> set branch_codes))"

definition flow_graph :: "graph \<Rightarrow> (nat \<Rightarrow> nat) \<Rightarrow> bool" where
  "flow_graph g level \<longleftrightarrow> (\<forall>p < length g. block_ok g level p)"

lemma reach_trans: "r \<in> reach g q \<Longrightarrow> q \<in> reach g p \<Longrightarrow> r \<in> reach g p"
  by (induction rule: reach.induct) (auto intro: reach.intros)

lemma reach_unfold: "reach g p = insert p (\<Union>q \<in> succs g p. reach g q)"
proof
  show "reach g p \<subseteq> insert p (\<Union>q \<in> succs g p. reach g q)"
  proof
    fix x assume "x \<in> reach g p"
    then show "x \<in> insert p (\<Union>q \<in> succs g p. reach g q)"
      by induction (auto intro: reach.intros)
  qed
  show "insert p (\<Union>q \<in> succs g p. reach g q) \<subseteq> reach g p"
    using reach_trans [of _ g _ p] reach.next_block [OF reach.here] reach.here by blast
qed

lemma succs_level: "flow_graph g level \<Longrightarrow> p < length g \<Longrightarrow> q \<in> succs g p \<Longrightarrow> q < length g \<and> level q < level p"
  by (simp add: flow_graph_def block_ok_def)

lemma reach_level:
  assumes "flow_graph g level" "p < length g" "q \<in> reach g p"
  shows "q < length g \<and> (q = p \<or> level q < level p)"
  using assms(3)
proof induction
  case here
  then show ?case using assms(2) by simp
next
  case (next_block q r)
  then show ?case using succs_level [OF assms(1), of q r] by auto
qed

lemma finite_reach: "flow_graph g level \<Longrightarrow> p < length g \<Longrightarrow> finite (reach g p)"
  by (rule finite_subset [of _ "{..<length g}"]) (auto dest: reach_level)

lemma reach_closed:
  assumes "x \<in> reach g p" "p \<in> M" "\<forall>m \<in> M. succs g m \<subseteq> M"
  shows "x \<in> M"
  using assms by induction auto

definition reach_opt :: "graph \<Rightarrow> nat option \<Rightarrow> nat set" where
  "reach_opt g p = (case p of None \<Rightarrow> {} | Some q \<Rightarrow> reach g q)"

lemma reach_parts: "reach g p = insert p (reach_opt g (bk_jf (g ! p)) \<union> reach_opt g (bk_jt (g ! p)))"
  by (subst reach_unfold) (auto simp: succs_def reach_opt_def split: option.splits)

text \<open>The sizes of the blocks that are still to be visited.\<close>

definition todo :: "graph \<Rightarrow> nat set \<Rightarrow> nat set \<Rightarrow> nat" where
  "todo g R M = sum (\<lambda>p. block_size (g ! p)) (R - M)"

lemma todo_parts:
  assumes g: "flow_graph g level" "p < length g" and p: "p \<notin> M"
  shows "todo g (reach g p) M = block_size (g ! p) + (todo g (reach_opt g (bk_jf (g ! p))) (insert p M) +
     todo g (reach_opt g (bk_jt (g ! p))) (insert p M \<union> reach_opt g (bk_jf (g ! p))))"
    and "todo g (reach g p) M = block_size (g ! p) + (todo g (reach_opt g (bk_jt (g ! p))) (insert p M) +
     todo g (reach_opt g (bk_jf (g ! p))) (insert p M \<union> reach_opt g (bk_jt (g ! p))))"
proof -
  let ?F = "reach_opt g (bk_jf (g ! p))" and ?T = "reach_opt g (bk_jt (g ! p))"
  have "reach_opt g q \<subseteq> {..<length g}" if "q = bk_jf (g ! p) \<or> q = bk_jt (g ! p)" for q
  proof (cases q)
    case (Some r)
    then have "r < length g" using that succs_level [OF g, of r] by (auto simp: succs_def)
    then show ?thesis using reach_level [OF g(1)] Some by (auto simp: reach_opt_def)
  qed (simp add: reach_opt_def)
  then have fin: "finite ?F" "finite ?T" by (auto intro: finite_subset)
  have split: "sum f (insert p (A \<union> B) - M) = f p + (sum f (A - insert p M) + sum f (B - (insert p M \<union> A)))"
    if "finite A" "finite B" for f :: "nat \<Rightarrow> nat" and A B
  proof -
    have "insert p (A \<union> B) - M = insert p ((A - insert p M) \<union> (B - (insert p M \<union> A)))" using p by auto
    moreover have "sum f ((A - insert p M) \<union> (B - (insert p M \<union> A))) = sum f (A - insert p M) + sum f (B - (insert p M \<union> A))"
      using that by (intro sum.union_disjoint) auto
    ultimately show ?thesis using that by simp
  qed
  show "todo g (reach g p) M = block_size (g ! p) + (todo g ?F (insert p M) + todo g ?T (insert p M \<union> ?F))"
    unfolding todo_def reach_parts [of g p] by (rule split [OF fin])
  show "todo g (reach g p) M = block_size (g ! p) + (todo g ?T (insert p M) + todo g ?F (insert p M \<union> ?T))"
    unfolding todo_def reach_parts [of g p] Un_commute [of ?F ?T] by (rule split [OF fin(2,1)])
qed

text \<open>The marks while some blocks (\<open>S\<close>) are not finished: the others have marked successors only.\<close>

definition marks_ok :: "graph \<Rightarrow> nat set \<Rightarrow> nat set \<Rightarrow> bool" where
  "marks_ok g S M \<longleftrightarrow> (\<forall>m \<in> M - S. succs g m \<subseteq> M - S)"

lemma marked_reach:
  assumes "marks_ok g S M" "p \<in> M" "p \<notin> S"
  shows "M \<union> reach g p = M" "todo g (reach g p) M = 0"
proof -
  have "reach g p \<subseteq> M - S"
    using reach_closed [of _ g p "M - S"] assms by (auto simp: marks_ok_def)
  then have "M \<union> reach g p = M" "reach g p - M = {}" by auto
  then show "M \<union> reach g p = M" "todo g (reach g p) M = 0" by (simp_all only: todo_def sum.empty)
qed

lemma count_stmts_run:
  assumes g: "flow_graph g level" and "p < length g" and "marks_ok g S M" "\<forall>s \<in> S. level p < level s" and "level p + 2 \<le> n"
  shows "count_stmts n g (Some p) M = Some (todo g (reach g p) M, M \<union> reach g p) \<and> marks_ok g S (M \<union> reach g p)"
  using assms(2-)
proof (induction n arbitrary: p S M)
  case (Suc n)
  show ?case
  proof (cases "p \<in> M")
    case True
    then show ?thesis using Suc.prems marked_reach [OF Suc.prems(2) True] by auto
  next
    case False
    let ?S = "insert p S" and ?T = "bk_jt (g ! p)" and ?F = "bk_jf (g ! p)"
    have sub: "count_stmts n g q M' = Some (todo g (reach_opt g q) M', M' \<union> reach_opt g q) \<and> marks_ok g ?S (M' \<union> reach_opt g q)"
      if M': "marks_ok g ?S M'" and q: "q = ?T \<or> q = ?F" for q M'
    proof (cases q)
      case None
      then show ?thesis using M' Suc.prems(4) by (cases n) (simp_all add: todo_def reach_opt_def)
    next
      case (Some r)
      then have r: "r < length g" "level r < level p" using succs_level [OF g Suc.prems(1), of r] q by (auto simp: succs_def)
      then have "\<forall>s \<in> ?S. level r < level s" using Suc.prems(3) by auto
      then show ?thesis using Suc.IH [OF r(1) M'] r(2) Suc.prems(4) Some by (simp add: reach_opt_def)
    qed
    have m0: "marks_ok g ?S (insert p M)" using Suc.prems(2) False by (auto simp: marks_ok_def)
    note 1 = sub [OF m0 disjI1 [OF refl]]
    note 2 = sub [OF conjunct2 [OF 1] disjI2 [OF refl]]
    have R: "insert p M \<union> reach_opt g ?T \<union> reach_opt g ?F = M \<union> reach g p"
      using reach_parts [of g p] by auto
    have "marks_ok g S (M \<union> reach g p)"
    proof -
      have "succs g p \<subseteq> reach g p" using reach.intros by blast
      moreover have "S \<inter> succs g p = {}" "p \<notin> S" "p \<notin> succs g p"
        using Suc.prems(3) succs_level [OF g Suc.prems(1)] by (auto dest: less_asym)
      moreover have "\<forall>m \<in> (M \<union> reach g p) - ?S. succs g m \<subseteq> (M \<union> reach g p) - ?S"
        using conjunct2 [OF 2] unfolding R by (simp only: marks_ok_def)
      ultimately show ?thesis unfolding marks_ok_def by blast
    qed
    then show ?thesis
      using Suc.prems(1) False conjunct1 [OF 1] conjunct1 [OF 2] todo_parts(2) [OF g Suc.prems(1) False] unfolding R by simp
  qed
qed simp

section \<open>The code of a block\<close>

definition insn_of :: "stmt \<Rightarrow> bpf_insn" where
  "insn_of st = \<lparr>insn_code = (case st_code st of Some c \<Rightarrow> c | None \<Rightarrow> 0xffff), insn_jt = 0, insn_jf = 0, insn_k = st_k st\<rparr>"

definition body :: "block \<Rightarrow> stmt list" where
  "body b = filter (\<lambda>st. st_code st \<noteq> None) (map sn_stmt (bk_stmts b))"

lemma length_body: "length (body b) = slength (bk_stmts b)"
  by (simp add: body_def slength_def filter_map comp_def)

lemma straight_not_jump: "straight st \<Longrightarrow> st_code st = Some c \<Longrightarrow> BPF_CLASS c \<noteq> BPF_JMP"
proof -
  assume "straight st" "st_code st = Some c"
  then have "c \<in> set (straight_codes @ mem_codes)" by (auto simp: straight_def)
  then show ?thesis
    unfolding straight_codes_def mem_codes_def append.simps
    by (simp only: list.set insert_iff empty_iff simp_thms) (elim disjE; simp add: BPF_CLASS_def)
qed

lemma emit_straight:
  "\<forall>n \<in> set l. straight (sn_stmt n) \<Longrightarrow>
   emit_stmts offset slen off l = Inr (map insn_of (filter (\<lambda>st. st_code st \<noteq> None) (map sn_stmt l)))"
proof (induction l arbitrary: off)
  case (Cons n r)
  then show ?case
    using straight_not_jump [of "sn_stmt n"] by (cases "st_code (sn_stmt n)") (auto simp: insn_of_def Let_def and_then_def)
qed simp

lemma emit_branch_length:
  "emit_branch b pos ot fo = Insns bs \<Longrightarrow> 1 \<le> length bs \<and> length bs \<le> 1 + bk_longjt b + bk_longjf b"
  by (auto simp: emit_branch_def Let_def split: if_splits)

text \<open>A block is finished: its code is in the array, in front of that of its successors.\<close>

definition finished :: "graph \<Rightarrow> bpf_insn list \<Rightarrow> nat \<Rightarrow> bool" where
  "finished B arr p \<longleftrightarrow> (let b = B ! p; slen = slength (bk_stmts b) in
     0 \<le> bk_offset b \<and> bk_offset b + int (block_size b) \<le> int (length arr) \<and>
     (\<exists>bs. emit_branch b (bk_offset b + int slen) (succ_offset B (bk_jt b)) (succ_offset B (bk_jf b)) = Insns bs \<and>
        (\<forall>i < slen + length bs. arr ! (nat (bk_offset b) + i) = (map insn_of (body b) @ bs) ! i)) \<and>
     (\<forall>q \<in> succs B p. bk_offset b + int (block_size b) \<le> bk_offset (B ! q)))"

text \<open>The blocks, but for their offsets and, after a new start, for their flags.\<close>

definition same_code :: "block \<Rightarrow> block \<Rightarrow> bool" where
  "same_code b b' \<longleftrightarrow> bk_stmts b' = bk_stmts b \<and> bk_s b' = bk_s b \<and> bk_jt b' = bk_jt b \<and> bk_jf b' = bk_jf b \<and>
     max 1 (bk_longjt b') = max 1 (bk_longjt b) \<and> max 1 (bk_longjf b') = max 1 (bk_longjf b)"

definition same_graph :: "graph \<Rightarrow> graph \<Rightarrow> bool" where
  "same_graph g B \<longleftrightarrow> length B = length g \<and> (\<forall>p < length g. same_code (g ! p) (B ! p))"

definition same_sizes :: "graph \<Rightarrow> graph \<Rightarrow> bool" where
  "same_sizes g B \<longleftrightarrow> same_graph g B \<and> (\<forall>p < length g. bk_longjt (B ! p) = bk_longjt (g ! p) \<and> bk_longjf (B ! p) = bk_longjf (g ! p))"

lemma same_graph_facts:
  assumes "same_graph g B" "p < length g"
  shows "succs B p = succs g p" "bk_jt (B ! p) = bk_jt (g ! p)" "bk_jf (B ! p) = bk_jf (g ! p)" "bk_stmts (B ! p) = bk_stmts (g ! p)"
    "bk_s (B ! p) = bk_s (g ! p)" "length B = length g"
  using assms by (simp_all add: same_graph_def same_code_def succs_def)

lemma same_sizes_facts:
  assumes "same_sizes g B" "p < length g"
  shows "same_graph g B" "block_size (B ! p) = block_size (g ! p)"
  using assms same_graph_facts(4) [of g B p] by (auto simp: same_sizes_def block_size_def)

lemma same_graph_flow:
  assumes "same_graph g B" "flow_graph g level"
  shows "flow_graph B level"
proof -
  have len: "length B = length g" using assms(1) by (simp add: same_graph_def)
  have "block_ok B level p" if "p < length g" for p
  proof -
    have "block_ok B level p = block_ok g level p"
      by (simp only: block_ok_def same_graph_facts [OF assms(1) that] len)
    then show ?thesis using assms(2) that by (simp add: flow_graph_def)
  qed
  then show ?thesis by (simp add: flow_graph_def len)
qed

definition conv_inv :: "graph \<Rightarrow> nat set \<Rightarrow> conv \<Rightarrow> bool" where
  "conv_inv g S cv \<longleftrightarrow> same_sizes g (cv_blocks cv) \<and> 0 \<le> cv_tail cv \<and> cv_tail cv \<le> int (length (cv_insns cv)) \<and>
     S \<subseteq> cv_marks cv \<and> cv_marks cv \<subseteq> {..<length g} \<and> marks_ok g S (cv_marks cv) \<and>
     (\<forall>m \<in> cv_marks cv - S. finished (cv_blocks cv) (cv_insns cv) m \<and> cv_tail cv \<le> bk_offset (cv_blocks cv ! m))"

lemma store_insns_nth:
  assumes "store_insns arr i xs = Some arr'"
  shows "length arr' = length arr" "j < length xs \<Longrightarrow> arr' ! (i + j) = xs ! j" "i + length xs \<le> j \<Longrightarrow> j < length arr \<Longrightarrow> arr' ! j = arr ! j"
  using assms by (auto simp: store_insns_def nth_append split: if_splits)

text \<open>A finished block stays so when code is stored in front of it and another block gets its place.\<close>

lemma finished_keeps:
  assumes "finished B arr m" and "m \<noteq> p" and "p \<notin> succs B m" and "store_insns arr i xs = Some arr'" and "int (i + length xs) \<le> bk_offset (B ! m)"
  shows "finished (B[p := b']) arr' m"
proof -
  let ?b = "B ! m" and ?B = "B[p := b']"
  have b: "?B ! m = ?b" using assms(2) by simp
  have q: "?B ! q = B ! q" if "q \<in> succs B m" for q using that assms(3) by (metis nth_list_update_neq)
  have so: "succ_offset ?B (bk_jt ?b) = succ_offset B (bk_jt ?b)" "succ_offset ?B (bk_jf ?b) = succ_offset B (bk_jf ?b)"
    using q by (auto simp: succ_offset_def succs_def split: option.split)
  have su: "succs ?B m = succs B m" using b by (simp add: succs_def)
  obtain bs where bs: "emit_branch ?b (bk_offset ?b + int (slength (bk_stmts ?b))) (succ_offset B (bk_jt ?b)) (succ_offset B (bk_jf ?b)) = Insns bs"
      "\<forall>j < slength (bk_stmts ?b) + length bs. arr ! (nat (bk_offset ?b) + j) = (map insn_of (body ?b) @ bs) ! j"
    using assms(1) by (auto simp: finished_def Let_def)
  have o: "0 \<le> bk_offset ?b" "bk_offset ?b + int (block_size ?b) \<le> int (length arr)"
    using assms(1) by (simp_all add: finished_def Let_def)
  have "arr' ! (nat (bk_offset ?b) + j) = arr ! (nat (bk_offset ?b) + j)" if "j < slength (bk_stmts ?b) + length bs" for j
  proof -
    have "int (nat (bk_offset ?b) + j) < int (length arr)"
      using that o emit_branch_length [OF bs(1)] unfolding block_size_def by linarith
    then have "nat (bk_offset ?b) + j < length arr" by linarith
    moreover have "i + length xs \<le> nat (bk_offset ?b) + j" using assms(5) o(1) by simp
    ultimately show ?thesis using store_insns_nth(3) [OF assms(4)] by blast
  qed
  then show ?thesis
    using assms(1) bs b so su q store_insns_nth(1) [OF assms(4)] by (auto simp: finished_def Let_def)
qed

text \<open>One block whose successors are finished.\<close>

definition conv_post :: "graph \<Rightarrow> nat set \<Rightarrow> conv \<Rightarrow> nat set \<Rightarrow> conv_res \<Rightarrow> bool" where
  "conv_post g S cv R res = (case res of
     Converted cv' \<Rightarrow> conv_inv g S cv' \<and> cv_marks cv' = cv_marks cv \<union> R \<and> cv_tail cv' = cv_tail cv - int (todo g R (cv_marks cv)) \<and>
       length (cv_insns cv') = length (cv_insns cv)
   | Again g' \<Rightarrow> same_graph g g'
   | Failed e \<Rightarrow> False)"

lemma same_graph_update:
  assumes "same_graph g B" "same_code (B ! p) b"
  shows "same_graph g (B[p := b])"
proof -
  have "same_code (g ! q) (B[p := b] ! q)" if "q < length g" for q
    using assms that by (cases "q = p") (simp_all add: same_graph_def same_code_def)
  then show ?thesis using assms(1) by (simp add: same_graph_def)
qed

lemma convert_block_run:
  assumes g: "flow_graph g level" and p: "p < length g" and inv: "conv_inv g (insert p S) cv" and pS: "p \<notin> S"
    and succs: "succs g p \<subseteq> cv_marks cv - insert p S" and room: "int (block_size (g ! p)) \<le> cv_tail cv"
  shows "case convert_block p cv of
      Converted cv' \<Rightarrow> conv_inv g S cv' \<and> cv_marks cv' = cv_marks cv \<and> cv_tail cv' = cv_tail cv - int (block_size (g ! p)) \<and>
        length (cv_insns cv') = length (cv_insns cv)
    | Again g' \<Rightarrow> same_graph g g'
    | Failed e \<Rightarrow> False"
proof -
  define B b dst slen where "B = cv_blocks cv" and "b = B ! p" and "dst = cv_tail cv - int (block_size b)" and "slen = slength (bk_stmts b)"
  have sz: "same_sizes g B" using inv by (simp add: conv_inv_def B_def)
  note sg = same_sizes_facts(1) [OF sz p] and bsz = same_sizes_facts(2) [OF sz p]
  have len: "length B = length g" using sg by (simp add: same_graph_def)
  have d0: "0 \<le> dst" using room bsz by (simp add: dst_def b_def)
  have jtf: "bk_jt b = None \<longleftrightarrow> bk_jf b = None" and st: "\<forall>n \<in> set (bk_stmts b). straight (sn_stmt n)"
    using g p same_graph_facts [OF sg p] by (simp_all add: b_def flow_graph_def block_ok_def)
  define B1 where "B1 = B[p := b\<lparr>bk_offset := dst\<rparr>]"
  have B1: "same_graph g B1" "B1 ! p = b\<lparr>bk_offset := dst\<rparr>"
    using same_graph_update [OF sg, of p "b\<lparr>bk_offset := dst\<rparr>"] p len by (simp_all add: B1_def b_def same_code_def)
  have again: "bk_longjt b = 0 \<Longrightarrow> same_graph g (B1[p := (B1 ! p)\<lparr>bk_longjt := bk_longjt b + 1\<rparr>])"
      "bk_longjf b = 0 \<Longrightarrow> same_graph g (B1[p := (B1 ! p)\<lparr>bk_longjf := bk_longjf b + 1\<rparr>])"
    by (intro same_graph_update [OF B1(1)], simp add: same_code_def B1(2))+
  define bo where "bo = emit_branch b (dst + int slen) (succ_offset B1 (bk_jt b)) (succ_offset B1 (bk_jf b))"
  have cb: "convert_block p cv = (case bo of
       Long_jt \<Rightarrow> Again (B1[p := (B1 ! p)\<lparr>bk_longjt := bk_longjt b + 1\<rparr>])
     | Long_jf \<Rightarrow> Again (B1[p := (B1 ! p)\<lparr>bk_longjf := bk_longjf b + 1\<rparr>])
     | Insns bs \<Rightarrow> (case store_insns (cv_insns cv) (nat dst) (map insn_of (body b) @ bs) of
          None \<Rightarrow> Failed Outside_array
        | Some arr \<Rightarrow> Converted (cv\<lparr>cv_tail := dst, cv_blocks := B1, cv_insns := arr\<rparr>)))"
  proof -
    have "emit_stmts (take slen (map sn_addr (bk_stmts b))) slen 0 (bk_stmts b) = Inr (map insn_of (body b))"
      unfolding body_def by (rule emit_straight [OF st])
    moreover have "\<not> (bk_jt b \<noteq> None \<and> bk_jf b = None)" using jtf by argo
    moreover have "\<not> dst < 0" using d0 by simp
    ultimately show ?thesis
      unfolding convert_block_def Let_def B_def [symmetric] b_def [symmetric] slen_def [symmetric] dst_def [symmetric] B1_def [symmetric]
        bo_def [symmetric] by (simp only: if_not_P if_False sum.case)
  qed
  show ?thesis
  proof (cases bo)
    case (Insns bs)
    let ?xs = "map insn_of (body b) @ bs"
    have bl: "1 \<le> length bs" "length bs \<le> 1 + bk_longjt b + bk_longjf b"
      using emit_branch_length Insns by (auto simp: bo_def)
    have tl: "cv_tail cv \<le> int (length (cv_insns cv))" "0 \<le> cv_tail cv" using inv by (simp_all add: conv_inv_def)
    have xs: "nat dst + length ?xs \<le> nat (cv_tail cv)"
      using bl d0 unfolding dst_def block_size_def slen_def by (simp add: length_body)
    then have "nat dst + length ?xs \<le> length (cv_insns cv)" using tl(1) by linarith
    then obtain arr where arr: "store_insns (cv_insns cv) (nat dst) ?xs = Some arr"
      by (simp only: store_insns_def if_True)
    define cv' where "cv' = cv\<lparr>cv_tail := dst, cv_blocks := B1, cv_insns := arr\<rparr>"
    have res: "convert_block p cv = Converted cv'" using cb Insns arr by (simp add: cv'_def)
    have keep: "finished B1 arr m \<and> dst \<le> bk_offset (B1 ! m)" if m: "m \<in> cv_marks cv - insert p S" for m
    proof -
      have f: "finished B (cv_insns cv) m" "cv_tail cv \<le> bk_offset (B ! m)" and mg: "m < length g" and ms: "succs g m \<subseteq> cv_marks cv - insert p S"
        using inv m by (auto simp: conv_inv_def B_def marks_ok_def)
      have "p \<notin> succs B m" using ms same_graph_facts(1) [OF sg mg] by auto
      moreover have "int (nat dst + length ?xs) \<le> bk_offset (B ! m)" using xs f(2) tl(2) by linarith
      ultimately have "finished B1 arr m"
        unfolding B1_def using m by (intro finished_keeps [OF f(1) _ _ arr]) auto
      moreover have "dst \<le> bk_offset (B1 ! m)"
        using f(2) m by (simp add: B1_def dst_def)
      ultimately show ?thesis by simp
    qed
    have fp: "finished B1 arr p"
    proof -
      have "dst + int (block_size b) \<le> bk_offset (B1 ! q)" if "q \<in> succs g p" for q
      proof -
        have "q \<in> cv_marks cv - insert p S" using that succs by auto
        then have "cv_tail cv \<le> bk_offset (B ! q)" "q \<noteq> p" using inv by (auto simp: conv_inv_def B_def)
        then show ?thesis by (simp add: B1_def dst_def)
      qed
      moreover have "succs B1 p = succs g p" by (rule same_graph_facts(1) [OF B1(1) p])
      moreover have "block_size (b\<lparr>bk_offset := dst\<rparr>) = block_size b" "body (b\<lparr>bk_offset := dst\<rparr>) = body b"
        by (simp_all add: block_size_def body_def)
      moreover have "emit_branch (b\<lparr>bk_offset := dst\<rparr>) = emit_branch b" by (intro ext) (simp add: emit_branch_def Let_def)
      ultimately show ?thesis
        unfolding finished_def Let_def B1(2)
        using Insns d0 tl(1) store_insns_nth [OF arr] by (simp add: bo_def slen_def dst_def length_body)
    qed
    have "same_sizes g B1"
      using sz B1(1) p len by (auto simp: same_sizes_def B1_def b_def nth_list_update)
    moreover have "marks_ok g S (cv_marks cv)"
      using inv succs pS by (auto simp: conv_inv_def marks_ok_def)
    moreover have "\<forall>m \<in> cv_marks cv - S. finished B1 arr m \<and> dst \<le> bk_offset (B1 ! m)"
    proof
      fix m assume "m \<in> cv_marks cv - S"
      then show "finished B1 arr m \<and> dst \<le> bk_offset (B1 ! m)" using keep [of m] fp B1(2) by (cases "m = p") auto
    qed
    ultimately have "conv_inv g S cv'"
      using inv d0 tl xs store_insns_nth(1) [OF arr] by (auto simp: conv_inv_def cv'_def)
    then show ?thesis
      using res bsz store_insns_nth(1) [OF arr] by (simp add: cv'_def dst_def b_def B_def [symmetric])
  qed (use cb again emit_branch_long in \<open>simp_all add: bo_def\<close>)
qed

lemma conv_inv_mark:
  assumes "conv_inv g S cv" "p < length g" "p \<notin> cv_marks cv"
  shows "conv_inv g (insert p S) (cv\<lparr>cv_marks := insert p (cv_marks cv)\<rparr>)"
  using assms by (auto simp: conv_inv_def marks_ok_def)

lemma conv_postD:
  assumes "conv_post g S cv R (Converted cv')"
  shows "conv_inv g S cv'" "cv_marks cv' = cv_marks cv \<union> R" "cv_tail cv' = cv_tail cv - int (todo g R (cv_marks cv))"
    "length (cv_insns cv') = length (cv_insns cv)"
  using assms by (simp_all add: conv_post_def)

lemma convert_run:
  assumes g: "flow_graph g level" and "p < length g" and "conv_inv g S cv" "\<forall>s \<in> S. level p < level s" and "level p + 2 \<le> n"
    and "int (todo g (reach g p) (cv_marks cv)) \<le> cv_tail cv"
  shows "conv_post g S cv (reach g p) (convert_code_r n (Some p) cv)"
  using assms(2-)
proof (induction n arbitrary: p S cv)
  case (Suc n)
  have sg: "same_graph g (cv_blocks cv)" using Suc.prems(2) same_sizes_facts(1) [OF _ Suc.prems(1)] by (simp add: conv_inv_def)
  note sgf = same_graph_facts [OF sg Suc.prems(1)]
  have pS: "p \<notin> S" using Suc.prems(3) by auto
  show ?case
  proof (cases "p \<in> cv_marks cv")
    case True
    have "marks_ok g S (cv_marks cv)" using Suc.prems(2) by (simp add: conv_inv_def)
    then show ?thesis
      using True Suc.prems(1,2) sgf(6) marked_reach [OF _ True pS] by (simp add: conv_post_def)
  next
    case False
    let ?S = "insert p S" and ?T = "bk_jt (g ! p)" and ?F = "bk_jf (g ! p)" and ?cv = "cv\<lparr>cv_marks := insert p (cv_marks cv)\<rparr>"
    let ?M = "cv_marks cv"
    have sub: "conv_post g ?S c (reach_opt g q) (convert_code_r n q c)"
      if c: "conv_inv g ?S c" and q: "q = ?T \<or> q = ?F" and room: "int (todo g (reach_opt g q) (cv_marks c)) \<le> cv_tail c" for q c
    proof (cases q)
      case None
      then show ?thesis using c Suc.prems(4) by (cases n) (simp_all add: conv_post_def todo_def reach_opt_def)
    next
      case (Some r)
      then have r: "r < length g" "level r < level p" using succs_level [OF g Suc.prems(1), of r] q by (auto simp: succs_def)
      then have "\<forall>s \<in> ?S. level r < level s" using Suc.prems(3) by auto
      then show ?thesis using Suc.IH [OF r(1) c] r(2) Suc.prems(4) Some room by (simp add: reach_opt_def)
    qed
    note parts = todo_parts(1) [OF g Suc.prems(1) False]
    have e: "convert_code_r (Suc n) (Some p) cv = (case convert_code_r n ?F ?cv of
        Converted cv1 \<Rightarrow> (case convert_code_r n ?T cv1 of Converted cv2 \<Rightarrow> convert_block p cv2 | res \<Rightarrow> res) | res \<Rightarrow> res)"
      using convert_some [of p cv n, unfolded sgf(2,3)] False Suc.prems(1) sgf(6) by simp
    have 1: "conv_post g ?S ?cv (reach_opt g ?F) (convert_code_r n ?F ?cv)"
      using parts Suc.prems(5) by (intro sub conv_inv_mark [OF Suc.prems(2,1) False]) auto
    show ?thesis
    proof (cases "convert_code_r n ?F ?cv")
      case c1: (Converted cv1)
      note r1 = conv_postD [OF 1 [unfolded c1]]
      have 2: "conv_post g ?S cv1 (reach_opt g ?T) (convert_code_r n ?T cv1)"
        using parts Suc.prems(5) r1 by (intro sub) auto
      show ?thesis
      proof (cases "convert_code_r n ?T cv1")
        case c2: (Converted cv2)
        note r2 = conv_postD [OF 2 [unfolded c2]]
        have M: "cv_marks cv2 = ?M \<union> reach g p" using r1(2) r2(2) reach_parts [of g p] by auto
        have "succs g p \<subseteq> reach g p" using reach.intros by blast
        moreover have "S \<inter> succs g p = {}" "p \<notin> succs g p"
          using Suc.prems(3) succs_level [OF g Suc.prems(1)] by (auto dest: less_asym)
        ultimately have "succs g p \<subseteq> cv_marks cv2 - ?S" unfolding M by blast
        moreover have "cv_tail cv2 = cv_tail cv + int (block_size (g ! p)) - int (todo g (reach g p) ?M)"
          using r1(2,3) r2(3) parts by simp
        ultimately have "conv_post g S cv (reach g p) (convert_block p cv2)"
          using convert_block_run [OF g Suc.prems(1) r2(1) pS] Suc.prems(5) r1(4) r2(4) M
          unfolding conv_post_def by (auto split: conv_res.splits)
        then show ?thesis by (simp only: e c1 c2 conv_res.case)
      qed (use 2 in \<open>simp_all only: e c1 conv_res.case conv_post_def\<close>)
    qed (use 1 in \<open>simp_all only: e conv_res.case conv_post_def\<close>)
  qed
qed simp

text \<open>The root is stored last, at the start of the array.\<close>

lemma convert_block_offset:
  assumes "convert_block p cv = Converted cv'" and "p < length (cv_blocks cv)"
  shows "bk_offset (cv_blocks cv' ! p) = cv_tail cv'"
  using assms by (auto simp: convert_block_def Let_def split: if_splits sum.splits branch_out.splits option.splits)

lemma convert_root_offset:
  assumes "convert_code_r (Suc n) (Some p) cv = Converted cv'" and "p < length (cv_blocks cv)" "p \<notin> cv_marks cv"
  shows "bk_offset (cv_blocks cv' ! p) = cv_tail cv'"
proof -
  let ?cv = "cv\<lparr>cv_marks := insert p (cv_marks cv)\<rparr>" and ?F = "bk_jf (cv_blocks cv ! p)" and ?T = "bk_jt (cv_blocks cv ! p)"
  obtain cv1 cv2 where c: "convert_code_r n ?F ?cv = Converted cv1" "convert_code_r n ?T cv1 = Converted cv2" "convert_block p cv2 = Converted cv'"
    using assms(1) unfolding convert_some [OF assms(2,3)] by (auto split: conv_res.splits)
  have "length (cv_blocks cv2) = length (cv_blocks cv)"
    using convert_flags [of ?cv n ?F] convert_flags [of cv1 n ?T] c(1,2) by (simp add: flags_ok_def)
  then show ?thesis using convert_block_offset [OF c(3)] assms(2) by simp
qed

text \<open>The size of the graph when every branch has both extra jumps.\<close>

definition max_size :: "graph \<Rightarrow> nat" where
  "max_size g = sum_list (map (\<lambda>b. slength (bk_stmts b) + 1 + max 1 (bk_longjt b) + max 1 (bk_longjf b)) g)"

lemma same_graph_trans: "same_graph g h \<Longrightarrow> same_graph h k \<Longrightarrow> same_graph g k"
  by (simp add: same_graph_def same_code_def)

lemma same_graph_max_size: "same_graph g B \<Longrightarrow> max_size B = max_size g"
  unfolding max_size_def same_graph_def same_code_def by (intro arg_cong [of _ _ sum_list] nth_equalityI) simp_all

lemma same_graph_reach:
  assumes "same_graph g B" "flow_graph g level" "p < length g"
  shows "reach B p = reach g p"
proof -
  have "x \<in> reach B p" if "x \<in> reach g p" for x
    using that
  proof induction
    case (next_block q r)
    then show ?case using reach_level [OF assms(2,3)] same_graph_facts(1) [OF assms(1)] by (metis reach.next_block)
  qed (rule reach.here)
  moreover have "x \<in> reach g p" if "x \<in> reach B p" for x
    using that
  proof induction
    case (next_block q r)
    then show ?case using reach_level [OF assms(2,3)] same_graph_facts(1) [OF assms(1)] by (metis reach.next_block)
  qed (rule reach.here)
  ultimately show ?thesis by blast
qed

lemma todo_max_size:
  assumes "R \<subseteq> {..<length g}"
  shows "todo g R M \<le> max_size g"
proof -
  let ?f = "\<lambda>b. slength (bk_stmts b) + 1 + max 1 (bk_longjt b) + max 1 (bk_longjf b)"
  have "todo g R M \<le> (\<Sum>p \<in> R - M. ?f (g ! p))"
    unfolding todo_def by (intro sum_mono) (simp add: block_size_def)
  also have "\<dots> \<le> (\<Sum>p < length g. ?f (g ! p))"
    using assms by (intro sum_mono2) auto
  also have "\<dots> = max_size g"
    by (simp add: max_size_def sum_list_sum_nth atLeast0LessThan)
  finally show ?thesis .
qed

lemma icode_to_fcode_run:
  assumes "flow_graph g level" "root < length g"
  shows "\<exists>B fp. icode_to_fcode g root = Inr fp \<and> same_graph g B \<and> bk_offset (B ! root) = 0 \<and>
    length fp \<le> max_size g \<and> (\<forall>q \<in> reach g root. finished B fp q)"
  using assms
proof (induction "unset_flags g" arbitrary: g rule: less_induct)
  case less
  let ?R = "reach g root" and ?n = "todo g (reach g root) {}"
  let ?cv = "start_conv g ?n"
  have lv: "level root < length g" using less.prems by (simp add: flow_graph_def block_ok_def)
  have c: "count_stmts (length g + 2) g (Some root) {} = Some (?n, {} \<union> ?R)"
    by (rule conjunct1 [OF count_stmts_run [OF less.prems, of "{}"]]) (use lv in \<open>simp_all add: marks_ok_def\<close>)
  have "same_graph g g" by (simp add: same_graph_def same_code_def)
  then have inv: "conv_inv g {} ?cv" by (simp add: conv_inv_def start_conv_def same_sizes_def marks_ok_def)
  have post: "conv_post g {} ?cv ?R (convert_code_r (length g + 2) (Some root) ?cv)"
    by (rule convert_run [OF less.prems inv]) (use lv in \<open>simp_all add: start_conv_def\<close>)
  show ?case
  proof (cases "convert_code_r (length g + 2) (Some root) ?cv")
    case (Converted cv)
    note r = conv_postD [OF post [unfolded Converted]]
    have "bk_offset (cv_blocks cv ! root) = 0"
      using convert_root_offset [of "length g + 1" root ?cv cv] Converted less.prems(2) r(3) by (simp add: start_conv_def)
    moreover have "length (cv_insns cv) \<le> max_size g"
      using todo_max_size [of ?R g "{}"] reach_level [OF less.prems] r(4) by (auto simp: start_conv_def)
    moreover have "icode_to_fcode g root = Inr (cv_insns cv)"
      by (simp only: icode_to_fcode.simps [of g root] c option.case prod.case Converted conv_res.case)
    ultimately show ?thesis
      using r(1,2) less.prems(2) same_sizes_facts(1)
      by (intro exI [of _ "cv_blocks cv"] exI [of _ "cv_insns cv"]) (auto simp: conv_inv_def start_conv_def)
  next
    case (Again g')
    have sg: "same_graph g g'" using post Again by (simp add: conv_post_def)
    have lt: "unset_flags g' < unset_flags g"
      using convert_flags [of ?cv "length g + 2" "Some root"] Again by (simp add: start_conv_def flags_ok_def)
    have len: "root < length g'" using sg less.prems(2) by (simp add: same_graph_def)
    have e: "icode_to_fcode g root = icode_to_fcode g' root"
      by (simp only: icode_to_fcode.simps [of g root] c option.case prod.case Again conv_res.case)
    show ?thesis
      using less.hyps [OF lt same_graph_flow [OF sg less.prems(1)] len] same_graph_trans [OF sg]
      unfolding e same_graph_max_size [OF sg] same_graph_reach [OF sg less.prems] by blast
  next
    case (Failed e)
    then show ?thesis using post by (simp add: conv_post_def)
  qed
qed

end
