(* ===== verification/Fcode_Run.thy ===== *)
theory Fcode_Run
  imports Fcode
begin

text \<open>
  What the program made of a flow graph does: the filter machine runs it as one runs the graph, block after block.
\<close>

section \<open>Running a flow graph\<close>

text \<open>The test of a branch, and the answer of a return.\<close>

definition test_holds :: "stmt \<Rightarrow> bpf_state \<Rightarrow> bool" where
  "test_holds st s =
     (let c = (case st_code st of Some c \<Rightarrow> c | None \<Rightarrow> 0); y = (if BPF_SRC c = BPF_X then bpf_X s else st_k st) in
      if BPF_OP c = BPF_JEQ then bpf_A s = y
      else if BPF_OP c = BPF_JGT then bpf_A s > y
      else if BPF_OP c = BPF_JGE then bpf_A s \<ge> y
      else bpf_A s AND y \<noteq> 0)"

definition answer :: "stmt \<Rightarrow> bpf_state \<Rightarrow> u32" where
  "answer st s = (if st_code st = Some (BPF_RET OR BPF_A) then bpf_A s else st_k st)"

fun graph_run :: "nat \<Rightarrow> graph \<Rightarrow> bytes \<Rightarrow> u32 \<Rightarrow> u32 \<Rightarrow> nat \<Rightarrow> bpf_state \<Rightarrow> bpf_result option" where
  "graph_run 0 g p w b q s = None"
| "graph_run (Suc n) g p w b q s =
     (case run_stmts p w b (map sn_stmt (bk_stmts (g ! q))) s of
        Return v \<Rightarrow> Some (Ret v)
      | Undefined e \<Rightarrow> Some (Undef e)
      | Next s' \<Rightarrow>
          (case (bk_jt (g ! q), bk_jf (g ! q)) of
             (Some t, Some f) \<Rightarrow> graph_run n g p w b (if test_holds (bk_s (g ! q)) s' then t else f) s'
           | _ \<Rightarrow> Some (Ret (answer (bk_s (g ! q)) s'))))"

section \<open>Statements in the program\<close>

lemma run_stmts_body: "run_stmts p w b (filter (\<lambda>st. st_code st \<noteq> None) l) s = run_stmts p w b l s"
  by (induction l arbitrary: s) (auto simp: run_stmt_def split: bpf_turn.split)

lemma outcome_pc: "outcome_of p w b c k (s\<lparr>bpf_pc := n\<rparr>) = outcome_of p w b c k s"
  by (simp add: outcome_of_def reg_def)

lemma exec_straight_insn:
  assumes "straight st" and "st_code st \<noteq> None"
  shows "exec_insn p w b (insn_of st) (s\<lparr>bpf_pc := n\<rparr>) =
    (case run_stmt p w b st s of Next s' \<Rightarrow> Next (s'\<lparr>bpf_pc := n + 1\<rparr>) | t \<Rightarrow> t)"
proof -
  obtain c where c: "st_code st = Some c" using assms(2) by auto
  show ?thesis
  proof (cases "outcome_of p w b c (st_k st) s")
    case (Value x)
    then show ?thesis
      by (simp add: insn_of_def c exec_insn_outcome [OF assms(1) c] run_stmt_outcome [OF assms(1) c] outcome_pc set_reg_def)
  next
    case (Leaves t)
    then have "\<not> goes_on t" by (rule outcome_leaves)
    then show ?thesis
      using Leaves by (cases t) (simp_all add: insn_of_def c exec_insn_outcome [OF assms(1) c] run_stmt_outcome [OF assms(1) c] outcome_pc goes_on_def)
  qed
qed

lemma loop_straight:
  assumes "\<forall>st \<in> set l. straight st \<and> st_code st \<noteq> None" and "\<forall>i < length l. f ! (o0 + i) = insn_of (l ! i)" and "o0 + length l \<le> length f"
  shows "bpf_loop (length l + n) (bpf_step f p w b) (s\<lparr>bpf_pc := int o0\<rparr>) =
    (case run_stmts p w b l s of
       Next s' \<Rightarrow> bpf_loop n (bpf_step f p w b) (s'\<lparr>bpf_pc := int (o0 + length l)\<rparr>)
     | Return v \<Rightarrow> Some (Ret v)
     | Undefined e \<Rightarrow> Some (Undef e))"
  using assms
proof (induction l arbitrary: o0 s)
  case (Cons st l)
  have "f ! o0 = insn_of st" using spec [OF Cons.prems(2), of 0] by simp
  then have step: "bpf_step f p w b (s\<lparr>bpf_pc := int o0\<rparr>) =
      (case run_stmt p w b st s of Next s' \<Rightarrow> Next (s'\<lparr>bpf_pc := int o0 + 1\<rparr>) | t \<Rightarrow> t)"
    using exec_straight_insn [of st p w b "int o0" s] Cons.prems(1,3) by (simp add: bpf_step_def)
  have "f ! (Suc o0 + i) = insn_of (l ! i)" if "i < length l" for i
    using spec [OF Cons.prems(2), of "Suc i"] that by simp
  then have IH: "bpf_loop (length l + n) (bpf_step f p w b) (s'\<lparr>bpf_pc := int (Suc o0)\<rparr>) =
    (case run_stmts p w b l s' of
       Next s' \<Rightarrow> bpf_loop n (bpf_step f p w b) (s'\<lparr>bpf_pc := int (Suc o0 + length l)\<rparr>)
     | Return v \<Rightarrow> Some (Ret v)
     | Undefined e \<Rightarrow> Some (Undef e))" for s' :: bpf_state
    using Cons.prems(1,3) by (intro Cons.IH) auto
  have pc: "int o0 + 1 = int (Suc o0)" by simp
  show ?case
    by (cases "run_stmt p w b st s") (simp_all add: step pc IH del: of_nat_Suc split: bpf_turn.split)
qed simp

section \<open>Branches in the program\<close>

lemma loop_mono: "bpf_loop n turn s = Some r \<Longrightarrow> n \<le> m \<Longrightarrow> bpf_loop m turn s = Some r"
proof (induction n arbitrary: m s)
  case (Suc n)
  then show ?case by (cases m) (auto split: bpf_turn.splits)
qed simp

text \<open>A test whose code is one of the machine's jumps to \<open>jt\<close> or \<open>jf\<close>.\<close>

lemma exec_test:
  assumes "st_code st = Some c" "c \<in> set branch_codes"
  shows "exec_insn p w b ((insn_of st)\<lparr>insn_jt := jt, insn_jf := jf\<rparr>) s =
    Next (s\<lparr>bpf_pc := bpf_pc s + int (unat (if test_holds st s then jt else jf)) + 1\<rparr>)"
  using assms(2) unfolding branch_codes_def
  by (simp only: list.set insert_iff empty_iff simp_thms)
    (elim disjE; simp add: assms(1) insn_of_def test_holds_def exec_insn_def exec_load_def exec_mem_def exec_jump_def branch_def BPF_SRC_def BPF_OP_def)

lemma exec_return:
  assumes "st_code st = Some c" "c = 0x06 \<or> c = 0x16"
  shows "exec_insn p w b (insn_of st) s = Return (answer st s)"
  using assms(2) by (elim disjE) (simp_all add: assms(1) insn_of_def answer_def exec_insn_def exec_load_def)

lemma test_holds_pc [simp]: "test_holds st (s\<lparr>bpf_pc := n\<rparr>) = test_holds st s"
  by (simp add: test_holds_def)

lemma answer_pc [simp]: "answer st (s\<lparr>bpf_pc := n\<rparr>) = answer st s"
  by (simp add: answer_def)

abbreviation (input) "jump_by k \<equiv> \<lparr>insn_code = BPF_JMP OR BPF_JA, insn_jt = 0, insn_jf = 0, insn_k = k\<rparr>"

lemma exec_ja: "exec_insn p w b (jump_by k) s = Next (s\<lparr>bpf_pc := bpf_pc s + sint k + 1\<rparr>)"
  by (simp add: exec_insn_def exec_load_def exec_mem_def exec_jump_def)

text \<open>The two distances of a branch: a short one is in the branch, a long one in an extra jump at \<open>e\<close> behind it.\<close>

lemma dist_word:
  assumes "0 \<le> d" "d < 2 ^ 31"
  shows "unat (word_of_int d :: u32) = nat d" "sint (word_of_int d :: u32) = d"
proof -
  show u: "unat (word_of_int d :: u32) = nat d"
    using assms by (simp add: unat_eq_nat_uint uint_word_of_int)
  show "sint (word_of_int d :: u32) = d"
    using assms by (subst sint_u32_nonneg) (simp_all add: u)
qed

definition short_or_long :: "bpf_insn list \<Rightarrow> nat \<Rightarrow> u8 \<Rightarrow> nat \<Rightarrow> bool" where
  "short_or_long bs d j e \<longleftrightarrow> d < 256 \<and> unat j = d \<or>
     256 \<le> d \<and> unat j = e \<and> e + 1 < length bs \<and> bs ! (e + 1) = jump_by (word_of_int (int d - int e - 1))"

lemma emit_branch_dist:
  assumes "emit_branch b pos ot fo = Insns bs" and "bk_jt b \<noteq> None"
    and "pos < ot" "ot - pos \<le> 2 ^ 31" and "pos < fo" "fo - pos \<le> 2 ^ 31"
  shows "\<exists>jt jf e e'. hd bs = (insn_of (bk_s b))\<lparr>insn_jt := jt, insn_jf := jf\<rparr> \<and> bs \<noteq> [] \<and>
    short_or_long bs (nat (ot - pos - 1)) jt e \<and> short_or_long bs (nat (fo - pos - 1)) jf e' \<and> e \<le> 1 \<and> e' \<le> 1"
proof -
  define dt df where "dt = nat (ot - pos - 1)" and "df = nat (fo - pos - 1)"
  have d: "int dt = ot - pos - 1" "int df = fo - pos - 1" and lt: "dt < 2 ^ 31" "df < 2 ^ 31"
    using assms(3-) by (auto simp: dt_def df_def)
  define wt wf :: u32 where "wt = word_of_int (int dt)" and "wf = word_of_int (int df)"
  have u: "unat wt = dt" "unat wf = df" using lt by (simp_all add: wt_def wf_def unat_of_nat)
  have lt256: "wt \<ge> 256 \<longleftrightarrow> dt \<ge> 256" "wf \<ge> 256 \<longleftrightarrow> df \<ge> 256" using u by (simp_all add: word_le_nat_alt)
  have short: "unat (ucast wt :: u8) = dt" if "dt < 256" using u that by (simp add: unsigned_ucast_eq take_bit_eq_mod)
  have short': "unat (ucast wf :: u8) = df" if "df < 256" using u that by (simp add: unsigned_ucast_eq take_bit_eq_mod)
  have k: "wt - 1 = word_of_int (int dt - 0 - 1)" "wf - 1 = word_of_int (int df - 0 - 1)" "wf - 2 = word_of_int (int df - 1 - 1)"
    by (simp_all add: wt_def wf_def)
  define i where "i = insn_of (bk_s b)"
  have e: "emit_branch b pos ot fo =
     (if dt \<ge> 256 \<and> bk_longjt b = 0 then Long_jt
      else let (jt, extra) = (if dt \<ge> 256 then (0, [jump_by (wt - 1)]) else (ucast wt, [])) in
        if df \<ge> 256 \<and> bk_longjf b = 0 then Long_jf
        else let (jf, extra1) = (if df \<ge> 256 then (of_nat (length extra), extra @ [jump_by (wf - (of_nat (length extra) + 1))])
                                 else (ucast wf, extra)) in
          Insns (i\<lparr>insn_jt := jt, insn_jf := jf\<rparr> # extra1))"
    using assms(2) unfolding emit_branch_def Let_def d [symmetric] wt_def [symmetric] wf_def [symmetric] lt256 i_def insn_of_def
    by (simp only: if_False)
  consider "dt < 256" "df < 256" | "dt < 256" "df \<ge> 256" | "dt \<ge> 256" "df < 256" | "dt \<ge> 256" "df \<ge> 256" by linarith
  then have "\<exists>jt jf e e'. hd bs = i\<lparr>insn_jt := jt, insn_jf := jf\<rparr> \<and> bs \<noteq> [] \<and> short_or_long bs dt jt e \<and> short_or_long bs df jf e' \<and>
      e \<le> 1 \<and> e' \<le> 1"
  proof cases
    case 1
    then have bs: "bs = [i\<lparr>insn_jt := ucast wt, insn_jf := ucast wf\<rparr>]" using e assms(1) by (auto split: if_splits)
    show ?thesis
      by (rule exI [of _ "ucast wt"], rule exI [of _ "ucast wf"], rule exI [of _ 0], rule exI [of _ 0],
        simp add: bs short_or_long_def 1 short short')
  next
    case 2
    then have bs: "bs = [i\<lparr>insn_jt := ucast wt, insn_jf := 0\<rparr>, jump_by (wf - 1)]" using e assms(1) by (auto split: if_splits)
    show ?thesis
      by (rule exI [of _ "ucast wt"], rule exI [of _ 0], rule exI [of _ 0], rule exI [of _ 0],
        simp add: bs short_or_long_def 2 short k)
  next
    case 3
    then have bs: "bs = [i\<lparr>insn_jt := 0, insn_jf := ucast wf\<rparr>, jump_by (wt - 1)]" using e assms(1) by (auto split: if_splits)
    show ?thesis
      by (rule exI [of _ 0], rule exI [of _ "ucast wf"], rule exI [of _ 0], rule exI [of _ 0],
        simp add: bs short_or_long_def 3 short' k)
  next
    case 4
    then have bs: "bs = [i\<lparr>insn_jt := 0, insn_jf := 1\<rparr>, jump_by (wt - 1), jump_by (wf - 2)]" using e assms(1) by (auto split: if_splits)
    show ?thesis
      by (rule exI [of _ 0], rule exI [of _ 1], rule exI [of _ 0], rule exI [of _ 1],
        simp add: bs short_or_long_def 4 k)
  qed
  then show ?thesis unfolding i_def dt_def df_def .
qed

text \<open>After a branch with the distance \<open>d\<close>, perhaps over an extra jump.\<close>

lemma jump_runs:
  assumes code: "\<forall>i < length bs. f ! (pos + i) = bs ! i" "pos + length bs \<le> length f" "bs \<noteq> []"
    and j: "short_or_long bs d j e" "e \<le> 1" "d < 2 ^ 31"
  shows "\<exists>k. k + 1 \<le> length bs \<and> (\<forall>n. bpf_loop (k + n) (bpf_step f p w b) (s\<lparr>bpf_pc := int pos + int (unat j) + 1\<rparr>) =
    bpf_loop n (bpf_step f p w b) (s\<lparr>bpf_pc := int pos + int d + 1\<rparr>))"
proof (cases "d < 256 \<and> unat j = d")
  case True
  then show ?thesis using code(3) by (intro exI [of _ 0]) (cases bs; simp)
next
  case False
  then have l: "256 \<le> d" "unat j = e" "e + 1 < length bs" "bs ! (e + 1) = jump_by (word_of_int (int d - int e - 1))"
    using j(1) by (auto simp: short_or_long_def)
  have "f ! (pos + (e + 1)) = jump_by (word_of_int (int d - int e - 1))" using spec [OF code(1), of "e + 1"] l(3,4) by simp
  moreover have "sint (word_of_int (int d - int e - 1) :: u32) = int d - int e - 1" using l(1) j(2,3) by (intro dist_word(2)) auto
  moreover have "nat (int pos + int e + 1) = pos + (e + 1)" by simp
  ultimately have "bpf_step f p w b (s\<lparr>bpf_pc := int pos + int (unat j) + 1\<rparr>) = Next (s\<lparr>bpf_pc := int pos + int d + 1\<rparr>)"
    using l(2,3) code(2) exec_ja [of p w b "word_of_int (int d - int e - 1)" "s\<lparr>bpf_pc := int pos + int e + 1\<rparr>"]
    unfolding bpf_step_def by simp
  then show ?thesis using l(3) by (intro exI [of _ 1]) simp
qed

text \<open>A whole branch, whose successors start at \<open>ot\<close> and \<open>fo\<close>.\<close>

lemma branch_runs:
  assumes b: "emit_branch blk (int pos) ot fo = Insns bs" "bk_jt blk \<noteq> None" "st_code (bk_s blk) = Some c" "c \<in> set branch_codes"
    and code: "\<forall>i < length bs. f ! (pos + i) = bs ! i" "pos + length bs \<le> length f"
    and dist: "int pos < ot" "ot - int pos \<le> 2 ^ 31" "int pos < fo" "fo - int pos \<le> 2 ^ 31"
  shows "\<exists>k \<le> length bs. \<forall>n. bpf_loop (k + n) (bpf_step f p w b) (s\<lparr>bpf_pc := int pos\<rparr>) =
    bpf_loop n (bpf_step f p w b) (s\<lparr>bpf_pc := if test_holds (bk_s blk) s then ot else fo\<rparr>)"
proof -
  define o1 where "o1 = (if test_holds (bk_s blk) s then ot else fo)"
  obtain jt jf e e' where j: "hd bs = (insn_of (bk_s blk))\<lparr>insn_jt := jt, insn_jf := jf\<rparr>" "bs \<noteq> []"
      "short_or_long bs (nat (ot - int pos - 1)) jt e" "short_or_long bs (nat (fo - int pos - 1)) jf e'" "e \<le> 1" "e' \<le> 1"
    using emit_branch_dist [OF b(1,2) dist] by blast
  define j1 where "j1 = (if test_holds (bk_s blk) s then jt else jf)"
  have "f ! pos = hd bs" using spec [OF code(1), of 0] j(2) by (simp add: hd_conv_nth)
  then have step: "bpf_step f p w b (s\<lparr>bpf_pc := int pos\<rparr>) = Next (s\<lparr>bpf_pc := int pos + int (unat j1) + 1\<rparr>)"
    using exec_test [OF b(3,4), of p w b jf jt "s\<lparr>bpf_pc := int pos\<rparr>"] j(1,2) code(2) unfolding bpf_step_def j1_def
    by (cases bs) simp_all
  have o1: "int pos < o1" "o1 - int pos \<le> 2 ^ 31" using dist by (simp_all add: o1_def)
  then have d: "nat (o1 - int pos - 1) < 2 ^ 31" by simp
  obtain e1 where e1: "short_or_long bs (nat (o1 - int pos - 1)) j1 e1" "e1 \<le> 1"
    using j(3-6) unfolding j1_def o1_def by (cases "test_holds (bk_s blk) s") auto
  obtain k where k: "k + 1 \<le> length bs" "\<And>n. bpf_loop (k + n) (bpf_step f p w b) (s\<lparr>bpf_pc := int pos + int (unat j1) + 1\<rparr>) =
      bpf_loop n (bpf_step f p w b) (s\<lparr>bpf_pc := int pos + int (nat (o1 - int pos - 1)) + 1\<rparr>)"
    using jump_runs [OF code j(2) e1 d, of p w b s] by blast
  have "int pos + int (nat (o1 - int pos - 1)) + 1 = o1" using o1 by simp
  then show ?thesis
    using k step unfolding o1_def [symmetric] by (intro exI [of _ "Suc k"]) simp
qed

section \<open>Properties\<close>

lemma graph_run_returns:
  assumes g: "flow_graph g level"
  shows "q < length g \<Longrightarrow> level q < n \<Longrightarrow> \<exists>r. graph_run n g p w b q s = Some r"
proof (induction n arbitrary: q s)
  case (Suc n)
  have "\<exists>r. graph_run n g p w b t s' = Some r" if "bk_jt (g ! q) = Some t \<or> bk_jf (g ! q) = Some t" for t s'
    using that succs_level [OF g Suc.prems(1), of t] Suc.IH [of t s'] Suc.prems(2) by (auto simp: succs_def)
  then show ?case by (auto split: bpf_turn.split option.split)
qed simp

lemma finished_runs:
  assumes g: "flow_graph g level" "root < length g" and sg: "same_graph g B" and fin: "\<forall>q \<in> reach g root. finished B f q" and len: "length f < 2 ^ 31"
  shows "q \<in> reach g root \<Longrightarrow> graph_run n g p w b q s = Some r \<Longrightarrow>
    \<exists>k. int k + bk_offset (B ! q) \<le> int (length f) \<and> bpf_loop k (bpf_step f p w b) (s\<lparr>bpf_pc := bk_offset (B ! q)\<rparr>) = Some r"
proof (induction n arbitrary: q s)
  case (Suc n)
  let ?step = "bpf_step f p w b" and ?b = "B ! q" and ?off = "bk_offset (B ! q)"
  have q: "q < length g" using reach_level [OF g Suc.prems(1)] by simp
  note sgf = same_graph_facts [OF sg q]
  define l o0 where "l = body ?b" and "o0 = nat ?off"
  have ok: "(bk_jt (g ! q) = None) = (bk_jf (g ! q) = None)" "\<forall>x \<in> set (bk_stmts (g ! q)). straight (sn_stmt x)"
    "\<exists>c. st_code (bk_s (g ! q)) = Some c \<and> (if bk_jt (g ! q) = None then c = 0x06 \<or> c = 0x16 else c \<in> set branch_codes)"
    using g(1) q by (auto simp: flow_graph_def block_ok_def)
  obtain c where c: "st_code (bk_s ?b) = Some c" "if bk_jt (g ! q) = None then c = 0x06 \<or> c = 0x16 else c \<in> set branch_codes"
    using ok(3) sgf by auto
  have fq: "finished B f q" using fin Suc.prems(1) by simp
  obtain bs where bs: "emit_branch ?b (?off + int (slength (bk_stmts ?b))) (succ_offset B (bk_jt ?b)) (succ_offset B (bk_jf ?b)) = Insns bs"
      "\<forall>i < slength (bk_stmts ?b) + length bs. f ! (nat ?off + i) = (map insn_of (body ?b) @ bs) ! i"
    using fq by (auto simp: finished_def Let_def)
  have off: "0 \<le> ?off" "?off + int (block_size ?b) \<le> int (length f)" "\<forall>t \<in> succs B q. ?off + int (block_size ?b) \<le> bk_offset (B ! t)"
    using fq by (simp_all add: finished_def Let_def)
  have bl: "1 \<le> length bs" "length l + length bs \<le> block_size ?b"
    using emit_branch_length [OF bs(1)] by (simp_all add: l_def length_body block_size_def)
  have o0: "int o0 = ?off" using off(1) by (simp add: o0_def)
  have room: "o0 + length l + length bs \<le> length f" using off(2) o0 bl by linarith
  have code: "\<forall>i < length l. f ! (o0 + i) = insn_of (l ! i)" "\<forall>i < length bs. f ! (o0 + length l + i) = bs ! i"
  proof -
    have all: "f ! (o0 + i) = (map insn_of l @ bs) ! i" if "i < length l + length bs" for i
      using bs(2) that by (simp add: l_def o0_def length_body)
    show "\<forall>i < length l. f ! (o0 + i) = insn_of (l ! i)" using all by (simp add: nth_append)
    show "\<forall>i < length bs. f ! (o0 + length l + i) = bs ! i"
      using all [of "length l + i" for i] by (simp add: nth_append add.assoc)
  qed
  have st: "\<forall>st \<in> set l. straight st \<and> st_code st \<noteq> None" using ok(2) sgf(4) by (auto simp: l_def body_def)
  have rs: "run_stmts p w b (map sn_stmt (bk_stmts (g ! q))) s = run_stmts p w b l s"
    unfolding l_def body_def sgf(4) by (rule run_stmts_body [symmetric])
  have room_l: "o0 + length l \<le> length f" using room by linarith
  have loop: "bpf_loop (length l + m) ?step (s\<lparr>bpf_pc := ?off\<rparr>) =
      (case run_stmts p w b l s of Next s' \<Rightarrow> bpf_loop m ?step (s'\<lparr>bpf_pc := int (o0 + length l)\<rparr>)
        | Return v \<Rightarrow> Some (Ret v) | Undefined e \<Rightarrow> Some (Undef e))" for m
    unfolding o0 [symmetric] by (rule loop_straight [OF st code(1) room_l])
  note run = Suc.prems(2) [unfolded graph_run.simps rs]
  show ?case
  proof (cases "run_stmts p w b l s")
    case (Next s')
    have pos: "?off + int (slength (bk_stmts ?b)) = int (o0 + length l)" using o0 by (simp add: l_def length_body)
    show ?thesis
    proof (cases "bk_jt (g ! q)")
      case None
      then have "f ! (o0 + length l) = insn_of (bk_s ?b)"
        using bs(1) spec [OF code(2), of 0] bl(1) sgf(2) by (auto simp: emit_branch_def insn_of_def)
      then have "bpf_loop 1 ?step (s'\<lparr>bpf_pc := int (o0 + length l)\<rparr>) = Some (Ret (answer (bk_s ?b) s'))"
        using exec_return [OF c(1), of p w b "s'\<lparr>bpf_pc := int (o0 + length l)\<rparr>"] c(2) None room bl(1) unfolding One_nat_def
        by (simp add: bpf_step_def nat_int_add)
      then show ?thesis
        using loop [of 1] Next run None sgf(5) room bl(1) o0 by (intro exI [of _ "length l + 1"]) simp
    next
      case (Some t)
      then obtain t' where t': "bk_jf (g ! q) = Some t'" using ok(1) by auto
      define u where "u = (if test_holds (bk_s ?b) s' then t else t')"
      have u: "u \<in> succs g q" using Some t' by (simp add: u_def succs_def)
      have "graph_run n g p w b u s' = Some r" using run Next Some t' sgf(5) by (simp add: u_def)
      then obtain k where k: "int k + bk_offset (B ! u) \<le> int (length f)" "bpf_loop k ?step (s'\<lparr>bpf_pc := bk_offset (B ! u)\<rparr>) = Some r"
        using Suc.IH reach.next_block [OF Suc.prems(1) u] by blast
      have tt: "bk_offset (B ! x) \<le> int (length f) \<and> ?off + int (block_size ?b) \<le> bk_offset (B ! x)" if "x = t \<or> x = t'" for x
      proof -
        have x: "x \<in> succs g q" using that Some t' by (auto simp: succs_def)
        then have "finished B f x" using fin reach.next_block [OF Suc.prems(1)] by blast
        then show ?thesis using x off(3) sgf(1) by (auto simp: finished_def Let_def)
      qed
      have "\<exists>k1 \<le> length bs. \<forall>m. bpf_loop (k1 + m) ?step (s'\<lparr>bpf_pc := int (o0 + length l)\<rparr>) =
          bpf_loop m ?step (s'\<lparr>bpf_pc := if test_holds (bk_s ?b) s' then bk_offset (B ! t) else bk_offset (B ! t')\<rparr>)"
      proof (rule branch_runs [OF _ _ c(1) _ code(2) room])
        show "emit_branch ?b (int (o0 + length l)) (bk_offset (B ! t)) (bk_offset (B ! t')) = Insns bs"
          using bs(1) pos Some t' sgf(2,3) by (simp add: succ_offset_def)
      qed (use Some sgf(2) c(2) tt [of t] tt [of t'] bl o0 len in auto)
      then obtain k1 where k1: "k1 \<le> length bs" "bpf_loop (k1 + k) ?step (s'\<lparr>bpf_pc := int (o0 + length l)\<rparr>) = Some r"
        using k(2) unfolding u_def by (auto split: if_splits)
      have "int (length l + (k1 + k)) + ?off \<le> int (length f)"
        using k(1) k1(1) bl tt [of u] unfolding u_def by (auto split: if_splits)
      then show ?thesis
        using loop [of "k1 + k"] Next k1(2) by (intro exI [of _ "length l + (k1 + k)"]) simp
    qed
  qed (use loop [of 0] run room_l o0 in \<open>auto intro!: exI [of _ "length l"]\<close>)
qed simp

text \<open>
  C10.  The program of a flow graph.  The code generator's flow graph, with blocks whose statements do not jump
  (\<open>flow_graph\<close>; jumps inside a block, made for \<open>protochain\<close>, are not covered), is put into an array, with as many new starts as
  branches turn out to be too long, and the filter machine, running the array on any packet, answers in at most as many turns as it has
  instructions what running the graph answers.
\<close>

theorem icode_to_fcode_correct:
  assumes "flow_graph g level" and "root < length g" and "max_size g < 2 ^ 31"
  shows "\<exists>fp. icode_to_fcode g root = Inr fp \<and> length fp \<le> max_size g \<and>
    (\<forall>mem0 p w b. \<exists>r. graph_run (length g) g p w b root \<lparr>bpf_pc = 0, bpf_A = 0, bpf_X = 0, bpf_mem = mem0\<rparr> = Some r \<and>
       bpf_filter (length fp) mem0 (Some fp) p w b = Some r)"
proof -
  obtain B fp where B: "icode_to_fcode g root = Inr fp" "same_graph g B" "bk_offset (B ! root) = 0" "length fp \<le> max_size g"
      "\<forall>q \<in> reach g root. finished B fp q"
    using icode_to_fcode_run [OF assms(1,2)] by blast
  have len: "length fp < 2 ^ 31" using B(4) assms(3) by linarith
  have "\<exists>r. graph_run (length g) g p w b root s = Some r \<and> bpf_filter (length fp) mem0 (Some fp) p w b = Some r"
    if s: "s = \<lparr>bpf_pc = 0, bpf_A = 0, bpf_X = 0, bpf_mem = mem0\<rparr>" for mem0 p w b s
  proof -
    have "level root < length g" using assms(1,2) by (simp add: flow_graph_def block_ok_def)
    then obtain r where r: "graph_run (length g) g p w b root s = Some r"
      using graph_run_returns [OF assms(1,2), of "length g"] by blast
    then obtain k where k: "k \<le> length fp" "bpf_loop k (bpf_step fp p w b) (s\<lparr>bpf_pc := 0\<rparr>) = Some r"
      using finished_runs [OF assms(1,2) B(2,5) len reach.here r] B(3) by auto
    have "bpf_loop (length fp) (bpf_step fp p w b) s = Some r" using loop_mono [OF k(2,1)] unfolding s by simp
    then show ?thesis using r unfolding bpf_filter_def s by simp
  qed
  then show ?thesis using B(1,4) by blast
qed

text \<open>The graph of \<open>ip\<close>: \<open>ldh [12]; jeq #0x800\<close>, with a return for each answer.\<close>

definition ip_graph :: graph where
  "ip_graph =
     [\<lparr>bk_stmts = [\<lparr>sn_addr = 1, sn_stmt = \<lparr>st_code = Some 0x28, st_k = 12\<rparr>, sn_jt = None, sn_jf = None\<rparr>],
        bk_s = \<lparr>st_code = Some 0x15, st_k = 0x800\<rparr>, bk_jt = Some 1, bk_jf = Some 2, bk_longjt = 0, bk_longjf = 0, bk_offset = 0\<rparr>,
      \<lparr>bk_stmts = [], bk_s = \<lparr>st_code = Some 0x06, st_k = 96\<rparr>, bk_jt = None, bk_jf = None, bk_longjt = 0, bk_longjf = 0, bk_offset = 0\<rparr>,
      \<lparr>bk_stmts = [], bk_s = \<lparr>st_code = Some 0x06, st_k = 0\<rparr>, bk_jt = None, bk_jf = None, bk_longjt = 0, bk_longjf = 0, bk_offset = 0\<rparr>]"

lemma icode_to_fcode_correct_witness:
  "\<exists>fp. icode_to_fcode ip_graph 0 = Inr fp \<and> bpf_filter (length fp) [] (Some fp) (replicate 12 0 @ [8, 0]) 14 14 = Some (Ret 96) \<and>
     bpf_filter (length fp) [] (Some fp) (replicate 12 0 @ [8, 6]) 14 14 = Some (Ret 0)"
proof -
  have "block_ok ip_graph (\<lambda>q. if q = 0 then 1 else 0) q" if "q < length ip_graph" for q
  proof -
    have "q = 0 \<or> q = 1 \<or> q = 2" using that by (auto simp: ip_graph_def)
    then show ?thesis
      by (elim disjE) (simp_all add: ip_graph_def block_ok_def succs_def straight_def straight_codes_def branch_codes_def)
  qed
  then have "flow_graph ip_graph (\<lambda>q. if q = 0 then 1 else 0)" by (simp add: flow_graph_def)
  then obtain fp where fp: "icode_to_fcode ip_graph 0 = Inr fp"
      "\<And>mem0 p w b. \<exists>r. graph_run (length ip_graph) ip_graph p w b 0 \<lparr>bpf_pc = 0, bpf_A = 0, bpf_X = 0, bpf_mem = mem0\<rparr> = Some r \<and>
         bpf_filter (length fp) mem0 (Some fp) p w b = Some r"
    using icode_to_fcode_correct [of ip_graph "\<lambda>q. if q = 0 then 1 else 0" 0] by (auto simp: ip_graph_def max_size_def slength_def)
  have "graph_run (length ip_graph) ip_graph (replicate 12 0 @ [8, 0]) 14 14 0 \<lparr>bpf_pc = 0, bpf_A = 0, bpf_X = 0, bpf_mem = []\<rparr> = Some (Ret 96)"
    "graph_run (length ip_graph) ip_graph (replicate 12 0 @ [8, 6]) 14 14 0 \<lparr>bpf_pc = 0, bpf_A = 0, bpf_X = 0, bpf_mem = []\<rparr> = Some (Ret 0)"
    by code_simp+
  then show ?thesis
    using fp(1) fp(2) [of "replicate 12 0 @ [8, 0]" 14 14 "[]"] fp(2) [of "replicate 12 0 @ [8, 6]" 14 14 "[]"] by auto
qed

text \<open>
  A jump inside a block counts the deleted statements it passes, although they are not emitted: behind a deleted statement, the test that should go to
  \<open>ldx #7\<close>, the next statement but one, goes to \<open>txa\<close>.
\<close>

lemma local_jump_counts_deleted:
  "map_sum id (map (\<lambda>i. (insn_code i, insn_jt i, insn_jf i)))
     (emit_stmts (take 4 [0, 1, 2, 3, 4]) 4 0
       [\<lparr>sn_addr = 0, sn_stmt = \<lparr>st_code = Some 0x15, st_k = 6\<rparr>, sn_jt = Some 3, sn_jf = Some 2\<rparr>,
        \<lparr>sn_addr = 1, sn_stmt = \<lparr>st_code = None, st_k = 0\<rparr>, sn_jt = None, sn_jf = None\<rparr>,
        \<lparr>sn_addr = 2, sn_stmt = \<lparr>st_code = Some 0x00, st_k = 1\<rparr>, sn_jt = None, sn_jf = None\<rparr>,
        \<lparr>sn_addr = 3, sn_stmt = \<lparr>st_code = Some 0x01, st_k = 7\<rparr>, sn_jt = None, sn_jf = None\<rparr>,
        \<lparr>sn_addr = 4, sn_stmt = \<lparr>st_code = Some 0x87, st_k = 0\<rparr>, sn_jt = None, sn_jf = None\<rparr>]) =
   Inr [(0x15, 2, 1), (0x00, 0, 0), (0x01, 0, 0), (0x87, 0, 0)]"
  by code_simp

end
