(* ===== verification/Spec2Isabelle.thy ===== *)
theory Spec2Isabelle
  imports Hash Bpf_Filter Checksum Ip_Options Scan Frag_Inv Tcp_Props Libnids_Props Sniffer_Props Circle_Buffer Bpf_Image Savefile Opt_Dead Fcode_Run
begin

text \<open>
  A model of the packet sniffer's native code (below \<open>src/main/jni\<close>) and proofs of its correctness.

  \<^bold>\<open>The program.\<close>  A capture process (\<open>src/sniffer/Sniffer.cpp\<close>) runs libnids (\<open>src/libnids\<close>) on top of
  libpcap.  libpcap hands every frame that passes a filter program (\<open>bpf/net/bpf_filter.c\<close>) to
  \<open>nids_pcap_handler\<close>, which strips the link layer, checks the IP header (\<open>checksum.c\<close>,
  \<open>ip_options.c\<close>), puts fragments together (\<open>ip_fragment.c\<close>) and passes whole packets on: UDP to the
  registered callbacks, TCP and ICMP to the stream tracker (\<open>tcp.c\<close>, with the hash of \<open>hash.c\<close> and the port scan
  detector \<open>scan.c\<close>), which follows connections and delivers their octets in order to its listeners.
  The process turns what its callbacks are told into packets (\<open>include/Packet.h\<close>); the receiving
  application queues them in a ring buffer (\<open>include/circlebuffer.h\<close>).

  \<^bold>\<open>How it is modelled.\<close>  The integers of C are words where they are unsigned or wrap, and integers where
  the source keeps them in range; \<open>i32\<close> is the conversion to \<open>int\<close>.  A block of memory is the list of its
  octets, and a read or write outside it is \<open>None\<close>, as is every other operation that C leaves undefined, with one
  exception: the signed counters \<open>count\<close>, \<open>offset\<close> and \<open>urg_count\<close> of a half stream (\<open>half_stream\<close>, \<open>add2buf\<close>) are words that wrap
  where their overflow is undefined in C, because they enter the arithmetic of sequence numbers.
  So a theorem that says \<open>Some\<close> also says that the code stays inside its memory.  The state of a component
  is a record, a linked list is the list of its nodes, and where the code relies on pointers between
  nodes (the timers of the defragmenter, its hosts and queues, the pool of TCP streams) an explicit store with addresses.
  Callbacks of the application, the clock, random numbers, fresh memory, and what libpcap and the
  system answer are arguments.  Every warning and every call of a callback is an event of a log; the application's callbacks change a stream as the
  interface allows, and what the capture process computes when it is called (\<open>my_nids_syslog\<close>, \<open>tcp_callback\<close>,
  \<open>udp_callback\<close>) is defined and proved apart from the runs.

  \<^item> \<open>Prelude\<close>: reads and writes of octets, byte orders.  \<open>Nids\<close>: \<open>include/libnids/nids.h\<close>, the parameters and the
    clock.  \<open>Utils\<close>: \<open>before\<close>, \<open>after\<close> and the callback lists of \<open>include/utils.h\<close> and
    \<open>src/utils.cpp\<close>, with the contract of a callback list as a locale.  \<open>Cstring\<close>: what is used of \<open>ctype.h\<close>, \<open>printf\<close>
    and \<open>inet_ntoa\<close>.
  \<^item> \<open>Hash\<close>: \<open>hash.c\<close>.  The permutation is one, and the hash is a numeral modulo a prime.
  \<^item> \<open>Bpf_Filter\<close>: \<open>bpf_filter.c\<close>.  The interpreter runs with fuel; a program that the hardened checker
    accepts needs no more turns than it has instructions and never leaves packet, scratch memory or
    program.  The locale \<open>checked_machine\<close> holds the argument.  \<open>Bpf_Image\<close>: \<open>bpf_image.c\<close>, whose text of an instruction
    determines what the interpreter does with it.
  \<^item> \<open>Opt_Value\<close> and \<open>Opt_Dead\<close>: the part of \<open>optimize.c\<close> that works inside a basic block.  Value numbering with constant folding, and
    the removal of dead stores, keep what the interpreter computes.  \<open>Fcode\<close>: the last part of \<open>optimize.c\<close>, which puts the blocks of a
    flow graph into an array and starts again when a branch turns out to be too long; the recursion visits a block once, so
    its depth is bounded by their number.  \<open>Fcode_Run\<close>: the interpreter runs the array as one runs the graph.
  \<^item> \<open>Savefile\<close>: \<open>savefile.c\<close>, the writer and the reader of capture files: round trip for both byte orders, bounds for
    files with arbitrary contents.
  \<^item> \<open>Checksum\<close>: the portable routines of \<open>checksum.c\<close> (compiled for ARM), against RFC 1071.
  \<^item> \<open>Ip_Options\<close>: \<open>ip_options.c\<close>, against a grammar of option areas.
  \<^item> \<open>Scan\<close>: \<open>scan.c\<close>, an invariant of its table, and a refinement of an automaton per source.
    \<open>Syslog\<close>: the warning texts of \<open>nids_syslog\<close> and their bounds.
  \<^item> \<open>Timer_List\<close> (the doubly linked timers, interface \<open>timer_queue\<close>), \<open>Frag_List\<close> (the fragments of one
    datagram), \<open>Ip_Fragment\<close> (hosts, queues, the handler) and \<open>Frag_Inv\<close> (the invariant of the store):
    \<open>ip_fragment.c\<close>.
  \<^item> \<open>Tcp_Types\<close>, \<open>Tcp_Queue\<close> (segments and receive buffers), \<open>Tcp\<close> (the stream pool and the handlers):
    \<open>tcp.c\<close>.  \<open>Tcp_Buf\<close> shows that a receive buffer is a queue of octets (interface \<open>byte_queue\<close>), \<open>Tcp_Inv\<close>, \<open>Tcp_Wf\<close>
    and \<open>Tcp_Safe\<close> the invariant of streams and tracker, \<open>Tcp_Delivery\<close> the delivery of a stream to a
    listener that does not change its mind (\<open>steady_listener\<close>), \<open>Tcp_Props\<close> the rest.
  \<^item> \<open>Libnids\<close> and \<open>Libnids_Props\<close>: \<open>libnids.c\<close>, the driver and whole sessions.
  \<^item> \<open>Sniffer_Cb\<close>, \<open>Sniffer_App\<close>, \<open>Sniffer_Props\<close>: \<open>Sniffer.cpp\<close> and \<open>Packet.cpp\<close>: the reports, the
    arguments, the start of the process and the libnids session it opens.  \<open>sniffer_cb\<close> interprets \<open>steady_listener\<close>.
  \<^item> \<open>Circle_Buffer\<close>: the ring buffer (interface \<open>bounded_queue\<close>) under every interleaving of its threads.

  \<^bold>\<open>Bounds.\<close>  The buffer of a receiver is assumed to keep less than \<open>keep_max\<close> octets that its listener does
  not take; the sizes of the pool and of the scan table are those for which the code's own arithmetic
  stays in range, and so are the readings of the scan detector's clock (\<open>2^31\<close> milliseconds from its start).  Theorems on packets and
  frames exclude those for which the code is shown to leave its data: sources 0.0.x.y with \<open>y \<ge> 128\<close> (\<open>hash_safe\<close>),
  fragments with less than eight octets of payload (\<open>frag_room\<close>), captures that end in a header or directly behind options (\<open>frame_captured\<close>).  Memory allocation succeeds: \<open>no_mem\<close> ends the process.

  \<^bold>\<open>What the proofs found\<close> is stated as lemmas where it can be: an endless loop and a wild store that
  \<open>bpf_validate\<close> accepts, the index before the start of the scan table, targets that never expire, the
  loop in \<open>ip_options.c\<close> that clears one octet, a fragment that blocks its datagram, a copy that reads behind the buffer of a short fragment, reads behind short captures in the
  driver and in the warnings of the capture process, an alarm text longer than its buffer, the
  uninitialised memory of the filter expression, ICMP errors that never reset a stream, an optimiser that takes two unknown registers for
  equal and folds 0 divided by an unknown register to 0, jumps inside a block that count its deleted statements, and a reader of capture files that answers 0 at their end.

  \<^bold>\<open>Not modelled.\<close>  The compiler for filter expressions (\<open>gencode.c\<close>, with the generated
  \<open>scanner.c\<close> and \<open>grammar.c\<close>) and what \<open>optimize.c\<close> does between blocks (dominators, levels, moving of branches, merging of blocks)
  and in \<open>opt_peep\<close>: the filter reaches this code as a program, whatever it was
  compiled from, and the theorems on the optimiser are about blocks whose statements do not jump: jumps inside a block,
  which \<open>gencode.c\<close> makes for \<open>protochain\<close>, are translated by \<open>emit_stmts\<close> (\<open>local_jump\<close>), but the theorem on
  the array does not cover them.
  Opening and closing the streams of capture files, and the operations they refuse.
  The capture back ends (\<open>pcap-*.c\<close>, \<open>fad-*.c\<close>, \<open>inet.c\<close>), which are system calls.  The shared
  memory channel, its semaphores and the Java bindings (\<open>include/ipc\<close>, \<open>src/ipc\<close>, \<open>src/native\<close>), and the mail client:
  they are system calls and the Java virtual machine.  The assembly of \<open>checksum.c\<close>, which is compiled instead of its portable
  routines for x86, one of the three targets of \<open>Application.mk\<close>.  Code behind \<open>HAVE_LIBGTHREAD_2_0\<close>, which is not compiled.
\<close>

end
